(* ===== verification/Gateway_Prelude.thy ===== *)
theory Gateway_Prelude
  imports Complex_Main "HOL-Library.AList" "HOL-Library.Product_Lexorder"
    "HOL-Library.Multiset" "HOL-Library.Sublist"
begin

section \<open>Shared vocabulary and automation\<close>

text \<open>
  What every component of the development uses: names for the scalar types of the
  gateway, the JavaScript operators the sources lean on (\<open>??\<close>, \<^verbatim>\<open>Math.round\<close>,
  \<^verbatim>\<open>Map.set\<close>), the collections of facts the component proofs draw on, and the
  generic lemmas on lists, options and association lists they share.

  Instants and durations are integers (milliseconds). Quantities the code divides or
  scales (costs, weights, proportions) are exact rationals: the double-precision
  rounding of the source is not modelled. A JavaScript \<^verbatim>\<open>Map\<close> that the code
  iterates over is an association list in insertion order; one it only looks keys up in
  is a partial function.
\<close>

named_theorems router_defs \<open>definitions unfolded in proofs about the router\<close>
named_theorems coord_defs \<open>definitions unfolded in proofs about the coordinator\<close>
named_theorems limiter_defs \<open>definitions unfolded in proofs about key limits\<close>

type_synonym instant = int
type_synonym provider_id = string

abbreviation nullish :: "'a option \<Rightarrow> 'a \<Rightarrow> 'a" where
  "nullish x d \<equiv> (case x of None \<Rightarrow> d | Some v \<Rightarrow> v)"

definition js_round :: "rat \<Rightarrow> int" where
  "js_round x = \<lfloor>x + 1 / 2\<rfloor>"

lemma js_round_bounds:
  assumes "0 \<le> x" and "x \<le> of_int n"
  shows "0 \<le> js_round x" and "js_round x \<le> n"
proof -
  show "0 \<le> js_round x" using assms by (simp add: js_round_def)
  have "x + 1 / 2 < of_int (n + 1)" using assms by simp
  then show "js_round x \<le> n" unfolding js_round_def by linarith
qed

lemma js_round_of_int [simp]: "js_round (of_int n) = n"
  unfolding js_round_def by (rule floor_unique) simp_all

lemma js_round_numeral [simp]: "js_round 0 = 0" "js_round 1 = 1" "js_round (numeral k) = numeral k"
  using js_round_of_int [of 0] js_round_of_int [of 1] js_round_of_int [of "numeral k"] by simp_all

subsection \<open>Lists\<close>

lemma dropWhile_keeps: "x \<in> set xs \<Longrightarrow> \<not> P x \<Longrightarrow> x \<in> set (dropWhile P xs)"
  by (induction xs) auto

lemma mset_filter_dropWhile_subset:
  "filter_mset (\<lambda>x. \<not> P x) (mset xs) \<subseteq># mset (dropWhile P xs)"
  by (induction xs) (auto intro: subset_mset.order_trans)

lemma mset_dropWhile_subset: "mset (dropWhile P xs) \<subseteq># mset xs"
  by (induction xs) (auto intro: subset_mset.order_trans)

lemma find_SomeD: "find P xs = Some x \<Longrightarrow> x \<in> set xs \<and> P x"
  by (induction xs) (auto split: if_splits)

lemma find_None_iff_ball: "find P xs = None \<longleftrightarrow> (\<forall>x \<in> set xs. \<not> P x)"
  by (induction xs) auto

lemma min_list_le: "x \<in> set xs \<Longrightarrow> min_list xs \<le> (x :: 'a :: linorder)"
  by (cases "xs = []") (auto simp: min_list_Min simp del: min_list.simps)

lemma min_list_in: "xs \<noteq> [] \<Longrightarrow> min_list xs \<in> set (xs :: 'a :: linorder list)"
  by (simp add: min_list_Min del: min_list.simps)

lemma sort_key_sorted_wrt: "sorted_wrt (\<lambda>a b. f a \<le> f b) (sort_key f xs)"
  using sorted_sort_key [of f xs] by (simp add: sorted_map)

lemma append_sep_inject:
  assumes "a @ c # b = a' @ c # b'" and "c \<notin> set a" and "c \<notin> set a'"
  shows "a = a' \<and> b = b'"
  using assms
proof (induction a arbitrary: a')
  case Nil
  then show ?case by (cases a') auto
next
  case (Cons x a)
  then show ?case by (cases a') auto
qed

subsection \<open>Maps kept as association lists\<close>

lemma map_of_update [simp]: "map_of (AList.update k v al) = (map_of al)(k \<mapsto> v)"
  by (rule update_conv')

lemma AList_update_keys: "fst ` set (AList.update k v al) = insert k (fst ` set al)"
  using dom_update [of k v al] by (simp add: dom_map_of_conv_image_fst)

end
