(* ===== verification/Ir_Request.thy ===== *)
theory Ir_Request
  imports Gateway_Prelude
begin

section \<open>The provider-neutral request\<close>

text \<open>
  The canonical request of \<^verbatim>\<open>packages/ir/src/request.ts\<close>, and the boundary check of
  \<^verbatim>\<open>packages/ir/src/validate.ts\<close> that every ingress runs on it. A TypeScript object
  type is a record, a tagged union a datatype with one constructor per tag, an optional
  member an \<open>option\<close>.
\<close>

subsection \<open>JSON payloads\<close>

text \<open>
  Payloads the gateway carries unread (\<^verbatim>\<open>unknown\<close>, \<^verbatim>\<open>Record<string, unknown>\<close>) are
  JSON values. A number is kept with the decimal spelling JavaScript prints it with; an
  object keeps its members in insertion order. Strings are sequences of 8-bit code units.
\<close>

datatype json =
    JNull
  | JBool bool
  | JNum rat string
  | JStr string
  | JArr "json list"
  | JObj "(string \<times> json) list"

definition hexDigit :: "nat \<Rightarrow> char" where
  "hexDigit n = (if n < 10 then char_of (48 + n) else char_of (87 + n))"

definition escapeChar :: "char \<Rightarrow> string" where
  "escapeChar c =
     (let n = (of_char c :: nat) in
      if n = 34 then [char_of (92 :: nat), c]
      else if n = 92 then [char_of (92 :: nat), c]
      else if n = 8 then char_of (92 :: nat) # ''b''
      else if n = 9 then char_of (92 :: nat) # ''t''
      else if n = 10 then char_of (92 :: nat) # ''n''
      else if n = 12 then char_of (92 :: nat) # ''f''
      else if n = 13 then char_of (92 :: nat) # ''r''
      else if n < 32 then char_of (92 :: nat) # ''u00'' @ [hexDigit (n div 16), hexDigit (n mod 16)]
      else [c])"

definition quoteJson :: "string \<Rightarrow> string" where
  "quoteJson s = [char_of (34 :: nat)] @ concat (map escapeChar s) @ [char_of (34 :: nat)]"

fun intercalate :: "string \<Rightarrow> string list \<Rightarrow> string" where
  "intercalate sep [] = []"
| "intercalate sep [x] = x"
| "intercalate sep (x # y # ys) = x @ sep @ intercalate sep (y # ys)"

fun stringify :: "json \<Rightarrow> string" where
  "stringify JNull = ''null''"
| "stringify (JBool b) = (if b then ''true'' else ''false'')"
| "stringify (JNum n spelling) = spelling"
| "stringify (JStr s) = quoteJson s"
| "stringify (JArr xs) = ''['' @ intercalate '','' (map stringify xs) @ '']''"
| "stringify (JObj ms) =
     ''{'' @ intercalate '','' (map (\<lambda>(k, v). quoteJson k @ '':'' @ stringify v) ms) @ ''}''"

definition isJsSpace :: "char \<Rightarrow> bool" where
  "isJsSpace c \<longleftrightarrow> (of_char c :: nat) \<in> {9, 10, 11, 12, 13, 32, 160}"

definition js_trim :: "string \<Rightarrow> string" where
  "js_trim s = rev (dropWhile isJsSpace (rev (dropWhile isJsSpace s)))"

subsection \<open>Content blocks\<close>

datatype ttl = Ttl5m | Ttl1h

record cache_control =
  cc_ttl :: "ttl option"

record text_block =
  tb_text :: string
  tb_cacheControl :: "cache_control option"
  tb_citations :: "json list option"

record image_block =
  ib_mediaType :: string
  ib_data :: string
  ib_cacheControl :: "cache_control option"

record file_block =
  fb_mediaType :: string
  fb_data :: string
  fb_filename :: "string option"

record thinking_block =
  th_text :: string
  th_signature :: "string option"

record tool_use_block =
  tu_id :: string
  tu_name :: string
  tu_input :: json
  tu_cacheControl :: "cache_control option"

record provider_native_block =
  pn_provider :: provider_id
  pn_blockType :: string
  pn_data :: json
  pn_cacheControl :: "cache_control option"

record tool_result_block =
  tr_toolUseId :: string
  tr_content :: string
  tr_images :: "image_block list option"
  tr_files :: "file_block list option"
  tr_native :: "provider_native_block list option"
  tr_isError :: "bool option"
  tr_cacheControl :: "cache_control option"

datatype content_block =
    TextBlock text_block
  | ImageBlock image_block
  | ThinkingBlock thinking_block
  | ToolUseBlock tool_use_block
  | ToolResultBlock tool_result_block
  | ProviderNativeBlock provider_native_block

fun cacheControlOf :: "content_block \<Rightarrow> cache_control option" where
  "cacheControlOf (TextBlock b) = tb_cacheControl b"
| "cacheControlOf (ImageBlock b) = ib_cacheControl b"
| "cacheControlOf (ThinkingBlock b) = None"
| "cacheControlOf (ToolUseBlock b) = tu_cacheControl b"
| "cacheControlOf (ToolResultBlock b) = tr_cacheControl b"
| "cacheControlOf (ProviderNativeBlock b) = pn_cacheControl b"

subsection \<open>Messages, tools and the request\<close>

datatype role = User | Assistant | System

record message =
  msg_role :: role
  msg_content :: "content_block list"

record custom_tool_def =
  ct_name :: string
  ct_description :: "string option"
  ct_inputSchema :: json
  ct_cacheControl :: "cache_control option"
  ct_options :: "json option"

datatype anthropic_tool_family =
    WebSearch | WebFetch | CodeExecution | Bash | TextEditor | Computer | Memory
  | ToolSearchRegex | ToolSearchBm25 | Advisor | McpToolset

record provider_tool_def =
  pt_provider :: provider_id
  pt_type :: string
  pt_name :: string
  pt_wire :: json
  pt_cacheControl :: "cache_control option"
  pt_family :: "anthropic_tool_family option"

datatype tool_def =
    PortableTool custom_tool_def
  | ProviderTool provider_tool_def

fun tool_cacheControl :: "tool_def \<Rightarrow> cache_control option" where
  "tool_cacheControl (PortableTool t) = ct_cacheControl t"
| "tool_cacheControl (ProviderTool t) = pt_cacheControl t"

datatype tool_choice = ChoiceAuto | ChoiceAny | ChoiceNone | ChoiceTool string

datatype reasoning_effort =
  EffortNone | EffortMinimal | EffortLow | EffortMedium | EffortHigh | EffortXhigh | EffortMax

datatype reasoning_display = Summarized | Omitted | Updates

datatype reasoning_config =
    BetweenTools
  | Adaptive "reasoning_effort option" "reasoning_display option"
  | Budget nat
  | Off

record chat_request =
  rq_model :: string
  rq_system :: "content_block list option"
  rq_messages :: "message list"
  rq_tools :: "tool_def list option"
  rq_toolChoice :: "tool_choice option"
  rq_maxTokens :: "nat option"
  rq_temperature :: "rat option"
  rq_stopSequences :: "string list option"
  rq_stream :: bool
  rq_reasoning :: "reasoning_config option"
  rq_vendor :: "(string \<times> json) list option"
  rq_providerHeaders :: "(string \<times> (string \<times> string) list) list option"
  rq_betas :: "string list option"
  rq_conversationId :: "string option"

end
