(* ===== verification/Store_Types.thy ===== *)
theory Store_Types
  imports Ir_Request
begin

section \<open>Stored records and the rules about them\<close>

text \<open>
  The records of \<^verbatim>\<open>packages/store/src/types.ts\<close> that routing, limiting and dispatch read,
  and the pure rules that file is the single copy of: how long a quota window runs, when
  two readings are one window, when a reading has rolled over, what can be said of a burn
  estimate, which account can serve a target, when a key or credential is beyond use, and
  how the settings that rewrite or refuse requests are read back from a stored row.
\<close>

datatype breaker_state = Closed | Open | HalfOpen
datatype auth_type = OAuth | ApiKeyAuth
datatype window_type = FiveHour | Daily | Weekly

subsection \<open>Quota windows\<close>

fun WINDOW_DURATION_MS :: "window_type \<Rightarrow> int" where
  "WINDOW_DURATION_MS FiveHour = 5 * 60 * 60 * 1000"
| "WINDOW_DURATION_MS Daily = 24 * 60 * 60 * 1000"
| "WINDOW_DURATION_MS Weekly = 7 * 24 * 60 * 60 * 1000"

definition durationFor :: "window_type \<Rightarrow> int option \<Rightarrow> int" where
  "durationFor windowType windowMs =
     (case windowMs of
        Some ms \<Rightarrow> if ms > 0 then ms else WINDOW_DURATION_MS windowType
      | None \<Rightarrow> WINDOW_DURATION_MS windowType)"

lemma durationFor_pos: "0 < durationFor w ms"
  by (cases w) (auto simp: durationFor_def split: option.splits)

definition SAME_WINDOW_TOLERANCE_MS :: int where "SAME_WINDOW_TOLERANCE_MS = 60000"

fun sameWindow :: "instant option \<Rightarrow> instant option \<Rightarrow> bool" where
  "sameWindow (Some a) (Some b) = (\<bar>a - b\<bar> \<le> SAME_WINDOW_TOLERANCE_MS)"
| "sameWindow a b = (a = b)"

record quota_window =
  qw_credentialId :: string
  qw_windowType :: window_type
  qw_startsAt :: instant
  qw_used :: rat
  qw_limit :: "rat option"
  qw_resetsAt :: "instant option"
  qw_observedAt :: instant
  qw_windowMs :: "int option"

definition quotaRolledOver :: "quota_window \<Rightarrow> instant \<Rightarrow> bool" where
  "quotaRolledOver w now = (case qw_resetsAt w of None \<Rightarrow> False | Some r \<Rightarrow> r \<le> now)"

record quota_burn_reading =
  qb_ratePerHour :: "rat option"
  qb_exhaustsAt :: "instant option"
  qb_survives :: "bool option"
  qb_stale :: bool

datatype quota_verdict = VStale | VUnknown | VOk | VEmpty

definition quotaVerdict :: "quota_window \<Rightarrow> quota_burn_reading option \<Rightarrow> quota_verdict" where
  "quotaVerdict w estimate =
     (case estimate of
        None \<Rightarrow> VUnknown
      | Some e \<Rightarrow>
          if qw_observedAt w > 0 \<and> qb_stale e then VStale
          else if qb_ratePerHour e = None \<or> (case qw_limit w of None \<Rightarrow> True | Some l \<Rightarrow> l \<le> 0)
          then VUnknown
          else if qb_survives e = Some False \<and> qb_exhaustsAt e \<noteq> None then VEmpty
          else if qb_survives e = Some True then VOk else VUnknown)"

subsection \<open>Credentials, health and targets\<close>

datatype disabled_reason = TokenRejected | ExpiredNoRefresh | Manual

record credential_view =
  cr_id :: string
  cr_provider :: provider_id
  cr_label :: string
  cr_authType :: auth_type
  cr_enabled :: bool
  cr_tier :: int
  cr_weight :: rat
  cr_expiresAt :: "instant option"
  cr_accountEmail :: "string option"
  cr_providerData :: "(string \<times> json) list"
  cr_disabledReason :: "disabled_reason option"
  cr_disabledAt :: "instant option"
  cr_hasRefreshToken :: bool
  cr_tokenVersion :: nat
  cr_createdAt :: instant
  cr_updatedAt :: instant

record credential_health =
  h_credentialId :: string
  h_model :: string
  h_breakerState :: breaker_state
  h_consecutiveFailures :: nat
  h_openedAt :: "instant option"
  h_rateLimitedUntil :: "instant option"

record target_pricing =
  tp_input :: rat
  tp_output :: rat
  tp_cacheRead :: "rat option"
  tp_cacheWrite5m :: "rat option"
  tp_cacheWrite1h :: "rat option"

definition READ_OVER_INPUT :: rat where "READ_OVER_INPUT = 1 / 10"

definition cacheReadRate :: "target_pricing \<Rightarrow> rat" where
  "cacheReadRate prices = nullish (tp_cacheRead prices) (tp_input prices * READ_OVER_INPUT)"

record capabilities =
  cap_tools :: bool
  cap_images :: bool
  cap_reasoning :: bool

record target =
  tg_provider :: provider_id
  tg_model :: string
  tg_tier :: int
  tg_weight :: rat
  tg_costPerMTok :: target_pricing
  tg_contextWindow :: "nat option"
  tg_maxOutputTokens :: "nat option"
  tg_capabilities :: capabilities
  tg_credentialId :: "string option"
  tg_endpointId :: "string option"

text \<open>
  The endpoint an account or a target names. \<open>Unusable\<close> is the symbol the source maps
  every malformed account value to; no target produces it.
\<close>

datatype endpoint_name = NamesNone | Names string | Unusable

definition namedByTarget :: "string option \<Rightarrow> endpoint_name" where
  "namedByTarget v = (case v of None \<Rightarrow> NamesNone | Some s \<Rightarrow> if s = [] then NamesNone else Names s)"

definition namedByAccount :: "json option \<Rightarrow> endpoint_name" where
  "namedByAccount v =
     (case v of None \<Rightarrow> NamesNone
      | Some (JStr s) \<Rightarrow> if s \<noteq> [] then Names s else Unusable
      | Some _ \<Rightarrow> Unusable)"

definition servesTarget :: "target \<Rightarrow> credential_view \<Rightarrow> bool" where
  "servesTarget t account =
     (if cr_provider account \<noteq> tg_provider t then False
      else if namedByTarget (tg_endpointId t) \<noteq> namedByAccount (map_of (cr_providerData account) ''endpointId'')
      then False
      else (case tg_credentialId t of None \<Rightarrow> True | Some pin \<Rightarrow> cr_id account = pin))"

definition resolvePin :: "target \<Rightarrow> credential_view list \<Rightarrow> credential_view option" where
  "resolvePin t accounts =
     (if tg_credentialId t = None then None else find (servesTarget t) accounts)"

datatype strategy = Score | Priority | RoundRobin | Weighted

record virtual_model =
  vm_id :: string
  vm_targets :: "target list"
  vm_strategy :: strategy
  vm_isAlias :: bool

subsection \<open>Expiry\<close>

definition keyUsable :: "instant option \<Rightarrow> instant option \<Rightarrow> instant \<Rightarrow> bool" where
  "keyUsable revokedAt expiresAt now \<longleftrightarrow>
     revokedAt = None \<and> (case expiresAt of None \<Rightarrow> True | Some e \<Rightarrow> e > now)"

definition credentialPastExpiry :: "credential_view \<Rightarrow> instant \<Rightarrow> bool" where
  "credentialPastExpiry c now \<longleftrightarrow>
     cr_authType c = OAuth \<and> (case cr_expiresAt c of None \<Rightarrow> False | Some e \<Rightarrow> e \<le> now)"

definition credentialExpired :: "credential_view \<Rightarrow> instant \<Rightarrow> bool" where
  "credentialExpired c now \<longleftrightarrow> credentialPastExpiry c now \<and> \<not> cr_hasRefreshToken c"

subsection \<open>Settings\<close>

record scoring_weights =
  w_tier :: rat
  w_health :: rat
  w_quota :: rat
  w_cost :: rat
  w_latency :: rat
  w_load :: rat

datatype ponytail_mode = PonytailOff | PonytailLite | PonytailFull | PonytailUltra

record guardrail_settings =
  st_guardrailModel :: "string option"
  st_guardrailTimeoutMs :: rat
  st_guardrailHistoryTurns :: rat

record smart_router_settings =
  st_smartRouterEnabled :: bool
  st_smartRouterClassifierModel :: "string option"
  st_smartRouterLocalModel :: "string option"
  st_smartRouterPolicy :: string
  st_smartRouterTimeoutMs :: rat

record settings =
  st_weights :: scoring_weights
  st_maxAttempts :: nat
  st_requestDeadlineMs :: int
  st_breakerThreshold :: nat
  st_breakerCooldownMs :: int
  st_logRetentionDays :: nat
  st_bodyRetentionDays :: nat
  st_quotaPollIntervalMs :: int
  st_rtkEnabled :: bool
  st_autoCacheEnabled :: bool
  st_ponytailMode :: ponytail_mode
  st_bodyLoggingEnabled :: bool
  st_bodyLoggingCaptureStreamChunks :: bool
  st_snapshotKeepLatest :: nat
  st_snapshotMaxAgeDays :: nat
  st_guardrail :: guardrail_settings
  st_smartRouter :: smart_router_settings

definition DEFAULT_SMART_ROUTER_POLICY :: string where
  "DEFAULT_SMART_ROUTER_POLICY =
     ''Personal data: names together with ID numbers, addresses, phone numbers, emails, '' @
     ''national ID (NIK), passport, bank or card numbers. '' @
     ''Credentials and secrets: passwords, API keys, tokens, private keys, connection strings. '' @
     ''Salaries and HR records. Customer or patient records. Non-public financial figures. '' @
     ''Internal documents marked confidential or internal. Source code marked proprietary.''"

definition DEFAULT_SETTINGS :: settings where
  "DEFAULT_SETTINGS = \<lparr>
     st_weights = \<lparr>w_tier = 10, w_health = 3, w_quota = 2, w_cost = 1, w_latency = 1, w_load = 2\<rparr>,
     st_maxAttempts = 3, st_requestDeadlineMs = 0, st_breakerThreshold = 3,
     st_breakerCooldownMs = 30000, st_logRetentionDays = 30, st_bodyRetentionDays = 1,
     st_quotaPollIntervalMs = 300000, st_rtkEnabled = False, st_autoCacheEnabled = True,
     st_ponytailMode = PonytailOff, st_bodyLoggingEnabled = False,
     st_bodyLoggingCaptureStreamChunks = False, st_snapshotKeepLatest = 5,
     st_snapshotMaxAgeDays = 30,
     st_guardrail = \<lparr>st_guardrailModel = None, st_guardrailTimeoutMs = 10000,
       st_guardrailHistoryTurns = 3\<rparr>,
     st_smartRouter = \<lparr>st_smartRouterEnabled = False, st_smartRouterClassifierModel = None,
       st_smartRouterLocalModel = None, st_smartRouterPolicy = DEFAULT_SMART_ROUTER_POLICY,
       st_smartRouterTimeoutMs = 10000\<rparr>\<rparr>"

definition GUARDRAIL_TIMEOUT_MAX_MS :: rat where "GUARDRAIL_TIMEOUT_MAX_MS = 60000"
definition GUARDRAIL_HISTORY_TURNS_MAX :: rat where "GUARDRAIL_HISTORY_TURNS_MAX = 10"
definition SMART_ROUTER_POLICY_MAX_CHARS :: nat where "SMART_ROUTER_POLICY_MAX_CHARS = 4000"
definition SMART_ROUTER_TIMEOUT_MAX_MS :: rat where "SMART_ROUTER_TIMEOUT_MAX_MS = 60000"

text \<open>\<open>inRange v max\<close> is the number \<^verbatim>\<open>v\<close> where the source's type guard accepts it.\<close>

fun inRange :: "json option \<Rightarrow> rat \<Rightarrow> rat option" where
  "inRange (Some (JNum v spelling)) maximum =
     (if of_int \<lfloor>v\<rfloor> = v \<and> v \<ge> 1 \<and> v \<le> maximum then Some v else None)"
| "inRange _ maximum = None"

fun modelOrNull :: "json option \<Rightarrow> string option" where
  "modelOrNull (Some (JStr s)) = (if js_trim s \<noteq> [] then Some s else None)"
| "modelOrNull _ = None"

definition readGuardrailSettings :: "(string \<times> json) list \<Rightarrow> guardrail_settings" where
  "readGuardrailSettings stored = \<lparr>
     st_guardrailModel = modelOrNull (map_of stored ''guardrailModel''),
     st_guardrailTimeoutMs =
       nullish (inRange (map_of stored ''guardrailTimeoutMs'') GUARDRAIL_TIMEOUT_MAX_MS)
         (st_guardrailTimeoutMs (st_guardrail DEFAULT_SETTINGS)),
     st_guardrailHistoryTurns =
       nullish (inRange (map_of stored ''guardrailHistoryTurns'') GUARDRAIL_HISTORY_TURNS_MAX)
         (st_guardrailHistoryTurns (st_guardrail DEFAULT_SETTINGS))\<rparr>"

definition readSmartRouterSettings :: "(string \<times> json) list \<Rightarrow> smart_router_settings" where
  "readSmartRouterSettings stored =
     (let trimmed = (case map_of stored ''smartRouterPolicy'' of
                       Some (JStr policy) \<Rightarrow> js_trim policy | _ \<Rightarrow> [])
      in \<lparr>st_smartRouterEnabled = (map_of stored ''smartRouterEnabled'' = Some (JBool True)),
          st_smartRouterClassifierModel = modelOrNull (map_of stored ''smartRouterClassifierModel''),
          st_smartRouterLocalModel = modelOrNull (map_of stored ''smartRouterLocalModel''),
          st_smartRouterPolicy =
            (if trimmed \<noteq> [] \<and> length trimmed \<le> SMART_ROUTER_POLICY_MAX_CHARS
             then trimmed else DEFAULT_SMART_ROUTER_POLICY),
          st_smartRouterTimeoutMs =
            nullish (inRange (map_of stored ''smartRouterTimeoutMs'') SMART_ROUTER_TIMEOUT_MAX_MS)
              (st_smartRouterTimeoutMs (st_smartRouter DEFAULT_SETTINGS))\<rparr>)"

subsection \<open>Lemmas\<close>

lemma inRange_bounds: "inRange v m = Some x \<Longrightarrow> 1 \<le> x \<and> x \<le> m"
  by (cases "(v, m)" rule: inRange.cases) (auto split: if_splits)

lemma inRange_default:
  assumes "1 \<le> d" and "d \<le> m"
  shows "1 \<le> nullish (inRange v m) d \<and> nullish (inRange v m) d \<le> m"
  using assms by (auto split: option.splits dest: inRange_bounds)

lemma default_settings:
  "st_guardrailTimeoutMs (st_guardrail DEFAULT_SETTINGS) = 10000"
  "st_guardrailHistoryTurns (st_guardrail DEFAULT_SETTINGS) = 3"
  "st_smartRouterTimeoutMs (st_smartRouter DEFAULT_SETTINGS) = 10000"
  by (simp_all add: DEFAULT_SETTINGS_def)

text \<open>
  Whatever JSON a settings row holds, what is read back is usable: the timeouts and
  the history window lie in their documented ranges, the confidentiality policy is never
  empty and never longer than its ceiling, and the confidential router is on only for a
  stored literal \<^verbatim>\<open>true\<close>.
\<close>

theorem stored_settings_in_range:
  fixes stored :: "(string \<times> json) list"
  defines "g \<equiv> readGuardrailSettings stored" and "s \<equiv> readSmartRouterSettings stored"
  shows "1 \<le> st_guardrailTimeoutMs g \<and> st_guardrailTimeoutMs g \<le> GUARDRAIL_TIMEOUT_MAX_MS
    \<and> 1 \<le> st_guardrailHistoryTurns g \<and> st_guardrailHistoryTurns g \<le> GUARDRAIL_HISTORY_TURNS_MAX
    \<and> 1 \<le> st_smartRouterTimeoutMs s \<and> st_smartRouterTimeoutMs s \<le> SMART_ROUTER_TIMEOUT_MAX_MS
    \<and> st_smartRouterPolicy s \<noteq> [] \<and> length (st_smartRouterPolicy s) \<le> SMART_ROUTER_POLICY_MAX_CHARS
    \<and> (st_smartRouterEnabled s = (map_of stored ''smartRouterEnabled'' = Some (JBool True)))"
proof -
  have policy: "DEFAULT_SMART_ROUTER_POLICY \<noteq> []"
    "length DEFAULT_SMART_ROUTER_POLICY \<le> SMART_ROUTER_POLICY_MAX_CHARS"
    by (simp_all add: DEFAULT_SMART_ROUTER_POLICY_def SMART_ROUTER_POLICY_MAX_CHARS_def)
  show ?thesis
    unfolding g_def s_def readGuardrailSettings_def readSmartRouterSettings_def Let_def
      default_settings
    using policy inRange_default [of 10000 GUARDRAIL_TIMEOUT_MAX_MS]
      inRange_default [of 3 GUARDRAIL_HISTORY_TURNS_MAX]
      inRange_default [of 10000 SMART_ROUTER_TIMEOUT_MAX_MS]
    by (simp add: GUARDRAIL_TIMEOUT_MAX_MS_def GUARDRAIL_HISTORY_TURNS_MAX_def
        SMART_ROUTER_TIMEOUT_MAX_MS_def)
qed

lemma sameWindow_sym: "sameWindow a b = sameWindow b a"
  by (cases "(a, b)" rule: sameWindow.cases) (auto simp: abs_minus_commute)

text \<open>
  An account serves a target only at the endpoint the target names. An account whose
  stored endpoint is malformed (the empty string or any JSON value that is not a string)
  serves nothing, and a target that names no endpoint is served only by accounts bound to
  none.
\<close>

theorem servesTarget_endpoint:
  "servesTarget t a \<longleftrightarrow>
     cr_provider a = tg_provider t
     \<and> namedByAccount (map_of (cr_providerData a) ''endpointId'') \<noteq> Unusable
     \<and> namedByTarget (tg_endpointId t) = namedByAccount (map_of (cr_providerData a) ''endpointId'')
     \<and> (tg_credentialId t = None \<or> tg_credentialId t = Some (cr_id a))"
  by (auto simp: servesTarget_def namedByTarget_def split: option.splits if_splits)

end
