(* ===== verification/Ir_Validate.thy ===== *)
theory Ir_Validate
  imports Ir_Request
begin

section \<open>Request validation at the boundary\<close>

text \<open>
  \<^verbatim>\<open>validateRequest\<close> of \<^verbatim>\<open>packages/ir/src/validate.ts\<close>: blank tool-use ids are filled in
  from the injected generator, tool results that answer no earlier tool use are dropped,
  messages left empty are dropped, and neighbours with one role are merged. The generator
  is a stream of ids, \<open>fresh 0, fresh 1, \<dots>\<close>, drawn in order. The lemmas show that the
  result has the shape every encoder relies on and that validating again changes nothing.
\<close>

definition clean_block ::
  "(nat \<Rightarrow> string) \<Rightarrow> string set \<Rightarrow> nat \<Rightarrow> content_block \<Rightarrow> content_block list \<times> string set \<times> nat" where
  "clean_block fresh seen n block =
     (case block of
        ToolUseBlock u \<Rightarrow>
          if length (tu_id u) > 0
          then ([ToolUseBlock u], insert (tu_id u) seen, n)
          else ([ToolUseBlock (u\<lparr>tu_id := fresh n\<rparr>)], insert (fresh n) seen, Suc n)
      | ToolResultBlock r \<Rightarrow>
          if tr_toolUseId r \<notin> seen then ([], seen, n) else ([block], seen, n)
      | _ \<Rightarrow> ([block], seen, n))"

fun clean_blocks ::
  "(nat \<Rightarrow> string) \<Rightarrow> string set \<Rightarrow> nat \<Rightarrow> content_block list \<Rightarrow> content_block list \<times> string set \<times> nat" where
  "clean_blocks fresh seen n [] = ([], seen, n)"
| "clean_blocks fresh seen n (b # bs) =
     (let (kept, seen', n') = clean_block fresh seen n b;
          (rest, seen'', n'') = clean_blocks fresh seen' n' bs
      in (kept @ rest, seen'', n''))"

definition append_message :: "message list \<Rightarrow> role \<Rightarrow> content_block list \<Rightarrow> message list" where
  "append_message cleaned r content =
     (if content = [] then cleaned
      else if cleaned \<noteq> [] \<and> msg_role (last cleaned) = r
      then butlast cleaned @ [(last cleaned)\<lparr>msg_content := msg_content (last cleaned) @ content\<rparr>]
      else cleaned @ [\<lparr>msg_role = r, msg_content = content\<rparr>])"

fun clean_messages ::
  "(nat \<Rightarrow> string) \<Rightarrow> string set \<Rightarrow> nat \<Rightarrow> message list \<Rightarrow> message list \<Rightarrow> message list" where
  "clean_messages fresh seen n cleaned [] = cleaned"
| "clean_messages fresh seen n cleaned (m # ms) =
     (let (content, seen', n') = clean_blocks fresh seen n (msg_content m)
      in clean_messages fresh seen' n' (append_message cleaned (msg_role m) content) ms)"

definition validateRequest :: "(nat \<Rightarrow> string) \<Rightarrow> chat_request \<Rightarrow> chat_request" where
  "validateRequest fresh req = req\<lparr>rq_messages := clean_messages fresh {} 0 [] (rq_messages req)\<rparr>"

subsection \<open>The conversation as one stream of blocks\<close>

abbreviation blocks_of :: "message list \<Rightarrow> content_block list" where
  "blocks_of ms \<equiv> concat (map msg_content ms)"

lemma clean_blocks_append:
  "clean_blocks fresh seen n (xs @ ys) =
     (let (kx, sx, nx) = clean_blocks fresh seen n xs; (ky, sy, ny) = clean_blocks fresh sx nx ys
      in (kx @ ky, sy, ny))"
  by (induction xs arbitrary: seen n) (auto simp: Let_def split: prod.splits)

lemma blocks_of_append_message [simp]:
  "blocks_of (append_message cleaned r content) = blocks_of cleaned @ content"
proof (cases cleaned rule: rev_cases)
  case Nil
  then show ?thesis by (simp add: append_message_def)
next
  case (snoc ms m)
  then show ?thesis by (simp add: append_message_def)
qed

lemma blocks_of_clean_messages:
  "blocks_of (clean_messages fresh seen n cleaned ms) =
     blocks_of cleaned @ fst (clean_blocks fresh seen n (blocks_of ms))"
  by (induction ms arbitrary: seen n cleaned)
    (auto simp: clean_blocks_append Let_def split: prod.splits)

text \<open>
  Validation works on the conversation as one stream of blocks. Whatever the
  grouping into messages, the blocks that survive, in order, are exactly the blocks the
  cleaning pass keeps of the whole stream: regrouping loses, duplicates and reorders
  nothing.
\<close>

theorem validateRequest_blocks:
  "blocks_of (rq_messages (validateRequest fresh req)) =
     fst (clean_blocks fresh {} 0 (blocks_of (rq_messages req)))"
  by (simp add: validateRequest_def blocks_of_clean_messages)

subsection \<open>Every tool result answers an earlier tool use\<close>

fun answered :: "string set \<Rightarrow> content_block list \<Rightarrow> bool" where
  "answered ids [] = True"
| "answered ids (ToolUseBlock u # bs) = (tu_id u \<noteq> [] \<and> answered (insert (tu_id u) ids) bs)"
| "answered ids (ToolResultBlock r # bs) = (tr_toolUseId r \<in> ids \<and> answered ids bs)"
| "answered ids (b # bs) = answered ids bs"

lemma answered_clean_blocks:
  assumes "\<And>n. fresh n \<noteq> []"
  shows "answered seen (fst (clean_blocks fresh seen n bs))"
  using assms
  by (induction bs arbitrary: seen n)
    (auto simp: clean_block_def Let_def split_def split: content_block.splits)

text \<open>A stream in that shape passes through unchanged, and so does what follows it.\<close>

lemma clean_blocks_answered:
  assumes "answered seen (bs @ cs)"
  obtains seen' n' where "clean_blocks fresh seen n bs = (bs, seen', n')" and "answered seen' cs"
  using assms
proof (induction seen bs arbitrary: n thesis rule: answered.induct)
  case (1 ids)
  then show ?case by simp
next
  case (2 ids u bs)
  from "2.prems"(2) have step: "answered (insert (tu_id u) ids) (bs @ cs)" and "tu_id u \<noteq> []"
    by simp_all
  from "2.IH" [OF _ step] obtain seen' n'
    where "clean_blocks fresh (insert (tu_id u) ids) n bs = (bs, seen', n')" "answered seen' cs"
    by blast
  with \<open>tu_id u \<noteq> []\<close> show ?case by (intro "2.prems"(1)) (auto simp: clean_block_def)
next
  case (3 ids r bs)
  from "3.prems"(2) have step: "answered ids (bs @ cs)" and "tr_toolUseId r \<in> ids"
    by simp_all
  from "3.IH" [OF _ step] obtain seen' n'
    where "clean_blocks fresh ids n bs = (bs, seen', n')" "answered seen' cs"
    by blast
  with \<open>tr_toolUseId r \<in> ids\<close> show ?case by (intro "3.prems"(1)) (auto simp: clean_block_def)
qed (simp add: clean_block_def, metis (no_types, lifting) append_Cons append_Nil case_prod_conv)+

subsection \<open>Roles alternate and no message is empty\<close>

definition well_grouped :: "message list \<Rightarrow> bool" where
  "well_grouped ms \<longleftrightarrow>
     (\<forall>m \<in> set ms. msg_content m \<noteq> []) \<and> successively (\<lambda>a b. msg_role a \<noteq> msg_role b) ms"

lemma well_grouped_Nil [simp]: "well_grouped []"
  by (simp add: well_grouped_def)

lemma well_grouped_append_message:
  "well_grouped cleaned \<Longrightarrow> well_grouped (append_message cleaned r content)"
proof (cases cleaned rule: rev_cases)
  case Nil
  then show "well_grouped cleaned \<Longrightarrow> ?thesis" by (simp add: append_message_def well_grouped_def)
next
  case (snoc ms m)
  then show "well_grouped cleaned \<Longrightarrow> ?thesis"
    by (auto simp: append_message_def well_grouped_def successively_append_iff)
qed

lemma well_grouped_clean_messages:
  "well_grouped cleaned \<Longrightarrow> well_grouped (clean_messages fresh seen n cleaned ms)"
  by (induction ms arbitrary: seen n cleaned)
    (auto simp: Let_def well_grouped_append_message split: prod.splits)

text \<open>
  After validation every tool-use block has a non-blank id, every tool result names
  the id of a tool use that precedes it in the conversation, no message is empty, and
  neighbouring messages have different roles, for any generator of non-blank ids.
\<close>

theorem validateRequest_wellformed:
  assumes "\<And>n. fresh n \<noteq> []"
  shows "answered {} (blocks_of (rq_messages (validateRequest fresh req)))
    \<and> well_grouped (rq_messages (validateRequest fresh req))"
proof
  show "answered {} (blocks_of (rq_messages (validateRequest fresh req)))"
    unfolding validateRequest_blocks by (rule answered_clean_blocks) (rule assms)
  show "well_grouped (rq_messages (validateRequest fresh req))"
    unfolding validateRequest_def
    by (simp add: well_grouped_clean_messages well_grouped_Nil)
qed

lemma append_message_grouped:
  assumes "well_grouped (cleaned @ [m])"
  shows "append_message cleaned (msg_role m) (msg_content m) = cleaned @ [m]"
  using assms
  by (cases cleaned rule: rev_cases)
    (auto simp: append_message_def well_grouped_def successively_append_iff)

lemma clean_messages_fixed:
  assumes "answered seen (blocks_of ms)" and "well_grouped (cleaned @ ms)"
  shows "clean_messages fresh seen n cleaned ms = cleaned @ ms"
  using assms
proof (induction ms arbitrary: seen n cleaned)
  case Nil
  then show ?case by simp
next
  case (Cons m ms)
  from Cons.prems(1) have "answered seen (msg_content m @ blocks_of ms)" by simp
  then obtain seen' n' where kept: "clean_blocks fresh seen n (msg_content m) = (msg_content m, seen', n')"
    and rest: "answered seen' (blocks_of ms)" by (rule clean_blocks_answered)
  have "well_grouped (cleaned @ [m])"
    using Cons.prems(2) by (auto simp: well_grouped_def successively_append_iff)
  then have "append_message cleaned (msg_role m) (msg_content m) = cleaned @ [m]"
    by (rule append_message_grouped)
  with kept rest Cons show ?case by simp
qed

text \<open>
  Validation is idempotent: a validated request passes a second validation, with any
  generator, unchanged.
\<close>

theorem validateRequest_idempotent:
  assumes "\<And>n. fresh n \<noteq> []"
  shows "validateRequest fresh' (validateRequest fresh req) = validateRequest fresh req"
proof -
  let ?ms = "rq_messages (validateRequest fresh req)"
  have "answered {} (blocks_of ?ms)"
    unfolding validateRequest_def by (simp add: blocks_of_clean_messages answered_clean_blocks assms)
  moreover have "well_grouped ?ms"
    unfolding validateRequest_def by (simp add: well_grouped_clean_messages)
  ultimately have "clean_messages fresh' {} 0 [] ?ms = ?ms"
    by (simp add: clean_messages_fixed)
  then show ?thesis by (simp add: validateRequest_def)
qed

subsection \<open>A conversation with an orphan, a blank id and a repeated role\<close>

definition sample_use :: "string \<Rightarrow> content_block" where
  "sample_use i = ToolUseBlock \<lparr>tu_id = i, tu_name = ''ls'', tu_input = JObj [], tu_cacheControl = None\<rparr>"

definition sample_result :: "string \<Rightarrow> content_block" where
  "sample_result i = ToolResultBlock \<lparr>tr_toolUseId = i, tr_content = ''ok'', tr_images = None,
     tr_files = None, tr_native = None, tr_isError = None, tr_cacheControl = None\<rparr>"

definition sample_request :: chat_request where
  "sample_request = \<lparr>rq_model = ''fast'', rq_system = None,
     rq_messages =
       [\<lparr>msg_role = User, msg_content = [sample_result ''gone'']\<rparr>,
        \<lparr>msg_role = Assistant, msg_content = [sample_use ''a'']\<rparr>,
        \<lparr>msg_role = Assistant, msg_content = [sample_use '''']\<rparr>,
        \<lparr>msg_role = User, msg_content = [sample_result ''a'', sample_result '''']\<rparr>],
     rq_tools = None, rq_toolChoice = None, rq_maxTokens = None, rq_temperature = None,
     rq_stopSequences = None, rq_stream = True, rq_reasoning = None, rq_vendor = None,
     rq_providerHeaders = None, rq_betas = None, rq_conversationId = None\<rparr>"

lemma sample_validated:
  "rq_messages (validateRequest (\<lambda>n. ''tu'') sample_request) =
     [\<lparr>msg_role = Assistant, msg_content = [sample_use ''a'', sample_use ''tu'']\<rparr>,
      \<lparr>msg_role = User, msg_content = [sample_result ''a'']\<rparr>]"
  by (simp add: validateRequest_def sample_request_def sample_use_def sample_result_def
      clean_block_def append_message_def)

theorem validateRequest_wellformed_witness:
  "answered {} [sample_use ''a'', sample_use ''tu'', sample_result ''a'']
   \<and> well_grouped (rq_messages (validateRequest (\<lambda>n. ''tu'') sample_request))"
  using validateRequest_wellformed [of "\<lambda>n. ''tu''" sample_request]
  by (simp add: sample_validated)

theorem validateRequest_idempotent_witness:
  "validateRequest (\<lambda>n. ''new'') (validateRequest (\<lambda>n. ''tu'') sample_request)
     = validateRequest (\<lambda>n. ''tu'') sample_request"
  by (rule validateRequest_idempotent) simp

end
