(* ===== verification/Ir_Tokens.thy ===== *)
theory Ir_Tokens
  imports Ir_Validate
begin

section \<open>Token estimates\<close>

text \<open>
  \<^verbatim>\<open>packages/ir/src/tokens.ts\<close>: the size of a prompt and of its cached prefix, which the
  router prices targets with and a client paces its context against. The lemmas relate the
  three walks over a request: the one-walk prefixes agree with the plain estimate, the
  prefixes nest, and the cached part is a part of the whole.
\<close>

definition CHARS_PER_TOKEN :: nat where "CHARS_PER_TOKEN = 4"
definition IMAGE_TOKENS :: nat where "IMAGE_TOKENS = 1600"
definition BLOCK_OVERHEAD :: nat where "BLOCK_OVERHEAD = 4"
definition MESSAGE_OVERHEAD :: nat where "MESSAGE_OVERHEAD = 4"

definition fromText :: "string \<Rightarrow> nat" where
  "fromText text = (length text + (CHARS_PER_TOKEN - 1)) div CHARS_PER_TOKEN"

definition safeJson :: "json \<Rightarrow> string" where
  "safeJson value = stringify value"

definition nativeTokens :: "provider_native_block \<Rightarrow> nat" where
  "nativeTokens b = BLOCK_OVERHEAD + fromText (pn_blockType b) + fromText (safeJson (pn_data b))"

fun blockTokens :: "content_block \<Rightarrow> nat" where
  "blockTokens (TextBlock b) = BLOCK_OVERHEAD + fromText (tb_text b)"
| "blockTokens (ImageBlock b) = BLOCK_OVERHEAD + IMAGE_TOKENS"
| "blockTokens (ThinkingBlock b) = BLOCK_OVERHEAD + fromText (th_text b)"
| "blockTokens (ToolUseBlock b) =
     BLOCK_OVERHEAD + fromText (tu_name b) + fromText (safeJson (tu_input b))"
| "blockTokens (ToolResultBlock b) =
     BLOCK_OVERHEAD + fromText (tr_toolUseId b) + fromText (tr_content b)
     + (case tr_images b of None \<Rightarrow> 0 | Some is \<Rightarrow> length is) * IMAGE_TOKENS
     + foldl (\<lambda>s f. s + fromText (fb_data f)) 0 (nullish (tr_files b) [])
     + foldl (\<lambda>s n. s + nativeTokens n) 0 (nullish (tr_native b) [])"
| "blockTokens (ProviderNativeBlock b) = nativeTokens b"

definition messageTokens :: "message \<Rightarrow> nat" where
  "messageTokens m = foldl (\<lambda>total b. total + blockTokens b) MESSAGE_OVERHEAD (msg_content m)"

fun toolTokens :: "tool_def \<Rightarrow> nat" where
  "toolTokens (ProviderTool t) =
     BLOCK_OVERHEAD + fromText (pt_name t) + fromText (pt_type t) + fromText (safeJson (pt_wire t))"
| "toolTokens (PortableTool t) =
     BLOCK_OVERHEAD + fromText (ct_name t) + fromText (nullish (ct_description t) [])
     + fromText (safeJson (ct_inputSchema t))"

definition estimateInputTokens :: "chat_request \<Rightarrow> nat" where
  "estimateInputTokens rq =
     (let total = foldl (\<lambda>t b. t + blockTokens b) 0 (nullish (rq_system rq) []);
          total = foldl (\<lambda>t m. t + messageTokens m) total (rq_messages rq)
      in foldl (\<lambda>t d. t + toolTokens d) total (nullish (rq_tools rq) []))"

record input_prefixes =
  ip_tools :: nat
  ip_toolsAndSystem :: nat
  ip_total :: nat

definition estimateInputPrefixes :: "chat_request \<Rightarrow> input_prefixes" where
  "estimateInputPrefixes rq =
     (let tools = foldl (\<lambda>t d. t + toolTokens d) 0 (nullish (rq_tools rq) []);
          toolsAndSystem = foldl (\<lambda>t b. t + blockTokens b) tools (nullish (rq_system rq) []);
          total = foldl (\<lambda>t m. t + messageTokens m) toolsAndSystem (rq_messages rq)
      in \<lparr>ip_tools = tools, ip_toolsAndSystem = toolsAndSystem, ip_total = total\<rparr>)"

text \<open>The walk of the cached estimate carries the running total and the covered prefix.\<close>

definition cacheTool :: "nat \<times> nat \<Rightarrow> tool_def \<Rightarrow> nat \<times> nat" where
  "cacheTool s tool =
     (let running = fst s + toolTokens tool
      in (running, if tool_cacheControl tool \<noteq> None then running else snd s))"

definition cacheBlock :: "nat \<times> nat \<Rightarrow> content_block \<Rightarrow> nat \<times> nat" where
  "cacheBlock s block =
     (let running = fst s + blockTokens block
      in (running, if cacheControlOf block \<noteq> None then running else snd s))"

fun partMarked :: "content_block \<Rightarrow> bool" where
  "partMarked (ToolResultBlock b) =
     (list_ex (\<lambda>i. ib_cacheControl i \<noteq> None) (nullish (tr_images b) [])
      \<or> list_ex (\<lambda>n. pn_cacheControl n \<noteq> None) (nullish (tr_native b) []))"
| "partMarked _ = False"

definition cacheMessageBlock :: "nat \<times> nat \<Rightarrow> content_block \<Rightarrow> nat \<times> nat" where
  "cacheMessageBlock s block =
     (let s' = cacheBlock s block
      in if partMarked block then (fst s', fst s') else s')"

definition cacheMessage :: "nat \<times> nat \<Rightarrow> message \<Rightarrow> nat \<times> nat" where
  "cacheMessage s m = foldl cacheMessageBlock (fst s + MESSAGE_OVERHEAD, snd s) (msg_content m)"

definition estimateCachedInputTokens :: "chat_request \<Rightarrow> nat" where
  "estimateCachedInputTokens rq =
     (let s = foldl cacheTool (0, 0) (nullish (rq_tools rq) []);
          s = foldl cacheBlock s (nullish (rq_system rq) []);
          s = foldl cacheMessage s (rq_messages rq)
      in snd s)"

subsection \<open>The three walks agree\<close>

lemma foldl_add_sum: "foldl (\<lambda>t x. t + f x) (a :: nat) xs = a + sum_list (map f xs)"
  by (induction xs arbitrary: a) auto

lemma blockTokens_pos [simp]: "blockTokens b \<noteq> 0"
  by (cases b) (auto simp: BLOCK_OVERHEAD_def nativeTokens_def)

lemma toolTokens_pos [simp]: "toolTokens t \<noteq> 0"
  by (cases t) (auto simp: BLOCK_OVERHEAD_def)

lemma covered_foldl:
  assumes "snd s \<le> fst s" and "\<And>s x. snd s \<le> fst s \<Longrightarrow> snd (f s x) \<le> (fst (f s x) :: nat)"
  shows "snd (foldl f s xs) \<le> fst (foldl f s xs)"
  using assms(1) by (induction xs arbitrary: s) (auto simp: assms(2))

lemma covered_cacheTool: "snd s \<le> fst s \<Longrightarrow> snd (cacheTool s t) \<le> fst (cacheTool s t)"
  by (auto simp: cacheTool_def Let_def)

lemma covered_cacheBlock: "snd s \<le> fst s \<Longrightarrow> snd (cacheBlock s b) \<le> fst (cacheBlock s b)"
  by (auto simp: cacheBlock_def Let_def)

lemma covered_cacheMessage: "snd s \<le> fst s \<Longrightarrow> snd (cacheMessage s m) \<le> fst (cacheMessage s m)"
  unfolding cacheMessage_def
  by (rule covered_foldl) (auto simp: cacheMessageBlock_def cacheBlock_def Let_def)

lemmas covered_steps = covered_cacheTool covered_cacheBlock covered_cacheMessage

lemma fst_foldl_add:
  "(\<And>s x. fst (f s x) = fst s + g x) \<Longrightarrow> fst (foldl f s xs) = fst s + (sum_list (map g xs) :: nat)"
  by (induction xs arbitrary: s) auto

lemma fst_cacheMessage: "fst (cacheMessage s m) = fst s + messageTokens m"
  by (auto simp: cacheMessage_def messageTokens_def foldl_add_sum cacheMessageBlock_def cacheBlock_def
      Let_def fst_foldl_add [where g = blockTokens])

text \<open>
  The one-walk prefixes are prefixes of one sum. Their total is the plain estimate of
  the same request, the three nest in the order the prompt is assembled, and the estimated
  cached prefix never exceeds the whole.
\<close>

theorem estimate_walks_agree:
  "ip_total (estimateInputPrefixes rq) = estimateInputTokens rq
   \<and> ip_tools (estimateInputPrefixes rq) \<le> ip_toolsAndSystem (estimateInputPrefixes rq)
   \<and> ip_toolsAndSystem (estimateInputPrefixes rq) \<le> ip_total (estimateInputPrefixes rq)
   \<and> estimateCachedInputTokens rq \<le> estimateInputTokens rq"
proof -
  let ?tools = "foldl cacheTool (0, 0) (nullish (rq_tools rq) [])"
  let ?system = "foldl cacheBlock ?tools (nullish (rq_system rq) [])"
  let ?all = "foldl cacheMessage ?system (rq_messages rq)"
  have "snd ?tools \<le> fst ?tools" by (rule covered_foldl) (simp_all add: covered_steps)
  then have "snd ?system \<le> fst ?system" by (rule covered_foldl) (simp add: covered_steps)
  then have cached: "snd ?all \<le> fst ?all" by (rule covered_foldl) (simp add: covered_steps)
  have "fst ?all = estimateInputTokens rq"
    by (simp add: fst_foldl_add [where g = messageTokens] fst_cacheMessage
        fst_foldl_add [where g = blockTokens] fst_foldl_add [where g = toolTokens]
        cacheBlock_def cacheTool_def Let_def estimateInputTokens_def foldl_add_sum)
  with cached show ?thesis
    by (auto simp: estimateInputPrefixes_def estimateInputTokens_def estimateCachedInputTokens_def
        foldl_add_sum Let_def)
qed

subsection \<open>What a breakpoint covers\<close>

definition marked :: "chat_request \<Rightarrow> bool" where
  "marked rq \<longleftrightarrow>
     list_ex (\<lambda>t. tool_cacheControl t \<noteq> None) (nullish (rq_tools rq) [])
     \<or> list_ex (\<lambda>b. cacheControlOf b \<noteq> None) (nullish (rq_system rq) [])
     \<or> list_ex (\<lambda>m. list_ex (\<lambda>b. cacheControlOf b \<noteq> None \<or> partMarked b) (msg_content m)) (rq_messages rq)"

lemma snd_foldl_marked:
  assumes "\<And>s x. (snd (f s x) = (0 :: nat)) \<longleftrightarrow> snd s = 0 \<and> \<not> P x"
  shows "(snd (foldl f s xs) = 0) \<longleftrightarrow> snd s = 0 \<and> \<not> list_ex P xs"
  by (induction xs arbitrary: s) (auto simp: assms)

lemma cacheMessageBlock_zero:
  "(snd (cacheMessageBlock s b) = 0) \<longleftrightarrow> snd s = 0 \<and> \<not> (cacheControlOf b \<noteq> None \<or> partMarked b)"
  by (auto simp: cacheMessageBlock_def cacheBlock_def Let_def)

text \<open>
  The cached prefix is empty exactly for a request that carries no breakpoint, in a
  tool, a system block, a message block, or a part inside a tool result.
\<close>

theorem estimateCached_zero_iff: "estimateCachedInputTokens rq = 0 \<longleftrightarrow> \<not> marked rq"
proof -
  have m: "(snd (cacheMessage s m) = 0) \<longleftrightarrow>
      snd s = 0 \<and> \<not> list_ex (\<lambda>b. cacheControlOf b \<noteq> None \<or> partMarked b) (msg_content m)" for s m
    unfolding cacheMessage_def by (subst snd_foldl_marked [OF cacheMessageBlock_zero]) simp
  have b: "(snd (cacheBlock s b) = 0) \<longleftrightarrow> snd s = 0 \<and> \<not> cacheControlOf b \<noteq> None" for s b
    by (auto simp: cacheBlock_def Let_def)
  have t: "(snd (cacheTool s d) = 0) \<longleftrightarrow> snd s = 0 \<and> \<not> tool_cacheControl d \<noteq> None" for s d
    by (auto simp: cacheTool_def Let_def)
  show ?thesis
    unfolding estimateCachedInputTokens_def marked_def Let_def
    by (simp only: snd_foldl_marked [OF m] snd_foldl_marked [OF b] snd_foldl_marked [OF t]) auto
qed

end
