(* ===== verification/Router_Types.thy ===== *)
theory Router_Types
  imports Store_Types Ir_Tokens
begin

section \<open>What the router is handed and what it answers\<close>

text \<open>
  \<^verbatim>\<open>packages/router/src/types.ts\<close> and \<^verbatim>\<open>snapshot.ts\<close>, with the parts of the provider
  registry (\<^verbatim>\<open>packages/providers/src/descriptor.ts\<close>, \<^verbatim>\<open>catalog-types.ts\<close>,
  \<^verbatim>\<open>catalog.ts\<close>) that routing reads. The registry is an association list in key order;
  \<open>ri_providers\<close> is the one in effect, the caller's or the process-wide default.
\<close>

subsection \<open>The provider registry\<close>

record model_pricing =
  mp_input :: rat
  mp_output :: rat
  mp_cacheRead :: rat
  mp_cacheWrite5m :: rat
  mp_cacheWrite1h :: rat

record model_limits =
  ml_contextWindow :: nat
  ml_maxOutputTokens :: nat

record model_choice =
  mc_id :: string
  mc_label :: string
  mc_pricing :: model_pricing
  mc_limits :: model_limits
  mc_oauthLimits :: "model_limits option"
  mc_auth :: "auth_type list option"

record catalog_entry =
  ce_defaultModel :: string
  ce_authTypes :: "auth_type list"
  ce_models :: "model_choice list"

record write_over_input =
  wo_fiveMinute :: rat
  wo_oneHour :: rat

record descriptor =
  pd_capabilities :: capabilities
  pd_writeOverInput :: write_over_input
  pd_catalog :: catalog_entry
  pd_modelPrefixes :: "string list"

type_synonym descriptors = "(provider_id \<times> descriptor) list"

definition entryPricing :: "catalog_entry \<Rightarrow> string \<Rightarrow> model_pricing option" where
  "entryPricing entry model = map_option mc_pricing (find (\<lambda>c. mc_id c = model) (ce_models entry))"

definition entryModelAuths :: "catalog_entry \<Rightarrow> string \<Rightarrow> auth_type list" where
  "entryModelAuths entry model =
     (case find (\<lambda>c. mc_id c = model) (ce_models entry) of
        None \<Rightarrow> ce_authTypes entry
      | Some c \<Rightarrow> nullish (mc_auth c) (ce_authTypes entry))"

definition choiceLimits :: "model_choice \<Rightarrow> auth_type \<Rightarrow> model_limits" where
  "choiceLimits choice auth =
     nullish (if auth = OAuth then mc_oauthLimits choice else None) (mc_limits choice)"

definition entryLimits :: "catalog_entry \<Rightarrow> string \<Rightarrow> auth_type \<Rightarrow> model_limits option" where
  "entryLimits entry model auth =
     (case find (\<lambda>c. mc_id c = model) (ce_models entry) of
        None \<Rightarrow> None
      | Some c \<Rightarrow> Some (choiceLimits c auth))"

subsection \<open>Snapshot, candidates and exclusions\<close>

record snapshot =
  sn_credentials :: "credential_view list"
  sn_health :: "string \<rightharpoonup> credential_health"
  sn_quota :: "string \<rightharpoonup> quota_window list"
  sn_models :: "string \<rightharpoonup> virtual_model"
  sn_settings :: settings
  sn_builtAt :: instant

record reasons =
  rs_tier :: rat
  rs_health :: rat
  rs_quota :: rat
  rs_cost :: rat
  rs_latency :: rat
  rs_load :: rat

record pair =
  pr_credential :: credential_view
  pr_target :: target
  pr_probe :: bool

record candidate = pair +
  cd_score :: rat
  cd_reasons :: reasons

datatype excluded_kind = KTarget | KAccount

record excluded =
  ex_kind :: excluded_kind
  ex_credentialId :: string
  ex_model :: string
  ex_reason :: string

record recent_use =
  ru_lastReleasedAt :: instant
  ru_ewmaTtftMs :: "rat option"

text \<open>\<open>ri_round\<close> is the rounding every operation on two doubles ends with.\<close>

record rank_input =
  ri_request :: chat_request
  ri_model :: virtual_model
  ri_snapshot :: snapshot
  ri_now :: instant
  ri_rand :: rat
  ri_round :: "rat \<Rightarrow> rat"
  ri_load :: "string \<rightharpoonup> nat"
  ri_recent :: "string \<rightharpoonup> recent_use"
  ri_providers :: descriptors

record rank_result =
  rr_candidates :: "candidate list"
  rr_excluded :: "excluded list"

definition HEALTH_KEY_SEP :: string where "HEALTH_KEY_SEP = ''::''"

definition healthKey :: "string \<Rightarrow> string \<Rightarrow> string" where
  "healthKey credentialId model = credentialId @ HEALTH_KEY_SEP @ model"

fun groupQuota :: "(string \<rightharpoonup> quota_window list) \<Rightarrow> quota_window list \<Rightarrow> (string \<rightharpoonup> quota_window list)" where
  "groupQuota quota [] = quota"
| "groupQuota quota (row # rows) =
     groupQuota (quota(qw_credentialId row \<mapsto>
       (case quota (qw_credentialId row) of None \<Rightarrow> [row] | Some l \<Rightarrow> l @ [row]))) rows"

definition buildSnapshot ::
  "credential_view list \<Rightarrow> credential_health list \<Rightarrow> quota_window list \<Rightarrow> virtual_model list
     \<Rightarrow> settings \<Rightarrow> instant \<Rightarrow> snapshot" where
  "buildSnapshot credentials healthRows quotaRows models sets now = \<lparr>
     sn_credentials = credentials,
     sn_health = foldl (\<lambda>m h. m(healthKey (h_credentialId h) (h_model h) \<mapsto> h)) Map.empty healthRows,
     sn_quota = groupQuota Map.empty quotaRows,
     sn_models = foldl (\<lambda>m v. m(vm_id v \<mapsto> v)) Map.empty models,
     sn_settings = sets,
     sn_builtAt = now\<rparr>"

subsection \<open>Keys keep pairs apart\<close>

text \<open>
  The composite health key tells every (credential, model) pair apart as long as no
  credential id holds a colon, whatever the model is called. (Ids are generated, never
  typed, so the hypothesis is a fact of the installation.)
\<close>

theorem healthKey_inject:
  assumes "CHR '':'' \<notin> set c" and "CHR '':'' \<notin> set c'"
  shows "healthKey c m = healthKey c' m' \<longleftrightarrow> c = c' \<and> m = m'"
  using append_sep_inject [of c "CHR '':''" "CHR '':'' # m" c' "CHR '':'' # m'"] assms
  by (auto simp: healthKey_def HEALTH_KEY_SEP_def)

theorem healthKey_inject_witness:
  "healthKey ''acct-1'' ''llama3:8b'' \<noteq> healthKey ''acct-2'' ''llama3:8b''"
  using healthKey_inject [of "''acct-1''" "''acct-2''" "''llama3:8b''" "''llama3:8b''"] by simp

lemma groupQuota_lookup:
  "groupQuota quota rows cid =
     (case filter (\<lambda>r. qw_credentialId r = cid) rows of
        [] \<Rightarrow> quota cid
      | r # rs \<Rightarrow> Some (nullish (quota cid) [] @ r # rs))"
proof (induction rows arbitrary: quota)
  case Nil
  then show ?case by simp
next
  case (Cons row rows)
  show ?case
    by (cases "quota (qw_credentialId row)"; cases "qw_credentialId row = cid";
        cases "filter (\<lambda>r. qw_credentialId r = cid) rows") (simp_all add: Cons.IH)
qed

text \<open>
  The snapshot's quota index holds, for each credential, exactly that credential's
  rows in the order the store listed them, and nothing for a credential with no row.
\<close>

theorem buildSnapshot_quota:
  "sn_quota (buildSnapshot cs hs rows ms s now) cid =
     (let mine = filter (\<lambda>r. qw_credentialId r = cid) rows in if mine = [] then None else Some mine)"
  by (simp add: buildSnapshot_def groupQuota_lookup Let_def split: list.splits)

end
