(* ===== verification/Router_Filters.thy ===== *)
theory Router_Filters
  imports Router_Types
begin

section \<open>Which accounts may serve a request\<close>

text \<open>
  \<^verbatim>\<open>packages/router/src/filters.ts\<close>: the providers whose dialect a request carries, the
  capabilities it needs, the backoff of an open breaker, and the loop over targets and
  accounts that either admits a pair or records why it did not. A JavaScript \<^verbatim>\<open>Set\<close> of
  providers is a list without duplicates; the loop's local variables are the record
  \<open>tally\<close>, and one pass of its inner body is \<open>judge\<close>. The lemmas give the admitted pairs
  by a comprehension over a declarative predicate and account for every pair left out.
\<close>

definition addOwner :: "provider_id list \<Rightarrow> provider_id \<Rightarrow> provider_id list" where
  "addOwner owners p = (if p \<in> set owners then owners else owners @ [p])"

fun toolOwner :: "provider_id list \<Rightarrow> tool_def \<Rightarrow> provider_id list" where
  "toolOwner owners (ProviderTool t) = addOwner owners (pt_provider t)"
| "toolOwner owners (PortableTool t) = owners"

fun systemOwner :: "provider_id list \<Rightarrow> content_block \<Rightarrow> provider_id list" where
  "systemOwner owners (ProviderNativeBlock b) = addOwner owners (pn_provider b)"
| "systemOwner owners _ = owners"

fun messageOwner :: "provider_id list \<Rightarrow> content_block \<Rightarrow> provider_id list" where
  "messageOwner owners (ProviderNativeBlock b) = addOwner owners (pn_provider b)"
| "messageOwner owners (ToolResultBlock b) =
     foldl (\<lambda>os n. addOwner os (pn_provider n)) owners (nullish (tr_native b) [])"
| "messageOwner owners _ = owners"

definition requiredProviders :: "chat_request \<Rightarrow> provider_id list" where
  "requiredProviders rq =
     (let owners = foldl toolOwner [] (nullish (rq_tools rq) []);
          owners = foldl systemOwner owners (nullish (rq_system rq) [])
      in foldl (\<lambda>os m. foldl messageOwner os (msg_content m)) owners (rq_messages rq))"

fun imageBearing :: "content_block \<Rightarrow> bool" where
  "imageBearing (ImageBlock b) = True"
| "imageBearing (ToolResultBlock b) = (tr_images b \<noteq> None \<or> tr_files b \<noteq> None)"
| "imageBearing _ = False"

definition hasImage :: "content_block list \<Rightarrow> bool" where
  "hasImage blocks = list_ex imageBearing blocks"

fun needsReasoning :: "reasoning_config option \<Rightarrow> bool" where
  "needsReasoning None = False"
| "needsReasoning (Some Off) = False"
| "needsReasoning (Some BetweenTools) = False"
| "needsReasoning (Some _) = True"

definition requiredCapabilities :: "chat_request \<Rightarrow> capabilities" where
  "requiredCapabilities rq = \<lparr>
     cap_tools = length (nullish (rq_tools rq) []) > 0,
     cap_images = hasImage (nullish (rq_system rq) []) \<or> list_ex (\<lambda>m. hasImage (msg_content m)) (rq_messages rq),
     cap_reasoning = needsReasoning (rq_reasoning rq)\<rparr>"

definition cooldownMs :: "nat \<Rightarrow> nat \<Rightarrow> int \<Rightarrow> int" where
  "cooldownMs failures threshold base =
     (let over = max 0 (int failures - int threshold) in min (base * 2 ^ nat over) 3600000)"

fun windowName :: "window_type \<Rightarrow> string" where
  "windowName FiveHour = ''fiveHour''"
| "windowName Daily = ''daily''"
| "windowName Weekly = ''weekly''"

definition missingCapability :: "provider_id list \<Rightarrow> capabilities \<Rightarrow> target \<Rightarrow> string option" where
  "missingCapability required need t =
     (if length required > 1 \<or> (length required = 1 \<and> tg_provider t \<notin> set required) then Some ''providerNative''
      else map_option fst (find (\<lambda>(cap, wanted, offered). wanted \<and> \<not> offered)
        [(''tools'', cap_tools need, cap_tools (tg_capabilities t)),
         (''images'', cap_images need, cap_images (tg_capabilities t)),
         (''reasoning'', cap_reasoning need, cap_reasoning (tg_capabilities t))]))"

datatype verdict = Drop excluded_kind string | Admit bool

text \<open>The breaker and rate-limit half of the inner body: the probe flag, or the reason to drop.\<close>

definition judgeHealth :: "settings \<Rightarrow> instant \<Rightarrow> credential_health option \<Rightarrow> verdict" where
  "judgeHealth sets now health =
     (case health of
        None \<Rightarrow> Admit False
      | Some h \<Rightarrow>
          if (case h_rateLimitedUntil h of None \<Rightarrow> False | Some u \<Rightarrow> u > now) then Drop KAccount ''rateLimited''
          else (case h_breakerState h of
              Open \<Rightarrow>
                let elapsed = now - nullish (h_openedAt h) now
                in if elapsed < cooldownMs (h_consecutiveFailures h) (st_breakerThreshold sets) (st_breakerCooldownMs sets)
                   then Drop KAccount ''breaker:open'' else Admit True
            | HalfOpen \<Rightarrow> Admit True
            | Closed \<Rightarrow> Admit False))"

definition quotaSpent :: "instant \<Rightarrow> quota_window \<Rightarrow> bool" where
  "quotaSpent now w \<longleftrightarrow>
     (case qw_limit w of None \<Rightarrow> False | Some l \<Rightarrow> qw_used w \<ge> l)
     \<and> (case qw_resetsAt w of None \<Rightarrow> True | Some r \<Rightarrow> r > now)"

definition judge :: "rank_input \<Rightarrow> target \<Rightarrow> credential_view \<Rightarrow> verdict" where
  "judge input t credential =
     (let snapshot = ri_snapshot input; now = ri_now input in
      case missingCapability (requiredProviders (ri_request input)) (requiredCapabilities (ri_request input)) t of
        Some missing \<Rightarrow>
          Drop (if missing = ''providerNative'' then KTarget else KAccount) (''capability:'' @ missing)
      | None \<Rightarrow>
          if \<not> cr_enabled credential then Drop KAccount ''disabled''
          else if credentialExpired credential now then Drop KAccount ''expired''
          else (case judgeHealth (sn_settings snapshot) now
                   (sn_health snapshot (healthKey (cr_id credential) (tg_model t))) of
              Drop kind reason \<Rightarrow> Drop kind reason
            | Admit probe \<Rightarrow>
                (case find (quotaSpent now) (nullish (sn_quota snapshot (cr_id credential)) []) of
                   Some spent \<Rightarrow> Drop KAccount (''quota:'' @ windowName (qw_windowType spent))
                 | None \<Rightarrow> Admit probe)))"

record tally =
  tl_pairs :: "pair list"
  tl_excluded :: "excluded list"
  tl_pinSeen :: bool
  tl_providerSeen :: bool
  tl_servedAny :: bool

definition eligibleAccount :: "rank_input \<Rightarrow> target \<Rightarrow> tally \<Rightarrow> credential_view \<Rightarrow> tally" where
  "eligibleAccount input t s credential =
     (let s = (if cr_provider credential = tg_provider t then s\<lparr>tl_providerSeen := True\<rparr> else s) in
      if \<not> servesTarget t credential then s
      else
        let s = s\<lparr>tl_servedAny := True, tl_pinSeen := (tg_credentialId t \<noteq> None)\<rparr> in
        case judge input t credential of
          Drop kind reason \<Rightarrow>
            s\<lparr>tl_excluded := tl_excluded s @ [\<lparr>ex_kind = kind, ex_credentialId = cr_id credential,
                ex_model = tg_model t, ex_reason = reason\<rparr>]\<rparr>
        | Admit probe \<Rightarrow>
            s\<lparr>tl_pairs := tl_pairs s @ [\<lparr>pr_credential = credential, pr_target = t, pr_probe = probe\<rparr>]\<rparr>)"

definition targetRow :: "excluded_kind \<Rightarrow> string \<Rightarrow> target \<Rightarrow> string \<Rightarrow> excluded" where
  "targetRow kind credentialId t reason =
     \<lparr>ex_kind = kind, ex_credentialId = credentialId, ex_model = tg_model t, ex_reason = reason\<rparr>"

definition eligibleTarget ::
  "rank_input \<Rightarrow> pair list \<times> excluded list \<Rightarrow> target \<Rightarrow> pair list \<times> excluded list" where
  "eligibleTarget input acc t =
     (if map_of (ri_providers input) (tg_provider t) = None
      then (fst acc, snd acc @ [targetRow KTarget [] t ''provider:missing''])
      else
        let s = foldl (eligibleAccount input t)
              \<lparr>tl_pairs = fst acc, tl_excluded = snd acc, tl_pinSeen = False, tl_providerSeen = False,
                tl_servedAny = False\<rparr> (sn_credentials (ri_snapshot input));
            ex = tl_excluded s @
              (if tg_credentialId t = None \<and> tl_providerSeen s \<and> \<not> tl_servedAny s
               then [targetRow KTarget [] t ''endpoint:unmatched''] else []);
            ex = ex @
              (case tg_credentialId t of
                 Some pin \<Rightarrow> if \<not> tl_pinSeen s then [targetRow KAccount pin t ''pin:missing''] else []
               | None \<Rightarrow> [])
        in (tl_pairs s, ex))"

definition eligible :: "rank_input \<Rightarrow> pair list \<times> excluded list" where
  "eligible input = foldl (eligibleTarget input) ([], []) (vm_targets (ri_model input))"

subsection \<open>What a request requires\<close>

text \<open>The owners of one block or tool, by position.\<close>

fun tool_owners :: "tool_def \<Rightarrow> provider_id set" where
  "tool_owners (ProviderTool t) = {pt_provider t}"
| "tool_owners (PortableTool t) = {}"

fun block_owners :: "content_block \<Rightarrow> provider_id set" where
  "block_owners (ProviderNativeBlock b) = {pn_provider b}"
| "block_owners (ToolResultBlock b) = pn_provider ` set (nullish (tr_native b) [])"
| "block_owners _ = {}"

fun native_owner :: "content_block \<Rightarrow> provider_id set" where
  "native_owner (ProviderNativeBlock b) = {pn_provider b}"
| "native_owner _ = {}"

definition owners_of :: "chat_request \<Rightarrow> provider_id set" where
  "owners_of rq = (\<Union>t \<in> set (nullish (rq_tools rq) []). tool_owners t)
     \<union> (\<Union>b \<in> set (nullish (rq_system rq) []). native_owner b)
     \<union> (\<Union>m \<in> set (rq_messages rq). \<Union>b \<in> set (msg_content m). block_owners b)"

lemma addOwner_set [simp]: "set (addOwner os p) = insert p (set os)"
  by (auto simp: addOwner_def)

lemma addOwner_distinct [simp]: "distinct (addOwner os p) = distinct os"
  by (auto simp: addOwner_def)

lemma foldl_set_Un:
  assumes "\<And>os x. set (f os x) = set os \<union> g x"
  shows "set (foldl f os xs) = set os \<union> (\<Union>x \<in> set xs. g x)"
  by (induction xs arbitrary: os) (auto simp: assms)

lemma foldl_keeps:
  assumes "P os" and "\<And>os x. P os \<Longrightarrow> P (f os x)"
  shows "P (foldl f os xs)"
  using assms(1) by (induction xs arbitrary: os) (auto simp: assms(2))

lemma toolOwner_set: "set (toolOwner os t) = set os \<union> tool_owners t"
  by (cases t) auto

lemma systemOwner_set: "set (systemOwner os b) = set os \<union> native_owner b"
  by (cases b) auto

lemma messageOwner_set: "set (messageOwner os b) = set os \<union> block_owners b"
  by (cases b) (auto simp: foldl_set_Un [where g = "\<lambda>n. {pn_provider n}"])

lemma requiredProviders_set: "set (requiredProviders rq) = owners_of rq"
proof -
  have t: "set (foldl toolOwner os ts) = set os \<union> (\<Union>t \<in> set ts. tool_owners t)" for os ts
    by (rule foldl_set_Un) (rule toolOwner_set)
  have s: "set (foldl systemOwner os bs) = set os \<union> (\<Union>b \<in> set bs. native_owner b)" for os bs
    by (rule foldl_set_Un) (rule systemOwner_set)
  have b: "set (foldl messageOwner os bs) = set os \<union> (\<Union>b \<in> set bs. block_owners b)" for os bs
    by (rule foldl_set_Un) (rule messageOwner_set)
  have m: "set (foldl (\<lambda>os m. foldl messageOwner os (msg_content m)) os ms)
      = set os \<union> (\<Union>m \<in> set ms. \<Union>b \<in> set (msg_content m). block_owners b)" for os ms
    by (rule foldl_set_Un) (rule b)
  show ?thesis
    unfolding requiredProviders_def owners_of_def Let_def m s t list.set Un_empty_left by (rule refl)
qed

lemma toolOwner_distinct [simp]: "distinct (toolOwner os t) = distinct os"
  by (cases t) auto

lemma systemOwner_distinct [simp]: "distinct (systemOwner os b) = distinct os"
  by (cases b) auto

lemma requiredProviders_distinct: "distinct (requiredProviders rq)"
proof -
  have t: "distinct os \<Longrightarrow> distinct (foldl toolOwner os ts)" for os ts
    by (rule foldl_keeps) simp_all
  have s: "distinct os \<Longrightarrow> distinct (foldl systemOwner os bs)" for os bs
    by (rule foldl_keeps) simp_all
  have n: "distinct os \<Longrightarrow> distinct (foldl (\<lambda>os n. addOwner os (pn_provider n)) os ns)" for os ns
    by (rule foldl_keeps) simp_all
  have b: "distinct os \<Longrightarrow> distinct (foldl messageOwner os bs)" for os bs
  proof (rule foldl_keeps)
    show "distinct os \<Longrightarrow> distinct (messageOwner os b)" for os b
      by (cases b) (simp_all add: n)
  qed
  have m: "distinct os \<Longrightarrow> distinct (foldl (\<lambda>os m. foldl messageOwner os (msg_content m)) os ms)" for os ms
    by (rule foldl_keeps) (simp_all add: b)
  show ?thesis unfolding requiredProviders_def Let_def by (intro m s t) simp
qed

lemma distinct_fits_one:
  assumes "distinct xs"
  shows "\<not> (length xs > 1 \<or> (length xs = 1 \<and> p \<notin> set xs)) \<longleftrightarrow> set xs \<subseteq> {p}"
proof (cases xs)
  case (Cons x ys)
  then show ?thesis using assms by (cases ys) auto
qed simp

lemmas requiredProviders_fit = distinct_fits_one [OF requiredProviders_distinct, unfolded requiredProviders_set]

subsection \<open>The declarative rule\<close>

definition healthOf :: "rank_input \<Rightarrow> target \<Rightarrow> credential_view \<Rightarrow> credential_health option" where
  "healthOf input t c = sn_health (ri_snapshot input) (healthKey (cr_id c) (tg_model t))"

definition capable :: "rank_input \<Rightarrow> target \<Rightarrow> bool" where
  "capable input t \<longleftrightarrow> owners_of (ri_request input) \<subseteq> {tg_provider t}
     \<and> (let need = requiredCapabilities (ri_request input); has = tg_capabilities t in
        (cap_tools need \<longrightarrow> cap_tools has) \<and> (cap_images need \<longrightarrow> cap_images has)
        \<and> (cap_reasoning need \<longrightarrow> cap_reasoning has))"

definition healthy :: "rank_input \<Rightarrow> credential_health \<Rightarrow> bool" where
  "healthy input h \<longleftrightarrow>
     (\<forall>u. h_rateLimitedUntil h = Some u \<longrightarrow> u \<le> ri_now input)
     \<and> (h_breakerState h = Open \<longrightarrow>
          cooldownMs (h_consecutiveFailures h) (st_breakerThreshold (sn_settings (ri_snapshot input)))
            (st_breakerCooldownMs (sn_settings (ri_snapshot input)))
          \<le> ri_now input - nullish (h_openedAt h) (ri_now input))"

definition admissible :: "rank_input \<Rightarrow> target \<Rightarrow> credential_view \<Rightarrow> bool" where
  "admissible input t c \<longleftrightarrow>
     servesTarget t c \<and> capable input t \<and> cr_enabled c \<and> \<not> credentialExpired c (ri_now input)
     \<and> (\<forall>h. healthOf input t c = Some h \<longrightarrow> healthy input h)
     \<and> (\<forall>w \<in> set (nullish (sn_quota (ri_snapshot input) (cr_id c)) []). \<not> quotaSpent (ri_now input) w)"

definition probing :: "rank_input \<Rightarrow> target \<Rightarrow> credential_view \<Rightarrow> bool" where
  "probing input t c \<longleftrightarrow> (\<exists>h. healthOf input t c = Some h \<and> h_breakerState h \<noteq> Closed)"

lemma missingCapability_None:
  "missingCapability (requiredProviders (ri_request input)) (requiredCapabilities (ri_request input)) t = None
   \<longleftrightarrow> capable input t"
  unfolding missingCapability_def capable_def Let_def requiredProviders_set requiredProviders_fit [symmetric]
  by auto

lemma judgeHealth_Admit:
  "judgeHealth (sn_settings (ri_snapshot input)) (ri_now input) (healthOf input t c) = Admit p
   \<longleftrightarrow> (\<forall>h. healthOf input t c = Some h \<longrightarrow> healthy input h) \<and> p = probing input t c"
  by (cases "healthOf input t c")
    (auto simp: judgeHealth_def healthy_def probing_def Let_def split: breaker_state.splits option.splits)

lemma judge_Admit:
  assumes "servesTarget t c"
  shows "judge input t c = Admit p \<longleftrightarrow> admissible input t c \<and> p = probing input t c"
proof (cases "capable input t \<and> cr_enabled c \<and> \<not> credentialExpired c (ri_now input)")
  case True
  then have "judge input t c = Admit p \<longleftrightarrow>
      judgeHealth (sn_settings (ri_snapshot input)) (ri_now input) (healthOf input t c) = Admit p
      \<and> find (quotaSpent (ri_now input)) (nullish (sn_quota (ri_snapshot input) (cr_id c)) []) = None"
    by (auto simp: judge_def Let_def missingCapability_None [THEN iffD2] healthOf_def split: verdict.splits option.splits)
  with True assms show ?thesis
    by (auto simp: judgeHealth_Admit admissible_def find_None_iff_ball)
next
  case False
  then have "judge input t c \<noteq> Admit p"
    using missingCapability_None [of input t] by (auto simp: judge_def Let_def split: option.splits)
  with False show ?thesis by (auto simp: admissible_def)
qed

subsection \<open>The loop\<close>

abbreviation mkPair :: "rank_input \<Rightarrow> target \<Rightarrow> credential_view \<Rightarrow> pair" where
  "mkPair input t c \<equiv> \<lparr>pr_credential = c, pr_target = t, pr_probe = probing input t c\<rparr>"

definition dropRow :: "rank_input \<Rightarrow> target \<Rightarrow> credential_view \<Rightarrow> excluded list" where
  "dropRow input t c =
     (case judge input t c of
        Drop kind reason \<Rightarrow> [targetRow kind (cr_id c) t reason]
      | Admit probe \<Rightarrow> [])"

lemma admissible_serves: "admissible input t c \<Longrightarrow> servesTarget t c"
  by (simp add: admissible_def)

lemma judge_admissible: "admissible input t c \<Longrightarrow> judge input t c = Admit (probing input t c)"
  by (simp add: judge_Admit admissible_serves)

lemma judge_inadmissible:
  assumes "servesTarget t c" and "\<not> admissible input t c"
  obtains kind reason where "judge input t c = Drop kind reason"
  using assms by (cases "judge input t c") (auto simp: judge_Admit)

lemma dropRow_admissible: "servesTarget t c \<Longrightarrow> dropRow input t c = [] \<longleftrightarrow> admissible input t c"
  by (cases "admissible input t c")
    (auto simp: dropRow_def judge_admissible elim: judge_inadmissible)

lemma eligibleAccount_step:
  "eligibleAccount input t s c = s\<lparr>
     tl_pairs := tl_pairs s @ (if admissible input t c then [mkPair input t c] else []),
     tl_excluded := tl_excluded s @ (if servesTarget t c then dropRow input t c else []),
     tl_pinSeen := (if servesTarget t c then tg_credentialId t \<noteq> None else tl_pinSeen s),
     tl_providerSeen := (tl_providerSeen s \<or> cr_provider c = tg_provider t),
     tl_servedAny := (tl_servedAny s \<or> servesTarget t c)\<rparr>"
proof (cases "servesTarget t c")
  case serves: True
  show ?thesis
  proof (cases "admissible input t c")
    case True
    with serves show ?thesis
      by (simp add: eligibleAccount_def judge_admissible dropRow_def)
  next
    case False
    with serves obtain kind reason where "judge input t c = Drop kind reason"
      by (rule judge_inadmissible)
    with serves False show ?thesis by (simp add: eligibleAccount_def dropRow_def targetRow_def)
  qed
next
  case False
  then show ?thesis by (auto simp: eligibleAccount_def dest: admissible_serves)
qed

lemma eligibleAccount_loop:
  fixes s :: tally and input :: rank_input and t :: target
  defines "s' cs \<equiv> foldl (eligibleAccount input t) s cs"
  shows "tl_pairs (s' cs) = tl_pairs s @ map (mkPair input t) (filter (admissible input t) cs)"
    and "tl_excluded (s' cs) = tl_excluded s @ concat (map (dropRow input t) (filter (servesTarget t) cs))"
    and "tl_providerSeen (s' cs) \<longleftrightarrow> tl_providerSeen s \<or> (\<exists>c \<in> set cs. cr_provider c = tg_provider t)"
    and "tl_servedAny (s' cs) \<longleftrightarrow> tl_servedAny s \<or> (\<exists>c \<in> set cs. servesTarget t c)"
    and "tg_credentialId t \<noteq> None \<Longrightarrow> tl_pinSeen (s' cs) \<longleftrightarrow> tl_pinSeen s \<or> (\<exists>c \<in> set cs. servesTarget t c)"
  unfolding s'_def by (induction cs rule: rev_induct) (auto simp: eligibleAccount_step)

text \<open>The rows a target adds to the exclusion list, and the accounts it pairs with.\<close>

definition known :: "rank_input \<Rightarrow> target \<Rightarrow> bool" where
  "known input t \<longleftrightarrow> tg_provider t \<in> fst ` set (ri_providers input)"

definition accountsFor :: "rank_input \<Rightarrow> target \<Rightarrow> credential_view list" where
  "accountsFor input t = filter (servesTarget t) (sn_credentials (ri_snapshot input))"

definition targetRows :: "rank_input \<Rightarrow> target \<Rightarrow> excluded list" where
  "targetRows input t =
     (if \<not> known input t then [targetRow KTarget [] t ''provider:missing'']
      else if accountsFor input t \<noteq> [] then concat (map (dropRow input t) (accountsFor input t))
      else (case tg_credentialId t of
          Some pin \<Rightarrow> [targetRow KAccount pin t ''pin:missing'']
        | None \<Rightarrow> if \<exists>c \<in> set (sn_credentials (ri_snapshot input)). cr_provider c = tg_provider t
            then [targetRow KTarget [] t ''endpoint:unmatched''] else []))"

definition targetPairs :: "rank_input \<Rightarrow> target \<Rightarrow> pair list" where
  "targetPairs input t =
     (if known input t
      then map (mkPair input t) (filter (admissible input t) (sn_credentials (ri_snapshot input))) else [])"

lemma concat_map_if: "concat (map (\<lambda>x. if P x then [f x] else []) xs) = map f (filter P xs)"
  by (induction xs) auto

lemma known_map_of: "map_of (ri_providers input) (tg_provider t) = None \<longleftrightarrow> \<not> known input t"
  by (simp add: known_def map_of_eq_None_iff)

lemma accountsFor_Nil: "accountsFor input t = [] \<longleftrightarrow> (\<forall>c \<in> set (sn_credentials (ri_snapshot input)). \<not> servesTarget t c)"
  by (auto simp: accountsFor_def filter_empty_conv)

lemma eligibleTarget_step:
  "eligibleTarget input acc t = (fst acc @ targetPairs input t, snd acc @ targetRows input t)"
proof (cases "known input t")
  case True
  let ?cs = "sn_credentials (ri_snapshot input)"
  define s where "s = foldl (eligibleAccount input t) \<lparr>tl_pairs = fst acc, tl_excluded = snd acc,
    tl_pinSeen = False, tl_providerSeen = False, tl_servedAny = False\<rparr> ?cs"
  have s: "tl_pairs s = fst acc @ map (mkPair input t) (filter (admissible input t) ?cs)"
    "tl_excluded s = snd acc @ concat (map (dropRow input t) (accountsFor input t))"
    "tl_providerSeen s \<longleftrightarrow> (\<exists>c \<in> set ?cs. cr_provider c = tg_provider t)"
    "tl_servedAny s \<longleftrightarrow> accountsFor input t \<noteq> []"
    "tg_credentialId t \<noteq> None \<Longrightarrow> tl_pinSeen s \<longleftrightarrow> accountsFor input t \<noteq> []"
    by (simp_all add: s_def eligibleAccount_loop accountsFor_Nil) (simp add: accountsFor_def)
  have "eligibleTarget input acc t = (tl_pairs s, (tl_excluded s @
      (if tg_credentialId t = None \<and> tl_providerSeen s \<and> \<not> tl_servedAny s
       then [targetRow KTarget [] t ''endpoint:unmatched''] else [])) @
      (case tg_credentialId t of
         Some pin \<Rightarrow> if \<not> tl_pinSeen s then [targetRow KAccount pin t ''pin:missing''] else []
       | None \<Rightarrow> []))"
    unfolding eligibleTarget_def s_def Let_def using True by (simp add: known_map_of)
  also have "\<dots> = (fst acc @ targetPairs input t, snd acc @ targetRows input t)"
    using True by (cases "tg_credentialId t"; cases "accountsFor input t = []")
      (simp_all add: s targetPairs_def targetRows_def)
  finally show ?thesis .
next
  case False
  then show ?thesis by (simp add: eligibleTarget_def known_map_of targetPairs_def targetRows_def)
qed

lemma eligible_concat:
  "eligible input = (concat (map (targetPairs input) (vm_targets (ri_model input))),
     concat (map (targetRows input) (vm_targets (ri_model input))))"
proof -
  have "foldl (eligibleTarget input) acc ts =
      (fst acc @ concat (map (targetPairs input) ts), snd acc @ concat (map (targetRows input) ts))" for acc ts
    by (induction ts arbitrary: acc) (simp_all add: eligibleTarget_step)
  then show ?thesis by (simp add: eligible_def)
qed

text \<open>
  C26: the pairs the filter admits, exactly and in order. They are the pairs of a target
  (in the model's order) whose provider is installed and an account (in the snapshot's
  order) that serves the target, whose request no other provider owns a part of, whose
  target offers every needed capability, and whose account is enabled, not expired beyond
  refresh, not parked, not held by an open breaker still cooling down, and not out of
  quota. The pair is a probe exactly when its breaker is not closed.
\<close>

theorem eligible_pairs_exact:
  "fst (eligible input) =
     [\<lparr>pr_credential = c, pr_target = t, pr_probe = probing input t c\<rparr>.
        t \<leftarrow> vm_targets (ri_model input), known input t,
        c \<leftarrow> sn_credentials (ri_snapshot input), admissible input t c]"
proof -
  have "targetPairs input t = (if known input t then
      [mkPair input t c. c \<leftarrow> sn_credentials (ri_snapshot input), admissible input t c] else [])" for t
    by (simp add: targetPairs_def concat_map_if)
  then show ?thesis by (simp add: eligible_concat cong: map_cong)
qed

subsection \<open>Every omission is explained\<close>

lemma eligible_sets:
  "p \<in> set (fst (eligible input)) \<longleftrightarrow>
     (\<exists>t \<in> set (vm_targets (ri_model input)). known input t
        \<and> (\<exists>c \<in> set (sn_credentials (ri_snapshot input)). admissible input t c \<and> p = mkPair input t c))"
  "r \<in> set (snd (eligible input)) \<longleftrightarrow>
     (\<exists>t \<in> set (vm_targets (ri_model input)). r \<in> set (targetRows input t))"
  by (auto simp: eligible_concat targetPairs_def)

lemma targetRow_sel [simp]:
  "ex_kind (targetRow k i t r) = k" "ex_credentialId (targetRow k i t r) = i"
  "ex_model (targetRow k i t r) = tg_model t" "ex_reason (targetRow k i t r) = r"
  by (simp_all add: targetRow_def)

lemma dropRow_inadmissible:
  assumes "servesTarget t c" and "\<not> admissible input t c"
  obtains r where "dropRow input t c = [r]" and "ex_credentialId r = cr_id c" and "ex_model r = tg_model t"
proof -
  from assms obtain kind reason where "judge input t c = Drop kind reason" by (rule judge_inadmissible)
  then show thesis by (intro that [of "targetRow kind (cr_id c) t reason"]) (simp_all add: dropRow_def)
qed

lemma targetRows_account:
  assumes "known input t" and "c \<in> set (sn_credentials (ri_snapshot input))" and "servesTarget t c"
  shows "set (dropRow input t c) \<subseteq> set (targetRows input t)"
proof -
  have "c \<in> set (accountsFor input t)" using assms by (simp add: accountsFor_def)
  then show ?thesis using assms(1) by (auto simp: targetRows_def)
qed

lemma eligible_pairI:
  "\<lbrakk>t \<in> set (vm_targets (ri_model input)); known input t; c \<in> set (sn_credentials (ri_snapshot input));
    admissible input t c\<rbrakk> \<Longrightarrow> mkPair input t c \<in> set (fst (eligible input))"
  by (auto simp: eligible_sets(1))

lemma eligible_rowI:
  "\<lbrakk>t \<in> set (vm_targets (ri_model input)); r \<in> set (targetRows input t)\<rbrakk> \<Longrightarrow> r \<in> set (snd (eligible input))"
  by (auto simp: eligible_sets(2))

lemma targetRows_model: "r \<in> set (targetRows input t) \<Longrightarrow> ex_model r = tg_model t"
  by (auto simp: targetRows_def dropRow_def split: if_splits option.splits verdict.splits)

lemma targetRows_Nil:
  assumes "targetRows input t = []"
  shows "known input t
    \<and> (\<forall>c \<in> set (sn_credentials (ri_snapshot input)). servesTarget t c \<longrightarrow> admissible input t c)
    \<and> ((\<forall>c \<in> set (sn_credentials (ri_snapshot input)). \<not> servesTarget t c) \<longrightarrow> tg_credentialId t = None
       \<and> (\<forall>c \<in> set (sn_credentials (ri_snapshot input)). cr_provider c \<noteq> tg_provider t))"
proof -
  from assms have known: "known input t" by (auto simp: targetRows_def split: if_splits)
  moreover have "admissible input t c" if "c \<in> set (sn_credentials (ri_snapshot input))" "servesTarget t c" for c
    using targetRows_account [OF known that] assms that by (simp add: dropRow_admissible [symmetric])
  ultimately show ?thesis
    using assms by (auto simp: targetRows_def accountsFor_Nil [symmetric] split: option.splits if_splits)
qed

text \<open>
  C27: no pair disappears without an explanation. An account that serves an installed
  target is either paired with it or named in an exclusion row for the target's model; and
  a target with no pair and no row of its own can only be an unpinned one whose provider
  has no account connected at all.
\<close>

theorem eligible_explains_omissions:
  assumes "t \<in> set (vm_targets (ri_model input))"
  shows "(known input t \<and> c \<in> set (sn_credentials (ri_snapshot input)) \<and> servesTarget t c \<longrightarrow>
      (\<exists>p \<in> set (fst (eligible input)). pr_target p = t \<and> pr_credential p = c)
      \<or> (\<exists>r \<in> set (snd (eligible input)). ex_credentialId r = cr_id c \<and> ex_model r = tg_model t))
    \<and> ((\<forall>p \<in> set (fst (eligible input)). pr_target p \<noteq> t)
       \<and> (\<forall>r \<in> set (snd (eligible input)). ex_model r \<noteq> tg_model t) \<longrightarrow>
      known input t \<and> tg_credentialId t = None
      \<and> (\<forall>c \<in> set (sn_credentials (ri_snapshot input)). cr_provider c \<noteq> tg_provider t))"
proof (intro conjI impI)
  assume c: "known input t \<and> c \<in> set (sn_credentials (ri_snapshot input)) \<and> servesTarget t c"
  show "(\<exists>p \<in> set (fst (eligible input)). pr_target p = t \<and> pr_credential p = c)
      \<or> (\<exists>r \<in> set (snd (eligible input)). ex_credentialId r = cr_id c \<and> ex_model r = tg_model t)"
  proof (cases "admissible input t c")
    case True
    with c assms eligible_pairI [of t input c] show ?thesis by force
  next
    case False
    with c obtain r where r: "dropRow input t c = [r]" "ex_credentialId r = cr_id c" "ex_model r = tg_model t"
      using dropRow_inadmissible by metis
    with c targetRows_account [of input t c] have "r \<in> set (targetRows input t)" by simp
    with r eligible_rowI [OF assms, of r] show ?thesis by blast
  qed
next
  assume none: "(\<forall>p \<in> set (fst (eligible input)). pr_target p \<noteq> t)
    \<and> (\<forall>r \<in> set (snd (eligible input)). ex_model r \<noteq> tg_model t)"
  then have "targetRows input t = []"
    using eligible_rowI [OF assms] targetRows_model [of _ input t] by (metis list.set_intros(1) neq_Nil_conv)
  from targetRows_Nil [OF this] none show "known input t" "tg_credentialId t = None"
    "\<forall>c \<in> set (sn_credentials (ri_snapshot input)). cr_provider c \<noteq> tg_provider t"
    using eligible_pairI [OF assms] by force+
qed

subsection \<open>A small installation\<close>

definition sample_account :: "string \<Rightarrow> credential_view" where
  "sample_account i = \<lparr>cr_id = i, cr_provider = ''anthropic'', cr_label = i, cr_authType = ApiKeyAuth,
     cr_enabled = True, cr_tier = 1, cr_weight = 1, cr_expiresAt = None, cr_accountEmail = None,
     cr_providerData = [], cr_disabledReason = None, cr_disabledAt = None, cr_hasRefreshToken = False,
     cr_tokenVersion = 0, cr_createdAt = 0, cr_updatedAt = 0\<rparr>"

definition sample_target :: "provider_id \<Rightarrow> target" where
  "sample_target p = \<lparr>tg_provider = p, tg_model = ''m'', tg_tier = 1, tg_weight = 1,
     tg_costPerMTok = \<lparr>tp_input = 3, tp_output = 15, tp_cacheRead = None, tp_cacheWrite5m = None,
       tp_cacheWrite1h = None\<rparr>,
     tg_contextWindow = None, tg_maxOutputTokens = None,
     tg_capabilities = \<lparr>cap_tools = True, cap_images = False, cap_reasoning = True\<rparr>,
     tg_credentialId = None, tg_endpointId = None\<rparr>"

definition sample_descriptor :: descriptor where
  "sample_descriptor = \<lparr>pd_capabilities = \<lparr>cap_tools = True, cap_images = True, cap_reasoning = True\<rparr>,
     pd_writeOverInput = \<lparr>wo_fiveMinute = 5 / 4, wo_oneHour = 2\<rparr>,
     pd_catalog = \<lparr>ce_defaultModel = ''m'', ce_authTypes = [ApiKeyAuth], ce_models = []\<rparr>,
     pd_modelPrefixes = [''claude-'']\<rparr>"

definition sample_chat :: "content_block list \<Rightarrow> chat_request" where
  "sample_chat blocks = \<lparr>rq_model = ''fast'', rq_system = None,
     rq_messages = [\<lparr>msg_role = User, msg_content = blocks\<rparr>], rq_tools = None, rq_toolChoice = None,
     rq_maxTokens = None, rq_temperature = None, rq_stopSequences = None, rq_stream = False,
     rq_reasoning = None, rq_vendor = None, rq_providerHeaders = None, rq_betas = None,
     rq_conversationId = None\<rparr>"

definition sample_native :: "provider_id \<Rightarrow> content_block" where
  "sample_native p = ProviderNativeBlock \<lparr>pn_provider = p, pn_blockType = ''server_tool_use'',
     pn_data = JObj [], pn_cacheControl = None\<rparr>"

definition sample_input :: "content_block list \<Rightarrow> credential_health list \<Rightarrow> instant \<Rightarrow> rank_input" where
  "sample_input blocks health now = \<lparr>ri_request = sample_chat blocks,
     ri_model = \<lparr>vm_id = ''fast'', vm_targets = [sample_target ''anthropic'', sample_target ''gone''],
       vm_strategy = Score, vm_isAlias = False\<rparr>,
     ri_snapshot = buildSnapshot [sample_account ''a'', sample_account ''b''] health [] [] DEFAULT_SETTINGS 0,
     ri_now = now, ri_rand = 0, ri_round = (\<lambda>x. x), ri_load = Map.empty, ri_recent = Map.empty,
     ri_providers = [(''anthropic'', sample_descriptor)]\<rparr>"

lemmas sample_defs = sample_account_def sample_target_def sample_descriptor_def sample_chat_def
  sample_native_def sample_input_def buildSnapshot_def DEFAULT_SETTINGS_def healthKey_def
  HEALTH_KEY_SEP_def

theorem eligible_explains_omissions_witness:
  "(\<exists>p \<in> set (fst (eligible (sample_input [] [] 0))). pr_target p = sample_target ''anthropic''
      \<and> pr_credential p = sample_account ''a'')
   \<or> (\<exists>r \<in> set (snd (eligible (sample_input [] [] 0))). ex_credentialId r = ''a'' \<and> ex_model r = ''m'')"
  using eligible_explains_omissions [of "sample_target ''anthropic''" "sample_input [] [] 0" "sample_account ''a''"]
  by (simp add: sample_defs known_def servesTarget_def namedByTarget_def namedByAccount_def)

text \<open>
  A request that carries parts of two providers is admitted nowhere, and every account
  that serves an installed target is reported with the provider mismatch as a fact about
  the target, which names no account to the client.
\<close>

theorem two_owners_admit_nothing:
  assumes "p \<in> owners_of (ri_request input)" and "q \<in> owners_of (ri_request input)" and "p \<noteq> q"
  shows "fst (eligible input) = []
    \<and> (\<forall>t \<in> set (vm_targets (ri_model input)). \<forall>c \<in> set (sn_credentials (ri_snapshot input)).
         known input t \<and> servesTarget t c \<longrightarrow>
         targetRow KTarget (cr_id c) t ''capability:providerNative'' \<in> set (snd (eligible input)))"
proof -
  have unfit: "\<not> owners_of (ri_request input) \<subseteq> {tg_provider t}" for t using assms by blast
  have none: "\<not> admissible input t c" for t c using unfit [of t] by (auto simp: admissible_def capable_def)
  then have "fst (eligible input) = []"
    by (auto simp: eligible_concat targetPairs_def)
  moreover have "targetRow KTarget (cr_id c) t ''capability:providerNative'' \<in> set (snd (eligible input))"
    if "t \<in> set (vm_targets (ri_model input))" "c \<in> set (sn_credentials (ri_snapshot input))"
      "known input t" "servesTarget t c" for t c
  proof (rule eligible_rowI [OF that(1)])
    have "missingCapability (requiredProviders (ri_request input)) need t = Some ''providerNative''" for need
      using unfit [of t] unfolding missingCapability_def requiredProviders_fit [symmetric] requiredProviders_set by simp
    then have "dropRow input t c = [targetRow KTarget (cr_id c) t ''capability:providerNative'']"
      by (simp add: dropRow_def judge_def)
    then show "targetRow KTarget (cr_id c) t ''capability:providerNative'' \<in> set (targetRows input t)"
      using targetRows_account [OF that(3,2,4)] by simp
  qed
  ultimately show ?thesis by blast
qed

theorem two_owners_admit_nothing_witness:
  "fst (eligible (sample_input [sample_native ''anthropic'', sample_native ''openai''] [] 0)) = []"
  using two_owners_admit_nothing [of "''anthropic''"
      "sample_input [sample_native ''anthropic'', sample_native ''openai''] [] 0" "''openai''"]
  by (simp add: sample_defs owners_of_def)

subsection \<open>Backoff of an open breaker\<close>

lemma cooldownMs_cap: "cooldownMs failures threshold base \<le> 3600000"
  by (simp add: cooldownMs_def Let_def)

lemma cooldownMs_below: "failures \<le> threshold \<Longrightarrow> cooldownMs failures threshold base = min base 3600000"
  by (simp add: cooldownMs_def)

lemma cooldownMs_mono:
  assumes "0 \<le> base" and "m \<le> n"
  shows "cooldownMs m threshold base \<le> cooldownMs n threshold base"
proof -
  have "(2 :: int) ^ nat (max 0 (int m - int threshold)) \<le> 2 ^ nat (max 0 (int n - int threshold))"
    using assms(2) by (intro power_increasing) auto
  then have "base * 2 ^ nat (max 0 (int m - int threshold)) \<le> base * 2 ^ nat (max 0 (int n - int threshold))"
    using assms(1) by (rule mult_left_mono)
  then show ?thesis by (simp add: cooldownMs_def Let_def)
qed

text \<open>
  C32: a dead account is still probed hourly. However many failures a breaker has counted,
  an account that opened an hour ago or more, is not parked, and would be admitted if it
  had no health row, is admitted, and as a probe.
\<close>

theorem open_breaker_probed_hourly:
  assumes "t \<in> set (vm_targets (ri_model input))" and "known input t"
    and "c \<in> set (sn_credentials (ri_snapshot input))"
    and "admissible (input\<lparr>ri_snapshot := (ri_snapshot input)\<lparr>sn_health := Map.empty\<rparr>\<rparr>) t c"
    and "healthOf input t c = Some h" and "h_breakerState h = Open" and "h_openedAt h = Some opened"
    and "opened + 3600000 \<le> ri_now input"
    and "\<forall>u. h_rateLimitedUntil h = Some u \<longrightarrow> u \<le> ri_now input"
  shows "\<lparr>pr_credential = c, pr_target = t, pr_probe = True\<rparr> \<in> set (fst (eligible input))"
proof -
  from assms(6-9) have "healthy input h"
    using cooldownMs_cap [of "h_consecutiveFailures h" "st_breakerThreshold (sn_settings (ri_snapshot input))"
      "st_breakerCooldownMs (sn_settings (ri_snapshot input))"]
    by (simp add: healthy_def)
  with assms(4,5) have "admissible input t c"
    by (simp add: admissible_def capable_def)
  moreover from assms(5,6) have "probing input t c" by (simp add: probing_def)
  ultimately show ?thesis using eligible_pairI [OF assms(1-3)] by simp
qed

definition sample_open :: credential_health where
  "sample_open = \<lparr>h_credentialId = ''a'', h_model = ''m'', h_breakerState = Open,
     h_consecutiveFailures = 50, h_openedAt = Some 0, h_rateLimitedUntil = None\<rparr>"

theorem open_breaker_probed_hourly_witness:
  "\<lparr>pr_credential = sample_account ''a'', pr_target = sample_target ''anthropic'', pr_probe = True\<rparr>
     \<in> set (fst (eligible (sample_input [] [sample_open] 3600000)))
   \<and> map (\<lambda>p. (cr_id (pr_credential p), pr_probe p)) (fst (eligible (sample_input [] [sample_open] 3599999)))
     = [(''b'', False)]"
proof
  show "\<lparr>pr_credential = sample_account ''a'', pr_target = sample_target ''anthropic'', pr_probe = True\<rparr>
     \<in> set (fst (eligible (sample_input [] [sample_open] 3600000)))"
    by (rule open_breaker_probed_hourly [where h = sample_open and opened = 0])
      (simp_all add: sample_defs sample_open_def known_def admissible_def capable_def healthOf_def
        servesTarget_def namedByTarget_def namedByAccount_def owners_of_def requiredCapabilities_def
        hasImage_def credentialExpired_def credentialPastExpiry_def)
  show "map (\<lambda>p. (cr_id (pr_credential p), pr_probe p)) (fst (eligible (sample_input [] [sample_open] 3599999)))
     = [(''b'', False)]"
    by code_simp
qed

end
