(* ===== verification/Router_Score.thy ===== *)
theory Router_Score
  imports Router_Filters
begin

section \<open>Quota headroom and the score of a candidate\<close>

text \<open>
  \<^verbatim>\<open>packages/router/src/quota.ts\<close> and \<^verbatim>\<open>score.ts\<close>: the pace-adjusted headroom of an
  account, the estimated cost of a request on a target, the health discount, and the
  weighted sum of six terms that ranks a pair. The lemmas bound every term by the unit
  interval, so a configured weight is the most its term can contribute.
\<close>

subsection \<open>Quota headroom\<close>

definition UNKNOWN_QUOTA :: rat where "UNKNOWN_QUOTA = 1 / 2"
definition QUOTA_FLOOR :: rat where "QUOTA_FLOOR = 1 / 10"

definition quotaStaleAfterMs :: "int \<Rightarrow> int" where
  "quotaStaleAfterMs pollIntervalMs = max pollIntervalMs 60000 * 3"

definition paceAdjusted :: "quota_window \<Rightarrow> instant \<Rightarrow> rat" where
  "paceAdjusted w now =
     (case qw_limit w of
        None \<Rightarrow> 1
      | Some limit \<Rightarrow>
          if limit \<le> 0 then 1
          else
            let headroom = max 0 (min 1 (1 - qw_used w / limit)) in
            case qw_resetsAt w of
              None \<Rightarrow> headroom
            | Some resetsAt \<Rightarrow>
                let duration = durationFor (qw_windowType w) (qw_windowMs w);
                    remaining = max (5 / 100) (min 1 (of_int (resetsAt - now) / of_int duration))
                in max 0 (min 1 (headroom / remaining)))"

definition quotaUsable :: "int \<Rightarrow> instant \<Rightarrow> quota_window \<Rightarrow> bool" where
  "quotaUsable staleAfter now w \<longleftrightarrow>
     (case qw_limit w of None \<Rightarrow> False | Some l \<Rightarrow> l > 0)
     \<and> qw_observedAt w > 0 \<and> now - qw_observedAt w \<le> staleAfter \<and> \<not> quotaRolledOver w now"

definition quotaHeadroom :: "credential_view \<Rightarrow> quota_window list \<Rightarrow> instant \<Rightarrow> int \<Rightarrow> rat" where
  "quotaHeadroom credential windows now pollIntervalMs =
     (let staleAfter = quotaStaleAfterMs pollIntervalMs;
          usable = filter (quotaUsable staleAfter now) windows
      in if usable = [] then (if cr_authType credential = ApiKeyAuth then 1 else UNKNOWN_QUOTA)
         else min_list (map (\<lambda>w. paceAdjusted w now) usable))"

subsection \<open>Score\<close>

definition UNKNOWN :: rat where "UNKNOWN = 1 / 2"

definition lowerIsBetter :: "int \<Rightarrow> int \<Rightarrow> int \<Rightarrow> rat" where
  "lowerIsBetter value minimum maximum =
     (if maximum = minimum then 1 else of_int (maximum - value) / of_int (maximum - minimum))"

definition ratio :: "rat \<Rightarrow> rat \<Rightarrow> rat" where
  "ratio value minimum = min 1 (minimum / value)"

definition bestPositive :: "rat list \<Rightarrow> rat option" where
  "bestPositive values =
     (let positive = filter (\<lambda>v. v > 0) values in if positive \<noteq> [] then Some (min_list positive) else None)"

definition EXPECTED_OUTPUT_TOKENS :: nat where "EXPECTED_OUTPUT_TOKENS = 1000"

record token_estimate =
  te_cachedTok :: nat
  te_freshTok :: nat
  te_outTok :: nat

definition estimateTokens :: "chat_request \<Rightarrow> token_estimate" where
  "estimateTokens rq = \<lparr>
     te_cachedTok = estimateCachedInputTokens rq,
     te_freshTok = nat (max 0 (int (estimateInputTokens rq) - int (estimateCachedInputTokens rq))),
     te_outTok = min (nullish (rq_maxTokens rq) EXPECTED_OUTPUT_TOKENS) EXPECTED_OUTPUT_TOKENS\<rparr>"

definition requestCost :: "target \<Rightarrow> token_estimate \<Rightarrow> rat" where
  "requestCost t e =
     of_nat (te_freshTok e) * tp_input (tg_costPerMTok t)
     + of_nat (te_cachedTok e) * cacheReadRate (tg_costPerMTok t)
     + of_nat (te_outTok e) * tp_output (tg_costPerMTok t)"

definition healthScore :: "credential_health option \<Rightarrow> rat" where
  "healthScore h =
     (let base = 1 / (1 + of_nat (case h of None \<Rightarrow> 0 | Some h \<Rightarrow> h_consecutiveFailures h))
      in case h of
           None \<Rightarrow> base
         | Some h \<Rightarrow> if h_breakerState h = Open \<or> h_breakerState h = HalfOpen then base * (1 / 2) else base)"

abbreviation pairKey :: "'a pair_scheme \<Rightarrow> string" where
  "pairKey p \<equiv> healthKey (cr_id (pr_credential p)) (tg_model (pr_target p))"

definition ewmaOf :: "rank_input \<Rightarrow> string \<Rightarrow> rat option" where
  "ewmaOf input key = (case ri_recent input key of None \<Rightarrow> None | Some r \<Rightarrow> ru_ewmaTtftMs r)"

definition headroomOf :: "rank_input \<Rightarrow> credential_view \<Rightarrow> rat" where
  "headroomOf input c =
     quotaHeadroom c (nullish (sn_quota (ri_snapshot input) (cr_id c)) []) (ri_now input)
       (st_quotaPollIntervalMs (sn_settings (ri_snapshot input)))"

definition scoreReasons :: "rank_input \<Rightarrow> int \<Rightarrow> int \<Rightarrow> rat option \<Rightarrow> rat option \<Rightarrow> pair \<Rightarrow> rat \<Rightarrow> reasons" where
  "scoreReasons input minTier maxTier bestCost bestLatency p ownCost =
     (let key = pairKey p; ewma = ewmaOf input key in \<lparr>
        rs_tier = lowerIsBetter (tg_tier (pr_target p)) minTier maxTier,
        rs_health = healthScore (sn_health (ri_snapshot input) key),
        rs_quota = headroomOf input (pr_credential p),
        rs_cost = (case bestCost of None \<Rightarrow> UNKNOWN | Some b \<Rightarrow> if ownCost \<le> 0 then UNKNOWN else ratio ownCost b),
        rs_latency = (case (ewma, bestLatency) of
            (Some e, Some b) \<Rightarrow> if e \<le> 0 then UNKNOWN else ratio e b
          | _ \<Rightarrow> UNKNOWN),
        rs_load = 1 / (1 + of_nat (nullish (ri_load input key) 0))\<rparr>)"

definition weighSum :: "scoring_weights \<Rightarrow> reasons \<Rightarrow> rat" where
  "weighSum w r = rs_tier r * w_tier w + rs_health r * w_health w + rs_quota r * w_quota w
     + rs_cost r * w_cost w + rs_latency r * w_latency w + rs_load r * w_load w"

definition score :: "pair list \<Rightarrow> rank_input \<Rightarrow> candidate list" where
  "score pairs input =
     (let w = st_weights (sn_settings (ri_snapshot input));
          tiers = map (\<lambda>p. tg_tier (pr_target p)) pairs;
          minTier = min_list tiers;
          maxTier = - min_list (map uminus tiers);
          tokens = estimateTokens (ri_request input);
          costs = map (\<lambda>p. requestCost (pr_target p) tokens) pairs;
          bestCost = bestPositive costs;
          bestLatency = bestPositive (concat (map (\<lambda>p. case ewmaOf input (pairKey p) of None \<Rightarrow> [] | Some e \<Rightarrow> [e]) pairs))
      in map (\<lambda>(p, ownCost).
           let reasons = scoreReasons input minTier maxTier bestCost bestLatency p ownCost;
               base = weighSum w reasons
           in \<lparr>pr_credential = pr_credential p, pr_target = pr_target p, pr_probe = pr_probe p,
               cd_score = base * cr_weight (pr_credential p) * tg_weight (pr_target p),
               cd_reasons = reasons\<rparr>) (zip pairs costs))"

subsection \<open>Headroom lies in the unit interval and is the tightest reading\<close>

lemma paceAdjusted_unit: "0 \<le> paceAdjusted w now \<and> paceAdjusted w now \<le> 1"
  by (auto simp: paceAdjusted_def Let_def split: option.splits)

lemma paceAdjusted_exhausted:
  "\<lbrakk>qw_limit w = Some l; 0 < l; l \<le> qw_used w\<rbrakk> \<Longrightarrow> paceAdjusted w now = 0"
  by (auto simp: paceAdjusted_def Let_def max_def min_def field_simps split: option.splits)

lemma quotaHeadroom_unit: "0 \<le> quotaHeadroom c ws now poll \<and> quotaHeadroom c ws now poll \<le> 1"
proof (cases "filter (quotaUsable (quotaStaleAfterMs poll) now) ws = []")
  case True
  then show ?thesis by (simp add: quotaHeadroom_def UNKNOWN_QUOTA_def)
next
  case False
  let ?xs = "map (\<lambda>w. paceAdjusted w now) (filter (quotaUsable (quotaStaleAfterMs poll) now) ws)"
  from False have "min_list ?xs \<in> set ?xs" by (intro min_list_in) simp
  then have "0 \<le> min_list ?xs \<and> min_list ?xs \<le> 1" by (auto simp: paceAdjusted_unit)
  with False show ?thesis by (simp add: quotaHeadroom_def Let_def)
qed

text \<open>
  An account's quota score lies in the unit interval and is set by its tightest
  believable window: it is at most the pace of every usable reading, and equals one of
  them whenever there is one. Readings never observed, too old, past their own reset or
  without a ceiling play no part.
\<close>

theorem quotaHeadroom_tightest:
  "0 \<le> quotaHeadroom c ws now poll \<and> quotaHeadroom c ws now poll \<le> 1
   \<and> (let usable = filter (quotaUsable (quotaStaleAfterMs poll) now) ws in
      if usable = [] then quotaHeadroom c ws now poll = (if cr_authType c = ApiKeyAuth then 1 else UNKNOWN_QUOTA)
      else quotaHeadroom c ws now poll = Min ((\<lambda>w. paceAdjusted w now) ` set usable))"
  using quotaHeadroom_unit [of c ws now poll]
  by (simp add: quotaHeadroom_def Let_def min_list_Min)

subsection \<open>Every term lies in the unit interval\<close>

lemma healthScore_unit: "0 < healthScore h \<and> healthScore h \<le> 1"
  by (auto simp: healthScore_def Let_def field_simps add_pos_nonneg split: option.splits)

lemma lowerIsBetter_unit: "\<lbrakk>a \<le> v; v \<le> b\<rbrakk> \<Longrightarrow> 0 \<le> lowerIsBetter v a b \<and> lowerIsBetter v a b \<le> 1"
  by (auto simp: lowerIsBetter_def divide_le_eq)

lemma ratio_unit: "\<lbrakk>0 < v; 0 < b\<rbrakk> \<Longrightarrow> 0 \<le> ratio v b \<and> ratio v b \<le> 1"
  by (simp add: ratio_def)

lemma bestPositive_pos: "bestPositive vs = Some b \<Longrightarrow> 0 < b"
  using min_list_in [of "filter (\<lambda>v. v > 0) vs"] by (auto simp: bestPositive_def Let_def split: if_splits)

fun unit_terms :: "reasons \<Rightarrow> bool" where
  "unit_terms r \<longleftrightarrow> list_all (\<lambda>x. 0 \<le> x \<and> x \<le> 1)
     [rs_tier r, rs_health r, rs_quota r, rs_cost r, rs_latency r, rs_load r]"

lemma scoreReasons_unit:
  assumes "minTier \<le> tg_tier (pr_target p)" and "tg_tier (pr_target p) \<le> maxTier"
    and "\<And>b. bestCost = Some b \<Longrightarrow> 0 < b" and "\<And>b. bestLatency = Some b \<Longrightarrow> 0 < b"
  shows "unit_terms (scoreReasons input minTier maxTier bestCost bestLatency p ownCost)"
  using assms healthScore_unit [of "sn_health (ri_snapshot input) (pairKey p)"]
  by (auto simp: scoreReasons_def Let_def lowerIsBetter_unit ratio_unit UNKNOWN_def headroomOf_def
      quotaHeadroom_unit split: option.splits)

lemma max_list_ge: "x \<in> set xs \<Longrightarrow> (f x :: int) \<le> - min_list (map (uminus \<circ> f) xs)"
  using min_list_le [of "- f x" "map (uminus \<circ> f) xs"] by auto

lemma weighSum_le:
  assumes "unit_terms r" and "0 \<le> w_tier w" "0 \<le> w_health w" "0 \<le> w_quota w" "0 \<le> w_cost w"
    "0 \<le> w_latency w" "0 \<le> w_load w"
  shows "0 \<le> weighSum w r
    \<and> weighSum w r \<le> w_tier w + w_health w + w_quota w + w_cost w + w_latency w + w_load w"
proof -
  have "0 \<le> x * a \<and> x * a \<le> a" if "0 \<le> x" "x \<le> 1" "0 \<le> a" for x a :: rat
    using that by (simp add: mult_left_le_one_le)
  with assms show ?thesis
    by (auto simp: weighSum_def intro!: add_mono add_nonneg_nonneg)
qed

lemma score_unfold:
  "\<exists>minTier maxTier bestCost bestLatency.
     (\<forall>p \<in> set pairs. minTier \<le> tg_tier (pr_target p) \<and> tg_tier (pr_target p) \<le> maxTier)
     \<and> (\<forall>b. bestCost = Some b \<longrightarrow> 0 < b) \<and> (\<forall>b. bestLatency = Some b \<longrightarrow> 0 < b)
     \<and> score pairs input = map (\<lambda>p.
          let r = scoreReasons input minTier maxTier bestCost bestLatency p
                (requestCost (pr_target p) (estimateTokens (ri_request input)))
          in \<lparr>pr_credential = pr_credential p, pr_target = pr_target p, pr_probe = pr_probe p,
              cd_score = weighSum (st_weights (sn_settings (ri_snapshot input))) r
                 * cr_weight (pr_credential p) * tg_weight (pr_target p),
              cd_reasons = r\<rparr>) pairs"
proof -
  let ?tiers = "map (\<lambda>p. tg_tier (pr_target p)) pairs"
  have zip: "map f (zip xs (map g xs)) = map (\<lambda>x. f (x, g x)) xs"
    for f :: "pair \<times> rat \<Rightarrow> candidate" and g xs by (induction xs) auto
  show ?thesis
    by (rule exI [of _ "min_list ?tiers"], rule exI [of _ "- min_list (map uminus ?tiers)"],
        rule exI [of _ "bestPositive (map (\<lambda>p. requestCost (pr_target p) (estimateTokens (ri_request input))) pairs)"],
        rule exI [of _ "bestPositive (concat (map (\<lambda>p. case ewmaOf input (pairKey p) of None \<Rightarrow> [] | Some e \<Rightarrow> [e]) pairs))"])
      (auto simp: score_def Let_def zip bestPositive_pos intro!: min_list_le max_list_ge)
qed

text \<open>
  Scoring keeps every pair, in order, and each of its six terms lies in the unit
  interval whatever the other candidates are; so with non-negative weights a score is
  between zero and the sum of the configured weights, scaled by the account's and the
  target's own weight.
\<close>

theorem score_terms_bounded:
  fixes input :: rank_input
  defines "w \<equiv> st_weights (sn_settings (ri_snapshot input))"
  assumes "0 \<le> w_tier w" "0 \<le> w_health w" "0 \<le> w_quota w" "0 \<le> w_cost w" "0 \<le> w_latency w" "0 \<le> w_load w"
    and "\<forall>p \<in> set pairs. 0 \<le> cr_weight (pr_credential p) \<and> 0 \<le> tg_weight (pr_target p)"
  shows "map pair.truncate (score pairs input) = pairs
    \<and> (\<forall>c \<in> set (score pairs input). unit_terms (cd_reasons c) \<and> 0 \<le> cd_score c
         \<and> cd_score c \<le> (w_tier w + w_health w + w_quota w + w_cost w + w_latency w + w_load w)
             * cr_weight (pr_credential c) * tg_weight (pr_target c))"
proof -
  obtain a b bc bl where tiers: "\<forall>p \<in> set pairs. a \<le> tg_tier (pr_target p) \<and> tg_tier (pr_target p) \<le> b"
    and best: "\<forall>x. bc = Some x \<longrightarrow> 0 < x" "\<forall>x. bl = Some x \<longrightarrow> 0 < x"
    and eq: "score pairs input = map (\<lambda>p.
          let r = scoreReasons input a b bc bl p
                (requestCost (pr_target p) (estimateTokens (ri_request input)))
          in \<lparr>pr_credential = pr_credential p, pr_target = pr_target p, pr_probe = pr_probe p,
              cd_score = weighSum w r * cr_weight (pr_credential p) * tg_weight (pr_target p),
              cd_reasons = r\<rparr>) pairs"
    using score_unfold [of pairs input] unfolding w_def by blast
  have "map pair.truncate (score pairs input) = pairs"
    by (auto simp: eq Let_def pair.defs comp_def intro!: map_idI pair.equality)
  moreover have "unit_terms (scoreReasons input a b bc bl p cost)" if "p \<in> set pairs" for p cost
    using tiers best that by (intro scoreReasons_unit) auto
  ultimately show ?thesis
    using weighSum_le [of _ w] assms(2-8)
    by (auto simp: eq Let_def simp del: unit_terms.simps intro!: mult_right_mono mult_nonneg_nonneg)
qed

definition sample_pair :: "string \<Rightarrow> pair" where
  "sample_pair i = \<lparr>pr_credential = sample_account i, pr_target = sample_target ''anthropic'', pr_probe = False\<rparr>"

theorem score_terms_bounded_witness:
  "\<exists>c. score [sample_pair ''a''] (sample_input [] [] 0) = [c] \<and> pair.truncate c = sample_pair ''a''
     \<and> unit_terms (cd_reasons c) \<and> 0 \<le> cd_score c \<and> cd_score c \<le> 19"
proof -
  have w: "st_weights (sn_settings (ri_snapshot (sample_input [] [] 0)))
      = \<lparr>w_tier = 10, w_health = 3, w_quota = 2, w_cost = 1, w_latency = 1, w_load = 2\<rparr>"
    by (simp add: sample_defs)
  note bounds = score_terms_bounded [of "sample_input [] [] 0" "[sample_pair ''a'']", unfolded w]
  then obtain c where "score [sample_pair ''a''] (sample_input [] [] 0) = [c]" "pair.truncate c = sample_pair ''a''"
    by (auto simp: sample_pair_def sample_defs)
  moreover from this have "cr_weight (pr_credential c) = 1" "tg_weight (pr_target c) = 1"
    by (auto simp: pair.defs sample_pair_def sample_defs)
  ultimately show ?thesis using bounds by (auto simp: sample_pair_def sample_defs)
qed

end
