(* ===== verification/Router_Rank.thy ===== *)
theory Router_Rank
  imports Router_Score
begin

section \<open>Ranking\<close>

text \<open>
  \<^verbatim>\<open>packages/router/src/index.ts\<close>: the four strategies that order the eligible pairs. The
  sorts of the source are stable and its comparators are lexicographic, so each is a
  stable \<open>sort_key\<close> on the tuple the comparator walks; subtracting two infinite idle times
  gives no number, which the source's sort reads as a tie, so an account never used here
  has the least idle key. The lemmas show that ranking permutes the eligible pairs,
  what order each strategy promises, and that the lottery draws an account on exactly
  its share of the unit interval.
\<close>

abbreviation byScore :: "candidate list \<Rightarrow> candidate list" where
  "byScore cs \<equiv> sort_key (\<lambda>c. - cd_score c) cs"

text \<open>
  The draw: the first index at which the cursor, less the weights so far, is below zero. Every
  product, sum and difference of it is rounded; what is not is the arithmetic of the scores.
\<close>

fun draw :: "(rat \<Rightarrow> rat) \<Rightarrow> rat \<Rightarrow> rat list \<Rightarrow> nat option" where
  "draw fl cursor [] = None"
| "draw fl cursor (w # ws) = (let cursor = fl (cursor - w) in
     if cursor < 0 then Some 0 else map_option Suc (draw fl cursor ws))"

definition drawWeight :: "(rat \<Rightarrow> rat) \<Rightarrow> (candidate \<Rightarrow> rat) \<Rightarrow> (candidate \<Rightarrow> rat) \<Rightarrow> candidate \<Rightarrow> rat" where
  "drawWeight fl headroom health c =
     fl (fl (fl (cr_weight (pr_credential c) * tg_weight (pr_target c)) * headroom c) * health c)"

definition drawTotal :: "(rat \<Rightarrow> rat) \<Rightarrow> rat list \<Rightarrow> rat" where
  "drawTotal fl weights = foldl (\<lambda>total w. fl (total + w)) 0 weights"

definition weightedShuffle ::
  "(rat \<Rightarrow> rat) \<Rightarrow> candidate list \<Rightarrow> rat \<Rightarrow> (candidate \<Rightarrow> rat) \<Rightarrow> (candidate \<Rightarrow> rat) \<Rightarrow> candidate list" where
  "weightedShuffle fl candidates rand headroom health =
     (let weights = map (drawWeight fl headroom health) candidates;
          total = drawTotal fl weights
      in if total \<le> 0 then byScore candidates
         else
           let chosen = nullish (draw fl (fl (rand * total)) weights) (length candidates - 1);
               head = candidates ! chosen;
               tail = byScore (take chosen candidates @ drop (Suc chosen) candidates)
           in head # tail)"

definition idleKey :: "rank_input \<Rightarrow> candidate \<Rightarrow> nat \<times> int" where
  "idleKey input c =
     (case ri_recent input (pairKey c) of
        None \<Rightarrow> (0, 0)
      | Some r \<Rightarrow> (1, - (ri_now input - ru_lastReleasedAt r)))"

definition inflightOf :: "rank_input \<Rightarrow> candidate \<Rightarrow> nat" where
  "inflightOf input c = nullish (ri_load input (pairKey c)) 0"

definition spentKey :: "rank_input \<Rightarrow> candidate \<Rightarrow> nat" where
  "spentKey input c = (if headroomOf input (pr_credential c) < QUOTA_FLOOR then 1 else 0)"

definition rank :: "rank_input \<Rightarrow> rank_result" where
  "rank input =
     (let (pairs, excluded) = eligible input in
      if pairs = [] then \<lparr>rr_candidates = [], rr_excluded = excluded\<rparr>
      else
        let scored = score pairs input;
            headroom = (\<lambda>c. headroomOf input (pr_credential c));
            health = (\<lambda>c. healthScore (sn_health (ri_snapshot input) (pairKey c)));
            candidates = (case vm_strategy (ri_model input) of
                Priority \<Rightarrow> sort_key (\<lambda>c. (tg_tier (pr_target c), - cd_score c)) scored
              | RoundRobin \<Rightarrow> sort_key (\<lambda>c. (spentKey input c, inflightOf input c, idleKey input c)) scored
              | Weighted \<Rightarrow> weightedShuffle (ri_round input) scored (ri_rand input) headroom health
              | Score \<Rightarrow> byScore scored)
        in \<lparr>rr_candidates = candidates, rr_excluded = excluded\<rparr>)"

subsection \<open>The lottery\<close>

lemma drawTotal_exact: "drawTotal (\<lambda>x. x) ws = sum_list ws"
proof -
  have "foldl (+) a ws = a + sum_list ws" for a :: rat by (induction ws arbitrary: a) auto
  then show ?thesis by (simp add: drawTotal_def)
qed

lemma draw_below: "draw fl cursor ws = Some i \<Longrightarrow> i < length ws"
  by (induction fl cursor ws arbitrary: i rule: draw.induct) (auto simp: Let_def split: if_splits)

text \<open>What a rounding must not do for the draw to be sound is make a negative number of another.\<close>

lemma draw_positive:
  assumes "\<forall>x. 0 \<le> x \<longrightarrow> 0 \<le> fl x" and "draw fl cursor ws = Some i" and "0 \<le> cursor"
  shows "0 < ws ! i"
  using assms(2,3)
proof (induction ws arbitrary: cursor i)
  case (Cons w ws)
  show ?case
  proof (cases "fl (cursor - w) < 0")
    case True
    then have "cursor - w < 0" using assms(1) by (meson not_le)
    with Cons.prems True show ?thesis by (auto simp: Let_def)
  next
    case False
    with Cons.prems obtain j where "draw fl (fl (cursor - w)) ws = Some j" "i = Suc j" by (auto simp: Let_def)
    with Cons.IH [of "fl (cursor - w)" j] False show ?thesis by simp
  qed
qed simp

text \<open>In exact arithmetic the draw falls on the stretch of the drawn weight, and on one.\<close>

lemma draw_Some:
  "draw (\<lambda>x. x) cursor ws = Some i \<Longrightarrow> cursor < sum_list (take (Suc i) ws)
     \<and> (i = 0 \<or> sum_list (take i ws) \<le> cursor)"
proof (induction ws arbitrary: cursor i)
  case (Cons w ws)
  show ?case
  proof (cases "cursor - w < 0")
    case True
    with Cons.prems show ?thesis by auto
  next
    case False
    with Cons.prems obtain k where k: "draw (\<lambda>x. x) (cursor - w) ws = Some k" "i = Suc k"
      by (auto simp: Let_def)
    from Cons.IH [OF k(1)] False k(2) show ?thesis by auto
  qed
qed simp

lemma draw_None: "draw (\<lambda>x. x) cursor ws = None \<Longrightarrow> ws \<noteq> [] \<Longrightarrow> sum_list ws \<le> cursor"
proof (induction ws arbitrary: cursor)
  case (Cons w ws)
  then have "draw (\<lambda>x. x) (cursor - w) ws = None" "w \<le> cursor" by (auto simp: Let_def split: if_splits)
  with Cons.IH [of "cursor - w"] show ?case by (cases "ws = []") auto
qed simp

lemma mset_pick: "i < length xs \<Longrightarrow> mset (xs ! i # take i xs @ drop (Suc i) xs) = mset xs"
  by (metis (no_types, lifting) id_take_nth_drop mset.simps(2) mset_append union_mset_add_mset_right)

lemma weightedShuffle_mset:
  assumes "candidates \<noteq> []"
  shows "mset (weightedShuffle fl candidates r room health) = mset candidates"
proof -
  let ?ws = "map (drawWeight fl room health) candidates"
  have "nullish (draw fl (fl (r * drawTotal fl ?ws)) ?ws) (length candidates - 1) < length candidates"
    using assms draw_below [of fl "fl (r * drawTotal fl ?ws)" ?ws] by (auto split: option.splits)
  from mset_pick [OF this] show ?thesis
    by (simp add: weightedShuffle_def Let_def)
qed

text \<open>
  C34: the lottery draws by weight. When the weights add up to something, the candidate it
  puts first has a weight, or is the last of the list: whatever the rounding of the doubles,
  as long as it turns no other number negative, a candidate without headroom can be drawn in
  the last place only. Were the arithmetic exact and no weight negative, the draw would be
  fair: a uniform number in the half-open unit interval falls to candidate \<open>i\<close> exactly on the
  stretch from the weights before it to the weights up to it, as shares of the total, and a
  candidate without weight would never be drawn. Doubles are not exact, and the last place
  is an exception the source falls into (\<open>exhausted_account_drawn\<close> below).
\<close>

theorem weightedShuffle_fair:
  fixes candidates :: "candidate list" and room health :: "candidate \<Rightarrow> rat" and fl :: "rat \<Rightarrow> rat"
  defines "ws \<equiv> map (drawWeight fl room health) candidates"
  assumes "\<forall>x. 0 \<le> x \<longrightarrow> 0 \<le> fl x" and "0 < drawTotal fl ws" and "0 \<le> r"
  shows "\<exists>i < length candidates. hd (weightedShuffle fl candidates r room health) = candidates ! i
    \<and> (0 < ws ! i \<or> Suc i = length candidates)
    \<and> (fl = (\<lambda>x. x) \<and> r < 1 \<and> (\<forall>w \<in> set ws. 0 \<le> w) \<longrightarrow>
         sum_list (take i ws) / sum_list ws \<le> r \<and> r < sum_list (take (Suc i) ws) / sum_list ws \<and> 0 < ws ! i)"
proof -
  have len: "length ws = length candidates" by (simp add: ws_def)
  have "ws \<noteq> []" using assms(3) by (auto simp: drawTotal_def)
  define cursor where "cursor = fl (r * drawTotal fl ws)"
  have nonneg: "0 \<le> cursor" using assms(2-4) by (simp add: cursor_def)
  have head: "hd (weightedShuffle fl candidates r room health) = candidates ! nullish (draw fl cursor ws) (length candidates - 1)"
    using assms(3) by (simp add: weightedShuffle_def Let_def cursor_def ws_def)
  show ?thesis
  proof (cases "draw fl cursor ws")
    case None
    have "fl \<noteq> (\<lambda>x. x) \<or> \<not> r < 1"
    proof (rule ccontr)
      assume "\<not> ?thesis"
      then have exact: "fl = (\<lambda>x. x)" and "r < 1" by auto
      with None \<open>ws \<noteq> []\<close> have "sum_list ws \<le> r * sum_list ws" "0 < sum_list ws"
        using draw_None [of cursor ws] assms(3) by (auto simp: cursor_def drawTotal_exact)
      with \<open>r < 1\<close> show False by (simp add: mult_le_cancel_right1)
    qed
    moreover have "length candidates - 1 < length candidates" "Suc (length candidates - 1) = length candidates"
      using \<open>ws \<noteq> []\<close> unfolding len [symmetric] by simp_all
    ultimately show ?thesis using None head by (intro exI [of _ "length candidates - 1"]) auto
  next
    case (Some i)
    have pos: "0 < ws ! i" by (rule draw_positive [OF assms(2) Some nonneg])
    have stretch: "sum_list (take i ws) / sum_list ws \<le> r \<and> r < sum_list (take (Suc i) ws) / sum_list ws"
      if exact: "fl = (\<lambda>x. x)"
    proof -
      have total: "0 < sum_list ws" using assms(3) unfolding exact drawTotal_exact .
      have cursor: "cursor = r * sum_list ws" by (simp add: cursor_def exact drawTotal_exact)
      from draw_Some [OF Some [unfolded exact]] nonneg
      have "sum_list (take i ws) \<le> cursor" "cursor < sum_list (take (Suc i) ws)" by (cases i; simp)+
      then show ?thesis using total by (simp add: cursor pos_divide_le_eq pos_less_divide_eq)
    qed
    show ?thesis
      using head Some pos stretch draw_below [OF Some] len by (intro exI [of _ i]) auto
  qed
qed

subsection \<open>Doubles\<close>

text \<open>Rounding to the nearest number with 53 binary digits, ties to even, away from the ends of the range.\<close>

fun binade :: "nat \<Rightarrow> rat \<Rightarrow> rat \<times> rat" where
  "binade 0 x = (x, 1)"
| "binade (Suc n) x =
     (if 9007199254740992 \<le> x then (let (m, u) = binade n (x / 2) in (m, u * 2))
      else if x < 4503599627370496 then (let (m, u) = binade n (x * 2) in (m, u / 2))
      else (x, 1))"

definition roundEven :: "rat \<Rightarrow> rat" where
  "roundEven x = (let n = \<lfloor>x\<rfloor>; d = x - of_int n in
     of_int (if d < 1 / 2 \<or> d = 1 / 2 \<and> even n then n else n + 1))"

definition toDouble :: "rat \<Rightarrow> rat" where
  "toDouble x = (if x = 0 then 0 else let (m, u) = binade 1100 \<bar>x\<bar> in sgn x * roundEven m * u)"

lemma toDouble_keeps_sign: "0 \<le> x \<Longrightarrow> 0 \<le> toDouble x"
proof -
  have unit: "0 \<le> x \<Longrightarrow> 0 \<le> fst (binade n x) \<and> 0 \<le> snd (binade n x)" for n x
    by (induction n x rule: binade.induct) (auto simp: Let_def split_def)
  have "0 \<le> roundEven x" if "0 \<le> x" for x using that by (simp add: roundEven_def Let_def)
  then show "0 \<le> x \<Longrightarrow> 0 \<le> toDouble x"
    using unit [of x 1100] by (auto simp: toDouble_def split_def Let_def)
qed

lemma binade_step:
  "9007199254740992 \<le> x \<Longrightarrow> 0 < n \<Longrightarrow> binade n x = (let (m, u) = binade (n - 1) (x / 2) in (m, u * 2))"
  "x < 4503599627370496 \<Longrightarrow> 0 < n \<Longrightarrow> binade n x = (let (m, u) = binade (n - 1) (x * 2) in (m, u / 2))"
  "4503599627370496 \<le> x \<Longrightarrow> x < 9007199254740992 \<Longrightarrow> binade n x = (x, 1)"
  by (cases n; simp)+

definition sample_candidate :: "string \<Rightarrow> candidate" where
  "sample_candidate i = \<lparr>pr_credential = sample_account i, pr_target = sample_target ''anthropic'',
     pr_probe = False, cd_score = 1,
     cd_reasons = \<lparr>rs_tier = 1, rs_health = 1, rs_quota = 1, rs_cost = 1, rs_latency = 1, rs_load = 1\<rparr>\<rparr>"

definition sample_three :: "candidate list" where
  "sample_three = map sample_candidate [''a'', ''b'', ''c'']"

definition sample_headroom :: "candidate \<Rightarrow> rat" where
  "sample_headroom c = (if cr_id (pr_credential c) = ''a'' then toDouble (3 / 10)
     else if cr_id (pr_credential c) = ''b'' then toDouble (7 / 10) else 0)"

definition a_weight :: rat where "a_weight = 5404319552844595 / 18014398509481984"
definition b_weight :: rat where "b_weight = 3152519739159347 / 4503599627370496"

lemma floors:
  "\<lfloor>27021597764222976 / 5 :: rat\<rfloor> = 5404319552844595" "\<lfloor>31525197391593472 / 5 :: rat\<rfloor> = 6305039478318694"
  "\<lfloor>18014398509481983 / 2 :: rat\<rfloor> = 9007199254740991" "\<lfloor>12610078956637387 / 2 :: rat\<rfloor> = 6305039478318693"
  by (simp_all add: floor_eq_iff)

lemmas round_simps = a_weight_def b_weight_def toDouble_def binade_step roundEven_def Let_def floors

lemma sample_rounds:
  "toDouble (3 / 10) = a_weight" "toDouble (7 / 10) = b_weight"
  "toDouble a_weight = a_weight" "toDouble b_weight = b_weight" "toDouble 0 = 0" "toDouble 1 = 1"
  "toDouble (a_weight + b_weight) = 1" "toDouble (1 - 1 / 2 ^ 53) = 1 - 1 / 2 ^ 53"
  "toDouble (1 - 1 / 2 ^ 53 - a_weight) = b_weight"
  by (simp_all add: round_simps)

lemma sample_weights: "map (drawWeight toDouble sample_headroom (\<lambda>c. 1)) sample_three = [a_weight, b_weight, 0]"
  by (simp add: sample_three_def sample_headroom_def drawWeight_def sample_candidate_def sample_account_def
      sample_target_def sample_rounds)

lemma sample_total: "drawTotal toDouble [a_weight, b_weight, 0] = 1"
  by (simp add: drawTotal_def sample_rounds)

theorem weightedShuffle_fair_witness:
  "\<exists>i < 3. hd (weightedShuffle toDouble sample_three (1 / 2) sample_headroom (\<lambda>c. 1)) = sample_three ! i
    \<and> (0 < [a_weight, b_weight, 0] ! i \<or> Suc i = 3)"
proof -
  have three: "length sample_three = 3" by (simp add: sample_three_def)
  have keeps: "\<forall>x. 0 \<le> x \<longrightarrow> 0 \<le> toDouble x" using toDouble_keeps_sign by blast
  have "0 < drawTotal toDouble (map (drawWeight toDouble sample_headroom (\<lambda>c. 1)) sample_three)"
    unfolding sample_weights sample_total by simp
  from weightedShuffle_fair [OF keeps this, of "1 / 2"] show ?thesis
    unfolding sample_weights three by (simp del: One_nat_def) blast
qed

text \<open>
  The source says an account with no headroom left is not drawn at all. Of three accounts
  with 0.3, 0.7 and no headroom, the greatest number below one draws the third: the weights
  add up to 1, what is left of the cursor after the first two is exactly nothing, and
  \<^verbatim>\<open>chosen\<close> keeps the last index it was given to begin with.
\<close>

theorem exhausted_account_drawn:
  "hd (weightedShuffle toDouble sample_three (1 - 1 / 2 ^ 53) sample_headroom (\<lambda>c. 1)) = sample_candidate ''c''
    \<and> sample_headroom (sample_candidate ''c'') = 0"
proof -
  have "draw toDouble (toDouble ((1 - 1 / 2 ^ 53) * 1)) [a_weight, b_weight, 0] = None"
    unfolding mult_1_right sample_rounds draw.simps Let_def by (simp add: sample_rounds b_weight_def)
  then have "hd (weightedShuffle toDouble sample_three (1 - 1 / 2 ^ 53) sample_headroom (\<lambda>c. 1)) = sample_three ! 2"
    unfolding weightedShuffle_def Let_def sample_weights sample_total by (simp add: sample_three_def)
  then show ?thesis by (simp add: sample_three_def sample_headroom_def sample_candidate_def sample_account_def)
qed

subsection \<open>What each strategy promises\<close>

definition before :: "rank_input \<Rightarrow> candidate \<Rightarrow> candidate \<Rightarrow> bool" where
  "before input a b =
     (case vm_strategy (ri_model input) of
        Priority \<Rightarrow> tg_tier (pr_target a) < tg_tier (pr_target b)
          \<or> tg_tier (pr_target a) = tg_tier (pr_target b) \<and> cd_score b \<le> cd_score a
      | RoundRobin \<Rightarrow> spentKey input a < spentKey input b
          \<or> spentKey input a = spentKey input b
            \<and> (inflightOf input a < inflightOf input b
               \<or> inflightOf input a = inflightOf input b \<and> idleKey input a \<le> idleKey input b)
      | _ \<Rightarrow> cd_score b \<le> cd_score a)"

lemma score_truncate: "map pair.truncate (score pairs input) = pairs"
  using score_unfold [of pairs input]
  by (auto simp: Let_def pair.defs comp_def intro!: map_idI pair.equality)

lemma score_Nil [simp]: "score pairs input = [] \<longleftrightarrow> pairs = []"
  using score_truncate [of pairs input] by (metis map_is_Nil_conv)

lemma rank_candidates:
  assumes "fst (eligible input) \<noteq> []"
  shows "mset (rr_candidates (rank input)) = mset (score (fst (eligible input)) input)"
  using assms
  by (cases "vm_strategy (ri_model input)")
    (simp_all add: rank_def split_def Let_def weightedShuffle_mset)

text \<open>
  C33: ranking loses and invents nothing. For every strategy the candidates are the
  eligible pairs, each as often as the filter admitted it, probe flag included, and the
  exclusions are the filter's.
\<close>

theorem rank_permutes_eligible:
  "mset (map pair.truncate (rr_candidates (rank input))) = mset (fst (eligible input))
   \<and> rr_excluded (rank input) = snd (eligible input)"
proof (cases "fst (eligible input) = []")
  case True
  then show ?thesis by (simp add: rank_def split_def)
next
  case False
  have "mset (map pair.truncate (rr_candidates (rank input)))
      = mset (map pair.truncate (score (fst (eligible input)) input))"
    unfolding mset_map rank_candidates [OF False] ..
  moreover have "rr_excluded (rank input) = snd (eligible input)"
    using False by (simp add: rank_def split_def Let_def)
  ultimately show ?thesis by (simp add: score_truncate)
qed

lemma weightedShuffle_tail:
  "sorted_wrt (\<lambda>a b. cd_score b \<le> cd_score a) (tl (weightedShuffle fl cs r room health))"
proof -
  have by_score: "sorted_wrt (\<lambda>a b. cd_score b \<le> cd_score a) (byScore xs)" for xs
    using sort_key_sorted_wrt [of "\<lambda>c. - cd_score c" xs] by simp
  then have "sorted_wrt (\<lambda>a b. cd_score b \<le> cd_score a) (tl (byScore xs))" for xs
    by (metis by_score sorted_wrt.simps(2) list.exhaust_sel tl_Nil)
  with by_score show ?thesis by (simp add: weightedShuffle_def Let_def)
qed

text \<open>
  The order each strategy promises. Priority walks tiers upwards and the best score
  first within a tier; round robin puts accounts close to exhaustion last, then the
  least loaded first, then those never used here and the longest idle; score puts the
  best score first, and so does the lottery behind the candidate it drew.
\<close>

theorem rank_sorted:
  "sorted_wrt (before input)
     (if vm_strategy (ri_model input) = Weighted then tl (rr_candidates (rank input))
      else rr_candidates (rank input))"
proof (cases "fst (eligible input) = []")
  case True
  then show ?thesis by (simp add: rank_def split_def)
next
  case False
  show ?thesis
    using False weightedShuffle_tail
    by (cases "vm_strategy (ri_model input)")
      (auto simp: rank_def split_def Let_def before_def less_eq_prod_def
        intro!: sorted_wrt_mono_rel [OF _ sort_key_sorted_wrt] sorted_wrt_mono_rel [OF _ weightedShuffle_tail])
qed

end
