(* ===== verification/Ir_Errors.thy ===== *)
theory Ir_Errors
  imports Gateway_Prelude
begin

section \<open>Error codes\<close>

text \<open>
  The closed set of failures of \<^verbatim>\<open>packages/ir/src/errors.ts\<close>, the tables keyed on it, and
  \<^verbatim>\<open>GatewayError\<close> as the value the model's fallible operations return. \<open>ThrownError\<close> is
  any other JavaScript \<^verbatim>\<open>Error\<close> the dispatcher can meet: a DOM exception, an
  aggregate of per-address failures, or an ordinary one, each with its name and message.
\<close>

datatype error_code =
    AUTH | RATE_LIMIT | QUOTA_EXHAUSTED | OVERLOADED | BAD_REQUEST | CONFLICT | CONTENT_FILTER
  | CAPABILITY_MISMATCH | MODEL_UNAVAILABLE | FINGERPRINT_REFUSED | UPSTREAM | TIMEOUT | NETWORK
  | NO_CANDIDATES | ALL_CANDIDATES_FAILED | INTERNAL

fun RETRYABLE :: "error_code \<Rightarrow> bool" where
  "RETRYABLE AUTH = True"
| "RETRYABLE RATE_LIMIT = True"
| "RETRYABLE QUOTA_EXHAUSTED = True"
| "RETRYABLE OVERLOADED = True"
| "RETRYABLE MODEL_UNAVAILABLE = True"
| "RETRYABLE CAPABILITY_MISMATCH = True"
| "RETRYABLE UPSTREAM = True"
| "RETRYABLE TIMEOUT = True"
| "RETRYABLE NETWORK = True"
| "RETRYABLE BAD_REQUEST = False"
| "RETRYABLE CONFLICT = False"
| "RETRYABLE CONTENT_FILTER = False"
| "RETRYABLE FINGERPRINT_REFUSED = False"
| "RETRYABLE NO_CANDIDATES = False"
| "RETRYABLE ALL_CANDIDATES_FAILED = False"
| "RETRYABLE INTERNAL = False"

fun HTTP_STATUS :: "error_code \<Rightarrow> nat" where
  "HTTP_STATUS AUTH = 401"
| "HTTP_STATUS RATE_LIMIT = 429"
| "HTTP_STATUS QUOTA_EXHAUSTED = 429"
| "HTTP_STATUS OVERLOADED = 503"
| "HTTP_STATUS BAD_REQUEST = 400"
| "HTTP_STATUS CONFLICT = 409"
| "HTTP_STATUS CONTENT_FILTER = 400"
| "HTTP_STATUS CAPABILITY_MISMATCH = 400"
| "HTTP_STATUS FINGERPRINT_REFUSED = 400"
| "HTTP_STATUS MODEL_UNAVAILABLE = 404"
| "HTTP_STATUS UPSTREAM = 502"
| "HTTP_STATUS TIMEOUT = 504"
| "HTTP_STATUS NETWORK = 502"
| "HTTP_STATUS NO_CANDIDATES = 503"
| "HTTP_STATUS ALL_CANDIDATES_FAILED = 503"
| "HTTP_STATUS INTERNAL = 500"

lemma HTTP_STATUS_is_error: "400 \<le> HTTP_STATUS c \<and> HTTP_STATUS c < 600"
  by (cases c) simp_all

record gateway_error =
  ge_code :: error_code
  ge_message :: string
  ge_retryable :: bool
  ge_provider :: "provider_id option"
  ge_upstreamStatus :: "nat option"
  ge_gatewayAuthored :: bool
  ge_retryAfterMs :: "int option"
  ge_degradations :: "string list"

record gateway_error_opts =
  geo_provider :: "provider_id option"
  geo_status :: "nat option"
  geo_gatewayAuthored :: "bool option"
  geo_retryAfterMs :: "int option"
  geo_degradations :: "string list option"

definition no_opts :: gateway_error_opts where
  "no_opts = \<lparr>geo_provider = None, geo_status = None, geo_gatewayAuthored = None,
     geo_retryAfterMs = None, geo_degradations = None\<rparr>"

definition GatewayError :: "error_code \<Rightarrow> string \<Rightarrow> gateway_error_opts \<Rightarrow> gateway_error" where
  "GatewayError code message opts =
     \<lparr>ge_code = code, ge_message = message, ge_retryable = RETRYABLE code,
      ge_provider = geo_provider opts, ge_upstreamStatus = geo_status opts,
      ge_gatewayAuthored = nullish (geo_gatewayAuthored opts) False,
      ge_retryAfterMs = geo_retryAfterMs opts,
      ge_degradations = nullish (geo_degradations opts) []\<rparr>"

lemma GatewayError_simps [simp]:
  "ge_code (GatewayError c m os) = c"
  "ge_message (GatewayError c m os) = m"
  "ge_retryable (GatewayError c m os) = RETRYABLE c"
  "ge_provider (GatewayError c m os) = geo_provider os"
  "ge_retryAfterMs (GatewayError c m os) = geo_retryAfterMs os"
  by (simp_all add: GatewayError_def)

datatype thrown =
    ThrownGateway gateway_error
  | ThrownDom string string
  | ThrownAggregate string string "thrown list"
  | ThrownError string string
  | ThrownOther

fun describeError :: "thrown \<Rightarrow> string \<Rightarrow> string" where
  "describeError (ThrownGateway e) fallback =
     (if length (ge_message e) > 0 then ge_message e else ''GatewayError'')"
| "describeError (ThrownDom name message) fallback = (if length message > 0 then message else name)"
| "describeError (ThrownAggregate name message errors) fallback =
     (if length message > 0 then message else name)"
| "describeError (ThrownError name message) fallback = (if length message > 0 then message else name)"
| "describeError ThrownOther fallback = fallback"

end
