(* ===== verification/Router_Resolve.thy ===== *)
theory Router_Resolve
  imports Router_Types Ir_Errors
begin

section \<open>From a model name to a pool of targets\<close>

text \<open>
  \<^verbatim>\<open>packages/router/src/resolve.ts\<close>, with \<^verbatim>\<open>safeToken\<close> of \<^verbatim>\<open>packages/ir/src/logger.ts\<close>
  that its refusals quote client text through. A thrown \<^verbatim>\<open>GatewayError\<close> is the left
  value of a sum. The lemmas give the result on every branch: a configured model always
  wins, an explicit provider must be installed and may not be \<^verbatim>\<open>custom\<close>, a bare name goes
  to the longest declared prefix, and a refusal never carries unbounded client text.
\<close>

definition safeChar :: "char \<Rightarrow> bool" where
  "safeChar c \<longleftrightarrow> (let n = (of_char c :: nat) in
     (65 \<le> n \<and> n \<le> 90) \<or> (97 \<le> n \<and> n \<le> 122) \<or> (48 \<le> n \<and> n \<le> 57)
     \<or> c \<in> set ''_.:/+-'')"

definition safeToken :: "string \<Rightarrow> string" where
  "safeToken text = (if list_all safeChar text \<and> 1 \<le> length text \<and> length text \<le> 64 then text else ''(unprintable)'')"

definition prefixProviders :: "descriptors \<Rightarrow> (string \<times> provider_id \<times> descriptor) list" where
  "prefixProviders providers =
     sort_key (\<lambda>e. - int (length (fst e)))
       (concat (map (\<lambda>(pid, d). map (\<lambda>pre. (pre, pid, d)) (pd_modelPrefixes d)) providers))"

definition synthesize :: "provider_id \<Rightarrow> string \<Rightarrow> descriptor \<Rightarrow> virtual_model" where
  "synthesize provider model d =
     (let listed = entryPricing (pd_catalog d) model;
          limits = entryLimits (pd_catalog d) model ApiKeyAuth;
          t = \<lparr>tg_provider = provider, tg_model = model, tg_tier = 1, tg_weight = 1,
             tg_costPerMTok = (case listed of
                 None \<Rightarrow> \<lparr>tp_input = 0, tp_output = 0, tp_cacheRead = None, tp_cacheWrite5m = None,
                   tp_cacheWrite1h = None\<rparr>
               | Some p \<Rightarrow> \<lparr>tp_input = mp_input p, tp_output = mp_output p,
                   tp_cacheRead = Some (mp_cacheRead p), tp_cacheWrite5m = Some (mp_cacheWrite5m p),
                   tp_cacheWrite1h = Some (mp_cacheWrite1h p)\<rparr>),
             tg_contextWindow = map_option ml_contextWindow limits,
             tg_maxOutputTokens = map_option ml_maxOutputTokens limits,
             tg_capabilities = pd_capabilities d, tg_credentialId = None, tg_endpointId = None\<rparr>
      in \<lparr>vm_id = provider @ ''/'' @ model, vm_targets = [t], vm_strategy = Score, vm_isAlias = True\<rparr>)"

text \<open>The index of the first slash or colon, as \<^verbatim>\<open>String.search\<close> finds it.\<close>

fun separator :: "string \<Rightarrow> nat option" where
  "separator [] = None"
| "separator (c # cs) = (if c = CHR ''/'' \<or> c = CHR '':'' then Some 0 else map_option Suc (separator cs))"

definition quoted :: "string \<Rightarrow> string" where
  "quoted s = [CHR 0x22] @ s @ [CHR 0x22]"

definition unknownProvider :: "string \<Rightarrow> string \<Rightarrow> gateway_error" where
  "unknownProvider pre name = GatewayError NO_CANDIDATES
     (''unknown provider '' @ quoted (safeToken pre) @ '' in model '' @ quoted (safeToken name)) no_opts"

definition notInferred :: "string \<Rightarrow> gateway_error" where
  "notInferred name = GatewayError NO_CANDIDATES
     (''model '' @ quoted (safeToken name)
      @ '' is not a configured virtual model and its provider could not be inferred'') no_opts"

definition resolveModel :: "string \<Rightarrow> snapshot \<Rightarrow> descriptors \<Rightarrow> gateway_error + virtual_model" where
  "resolveModel name snapshot providers =
     (case sn_models snapshot name of
        Some configured \<Rightarrow> Inr configured
      | None \<Rightarrow>
          let bare = (case find (\<lambda>e. prefix (fst e) name) (prefixProviders providers) of
                Some (pre, provider, d) \<Rightarrow> Inr (synthesize provider name d)
              | None \<Rightarrow> Inl (notInferred name)) in
          case separator name of
            None \<Rightarrow> bare
          | Some sep \<Rightarrow>
              if sep > 0 then
                let pre = take sep name; rest = drop (sep + 1) name in
                case map_of providers pre of
                  Some d \<Rightarrow>
                    if pre \<noteq> ''custom'' \<and> length rest > 0 then Inr (synthesize pre rest d)
                    else Inl (unknownProvider pre name)
                | None \<Rightarrow> Inl (unknownProvider pre name)
              else bare)"

definition localOnlyModel :: "string \<Rightarrow> snapshot \<Rightarrow> descriptors \<Rightarrow> virtual_model option" where
  "localOnlyModel name snapshot providers =
     (case resolveModel name snapshot providers of
        Inl e \<Rightarrow> None
      | Inr model \<Rightarrow>
          if vm_targets model = [] then None
          else if list_all (\<lambda>t. tg_provider t = ''custom'') (vm_targets model) then Some model else None)"

subsection \<open>Names and prefixes\<close>

lemma separator_Some:
  "separator name = Some i \<longleftrightarrow> i < length name \<and> name ! i \<in> {CHR ''/'', CHR '':''}
     \<and> (\<forall>j < i. name ! j \<notin> {CHR ''/'', CHR '':''})"
proof (induction name arbitrary: i)
  case (Cons c cs)
  then show ?case by (cases i) (auto simp: nth_Cons' All_less_Suc2)
qed simp

lemma separator_split:
  assumes "CHR ''/'' \<notin> set p" and "CHR '':'' \<notin> set p" and "c \<in> {CHR ''/'', CHR '':''}"
  shows "separator (p @ c # m) = Some (length p)"
  using assms by (induction p) auto

lemma prefixProviders_set:
  "(pre, pid, d) \<in> set (prefixProviders providers) \<longleftrightarrow> (pid, d) \<in> set providers \<and> pre \<in> set (pd_modelPrefixes d)"
  by (auto simp: prefixProviders_def image_iff)

lemma find_sorted_first:
  assumes "sorted_wrt R xs" and "find P xs = Some x" and "y \<in> set xs" and "P y"
  shows "R x y \<or> x = y"
  using assms by (induction xs) (auto split: if_splits)

lemma find_longest:
  assumes "find (\<lambda>e. prefix (fst e) name) (prefixProviders providers) = Some (pre, pid, d)"
    and "(pid', d') \<in> set providers" and "pre' \<in> set (pd_modelPrefixes d')" and "prefix pre' name"
  shows "length pre' \<le> length pre"
proof -
  have "sorted_wrt (\<lambda>a b. - int (length (fst a)) \<le> - int (length (fst b))) (prefixProviders providers)"
    unfolding prefixProviders_def by (rule sort_key_sorted_wrt)
  from find_sorted_first [OF this assms(1), of "(pre', pid', d')"] assms(2-4)
  show ?thesis by (auto simp: prefixProviders_set)
qed

subsection \<open>Resolution\<close>

definition longestPrefix :: "string \<Rightarrow> descriptors \<Rightarrow> provider_id \<Rightarrow> descriptor \<Rightarrow> bool" where
  "longestPrefix name providers p d \<longleftrightarrow> (p, d) \<in> set providers
     \<and> (\<exists>pre \<in> set (pd_modelPrefixes d). prefix pre name
          \<and> (\<forall>(p', d') \<in> set providers. \<forall>pre' \<in> set (pd_modelPrefixes d').
               prefix pre' name \<longrightarrow> length pre' \<le> length pre))"

definition resolves_to :: "string \<Rightarrow> descriptors \<Rightarrow> provider_id \<Rightarrow> string \<Rightarrow> descriptor \<Rightarrow> bool" where
  "resolves_to name providers p model d \<longleftrightarrow>
     (case separator name of
        Some (Suc i) \<Rightarrow> p = take (Suc i) name \<and> model = drop (Suc (Suc i)) name \<and> model \<noteq> []
          \<and> map_of providers p = Some d \<and> p \<noteq> ''custom''
      | _ \<Rightarrow> model = name \<and> longestPrefix name providers p d)"

lemma find_prefix_Some:
  assumes "find (\<lambda>e. prefix (fst e) name) (prefixProviders providers) = Some (pre, p, d)"
  shows "longestPrefix name providers p d"
proof -
  have "(pre, p, d) \<in> set (prefixProviders providers) \<and> prefix pre name"
    using find_SomeD [OF assms] by simp
  with find_longest [OF assms] show ?thesis
    by (auto simp: longestPrefix_def prefixProviders_set intro!: bexI [of _ pre])
qed

lemma find_prefix_None:
  assumes "find (\<lambda>e. prefix (fst e) name) (prefixProviders providers) = None"
  shows "\<not> longestPrefix name providers p d"
  using assms prefixProviders_set [of _ p d providers]
  unfolding find_None_iff_ball longestPrefix_def by fastforce

definition resolution_ok :: "string \<Rightarrow> descriptors \<Rightarrow> gateway_error + virtual_model \<Rightarrow> bool" where
  "resolution_ok name providers r =
     (case r of
        Inr m \<Rightarrow> \<exists>p model d. resolves_to name providers p model d \<and> m = synthesize p model d
      | Inl e \<Rightarrow> ge_code e = NO_CANDIDATES \<and> (\<nexists>p model d. resolves_to name providers p model d))"

lemma bare_ok:
  assumes "\<forall>i. separator name \<noteq> Some (Suc i)"
  shows "resolution_ok name providers
    (case find (\<lambda>e. prefix (fst e) name) (prefixProviders providers) of
       Some (pre, provider, d) \<Rightarrow> Inr (synthesize provider name d)
     | None \<Rightarrow> Inl (notInferred name))"
proof -
  have bare: "resolves_to name providers p model d \<longleftrightarrow> model = name \<and> longestPrefix name providers p d" for p model d
    using assms by (auto simp: resolves_to_def split: option.splits nat.splits)
  show ?thesis
  proof (cases "find (\<lambda>e. prefix (fst e) name) (prefixProviders providers)")
    case None
    with find_prefix_None [OF None] show ?thesis
      by (simp add: resolution_ok_def bare notInferred_def)
  next
    case (Some e)
    obtain pre p d where "e = (pre, p, d)" by (cases e)
    with Some find_prefix_Some [of name providers pre p d] show ?thesis
      by (auto simp: resolution_ok_def bare)
  qed
qed

lemma resolveModel_ok:
  assumes "sn_models snapshot name = None"
  shows "resolution_ok name providers (resolveModel name snapshot providers)"
proof (cases "\<exists>i. separator name = Some (Suc i)")
  case True
  with assms show ?thesis
    by (auto simp: resolution_ok_def resolveModel_def resolves_to_def unknownProvider_def Let_def
        split: option.splits)
next
  case False
  with assms bare_ok [of name providers] show ?thesis
    by (auto simp: resolveModel_def Let_def gr0_conv_Suc split: option.split)
qed

text \<open>
  What an unconfigured name resolves to. A name that opens with a provider and a
  slash or colon resolves exactly when that provider is installed, is not the custom
  endpoint, and a model follows; a bare name resolves exactly when some declared prefix
  starts it, and then to a provider whose prefix is the longest of all that do. Every
  other name is refused as having no candidates.
\<close>

theorem resolveModel_unconfigured:
  assumes "sn_models snapshot name = None"
  shows "case resolveModel name snapshot providers of
      Inr m \<Rightarrow> \<exists>p model d. resolves_to name providers p model d \<and> m = synthesize p model d
    | Inl e \<Rightarrow> ge_code e = NO_CANDIDATES \<and> (\<nexists>p model d. resolves_to name providers p model d)"
  using resolveModel_ok [OF assms, of providers] by (simp add: resolution_ok_def)

definition sample_snapshot :: snapshot where
  "sample_snapshot = buildSnapshot [] [] [] [] DEFAULT_SETTINGS 0"

definition sample_provider :: "string list \<Rightarrow> descriptor" where
  "sample_provider ps = \<lparr>pd_capabilities = \<lparr>cap_tools = True, cap_images = True, cap_reasoning = True\<rparr>,
     pd_writeOverInput = \<lparr>wo_fiveMinute = 5 / 4, wo_oneHour = 2\<rparr>,
     pd_catalog = \<lparr>ce_defaultModel = ''m'', ce_authTypes = [ApiKeyAuth], ce_models = []\<rparr>,
     pd_modelPrefixes = ps\<rparr>"

definition sample_registry :: descriptors where
  "sample_registry = [(''a'', sample_provider [''x-'']), (''b'', sample_provider [''x-y'']),
     (''custom'', sample_provider [])]"

theorem resolveModel_unconfigured_witness:
  "resolveModel ''x-yz'' sample_snapshot sample_registry = Inr (synthesize ''b'' ''x-yz'' (sample_provider [''x-y'']))
   \<and> (case resolveModel ''custom/llama'' sample_snapshot sample_registry of
        Inr m \<Rightarrow> False | Inl e \<Rightarrow> ge_code e = NO_CANDIDATES)"
proof
  show "resolveModel ''x-yz'' sample_snapshot sample_registry
      = Inr (synthesize ''b'' ''x-yz'' (sample_provider [''x-y'']))"
    by (simp add: resolveModel_def sample_snapshot_def buildSnapshot_def sample_registry_def
        sample_provider_def prefixProviders_def)
  show "case resolveModel ''custom/llama'' sample_snapshot sample_registry of
        Inr m \<Rightarrow> False | Inl e \<Rightarrow> ge_code e = NO_CANDIDATES"
    using resolveModel_unconfigured [of sample_snapshot "''custom/llama''" sample_registry]
    by (auto simp: sample_snapshot_def buildSnapshot_def resolves_to_def split: sum.splits)
qed

text \<open>
  A model is local-only exactly when it is a configured model with at least one target
  and every target at a custom endpoint, in an installation whose custom provider declares
  no bare-name prefix: no name a client can invent makes a third-party model local.
\<close>

theorem localOnlyModel_configured:
  assumes "\<forall>d. (''custom'', d) \<in> set providers \<longrightarrow> pd_modelPrefixes d = []"
  shows "localOnlyModel name snapshot providers = Some m \<longleftrightarrow>
    sn_models snapshot name = Some m \<and> vm_targets m \<noteq> [] \<and> (\<forall>t \<in> set (vm_targets m). tg_provider t = ''custom'')"
proof (cases "sn_models snapshot name")
  case (Some c)
  then show ?thesis
    by (auto simp: localOnlyModel_def resolveModel_def list_all_iff)
next
  case None
  have "\<not> longestPrefix name providers ''custom'' d" for d
    using assms by (auto simp: longestPrefix_def)
  then have "p \<noteq> ''custom''" if "resolves_to name providers p model d" for p model d
    using that by (auto simp: resolves_to_def split: option.splits nat.splits)
  moreover have "vm_targets (synthesize p model d) \<noteq> [] \<and>
      (list_all (\<lambda>t. tg_provider t = ''custom'') (vm_targets (synthesize p model d)) \<longleftrightarrow> p = ''custom'')" for p model d
    by (simp add: synthesize_def Let_def)
  ultimately have "localOnlyModel name snapshot providers = None"
    using resolveModel_ok [OF None, of providers]
    by (auto simp: localOnlyModel_def resolution_ok_def split: sum.splits)
  with None show ?thesis by simp
qed

definition sample_local :: virtual_model where
  "sample_local = \<lparr>vm_id = ''home'', vm_targets = vm_targets (synthesize ''custom'' ''llama'' (sample_provider [])),
     vm_strategy = Priority, vm_isAlias = False\<rparr>"

theorem localOnlyModel_configured_witness:
  "localOnlyModel ''home'' (sample_snapshot\<lparr>sn_models := [''home'' \<mapsto> sample_local]\<rparr>) sample_registry = Some sample_local
   \<and> localOnlyModel ''a/llama'' (sample_snapshot\<lparr>sn_models := [''home'' \<mapsto> sample_local]\<rparr>) sample_registry = None"
proof -
  let ?s = "sample_snapshot\<lparr>sn_models := [''home'' \<mapsto> sample_local]\<rparr>"
  have reg: "\<forall>d. (''custom'', d) \<in> set sample_registry \<longrightarrow> pd_modelPrefixes d = []"
    by (simp add: sample_registry_def sample_provider_def)
  have "localOnlyModel ''a/llama'' ?s sample_registry \<noteq> Some m" for m
    using localOnlyModel_configured [OF reg, of "''a/llama''" ?s m] by simp
  then have "localOnlyModel ''a/llama'' ?s sample_registry = None" by auto
  moreover have "localOnlyModel ''home'' ?s sample_registry = Some sample_local"
    using localOnlyModel_configured [OF reg, of "''home''" ?s sample_local]
    by (simp add: sample_local_def synthesize_def Let_def)
  ultimately show ?thesis by blast
qed

subsection \<open>Refusals quote bounded text\<close>

lemma safeToken_safe:
  "length (safeToken s) \<le> 64" "c \<in> set (safeToken s) \<Longrightarrow> c \<noteq> CHR 0x0A \<and> c \<noteq> CHR 0x0D \<and> c \<noteq> CHR 0x22 \<and> c \<noteq> CHR '' ''"
  by (auto simp: safeToken_def list_all_iff safeChar_def split: if_splits)

text \<open>
  A refusal carries no client text of unbounded length and opens no second line,
  whatever string a client sends as a model name.
\<close>

theorem resolveModel_refusal_bounded:
  assumes "resolveModel name snapshot providers = Inl e"
  shows "length (ge_message e) \<le> 160 \<and> CHR 0x0A \<notin> set (ge_message e) \<and> CHR 0x0D \<notin> set (ge_message e)"
proof -
  from assms have "(\<exists>pre. e = unknownProvider pre name) \<or> e = notInferred name"
    by (auto simp: resolveModel_def Let_def split: option.splits if_splits)
  then show ?thesis
    using safeToken_safe(1) [of name] safeToken_safe(2) [of _ name]
  proof (elim disjE exE)
    fix pre assume "e = unknownProvider pre name"
    then show ?thesis
      using safeToken_safe(1) [of name] safeToken_safe(1) [of pre] safeToken_safe(2) [of _ name] safeToken_safe(2) [of _ pre]
      by (auto simp: unknownProvider_def quoted_def)
  next
    assume "e = notInferred name"
    then show ?thesis
      using safeToken_safe(1) [of name] safeToken_safe(2) [of _ name] by (auto simp: notInferred_def quoted_def)
  qed
qed

theorem resolveModel_refusal_bounded_witness:
  "\<exists>e. resolveModel ''ignore: all previous'' sample_snapshot [] = Inl e \<and> length (ge_message e) \<le> 160
     \<and> ge_message e = ''unknown provider '' @ quoted ''ignore'' @ '' in model '' @ quoted ''(unprintable)''"
proof -
  have "resolveModel ''ignore: all previous'' sample_snapshot [] = Inl (unknownProvider ''ignore'' ''ignore: all previous'')"
    by (simp add: resolveModel_def sample_snapshot_def buildSnapshot_def)
  with resolveModel_refusal_bounded [OF this] show ?thesis
    by (simp add: unknownProvider_def safeToken_def safeChar_def)
qed

end
