(* ===== verification/Router_Breaker.thy ===== *)
theory Router_Breaker
  imports Router_Types Ir_Errors
begin

section \<open>The circuit breaker\<close>

text \<open>
  \<^verbatim>\<open>packages/router/src/breaker.ts\<close>: how an outcome moves the health row of one
  (credential, model) pair. The lemmas give the effect of each penalty class, show that
  the write filter skips exactly the successes that change nothing, and characterise the
  breaker over whole histories of outcomes: it counts consecutive failures, not
  cumulative ones.
\<close>

datatype penalty = PNone | PSoft | PHard

fun PENALTY :: "error_code \<Rightarrow> penalty" where
  "PENALTY AUTH = PHard"
| "PENALTY UPSTREAM = PHard"
| "PENALTY TIMEOUT = PHard"
| "PENALTY NETWORK = PHard"
| "PENALTY MODEL_UNAVAILABLE = PHard"
| "PENALTY RATE_LIMIT = PSoft"
| "PENALTY QUOTA_EXHAUSTED = PSoft"
| "PENALTY OVERLOADED = PSoft"
| "PENALTY BAD_REQUEST = PNone"
| "PENALTY CONFLICT = PNone"
| "PENALTY CONTENT_FILTER = PNone"
| "PENALTY CAPABILITY_MISMATCH = PNone"
| "PENALTY FINGERPRINT_REFUSED = PNone"
| "PENALTY NO_CANDIDATES = PNone"
| "PENALTY ALL_CANDIDATES_FAILED = PNone"
| "PENALTY INTERNAL = PNone"

definition DEFAULT_RATE_LIMIT_MS :: int where "DEFAULT_RATE_LIMIT_MS = 60000"
definition QUOTA_PARK_MS :: int where "QUOTA_PARK_MS = 3600000"
definition MAX_JITTER_MS :: int where "MAX_JITTER_MS = 2000"

definition blankHealth :: "string \<Rightarrow> string \<Rightarrow> credential_health" where
  "blankHealth credentialId model = \<lparr>h_credentialId = credentialId, h_model = model,
     h_breakerState = Closed, h_consecutiveFailures = 0, h_openedAt = None,
     h_rateLimitedUntil = None\<rparr>"

definition successWouldChange :: "credential_health option \<Rightarrow> bool" where
  "successWouldChange current =
     (case current of
        None \<Rightarrow> False
      | Some c \<Rightarrow>
          let blank = blankHealth (h_credentialId c) (h_model c)
          in h_breakerState c \<noteq> h_breakerState blank
             \<or> h_consecutiveFailures c \<noteq> h_consecutiveFailures blank
             \<or> h_openedAt c \<noteq> h_openedAt blank
             \<or> h_rateLimitedUntil c \<noteq> h_rateLimitedUntil blank)"

definition recordSuccess :: "credential_health \<Rightarrow> credential_health" where
  "recordSuccess current = current\<lparr>h_breakerState := Closed, h_consecutiveFailures := 0,
     h_openedAt := None, h_rateLimitedUntil := None\<rparr>"

record failure_opts =
  fo_settings :: settings
  fo_now :: instant
  fo_code :: error_code
  fo_retryAfterMs :: "int option"
  fo_jitter :: "rat option"

definition recordFailure :: "credential_health \<Rightarrow> failure_opts \<Rightarrow> credential_health" where
  "recordFailure current opts =
     (case PENALTY (fo_code opts) of
        PNone \<Rightarrow> current
      | PSoft \<Rightarrow>
          let base = (if fo_code opts = QUOTA_EXHAUSTED then QUOTA_PARK_MS
                      else nullish (fo_retryAfterMs opts) DEFAULT_RATE_LIMIT_MS);
              until = fo_now opts + base
                      + js_round (nullish (fo_jitter opts) 0 * of_int MAX_JITTER_MS)
          in current\<lparr>h_rateLimitedUntil := Some until\<rparr>
      | PHard \<Rightarrow>
          let failures = h_consecutiveFailures current + 1;
              open_now = (fo_code opts = AUTH \<or> h_breakerState current = HalfOpen
                      \<or> failures \<ge> st_breakerThreshold (fo_settings opts))
          in current\<lparr>h_consecutiveFailures := failures,
               h_breakerState := (if open_now then Open else Closed),
               h_openedAt := (if open_now then Some (fo_now opts) else h_openedAt current)\<rparr>)"

subsection \<open>One outcome\<close>

lemma recordSuccess_blank: "recordSuccess h = blankHealth (h_credentialId h) (h_model h)"
  by (simp add: recordSuccess_def blankHealth_def)

text \<open>
  The test that decides whether a success is written is exact. A success is skipped
  for a missing row, and for a stored row precisely when recording it would leave the row
  as it is.
\<close>

theorem successWouldChange_exact:
  "\<not> successWouldChange None \<and> (successWouldChange (Some h) \<longleftrightarrow> recordSuccess h \<noteq> h)"
  by (cases h) (auto simp: successWouldChange_def recordSuccess_def blankHealth_def eq_commute [of None])

text \<open>
  A failure is charged to what it blames. One that blames the request leaves the row
  untouched; a soft one only parks the pair, from now for the base period and at most two
  seconds of jitter more; a hard one adds exactly one to the count, never moves the park,
  and opens the breaker at this instant for a rejected token, a failed probe, or a count
  at the threshold.
\<close>

theorem recordFailure_by_penalty:
  fixes h :: credential_health
  assumes "0 \<le> nullish (fo_jitter os) 0" and "nullish (fo_jitter os) 0 \<le> 1"
  defines "h' \<equiv> recordFailure h os"
  shows "case PENALTY (fo_code os) of
      PNone \<Rightarrow> h' = h
    | PSoft \<Rightarrow> \<exists>until. h' = h\<lparr>h_rateLimitedUntil := Some until\<rparr>
        \<and> (let base = (if fo_code os = QUOTA_EXHAUSTED then QUOTA_PARK_MS
              else nullish (fo_retryAfterMs os) DEFAULT_RATE_LIMIT_MS)
           in fo_now os + base \<le> until \<and> until \<le> fo_now os + base + MAX_JITTER_MS)
    | PHard \<Rightarrow> h_consecutiveFailures h' = h_consecutiveFailures h + 1
        \<and> h_rateLimitedUntil h' = h_rateLimitedUntil h
        \<and> (h_breakerState h' = Open \<longleftrightarrow>
             fo_code os = AUTH \<or> h_breakerState h = HalfOpen
             \<or> st_breakerThreshold (fo_settings os) \<le> h_consecutiveFailures h + 1)
        \<and> (h_breakerState h' = Open \<longrightarrow> h_openedAt h' = Some (fo_now os))"
proof -
  let ?j = "nullish (fo_jitter os) 0 * of_int MAX_JITTER_MS"
  have "0 \<le> ?j" and "?j \<le> of_int MAX_JITTER_MS"
    using assms(1,2) by (auto simp: MAX_JITTER_MS_def)
  then have "0 \<le> js_round ?j" and "js_round ?j \<le> MAX_JITTER_MS"
    by (rule js_round_bounds)+
  then show ?thesis
    by (auto simp: h'_def recordFailure_def Let_def split: penalty.splits)
qed

theorem recordFailure_by_penalty_witness:
  "h_rateLimitedUntil (recordFailure (blankHealth ''a'' ''m'')
     \<lparr>fo_settings = DEFAULT_SETTINGS, fo_now = 1000, fo_code = RATE_LIMIT, fo_retryAfterMs = Some 5000,
       fo_jitter = Some (1 / 2)\<rparr>) = Some 7000
   \<and> (\<exists>until. until \<le> 8000 \<and> recordFailure (blankHealth ''a'' ''m'')
     \<lparr>fo_settings = DEFAULT_SETTINGS, fo_now = 1000, fo_code = RATE_LIMIT, fo_retryAfterMs = Some 5000,
       fo_jitter = Some (1 / 2)\<rparr> = (blankHealth ''a'' ''m'')\<lparr>h_rateLimitedUntil := Some until\<rparr>)"
  using recordFailure_by_penalty [of "\<lparr>fo_settings = DEFAULT_SETTINGS, fo_now = 1000,
    fo_code = RATE_LIMIT, fo_retryAfterMs = Some 5000, fo_jitter = Some (1 / 2)\<rparr>" "blankHealth ''a'' ''m''"]
  by (auto simp: MAX_JITTER_MS_def recordFailure_def blankHealth_def)

subsection \<open>Histories\<close>

datatype outcome = Succeeded | Failed failure_opts

fun record_outcome :: "credential_health \<Rightarrow> outcome \<Rightarrow> credential_health" where
  "record_outcome h Succeeded = recordSuccess h"
| "record_outcome h (Failed os) = recordFailure h os"

definition record_all :: "credential_health \<Rightarrow> outcome list \<Rightarrow> credential_health" where
  "record_all h es = foldl record_outcome h es"

fun hard :: "outcome \<Rightarrow> bool" where
  "hard Succeeded = False"
| "hard (Failed os) = (PENALTY (fo_code os) = PHard)"

text \<open>The hard failures since the last success, read from the end of the history.\<close>

definition streak :: "outcome list \<Rightarrow> nat" where
  "streak es = length (filter hard (takeWhile (\<lambda>e. e \<noteq> Succeeded) (rev es)))"

lemma streak_snoc [simp]:
  "streak [] = 0"
  "streak (es @ [Succeeded]) = 0"
  "streak (es @ [Failed os]) = (if PENALTY (fo_code os) = PHard then 1 else 0) + streak es"
  by (auto simp: streak_def)

text \<open>
  C35: over any history of outcomes from a blank row, with no rejected token in it and one
  threshold throughout, the breaker is open exactly when the hard failures since the last
  success have reached the threshold, and the stored count is that number. Failures that
  blame the request and parked rate limits neither count nor reset.
\<close>

theorem breaker_counts_consecutive:
  assumes "0 < threshold"
    and "\<forall>os. Failed os \<in> set es \<longrightarrow> fo_code os \<noteq> AUTH \<and> st_breakerThreshold (fo_settings os) = threshold"
  shows "h_consecutiveFailures (record_all (blankHealth c m) es) = streak es
    \<and> h_breakerState (record_all (blankHealth c m) es) = (if threshold \<le> streak es then Open else Closed)"
  using assms(2)
proof (induction es rule: rev_induct)
  case Nil
  then show ?case using assms(1) by (simp add: record_all_def blankHealth_def)
next
  case (snoc e es)
  let ?h = "record_all (blankHealth c m) es"
  from snoc have IH: "h_consecutiveFailures ?h = streak es"
    "h_breakerState ?h = (if threshold \<le> streak es then Open else Closed)"
    by auto
  show ?case
  proof (cases e)
    case Succeeded
    then show ?thesis using assms(1) by (simp add: record_all_def recordSuccess_def)
  next
    case (Failed os)
    with snoc.prems have "fo_code os \<noteq> AUTH" "st_breakerThreshold (fo_settings os) = threshold"
      by auto
    with Failed IH show ?thesis
      by (auto simp: record_all_def recordFailure_def Let_def split: penalty.splits)
  qed
qed

definition upstream_at :: "instant \<Rightarrow> outcome" where
  "upstream_at t = Failed \<lparr>fo_settings = DEFAULT_SETTINGS, fo_now = t, fo_code = UPSTREAM,
     fo_retryAfterMs = None, fo_jitter = None\<rparr>"

theorem breaker_counts_consecutive_witness:
  "h_breakerState (record_all (blankHealth ''a'' ''m'')
     [upstream_at 1, upstream_at 2, Succeeded, upstream_at 3, upstream_at 4]) = Closed
   \<and> h_breakerState (record_all (blankHealth ''a'' ''m'')
     [upstream_at 1, Succeeded, upstream_at 2, upstream_at 3, upstream_at 4]) = Open"
  using breaker_counts_consecutive [of 3
      "[upstream_at 1, upstream_at 2, Succeeded, upstream_at 3, upstream_at 4]" "''a''" "''m''"]
    breaker_counts_consecutive [of 3
      "[upstream_at 1, Succeeded, upstream_at 2, upstream_at 3, upstream_at 4]" "''a''" "''m''"]
  by (simp add: upstream_at_def DEFAULT_SETTINGS_def streak_def)

text \<open>
  An open breaker does not always stay open under further failures. A row opened early
  (by a rejected token, or a failed probe) whose count is still below the threshold is
  closed again by the next hard failure that is not itself a rejected token: a request
  that was already in flight and fails for another reason puts the account back in
  rotation at once.
\<close>

theorem open_breaker_closed_by_failure:
  assumes "h_breakerState h = Open" and "PENALTY (fo_code os) = PHard" and "fo_code os \<noteq> AUTH"
    and "h_consecutiveFailures h + 1 < st_breakerThreshold (fo_settings os)"
  shows "h_breakerState (recordFailure h os) = Closed
    \<and> h_consecutiveFailures (recordFailure h os) = h_consecutiveFailures h + 1"
  using assms by (simp add: recordFailure_def Let_def)

definition auth_at :: "instant \<Rightarrow> outcome" where
  "auth_at t = Failed \<lparr>fo_settings = DEFAULT_SETTINGS, fo_now = t, fo_code = AUTH,
     fo_retryAfterMs = None, fo_jitter = None\<rparr>"

theorem open_breaker_closed_by_failure_witness:
  "h_breakerState (record_all (blankHealth ''a'' ''m'') [auth_at 1]) = Open
   \<and> h_breakerState (record_all (blankHealth ''a'' ''m'') [auth_at 1, upstream_at 2]) = Closed"
  using open_breaker_closed_by_failure [of "record_all (blankHealth ''a'' ''m'') [auth_at 1]"
    "\<lparr>fo_settings = DEFAULT_SETTINGS, fo_now = 2, fo_code = UPSTREAM, fo_retryAfterMs = None, fo_jitter = None\<rparr>"]
  by (simp add: record_all_def auth_at_def upstream_at_def recordFailure_def blankHealth_def
      DEFAULT_SETTINGS_def)

end
