(* ===== verification/Limit_Window.thy ===== *)
theory Limit_Window
  imports Gateway_Prelude
begin

section \<open>The exact sliding count\<close>

text \<open>
  \<^verbatim>\<open>packages/ratelimit/src/window.ts\<close>: a list of event stamps, newest last. A method that
  changes the object returns the changed object. The lemmas describe the list as a
  multiset of events: trimming keeps every live event, is exact when the stamps ascend,
  and giving back a slot removes exactly one event at that instant, or none.
\<close>

record sliding_window =
  sw_windowMs :: int
  sw_stamps :: "instant list"

definition newWindow :: "int \<Rightarrow> sliding_window" where
  "newWindow windowMs = \<lparr>sw_windowMs = windowMs, sw_stamps = []\<rparr>"

definition sw_trim :: "sliding_window \<Rightarrow> instant \<Rightarrow> sliding_window" where
  "sw_trim w now = w\<lparr>sw_stamps := dropWhile (\<lambda>stamp. \<not> stamp > now - sw_windowMs w) (sw_stamps w)\<rparr>"

definition sw_count :: "sliding_window \<Rightarrow> instant \<Rightarrow> nat \<times> sliding_window" where
  "sw_count w now = (let w' = sw_trim w now in (length (sw_stamps w'), w'))"

definition sw_record :: "sliding_window \<Rightarrow> instant \<Rightarrow> sliding_window" where
  "sw_record w now = w\<lparr>sw_stamps := sw_stamps w @ [now]\<rparr>"

text \<open>The backward scan of \<^verbatim>\<open>forget\<close>, on the stamps newest first.\<close>

fun forget_scan :: "instant \<Rightarrow> instant list \<Rightarrow> instant list" where
  "forget_scan tm [] = []"
| "forget_scan tm (stamp # older) =
     (if stamp < tm then stamp # older
      else if stamp = tm then older
      else stamp # forget_scan tm older)"

definition sw_forget :: "sliding_window \<Rightarrow> instant \<Rightarrow> sliding_window" where
  "sw_forget w tm = w\<lparr>sw_stamps := rev (forget_scan tm (rev (sw_stamps w)))\<rparr>"

definition sw_resetAt :: "sliding_window \<Rightarrow> instant \<Rightarrow> instant" where
  "sw_resetAt w now = (case sw_stamps w of [] \<Rightarrow> now | oldest # _ \<Rightarrow> oldest + sw_windowMs w)"

definition sw_empty :: "sliding_window \<Rightarrow> bool" where
  "sw_empty w \<longleftrightarrow> length (sw_stamps w) = 0"

subsection \<open>Events as a multiset\<close>

definition live :: "sliding_window \<Rightarrow> instant \<Rightarrow> instant multiset" where
  "live w now = filter_mset (\<lambda>s. now - sw_windowMs w < s) (mset (sw_stamps w))"

lemma sw_windowMs_simps [simp]:
  "sw_windowMs (newWindow ms) = ms" "sw_windowMs (sw_trim w now) = sw_windowMs w"
  "sw_windowMs (sw_record w now) = sw_windowMs w" "sw_windowMs (sw_forget w tm) = sw_windowMs w"
  by (simp_all add: newWindow_def sw_trim_def sw_record_def sw_forget_def)

lemma trim_keeps_live: "live w now \<subseteq># mset (sw_stamps (sw_trim w now))"
  using mset_filter_dropWhile_subset [of "\<lambda>stamp. \<not> stamp > now - sw_windowMs w" "sw_stamps w"]
  by (simp add: live_def sw_trim_def)

lemma trim_subset: "mset (sw_stamps (sw_trim w now)) \<subseteq># mset (sw_stamps w)"
  by (simp add: sw_trim_def mset_dropWhile_subset)

lemma dropWhile_sorted:
  "sorted xs \<Longrightarrow> dropWhile (\<lambda>s. \<not> s > c) xs = filter (\<lambda>s. c < s) (xs :: int list)"
proof (induction xs)
  case (Cons x xs)
  then show ?case
    by (cases "c < x") (auto intro!: filter_True [symmetric])
qed simp

lemma forget_scan_mset:
  "mset (forget_scan tm xs) = mset xs \<or> tm \<in># mset xs \<and> mset (forget_scan tm xs) = mset xs - {#tm#}"
proof (induction xs)
  case (Cons x xs)
  then show ?case by (auto simp: add_mset_remove_trivial_If)
qed simp

lemma forget_scan_sorted:
  "sorted_wrt (\<ge>) xs \<Longrightarrow> mset (forget_scan tm xs) = mset xs - {#tm#}"
proof (induction xs)
  case (Cons x xs)
  show ?case
  proof (cases "x < tm")
    case True
    with Cons.prems have "tm \<notin> set (x # xs)" by auto
    with True show ?thesis by (simp add: diff_single_trivial)
  next
    case False
    with Cons show ?thesis by auto
  qed
qed simp

lemma sorted_rev_ge: "sorted xs \<Longrightarrow> sorted_wrt (\<ge>) (rev (xs :: int list))"
  by (simp add: sorted_wrt_rev)

lemma forget_mset:
  "mset (sw_stamps (sw_forget w tm)) = mset (sw_stamps w)
   \<or> tm \<in># mset (sw_stamps w) \<and> mset (sw_stamps (sw_forget w tm)) = mset (sw_stamps w) - {#tm#}"
  using forget_scan_mset [of tm "rev (sw_stamps w)"] by (simp add: sw_forget_def)

lemma forget_sorted:
  "sorted (sw_stamps w) \<Longrightarrow> mset (sw_stamps (sw_forget w tm)) = mset (sw_stamps w) - {#tm#}"
  using forget_scan_sorted [OF sorted_rev_ge, of "sw_stamps w" tm] by (simp add: sw_forget_def)

lemma forget_scan_set: "set (forget_scan tm xs) \<subseteq> set xs"
  by (induction xs) auto

lemma forget_scan_keeps_order: "sorted_wrt (\<ge>) xs \<Longrightarrow> sorted_wrt (\<ge>) (forget_scan tm xs)"
proof (induction xs)
  case (Cons x xs)
  then show ?case using forget_scan_set [of tm xs] by auto
qed simp

lemma sorted_kept:
  "sorted (sw_stamps w) \<Longrightarrow> sorted (sw_stamps (sw_trim w now))"
  "sorted (sw_stamps w) \<Longrightarrow> sorted (sw_stamps (sw_forget w tm))"
  "\<lbrakk>sorted (sw_stamps w); \<forall>s \<in> set (sw_stamps w). s \<le> now\<rbrakk> \<Longrightarrow> sorted (sw_stamps (sw_record w now))"
proof -
  show "sorted (sw_stamps w) \<Longrightarrow> sorted (sw_stamps (sw_trim w now))"
    by (simp add: sw_trim_def sorted_dropWhile)
  show "sorted (sw_stamps w) \<Longrightarrow> sorted (sw_stamps (sw_forget w tm))"
    using forget_scan_keeps_order [OF sorted_rev_ge, of "sw_stamps w" tm]
    by (simp add: sw_forget_def sorted_wrt_rev)
  show "\<lbrakk>sorted (sw_stamps w); \<forall>s \<in> set (sw_stamps w). s \<le> now\<rbrakk> \<Longrightarrow> sorted (sw_stamps (sw_record w now))"
    by (simp add: sw_record_def sorted_append)
qed

lemma trim_sorted: "sorted (sw_stamps w) \<Longrightarrow> mset (sw_stamps (sw_trim w now)) = live w now"
  using dropWhile_sorted [of "sw_stamps w" "now - sw_windowMs w"] by (simp add: sw_trim_def live_def)

text \<open>
  On ascending stamps the count is exact. It is the number of events in the half-open
  window that ends now, the ring is left holding exactly those events, and the reset it
  reports is the instant the oldest of them leaves the window: at that instant the count
  is smaller, and before it the same events are all still counted.
\<close>

theorem sw_count_exact:
  fixes w :: sliding_window and now :: instant
  assumes "sorted (sw_stamps w)"
  defines "w' \<equiv> snd (sw_count w now)"
  shows "fst (sw_count w now) = size (live w now) \<and> mset (sw_stamps w') = live w now
    \<and> (sw_stamps w' \<noteq> [] \<longrightarrow>
         size (live w' (sw_resetAt w' now)) < size (live w' now)
         \<and> (\<forall>t < sw_resetAt w' now. live w' t = mset (sw_stamps w')))"
proof -
  have w': "w' = sw_trim w now" by (simp add: w'_def sw_count_def Let_def)
  have held: "mset (sw_stamps w') = live w now" using trim_sorted [OF assms(1)] by (simp add: w')
  have srt: "sorted (sw_stamps w')" using sorted_kept(1) [OF assms(1)] by (simp add: w')
  have all_live: "live w' now = mset (sw_stamps w')"
    unfolding live_def held by (simp add: live_def w' filter_filter_mset)
  have "size (live w' (sw_resetAt w' now)) < size (live w' now)
      \<and> (\<forall>t < sw_resetAt w' now. live w' t = mset (sw_stamps w'))" if "sw_stamps w' \<noteq> []"
  proof -
    from that obtain s ss where ss: "sw_stamps w' = s # ss" by (cases "sw_stamps w'") auto
    have reset: "sw_resetAt w' now = s + sw_windowMs w'" by (simp add: sw_resetAt_def ss)
    have "size (live w' (sw_resetAt w' now)) \<le> length ss"
      using size_filter_mset_lesseq [of "\<lambda>x. s < x" "mset ss"] by (simp add: live_def reset ss)
    moreover have "live w' t = mset (sw_stamps w')" if "t < sw_resetAt w' now" for t
      unfolding live_def using that srt
      by (subst filter_mset_eq_conv) (auto simp: reset ss)
    ultimately show ?thesis by (auto simp: all_live ss)
  qed
  with held show ?thesis
    using size_mset [of "sw_stamps w'"] by (auto simp: sw_count_def Let_def w')
qed

theorem sw_count_exact_witness:
  "fst (sw_count \<lparr>sw_windowMs = 60000, sw_stamps = [1000, 30000, 61000]\<rparr> 61000) = 2
   \<and> sw_stamps (snd (sw_count \<lparr>sw_windowMs = 60000, sw_stamps = [1000, 30000, 61000]\<rparr> 61000)) = [30000, 61000]"
  using sw_count_exact [of "\<lparr>sw_windowMs = 60000, sw_stamps = [1000, 30000, 61000]\<rparr>" 61000]
  by (simp add: live_def sw_count_def sw_trim_def)

text \<open>
  A slot given back is found only while the stamps ascend. On ascending stamps exactly
  one event of that instant goes; but a ring whose newest stamp is earlier than the one
  given back (two callers recorded out of order) is left unchanged, and the refused
  caller's event keeps its slot until it ages out.
\<close>

theorem sw_forget_order:
  "(sorted (sw_stamps w) \<longrightarrow> mset (sw_stamps (sw_forget w tm)) = mset (sw_stamps w) - {#tm#})
   \<and> (sw_stamps w \<noteq> [] \<and> last (sw_stamps w) < tm \<longrightarrow> sw_forget w tm = w)"
proof -
  have "sw_forget w tm = w" if "sw_stamps w \<noteq> []" "last (sw_stamps w) < tm"
    using that by (cases "sw_stamps w" rule: rev_cases) (simp_all add: sw_forget_def)
  then show ?thesis using forget_sorted [of w tm] by blast
qed

theorem sw_forget_order_witness:
  "sw_stamps (sw_forget (sw_record (sw_record (newWindow 60000) 5) 3) 5) = [5, 3]
   \<and> sw_stamps (sw_forget (sw_record (sw_record (newWindow 60000) 3) 5) 5) = [3]"
  using sw_forget_order [of "sw_record (sw_record (newWindow 60000) 5) 3" 5]
  by (simp add: sw_record_def newWindow_def sw_forget_def)

end
