(* ===== verification/Limit_Evaluate.thy ===== *)
theory Limit_Evaluate
  imports Ir_Request
begin

section \<open>Judging a request against a key's limits\<close>

text \<open>
  \<^verbatim>\<open>packages/ratelimit/src/catalog.ts\<close> and \<^verbatim>\<open>index.ts\<close>: the sparse matrix of limits and the
  arithmetic on it. An absent limit and an explicit null are the same value, \<open>None\<close>, as
  they are to every reader in the source. The schema library is not modelled: what
  \<^verbatim>\<open>parseLimitConfig\<close> hands the value on to is a parameter. The lemmas show that a request
  is refused exactly when some configured ceiling is reached, that the violation reported
  is the last to clear, and that stacking two scopes is their conjunction.
\<close>

datatype dimension = Requests | Tokens | Spend | Concurrency
datatype window = W1m | W5h | W1w

definition DIMENSIONS :: "dimension list" where "DIMENSIONS = [Requests, Tokens, Spend, Concurrency]"
definition WINDOWS :: "window list" where "WINDOWS = [W1m, W5h, W1w]"
definition WINDOWED :: "dimension list" where "WINDOWED = [Requests, Tokens, Spend]"

fun WINDOW_MS :: "window \<Rightarrow> int" where
  "WINDOW_MS W1m = 60000"
| "WINDOW_MS W5h = 5 * 60 * 60 * 1000"
| "WINDOW_MS W1w = 7 * 24 * 60 * 60 * 1000"

lemma WINDOW_MS_pos [simp]: "0 < WINDOW_MS w"
  by (cases w) simp_all

type_synonym window_limits = "window \<Rightarrow> rat option"

record limit_base =
  lb_requests :: "window_limits option"
  lb_tokens :: "window_limits option"
  lb_spend :: "window_limits option"
  lb_concurrency :: "rat option"

definition MAX_MODEL_OVERRIDES :: nat where "MAX_MODEL_OVERRIDES = 64"
definition MAX_MODEL_NAME_LENGTH :: nat where "MAX_MODEL_NAME_LENGTH = 256"

fun limitRow :: "'a limit_base_scheme \<Rightarrow> dimension \<Rightarrow> window_limits option" where
  "limitRow config Requests = lb_requests config"
| "limitRow config Tokens = lb_tokens config"
| "limitRow config Spend = lb_spend config"
| "limitRow config Concurrency = None"

definition setsAnyLimit :: "'a limit_base_scheme \<Rightarrow> bool" where
  "setsAnyLimit scope \<longleftrightarrow> lb_concurrency scope \<noteq> None
     \<or> list_ex (\<lambda>dimension. case limitRow scope dimension of
          None \<Rightarrow> False
        | Some ws \<Rightarrow> list_ex (\<lambda>w. ws w \<noteq> None) WINDOWS) WINDOWED"

record limit_config = limit_base +
  lc_models :: "(string \<times> limit_base) list option"

definition modelOverride :: "limit_config \<Rightarrow> string \<Rightarrow> limit_base option" where
  "modelOverride limits model = (case lc_models limits of None \<Rightarrow> None | Some models \<Rightarrow> map_of models model)"

subsection \<open>The guard before the schema\<close>

fun decimal :: "nat \<Rightarrow> string" where
  "decimal n = (if n < 10 then [char_of (48 + n)] else decimal (n div 10) @ [char_of (48 + n mod 10)])"

declare decimal.simps [simp del]

definition underPath :: "string \<Rightarrow> string \<Rightarrow> string" where
  "underPath path key = (if path = [] then key else path @ ''.'' @ key)"

definition protoRefusal :: "string \<Rightarrow> string" where
  "protoRefusal path = ''limits cannot name '' @ quoteJson ''__proto__''
     @ (if path = [] then [] else '' under '' @ path)"

fun assertNoProto :: "json \<Rightarrow> string \<Rightarrow> string option"
  and assertMembers :: "(string \<times> json) list \<Rightarrow> string \<Rightarrow> string option"
  and assertElements :: "json list \<Rightarrow> nat \<Rightarrow> string \<Rightarrow> string option" where
  "assertNoProto (JObj ms) path = assertMembers ms path"
| "assertNoProto (JArr xs) path = assertElements xs 0 path"
| "assertNoProto _ path = None"
| "assertMembers [] path = None"
| "assertMembers ((key, v) # ms) path =
     (if key = ''__proto__'' then Some (protoRefusal path)
      else case assertNoProto v (underPath path key) of
             Some e \<Rightarrow> Some e | None \<Rightarrow> assertMembers ms path)"
| "assertElements [] i path = None"
| "assertElements (v # xs) i path =
     (case assertNoProto v (underPath path (decimal i)) of
        Some e \<Rightarrow> Some e | None \<Rightarrow> assertElements xs (Suc i) path)"

definition parseLimitConfig :: "(json \<Rightarrow> string + limit_config) \<Rightarrow> json \<Rightarrow> string + limit_config" where
  "parseLimitConfig schema_parse v =
     (case assertNoProto v [] of Some e \<Rightarrow> Inl e | None \<Rightarrow> schema_parse v)"

subsection \<open>Counters, violations and headroom\<close>

record window_counter =
  wc_used :: rat
  wc_resetAt :: instant

type_synonym dimension_counters = "window \<Rightarrow> window_counter option"

record counter_snapshot =
  cs_windowed :: "dimension \<Rightarrow> dimension_counters option"
  cs_concurrency :: "rat option"

record violation =
  vi_dimension :: dimension
  vi_window :: "window option"
  vi_limit :: rat
  vi_used :: rat
  vi_resetAt :: instant

record headroom =
  hr_window :: window
  hr_limit :: rat
  hr_used :: rat
  hr_remaining :: rat
  hr_resetAt :: instant

type_synonym headroom_by_dimension = "dimension \<rightharpoonup> headroom"

record decision =
  dc_allowed :: bool
  dc_violation :: "violation option"
  dc_violations :: "violation list"
  dc_headroom :: headroom_by_dimension

definition laterToClear :: "violation option \<Rightarrow> violation \<Rightarrow> violation option" where
  "laterToClear chosen candidate =
     (case chosen of
        None \<Rightarrow> Some candidate
      | Some c \<Rightarrow>
          if vi_resetAt candidate > vi_resetAt c then Some candidate
          else if vi_resetAt candidate = vi_resetAt c \<and> vi_used candidate / vi_limit candidate > vi_used c / vi_limit c
          then Some candidate else chosen)"

definition lastToClear :: "violation list \<Rightarrow> violation option" where
  "lastToClear violations = foldl laterToClear None violations"

definition observedUsed :: "window_counter option \<Rightarrow> rat" where
  "observedUsed counter = (case counter of None \<Rightarrow> 0 | Some c \<Rightarrow> wc_used c)"

definition observedReset :: "window_counter option \<Rightarrow> instant \<Rightarrow> window \<Rightarrow> instant" where
  "observedReset counter now w = (case counter of None \<Rightarrow> now + WINDOW_MS w | Some c \<Rightarrow> wc_resetAt c)"

definition nearer :: "headroom option \<Rightarrow> headroom \<Rightarrow> headroom option" where
  "nearer nearest entry =
     (case nearest of
        None \<Rightarrow> Some entry
      | Some n \<Rightarrow> if hr_used entry / hr_limit entry > hr_used n / hr_limit n then Some entry else nearest)"

definition evaluateWindow ::
  "dimension \<Rightarrow> window_limits \<Rightarrow> dimension_counters \<Rightarrow> instant
     \<Rightarrow> violation list \<times> headroom option \<Rightarrow> window \<Rightarrow> violation list \<times> headroom option" where
  "evaluateWindow dimension limits observed now acc w =
     (case limits w of
        None \<Rightarrow> acc
      | Some limit \<Rightarrow>
          let used = observedUsed (observed w);
              resetAt = observedReset (observed w) now w;
              violations = (if used \<ge> limit then fst acc @ [\<lparr>vi_dimension = dimension, vi_window = Some w,
                  vi_limit = limit, vi_used = used, vi_resetAt = resetAt\<rparr>] else fst acc);
              entry = \<lparr>hr_window = w, hr_limit = limit, hr_used = used, hr_remaining = max 0 (limit - used),
                hr_resetAt = resetAt\<rparr>
          in (violations, nearer (snd acc) entry))"

definition evaluateDimension ::
  "limit_base \<Rightarrow> counter_snapshot \<Rightarrow> instant \<Rightarrow> violation list \<times> headroom_by_dimension \<Rightarrow> dimension
     \<Rightarrow> violation list \<times> headroom_by_dimension" where
  "evaluateDimension config counters now acc dimension =
     (case limitRow config dimension of
        None \<Rightarrow> acc
      | Some limits \<Rightarrow>
          let observed = nullish (cs_windowed counters dimension) (\<lambda>w. None);
              r = foldl (evaluateWindow dimension limits observed now) (fst acc, None) WINDOWS
          in (fst r, (case snd r of None \<Rightarrow> snd acc | Some nearest \<Rightarrow> (snd acc)(dimension \<mapsto> nearest))))"

definition evaluate :: "limit_base \<Rightarrow> counter_snapshot \<Rightarrow> instant \<Rightarrow> decision" where
  "evaluate config counters now =
     (let (violations, room) = foldl (evaluateDimension config counters now) ([], Map.empty) WINDOWED;
          violations = (case lb_concurrency config of
              None \<Rightarrow> violations
            | Some limit \<Rightarrow>
                let used = nullish (cs_concurrency counters) 0 in
                if used \<ge> limit then violations @ [\<lparr>vi_dimension = Concurrency, vi_window = None,
                    vi_limit = limit, vi_used = used, vi_resetAt = now\<rparr>] else violations);
          v = lastToClear violations
      in \<lparr>dc_allowed = (v = None), dc_violation = v, dc_violations = violations, dc_headroom = room\<rparr>)"

definition combineDimension :: "decision \<Rightarrow> headroom_by_dimension \<Rightarrow> dimension \<Rightarrow> headroom_by_dimension" where
  "combineDimension model room dimension =
     (case dc_headroom model dimension of
        None \<Rightarrow> room
      | Some candidate \<Rightarrow>
          (case room dimension of
             None \<Rightarrow> room(dimension \<mapsto> candidate)
           | Some current \<Rightarrow>
               if hr_used candidate / hr_limit candidate > hr_used current / hr_limit current
               then room(dimension \<mapsto> candidate) else room))"

definition combine :: "decision \<Rightarrow> decision \<Rightarrow> decision" where
  "combine key model =
     (let violations = dc_violations key @ dc_violations model;
          v = lastToClear violations
      in \<lparr>dc_allowed = (v = None), dc_violation = v, dc_violations = violations,
          dc_headroom = foldl (combineDimension model) (dc_headroom key) WINDOWED\<rparr>)"

definition retryAfterMs :: "violation option \<Rightarrow> instant \<Rightarrow> int" where
  "retryAfterMs v now = (case v of None \<Rightarrow> 0 | Some v \<Rightarrow> max 0 (vi_resetAt v - now))"

subsection \<open>The guard finds every prototype key\<close>

text \<open>Some object in the value has the key, at any depth.\<close>

fun names_proto :: "json \<Rightarrow> bool" where
  "names_proto (JObj ms) \<longleftrightarrow> (\<exists>(k, v) \<in> set ms. k = ''__proto__'' \<or> names_proto v)"
| "names_proto (JArr xs) \<longleftrightarrow> (\<exists>x \<in> set xs. names_proto x)"
| "names_proto _ \<longleftrightarrow> False"

lemma assert_iff:
  "assertNoProto v path = None \<longleftrightarrow> \<not> names_proto v"
  "assertMembers ms path = None \<longleftrightarrow> (\<forall>(k, v) \<in> set ms. k \<noteq> ''__proto__'' \<and> \<not> names_proto v)"
  "assertElements xs i path = None \<longleftrightarrow> (\<forall>x \<in> set xs. \<not> names_proto x)"
  by (induction v path and ms path and xs i path rule: assertNoProto_assertMembers_assertElements.induct)
    (auto split: option.splits)

text \<open>
  A limits value that names the prototype key anywhere is refused before the schema
  sees it, whatever the schema would have made of it; every other value is the schema's
  to judge.
\<close>

theorem parseLimitConfig_guard:
  "parseLimitConfig schema_parse v =
     (if names_proto v then Inl (the (assertNoProto v [])) else schema_parse v)"
  using assert_iff(1) [of v "[]"] by (auto simp: parseLimitConfig_def split: option.splits)

subsection \<open>The violation reported clears last\<close>

definition clearKey :: "violation \<Rightarrow> instant \<times> rat" where
  "clearKey v = (vi_resetAt v, vi_used v / vi_limit v)"

lemma laterToClear_key:
  "laterToClear (Some c) v = (if clearKey c < clearKey v then Some v else Some c)"
  by (auto simp: laterToClear_def clearKey_def less_prod_def)

lemma foldl_later:
  "\<exists>v. foldl laterToClear (Some c) vs = Some v \<and> v \<in> insert c (set vs)
     \<and> (\<forall>u \<in> insert c (set vs). clearKey u \<le> clearKey v)"
proof (induction vs arbitrary: c)
  case (Cons x xs)
  show ?case
  proof (cases "clearKey c < clearKey x")
    case True
    with Cons.IH [of x] show ?thesis by (force simp: laterToClear_key)
  next
    case False
    with Cons.IH [of c] show ?thesis by (force simp: laterToClear_key)
  qed
qed simp

lemma lastToClear_None [simp]: "lastToClear vs = None \<longleftrightarrow> vs = []"
proof (cases vs)
  case (Cons v rest)
  then show ?thesis
    using foldl_later [of v rest] by (auto simp: lastToClear_def laterToClear_def)
qed (simp add: lastToClear_def)

lemma lastToClear_Nil [simp]: "lastToClear [] = None"
  by simp

lemma lastToClear_max:
  assumes "lastToClear vs = Some v"
  shows "v \<in> set vs \<and> (\<forall>u \<in> set vs. clearKey u \<le> clearKey v)"
proof (cases vs)
  case (Cons c rest)
  then show ?thesis
    using assms foldl_later [of c rest] by (auto simp: lastToClear_def laterToClear_def)
qed (use assms in \<open>simp add: lastToClear_def\<close>)

subsection \<open>What is refused\<close>

definition usedIn :: "counter_snapshot \<Rightarrow> dimension \<Rightarrow> window \<Rightarrow> rat" where
  "usedIn counters d w = observedUsed (nullish (cs_windowed counters d) (\<lambda>w. None) w)"

definition resetIn :: "counter_snapshot \<Rightarrow> instant \<Rightarrow> dimension \<Rightarrow> window \<Rightarrow> instant" where
  "resetIn counters now d w = observedReset (nullish (cs_windowed counters d) (\<lambda>w. None) w) now w"

definition limitAt :: "limit_base \<Rightarrow> dimension \<Rightarrow> window \<Rightarrow> rat option" where
  "limitAt config d w = (case limitRow config d of None \<Rightarrow> None | Some ws \<Rightarrow> ws w)"

definition windowTrip :: "limit_base \<Rightarrow> counter_snapshot \<Rightarrow> instant \<Rightarrow> dimension \<Rightarrow> window \<Rightarrow> violation list" where
  "windowTrip config counters now d w =
     (case limitAt config d w of
        None \<Rightarrow> []
      | Some limit \<Rightarrow> if limit \<le> usedIn counters d w
          then [\<lparr>vi_dimension = d, vi_window = Some w, vi_limit = limit, vi_used = usedIn counters d w,
                 vi_resetAt = resetIn counters now d w\<rparr>] else [])"

definition windowEntry :: "limit_base \<Rightarrow> counter_snapshot \<Rightarrow> instant \<Rightarrow> dimension \<Rightarrow> window \<Rightarrow> headroom list" where
  "windowEntry config counters now d w =
     (case limitAt config d w of
        None \<Rightarrow> []
      | Some limit \<Rightarrow> [\<lparr>hr_window = w, hr_limit = limit, hr_used = usedIn counters d w,
          hr_remaining = max 0 (limit - usedIn counters d w), hr_resetAt = resetIn counters now d w\<rparr>])"

lemma evaluateWindow_fold:
  assumes "limitRow config d = Some limits"
  shows "foldl (evaluateWindow d limits (nullish (cs_windowed counters d) (\<lambda>w. None)) now) (vs, near) ws =
    (vs @ concat (map (windowTrip config counters now d) ws),
     foldl nearer near (concat (map (windowEntry config counters now d) ws)))"
proof (induction ws arbitrary: vs near)
  case (Cons w ws)
  then show ?case
    by (cases "limits w")
      (simp_all add: evaluateWindow_def windowTrip_def windowEntry_def limitAt_def assms usedIn_def resetIn_def Let_def)
qed simp

definition dimEntries :: "limit_base \<Rightarrow> counter_snapshot \<Rightarrow> instant \<Rightarrow> dimension \<Rightarrow> headroom list" where
  "dimEntries config counters now d = concat (map (windowEntry config counters now d) WINDOWS)"

lemma evaluateDimension_step:
  "evaluateDimension config counters now (vs, room) d =
     (vs @ concat (map (windowTrip config counters now d) WINDOWS),
      (case foldl nearer None (dimEntries config counters now d) of None \<Rightarrow> room | Some h \<Rightarrow> room(d \<mapsto> h)))"
proof (cases "limitRow config d")
  case None
  then show ?thesis
    by (simp add: evaluateDimension_def windowTrip_def windowEntry_def limitAt_def WINDOWS_def dimEntries_def)
next
  case (Some limits)
  show ?thesis
    unfolding evaluateDimension_def Some option.case Let_def fst_conv snd_conv
      evaluateWindow_fold [OF Some] dimEntries_def ..
qed

definition gaugeTrip :: "limit_base \<Rightarrow> counter_snapshot \<Rightarrow> instant \<Rightarrow> violation list" where
  "gaugeTrip config counters now =
     (case lb_concurrency config of
        None \<Rightarrow> []
      | Some limit \<Rightarrow> if limit \<le> nullish (cs_concurrency counters) 0
          then [\<lparr>vi_dimension = Concurrency, vi_window = None, vi_limit = limit,
                 vi_used = nullish (cs_concurrency counters) 0, vi_resetAt = now\<rparr>] else [])"

lemma evaluate_violations:
  "dc_violations (evaluate config counters now) =
     concat (map (\<lambda>d. concat (map (windowTrip config counters now d) WINDOWS)) WINDOWED) @ gaugeTrip config counters now"
  by (simp add: evaluate_def WINDOWED_def evaluateDimension_step split_def Let_def gaugeTrip_def
      split: option.splits)

lemma evaluate_simps [simp]:
  "dc_violation (evaluate config counters now) = lastToClear (dc_violations (evaluate config counters now))"
  "dc_allowed (evaluate config counters now) = (dc_violations (evaluate config counters now) = [])"
  by (simp_all add: evaluate_def split_def Let_def)

lemma all_windows [simp]: "set WINDOWS = UNIV"
  by (auto simp: WINDOWS_def intro: window.exhaust)

lemma limitAt_windowed: "limitAt config d w = Some l \<Longrightarrow> d \<in> set WINDOWED"
  by (cases d) (auto simp: limitAt_def WINDOWED_def)

text \<open>
  A request is refused exactly when some configured ceiling is already reached: a
  windowed one by what that window holds before the request, or the concurrency ceiling by
  the slots held now. Every reached ceiling is among the violations, and of them the
  reported one clears last, ties going to the larger overshoot.
\<close>

theorem evaluate_refuses_exactly:
  "(dc_allowed (evaluate config counters now) \<longleftrightarrow>
      (\<forall>d w limit. limitAt config d w = Some limit \<longrightarrow> usedIn counters d w < limit)
      \<and> (\<forall>limit. lb_concurrency config = Some limit \<longrightarrow> nullish (cs_concurrency counters) 0 < limit))
   \<and> (\<forall>v. dc_violation (evaluate config counters now) = Some v \<longrightarrow>
        (\<forall>u \<in> set (dc_violations (evaluate config counters now)).
           vi_resetAt u < vi_resetAt v
           \<or> vi_resetAt u = vi_resetAt v \<and> vi_used u / vi_limit u \<le> vi_used v / vi_limit v))"
proof
  have "windowTrip config counters now d w = [] \<longleftrightarrow>
      (\<forall>limit. limitAt config d w = Some limit \<longrightarrow> usedIn counters d w < limit)" for d w
    by (auto simp: windowTrip_def not_le split: option.splits)
  moreover have "gaugeTrip config counters now = [] \<longleftrightarrow>
      (\<forall>limit. lb_concurrency config = Some limit \<longrightarrow> nullish (cs_concurrency counters) 0 < limit)"
    by (auto simp: gaugeTrip_def not_le split: option.splits)
  ultimately show "dc_allowed (evaluate config counters now) \<longleftrightarrow>
      (\<forall>d w limit. limitAt config d w = Some limit \<longrightarrow> usedIn counters d w < limit)
      \<and> (\<forall>limit. lb_concurrency config = Some limit \<longrightarrow> nullish (cs_concurrency counters) 0 < limit)"
    using limitAt_windowed [of config] by (simp add: evaluate_violations) blast
  show "\<forall>v. dc_violation (evaluate config counters now) = Some v \<longrightarrow>
        (\<forall>u \<in> set (dc_violations (evaluate config counters now)).
           vi_resetAt u < vi_resetAt v
           \<or> vi_resetAt u = vi_resetAt v \<and> vi_used u / vi_limit u \<le> vi_used v / vi_limit v)"
    by (auto dest!: lastToClear_max simp: clearKey_def less_eq_prod_def)
qed

definition sample_limits :: limit_base where
  "sample_limits = \<lparr>lb_requests = Some (\<lambda>w. if w = W1m then Some 60 else if w = W1w then Some 1000 else None),
     lb_tokens = None, lb_spend = Some (\<lambda>w. if w = W5h then Some (5 / 2) else None), lb_concurrency = Some 4\<rparr>"

definition sample_counters :: "rat \<Rightarrow> counter_snapshot" where
  "sample_counters n = \<lparr>cs_windowed = (\<lambda>d. if d = Requests then
       Some (\<lambda>w. Some \<lparr>wc_used = (if w = W1m then n else 100), wc_resetAt = 90000\<rparr>) else None),
     cs_concurrency = Some 1\<rparr>"

lemma evaluate_all_windows: "(\<forall>w. P w) \<longleftrightarrow> P W1m \<and> P W5h \<and> P W1w"
  by (metis window.exhaust)

lemma evaluate_all_dimensions: "(\<forall>d. P d) \<longleftrightarrow> P Requests \<and> P Tokens \<and> P Spend \<and> P Concurrency"
  by (metis dimension.exhaust)

theorem evaluate_refuses_exactly_witness:
  "dc_allowed (evaluate sample_limits (sample_counters 59) 0)
   \<and> \<not> dc_allowed (evaluate sample_limits (sample_counters 60) 0)"
  using evaluate_refuses_exactly [of sample_limits "sample_counters 59" 0]
    evaluate_refuses_exactly [of sample_limits "sample_counters 60" 0]
  by (simp add: limitAt_def usedIn_def observedUsed_def sample_limits_def sample_counters_def
      evaluate_all_windows evaluate_all_dimensions)

subsection \<open>Headroom names the window that denies first\<close>

definition proportion :: "headroom \<Rightarrow> rat" where
  "proportion h = hr_used h / hr_limit h"

lemma foldl_nearer:
  "\<exists>h. foldl nearer (Some n) es = Some h \<and> h \<in> insert n (set es)
     \<and> (\<forall>e \<in> insert n (set es). proportion e \<le> proportion h)"
proof (induction es arbitrary: n)
  case (Cons e es)
  show ?case
  proof (cases "proportion n < proportion e")
    case True
    with Cons.IH [of e] show ?thesis by (force simp: nearer_def proportion_def)
  next
    case False
    with Cons.IH [of n] show ?thesis by (force simp: nearer_def proportion_def)
  qed
qed simp

lemma nearest_cases:
  "case foldl nearer None es of
     None \<Rightarrow> es = []
   | Some h \<Rightarrow> h \<in> set es \<and> (\<forall>e \<in> set es. proportion e \<le> proportion h)"
proof (cases es)
  case (Cons e rest)
  then show ?thesis using foldl_nearer [of e rest] by (auto simp: nearer_def)
qed simp

lemma evaluate_headroom:
  "dc_headroom (evaluate config counters now) d = foldl nearer None (dimEntries config counters now d)"
proof -
  have "dimEntries config counters now Concurrency = []"
    by (simp add: dimEntries_def windowEntry_def limitAt_def WINDOWS_def)
  then show ?thesis
    by (cases d)
      (simp_all add: evaluate_def WINDOWED_def evaluateDimension_step split_def Let_def split: option.splits)
qed

lemma dimEntries_mem:
  "h \<in> set (dimEntries config counters now d) \<longleftrightarrow>
     (\<exists>w limit. limitAt config d w = Some limit
        \<and> h = \<lparr>hr_window = w, hr_limit = limit, hr_used = usedIn counters d w,
            hr_remaining = max 0 (limit - usedIn counters d w), hr_resetAt = resetIn counters now d w\<rparr>)"
  by (auto simp: dimEntries_def windowEntry_def split: option.splits)

text \<open>
  The headroom reported for a dimension belongs to a configured window and no other
  configured window of the dimension is closer to exhaustion, by proportion; a dimension
  reports nothing exactly when it has no limit.
\<close>

theorem evaluate_headroom_nearest:
  "case dc_headroom (evaluate config counters now) d of
     None \<Rightarrow> \<forall>w. limitAt config d w = None
   | Some h \<Rightarrow> limitAt config d (hr_window h) = Some (hr_limit h)
       \<and> hr_used h = usedIn counters d (hr_window h)
       \<and> hr_remaining h = max 0 (hr_limit h - hr_used h)
       \<and> (\<forall>w limit. limitAt config d w = Some limit \<longrightarrow> usedIn counters d w / limit \<le> hr_used h / hr_limit h)"
proof (cases "foldl nearer None (dimEntries config counters now d)")
  case None
  with nearest_cases [of "dimEntries config counters now d"] have "dimEntries config counters now d = []" by simp
  then have entry: "windowEntry config counters now d w = []" for w
    by (simp add: dimEntries_def WINDOWS_def) (cases w; simp)
  have "limitAt config d w = None" for w
    using entry [of w] by (auto simp: windowEntry_def split: option.splits)
  with None show ?thesis by (simp add: evaluate_headroom)
next
  case (Some h)
  let ?es = "dimEntries config counters now d"
  from Some nearest_cases [of ?es] have h: "h \<in> set ?es"
    and best: "\<And>e. e \<in> set ?es \<Longrightarrow> hr_used e / hr_limit e \<le> hr_used h / hr_limit h"
    by (auto simp: proportion_def)
  have "usedIn counters d w / limit \<le> hr_used h / hr_limit h" if "limitAt config d w = Some limit" for w limit
    using best [OF dimEntries_mem [THEN iffD2]] that by fastforce
  with h Some show ?thesis by (auto simp: evaluate_headroom dimEntries_mem)
qed

theorem evaluate_headroom_nearest_witness:
  "\<exists>h. dc_headroom (evaluate sample_limits (sample_counters 59) 0) Requests = Some h \<and> 59 / 60 \<le> hr_used h / hr_limit h"
  using evaluate_headroom_nearest [where config = sample_limits and counters = "sample_counters 59" and now = 0 and d = Requests]
  by (auto simp: limitAt_def usedIn_def observedUsed_def sample_limits_def sample_counters_def
      evaluate_all_windows split: option.splits if_splits)

subsection \<open>Two scopes stack\<close>

lemma combine_simps [simp]:
  "dc_violations (combine k m) = dc_violations k @ dc_violations m"
  "dc_violation (combine k m) = lastToClear (dc_violations k @ dc_violations m)"
  "dc_allowed (combine k m) = (dc_violations k = [] \<and> dc_violations m = [])"
  by (simp_all add: combine_def Let_def)

definition lastReset :: "instant \<Rightarrow> violation list \<Rightarrow> int" where
  "lastReset now vs = foldr (\<lambda>v acc. max (vi_resetAt v - now) acc) vs 0"

lemma lastReset_append [simp]: "lastReset now (us @ vs) = max (lastReset now us) (lastReset now vs)"
proof (induction us)
  case Nil
  have "0 \<le> lastReset now vs" by (induction vs) (auto simp: lastReset_def)
  then show ?case by (simp add: lastReset_def)
next
  case (Cons u us)
  then show ?case by (simp add: lastReset_def max.assoc)
qed

lemma lastReset_ge: "v \<in> set vs \<Longrightarrow> vi_resetAt v - now \<le> lastReset now vs"
  by (induction vs) (auto simp: lastReset_def)

lemma lastReset_le: "\<lbrakk>\<forall>v \<in> set vs. vi_resetAt v - now \<le> b; 0 \<le> b\<rbrakk> \<Longrightarrow> lastReset now vs \<le> b"
  by (induction vs) (auto simp: lastReset_def)

lemma retryAfter_lastReset: "retryAfterMs (lastToClear vs) now = lastReset now vs"
proof (cases "lastToClear vs")
  case None
  then show ?thesis by (auto simp: retryAfterMs_def lastReset_def)
next
  case (Some v)
  from lastToClear_max [OF Some] have "v \<in> set vs" "\<forall>u \<in> set vs. vi_resetAt u \<le> vi_resetAt v"
    by (auto simp: clearKey_def less_eq_prod_def)
  then have "lastReset now vs = max 0 (vi_resetAt v - now)"
    using lastReset_le [of vs now "max 0 (vi_resetAt v - now)"] lastReset_ge [of v vs now]
      lastReset_append [of now "[]" vs]
    by (fastforce simp: lastReset_def)
  with Some show ?thesis by (simp add: retryAfterMs_def)
qed

text \<open>
  The key-wide scope and a model's override stack. The joint decision allows a request
  exactly when both do, and the wait it tells a refused client is the longer of the two,
  so a client that honours it is not sent back while either scope still refuses it.
\<close>

theorem combine_stacks:
  fixes key model :: limit_base
  defines "k \<equiv> evaluate key" and "m \<equiv> evaluate model"
  shows "(dc_allowed (combine (k c now) (m c' now)) \<longleftrightarrow> dc_allowed (k c now) \<and> dc_allowed (m c' now))
    \<and> retryAfterMs (dc_violation (combine (k c now) (m c' now))) now
      = max (retryAfterMs (dc_violation (k c now)) now) (retryAfterMs (dc_violation (m c' now)) now)"
  by (simp add: k_def m_def retryAfter_lastReset)

end
