(* ===== verification/Coord_Memory.thy ===== *)
theory Coord_Memory
  imports Limit_Window Limit_Evaluate
begin

section \<open>The in-memory coordinator\<close>

text \<open>
  \<^verbatim>\<open>memoryCoord\<close> of \<^verbatim>\<open>packages/coord/src/index.ts\<close>: the maps behind the interface
  \<^verbatim>\<open>Coord\<close> as one record, and every operation as a function on it. Every method of the
  source runs to completion before anything else does, so a call is one step. The clock
  the source reads itself (\<^verbatim>\<open>now()\<close>) is the argument \<open>clock\<close>, one instant per call.
  A map the code iterates is an association list in insertion order. Subscribers are
  numbered instead of carrying a callback, and publishing returns the calls it makes. The
  mutex, which does wait, is a step relation of its own in \<open>Coord_Mutex\<close>.
\<close>

record slot =
  sl_expiresAt :: instant
  sl_holder :: "string option"

record counts =
  co_requests :: int
  co_tokens :: int
  co_costUsd :: rat

record subscriber =
  su_number :: nat
  su_pattern :: string

record lease =
  le_holder :: string
  le_expiresAt :: instant

record mem_coord =
  mc_windows :: "(string \<times> sliding_window) list"
  mc_gauges :: "(string \<times> slot list) list"
  mc_values :: "string \<rightharpoonup> string \<times> instant"
  mc_buckets :: "string \<rightharpoonup> (int \<times> counts) list"
  mc_leases :: "string \<rightharpoonup> lease"
  mc_subscribers :: "subscriber list"
  mc_counters :: "string \<rightharpoonup> nat"
  mc_lastSweep :: "instant option"

definition memoryCoord :: mem_coord where
  "memoryCoord = \<lparr>mc_windows = [], mc_gauges = [], mc_values = Map.empty, mc_buckets = Map.empty,
     mc_leases = Map.empty, mc_subscribers = [], mc_counters = Map.empty, mc_lastSweep = None\<rparr>"

definition SWEEP_INTERVAL_MS :: int where "SWEEP_INTERVAL_MS = 1000"

subsection \<open>Windows\<close>

definition sweep :: "instant \<Rightarrow> mem_coord \<Rightarrow> mem_coord" where
  "sweep now c =
     (if (case mc_lastSweep c of None \<Rightarrow> False
          | Some l \<Rightarrow> now - l \<ge> 0 \<and> now - l < SWEEP_INTERVAL_MS) then c
      else c\<lparr>mc_lastSweep := Some now,
             mc_windows := filter (\<lambda>(k, ring). \<not> sw_empty ring)
               (map (\<lambda>(k, ring). (k, snd (sw_count ring now))) (mc_windows c))\<rparr>)"

definition window_claim :: "string \<Rightarrow> int \<Rightarrow> instant \<Rightarrow> mem_coord \<Rightarrow> (instant \<times> window_counter) \<times> mem_coord" where
  "window_claim key windowMs now c =
     (let c = sweep now c;
          ring = (case map_of (mc_windows c) key of None \<Rightarrow> newWindow windowMs | Some r \<Rightarrow> r);
          (used, ring) = sw_count ring now;
          before = \<lparr>wc_used = of_nat used, wc_resetAt = sw_resetAt ring now\<rparr>;
          ring = sw_record ring now
      in ((now, before), c\<lparr>mc_windows := AList.update key ring (mc_windows c)\<rparr>))"

definition window_rollback :: "string \<Rightarrow> instant \<Rightarrow> mem_coord \<Rightarrow> mem_coord" where
  "window_rollback key stamp c =
     (case map_of (mc_windows c) key of
        None \<Rightarrow> c
      | Some ring \<Rightarrow> c\<lparr>mc_windows := AList.update key (sw_forget ring stamp) (mc_windows c)\<rparr>)"

definition liveWindows :: "mem_coord \<Rightarrow> nat" where
  "liveWindows c = length (mc_windows c)"

subsection \<open>Gauges\<close>

datatype holder_error = EmptyHolder

definition named :: "string option \<Rightarrow> holder_error + string option" where
  "named holder = (if holder = Some [] then Inl EmptyHolder else Inr holder)"

definition putSlots :: "string \<Rightarrow> slot list \<Rightarrow> mem_coord \<Rightarrow> mem_coord" where
  "putSlots key held c = c\<lparr>mc_gauges :=
     (if held = [] then AList.delete key (mc_gauges c) else AList.update key held (mc_gauges c))\<rparr>"

definition heldSlots :: "string \<Rightarrow> instant \<Rightarrow> mem_coord \<Rightarrow> slot list" where
  "heldSlots key clock c =
     filter (\<lambda>s. sl_expiresAt s > clock) (nullish (map_of (mc_gauges c) key) [])"

definition liveSlots :: "string \<Rightarrow> instant \<Rightarrow> mem_coord \<Rightarrow> slot list \<times> mem_coord" where
  "liveSlots key clock c = (let held = heldSlots key clock c in (held, putSlots key held c))"

fun findIndex :: "('a \<Rightarrow> bool) \<Rightarrow> 'a list \<Rightarrow> nat option" where
  "findIndex P [] = None"
| "findIndex P (x # xs) = (if P x then Some 0 else map_option Suc (findIndex P xs))"

definition gauge_acquire ::
  "string \<Rightarrow> int \<Rightarrow> string option \<Rightarrow> instant \<Rightarrow> mem_coord \<Rightarrow> holder_error + nat \<times> mem_coord" where
  "gauge_acquire key ttlMs rawHolder clock c =
     (case named rawHolder of
        Inl e \<Rightarrow> Inl e
      | Inr holder \<Rightarrow>
          let (held, c) = liveSlots key clock c;
              expiresAt = clock + ttlMs;
              mine = (if holder = None then None else findIndex (\<lambda>s. sl_holder s = holder) held)
          in case mine of
               Some i \<Rightarrow>
                 Inr (length held - 1,
                   c\<lparr>mc_gauges := AList.update key
                     (held[i := \<lparr>sl_expiresAt = expiresAt, sl_holder = holder\<rparr>]) (mc_gauges c)\<rparr>)
             | None \<Rightarrow>
                 Inr (length held,
                   c\<lparr>mc_gauges := AList.update key
                     (held @ [\<lparr>sl_expiresAt = expiresAt, sl_holder = holder\<rparr>]) (mc_gauges c)\<rparr>))"

definition gauge_renew ::
  "string \<Rightarrow> string \<Rightarrow> int \<Rightarrow> instant \<Rightarrow> mem_coord \<Rightarrow> holder_error + mem_coord" where
  "gauge_renew key holder ttlMs clock c =
     (case named (Some holder) of
        Inl e \<Rightarrow> Inl e
      | Inr _ \<Rightarrow>
          let (held, c) = liveSlots key clock c in
          case findIndex (\<lambda>s. sl_holder s = Some holder) held of
            None \<Rightarrow> Inr c
          | Some i \<Rightarrow> Inr (c\<lparr>mc_gauges := AList.update key
              (held[i := \<lparr>sl_expiresAt = clock + ttlMs, sl_holder = Some holder\<rparr>]) (mc_gauges c)\<rparr>))"

definition gauge_release ::
  "string \<Rightarrow> string option \<Rightarrow> instant \<Rightarrow> mem_coord \<Rightarrow> holder_error + mem_coord" where
  "gauge_release key holder clock c =
     (case named holder of
        Inl e \<Rightarrow> Inl e
      | Inr _ \<Rightarrow>
          let (held, c) = liveSlots key clock c;
              held = (case holder of
                  None \<Rightarrow> tl (sort_key sl_expiresAt held)
                | Some h \<Rightarrow>
                    (case findIndex (\<lambda>s. sl_holder s = Some h) held of
                       None \<Rightarrow> held
                     | Some i \<Rightarrow> take i held @ drop (Suc i) held))
          in Inr (putSlots key held c))"

definition gauge_read :: "string \<Rightarrow> instant \<Rightarrow> mem_coord \<Rightarrow> nat \<times> mem_coord" where
  "gauge_read key clock c = (let (held, c) = liveSlots key clock c in (length held, c))"

definition snapshotKey ::
  "string \<Rightarrow> instant \<Rightarrow> (string \<times> nat) list \<times> mem_coord \<Rightarrow> string \<Rightarrow> (string \<times> nat) list \<times> mem_coord" where
  "snapshotKey pre clock acc key =
     (if \<not> prefix pre key then acc
      else
        let (held, c) = liveSlots key clock (snd acc)
        in (if length held > 0 then fst acc @ [(key, length held)] else fst acc, c))"

definition gauge_snapshot :: "string \<Rightarrow> instant \<Rightarrow> mem_coord \<Rightarrow> (string \<times> nat) list \<times> mem_coord" where
  "gauge_snapshot pre clock c = foldl (snapshotKey pre clock) ([], c) (map fst (mc_gauges c))"

subsection \<open>Buckets\<close>

definition bucketOf :: "int \<Rightarrow> instant \<Rightarrow> int" where
  "bucketOf grainMs t = (t div grainMs) * grainMs"

definition zeroCounts :: counts where
  "zeroCounts = \<lparr>co_requests = 0, co_tokens = 0, co_costUsd = 0\<rparr>"

definition addCounts :: "counts \<Rightarrow> counts \<Rightarrow> counts" where
  "addCounts a b = \<lparr>co_requests = co_requests a + co_requests b, co_tokens = co_tokens a + co_tokens b,
     co_costUsd = co_costUsd a + co_costUsd b\<rparr>"

definition trimBuckets :: "string \<Rightarrow> int \<Rightarrow> int \<Rightarrow> instant \<Rightarrow> mem_coord \<Rightarrow> mem_coord" where
  "trimBuckets key grainMs windowMs now c =
     (case mc_buckets c key of
        None \<Rightarrow> c
      | Some held \<Rightarrow>
          let oldest = bucketOf grainMs (now - windowMs)
          in c\<lparr>mc_buckets := (mc_buckets c)(key \<mapsto> filter (\<lambda>(start, _). \<not> start < oldest) held)\<rparr>)"

definition buckets_add :: "string \<Rightarrow> int \<Rightarrow> int \<Rightarrow> instant \<Rightarrow> counts \<Rightarrow> mem_coord \<Rightarrow> mem_coord" where
  "buckets_add key grainMs windowMs now delta c =
     (let c = trimBuckets key grainMs windowMs now c in
      case mc_buckets c key of
        None \<Rightarrow> c
      | Some held \<Rightarrow>
          let start = bucketOf grainMs now;
              current = nullish (map_of held start) zeroCounts
          in c\<lparr>mc_buckets := (mc_buckets c)(key \<mapsto> AList.update start (addCounts current delta) held)\<rparr>)"

definition buckets_sum :: "string \<Rightarrow> int \<Rightarrow> int \<Rightarrow> instant \<Rightarrow> mem_coord \<Rightarrow> counts option \<times> mem_coord" where
  "buckets_sum key grainMs windowMs now c =
     (let c = trimBuckets key grainMs windowMs now c in
      (map_option (\<lambda>held. foldl addCounts zeroCounts (map snd held)) (mc_buckets c key), c))"

definition buckets_seed ::
  "string \<Rightarrow> int \<Rightarrow> int \<Rightarrow> instant \<Rightarrow> (int \<times> counts) list \<Rightarrow> mem_coord \<Rightarrow> mem_coord" where
  "buckets_seed key grainMs windowMs now rows c =
     (let held = foldl (\<lambda>held (start, n). AList.update (bucketOf grainMs start) n held) [] rows
      in trimBuckets key grainMs windowMs now (c\<lparr>mc_buckets := (mc_buckets c)(key \<mapsto> held)\<rparr>))"

subsection \<open>Leases, publishing, counters and values\<close>

definition lease_acquire :: "string \<Rightarrow> string \<Rightarrow> int \<Rightarrow> instant \<Rightarrow> mem_coord \<Rightarrow> bool \<times> mem_coord" where
  "lease_acquire name holderId ttlMs clock c =
     (if (case mc_leases c name of None \<Rightarrow> False
          | Some l \<Rightarrow> le_holder l \<noteq> holderId \<and> le_expiresAt l > clock) then (False, c)
      else (True, c\<lparr>mc_leases := (mc_leases c)(name \<mapsto> \<lparr>le_holder = holderId, le_expiresAt = clock + ttlMs\<rparr>)\<rparr>))"

definition lease_release :: "string \<Rightarrow> string \<Rightarrow> mem_coord \<Rightarrow> mem_coord" where
  "lease_release name holderId c =
     (case mc_leases c name of
        None \<Rightarrow> c
      | Some l \<Rightarrow> if le_holder l = holderId then c\<lparr>mc_leases := (mc_leases c)(name := None)\<rparr> else c)"

definition patternHits :: "string \<Rightarrow> string \<Rightarrow> bool" where
  "patternHits pattern topic =
     (if pattern \<noteq> [] \<and> last pattern = CHR ''*'' then prefix (butlast pattern) topic else topic = pattern)"

definition publish :: "string \<Rightarrow> string \<Rightarrow> mem_coord \<Rightarrow> (nat \<times> string \<times> string) list" where
  "publish topic payload c =
     map (\<lambda>s. (su_number s, topic, payload)) (filter (\<lambda>s. patternHits (su_pattern s) topic) (mc_subscribers c))"

definition coord_incr :: "string \<Rightarrow> mem_coord \<Rightarrow> nat \<times> mem_coord" where
  "coord_incr key c =
     (let n = nullish (mc_counters c key) 0 + 1 in (n, c\<lparr>mc_counters := (mc_counters c)(key \<mapsto> n)\<rparr>))"

definition publishSequenced ::
  "string \<Rightarrow> string \<Rightarrow> string \<Rightarrow> mem_coord \<Rightarrow> (nat \<times> (nat \<times> string \<times> string) list) \<times> mem_coord" where
  "publishSequenced topic payload seqKey c =
     (let n = nullish (mc_counters c seqKey) 0 + 1;
          c = c\<lparr>mc_counters := (mc_counters c)(seqKey \<mapsto> n)\<rparr>
      in ((n, publish topic (decimal n @ '':'' @ payload) c), c))"

definition subscribe :: "string \<Rightarrow> nat \<Rightarrow> mem_coord \<Rightarrow> mem_coord" where
  "subscribe pattern number c =
     c\<lparr>mc_subscribers := mc_subscribers c @ [\<lparr>su_number = number, su_pattern = pattern\<rparr>]\<rparr>"

definition unsubscribe :: "nat \<Rightarrow> mem_coord \<Rightarrow> mem_coord" where
  "unsubscribe number c = c\<lparr>mc_subscribers := filter (\<lambda>s. su_number s \<noteq> number) (mc_subscribers c)\<rparr>"

definition kv_set :: "string \<Rightarrow> string \<Rightarrow> int \<Rightarrow> instant \<Rightarrow> mem_coord \<Rightarrow> mem_coord" where
  "kv_set key v ttlMs clock c = c\<lparr>mc_values := (mc_values c)(key \<mapsto> (v, clock + ttlMs))\<rparr>"

definition kv_get :: "string \<Rightarrow> instant \<Rightarrow> mem_coord \<Rightarrow> string option \<times> mem_coord" where
  "kv_get key clock c =
     (case mc_values c key of
        None \<Rightarrow> (None, c)
      | Some (v, expiresAt) \<Rightarrow>
          if expiresAt \<le> clock then (None, c\<lparr>mc_values := (mc_values c)(key := None)\<rparr>) else (Some v, c))"

definition kv_del :: "string \<Rightarrow> mem_coord \<Rightarrow> mem_coord" where
  "kv_del key c = c\<lparr>mc_values := (mc_values c)(key := None)\<rparr>"

definition kv_delPrefix :: "string \<Rightarrow> mem_coord \<Rightarrow> mem_coord" where
  "kv_delPrefix pre c = c\<lparr>mc_values := (\<lambda>key. if prefix pre key then None else mc_values c key)\<rparr>"

end
