(* ===== verification/Coord_Buckets.thy ===== *)
theory Coord_Buckets
  imports Coord_Memory
begin

section \<open>Time buckets\<close>

text \<open>
  What the long rate-limit windows are counted in (\<^verbatim>\<open>buckets\<close> of
  \<^verbatim>\<open>packages/coord/src/index.ts\<close>). A seeded key holds one count per grain; the sum of its
  live buckets is the sum of the window, widened at its old edge by less than one grain.
  The argument is made for any additive reading of the counts (requests, tokens, cost).
\<close>

definition additive :: "(counts \<Rightarrow> 'a :: comm_monoid_add) \<Rightarrow> bool" where
  "additive f \<longleftrightarrow> f zeroCounts = 0 \<and> (\<forall>a b. f (addCounts a b) = f a + f b)"

lemma additive_counts [simp]: "additive co_requests" "additive co_tokens" "additive co_costUsd"
  by (simp_all add: additive_def zeroCounts_def addCounts_def)

definition totalFrom :: "(counts \<Rightarrow> 'a :: comm_monoid_add) \<Rightarrow> int \<Rightarrow> (int \<times> counts) list \<Rightarrow> 'a" where
  "totalFrom f lo l = sum_list (map (f \<circ> snd) (filter (\<lambda>(start, _). lo \<le> start) l))"

lemma totalFrom_simps [simp]:
  "totalFrom f lo [] = 0"
  "totalFrom f lo ((s, n) # l) = (if lo \<le> s then f n else 0) + totalFrom f lo l"
  "totalFrom f lo (xs @ ys) = totalFrom f lo xs + totalFrom f lo ys"
  by (simp_all add: totalFrom_def)

lemma totalFrom_foldl: "additive f \<Longrightarrow> f (foldl addCounts a (map snd l)) = f a + sum_list (map (f \<circ> snd) l)"
  by (induction l arbitrary: a) (simp_all add: additive_def add.assoc)

lemma totalFrom_trim: "oldest \<le> lo \<Longrightarrow> totalFrom f lo (filter (\<lambda>(start, _). \<not> start < oldest) l) = totalFrom f lo l"
  by (induction l) auto

lemma update_fresh: "s \<notin> fst ` set l \<Longrightarrow> AList.update s n l = l @ [(s, n)]"
  by (induction l) auto

lemma totalFrom_add:
  assumes "additive f" and "distinct (map fst l)"
  shows "totalFrom f lo (AList.update s (addCounts (nullish (map_of l s) zeroCounts) d) l)
    = totalFrom f lo l + (if lo \<le> s then f d else 0)"
  using assms(2)
proof (induction l)
  case Nil
  then show ?case using assms(1) by (simp add: additive_def)
next
  case (Cons x l)
  obtain s' n where x: "x = (s', n)" by (cases x)
  show ?case
  proof (cases "s' = s")
    case True
    then show ?thesis using assms(1) by (simp add: x additive_def ac_simps)
  next
    case False
    with Cons show ?thesis by (simp add: x ac_simps)
  qed
qed

lemma bucketOf_mono: "0 < g \<Longrightarrow> a \<le> b \<Longrightarrow> bucketOf g a \<le> bucketOf g b"
  by (simp add: bucketOf_def zdiv_mono1 mult_right_mono)

lemma bucketOf_bounds:
  assumes "0 < g"
  shows "t - g < bucketOf g t" and "bucketOf g t \<le> t"
proof -
  have "t = bucketOf g t + t mod g" by (simp add: bucketOf_def)
  moreover have "0 \<le> t mod g" "t mod g < g" using assms by simp_all
  ultimately show "t - g < bucketOf g t" "bucketOf g t \<le> t" by linarith+
qed

lemma bucketOf_idem: "0 < g \<Longrightarrow> bucketOf g (bucketOf g a) = bucketOf g a"
  by (simp add: bucketOf_def)

lemma bucketOf_le_iff:
  assumes "0 < g"
  shows "bucketOf g a \<le> bucketOf g t \<longleftrightarrow> bucketOf g a \<le> t"
  using bucketOf_bounds(2) [OF assms, of t] bucketOf_mono [OF assms, of "bucketOf g a" t] bucketOf_idem [OF assms, of a]
  by auto

subsection \<open>A seeded key under further debits\<close>

definition debits :: "string \<Rightarrow> int \<Rightarrow> int \<Rightarrow> (instant \<times> counts) list \<Rightarrow> mem_coord \<Rightarrow> mem_coord" where
  "debits key g w evs c = foldl (\<lambda>c (t, n). buckets_add key g w t n c) c evs"

lemma trim_picture:
  assumes "mc_buckets c key = Some held" and "distinct (map fst held)" and "0 < g" and "t \<le> now"
  shows "\<exists>held'. mc_buckets (trimBuckets key g w t c) key = Some held' \<and> distinct (map fst held')
    \<and> totalFrom f (bucketOf g (now - w)) held' = totalFrom f (bucketOf g (now - w)) held"
proof -
  have "bucketOf g (t - w) \<le> bucketOf g (now - w)" using assms(3,4) by (intro bucketOf_mono) auto
  then show ?thesis
    using assms(1,2) by (auto simp: trimBuckets_def totalFrom_trim distinct_map_filter)
qed

lemma add_picture:
  assumes "additive f" and "mc_buckets c key = Some held" and "distinct (map fst held)" and "0 < g" and "t \<le> now"
  shows "\<exists>held'. mc_buckets (buckets_add key g w t n c) key = Some held' \<and> distinct (map fst held')
    \<and> totalFrom f (bucketOf g (now - w)) held' =
      totalFrom f (bucketOf g (now - w)) held + (if bucketOf g (now - w) \<le> bucketOf g t then f n else 0)"
proof -
  obtain held' where h: "mc_buckets (trimBuckets key g w t c) key = Some held'" "distinct (map fst held')"
    "totalFrom f (bucketOf g (now - w)) held' = totalFrom f (bucketOf g (now - w)) held"
    using trim_picture [OF assms(2-5)] by blast
  then show ?thesis
    using totalFrom_add [OF assms(1) h(2)]
    by (auto simp: buckets_add_def Let_def distinct_update)
qed

lemma debits_picture:
  assumes "additive f" and "0 < g" and "\<forall>(t, n) \<in> set evs. t \<le> now"
    and "mc_buckets c key = Some held" and "distinct (map fst held)"
  shows "\<exists>held'. mc_buckets (debits key g w evs c) key = Some held' \<and> distinct (map fst held')
    \<and> totalFrom f (bucketOf g (now - w)) held' =
      totalFrom f (bucketOf g (now - w)) held
      + sum_list (map (\<lambda>(t, n). if bucketOf g (now - w) \<le> bucketOf g t then f n else 0) evs)"
  using assms(3-5)
proof (induction evs arbitrary: c held)
  case Nil
  then show ?case by (simp add: debits_def)
next
  case (Cons e evs)
  obtain t n where e: "e = (t, n)" by (cases e)
  with Cons.prems have "t \<le> now" by auto
  from add_picture [OF assms(1) Cons.prems(2,3) assms(2) this, of w n]
  obtain held' where "mc_buckets (buckets_add key g w t n c) key = Some held'" "distinct (map fst held')"
    "totalFrom f (bucketOf g (now - w)) held' =
      totalFrom f (bucketOf g (now - w)) held + (if bucketOf g (now - w) \<le> bucketOf g t then f n else 0)"
    by blast
  with Cons.IH [of "buckets_add key g w t n c" held'] Cons.prems(1) show ?case
    by (auto simp: debits_def e add.assoc)
qed

lemma seed_picture:
  assumes "distinct (map (bucketOf g \<circ> fst) rows)"
  defines "held \<equiv> foldl (\<lambda>held (start, n). AList.update (bucketOf g start) n held) [] rows"
  shows "held = map (\<lambda>(start, n). (bucketOf g start, n)) rows"
  using assms(1) unfolding held_def
proof (induction rows rule: rev_induct)
  case (snoc r rows)
  obtain s n where r: "r = (s, n)" by (cases r)
  with snoc have "bucketOf g s \<notin> fst ` set (map (\<lambda>(start, n). (bucketOf g start, n)) rows)"
    by (auto simp: image_iff split: prod.splits)
  with snoc r show ?case by (simp add: update_fresh)
qed simp

text \<open>
  What a long window reports. A key seeded with one row per grain and then debited
  any number of times, in any order, none after the instant asked about, reports exactly
  the rows and debits at or after an edge that lies less than one grain before the
  window's own: nothing inside the window is missed, and at most one grain too much is
  counted.
\<close>

theorem buckets_window_sum:
  fixes f :: "counts \<Rightarrow> 'a :: comm_monoid_add" and c :: mem_coord and key :: string and w :: int
  assumes "additive f" and "0 < g" and "distinct (map (bucketOf g \<circ> fst) rows)"
    and "seeded \<le> now" and "\<forall>(t, n) \<in> set evs. t \<le> now"
  defines "answer \<equiv> fst (buckets_sum key g w now (debits key g w evs (buckets_seed key g w seeded rows c)))"
  shows "\<exists>total edge. answer = Some total \<and> now - w - g < edge \<and> edge \<le> now - w
    \<and> f total = sum_list (map (\<lambda>(t, n). if edge \<le> t then f n else 0) (rows @ evs))"
proof -
  let ?lo = "bucketOf g (now - w)"
  let ?rows = "map (\<lambda>(start, n). (bucketOf g start, n)) rows"
  let ?c0 = "c\<lparr>mc_buckets := (mc_buckets c)(key \<mapsto> ?rows)\<rparr>"
  have seed: "buckets_seed key g w seeded rows c = trimBuckets key g w seeded ?c0"
    using seed_picture [OF assms(3)] by (simp add: buckets_seed_def)
  have "mc_buckets ?c0 key = Some ?rows" "distinct (map fst ?rows)"
    using assms(3) by (simp_all add: comp_def split_def)
  from trim_picture [OF this assms(2,4)] obtain h0 where
    h0: "mc_buckets (buckets_seed key g w seeded rows c) key = Some h0" "distinct (map fst h0)"
      "totalFrom f ?lo h0 = totalFrom f ?lo ?rows" by (auto simp: seed)
  from debits_picture [OF assms(1,2,5) h0(1,2)] obtain h1 where
    h1: "mc_buckets (debits key g w evs (buckets_seed key g w seeded rows c)) key = Some h1" "distinct (map fst h1)"
      "totalFrom f ?lo h1 = totalFrom f ?lo h0
        + sum_list (map (\<lambda>(t, n). if ?lo \<le> bucketOf g t then f n else 0) evs)" by blast
  let ?live = "filter (\<lambda>(start, _). \<not> start < ?lo) h1"
  have answer: "answer = Some (foldl addCounts zeroCounts (map snd ?live))"
    using h1(1) by (simp add: answer_def buckets_sum_def trimBuckets_def Let_def)
  have "f (foldl addCounts zeroCounts (map snd ?live)) = totalFrom f ?lo h1"
    using assms(1) by (simp add: totalFrom_foldl additive_def totalFrom_def not_less)
  moreover have "totalFrom f ?lo ?rows = sum_list (map (\<lambda>(t, n). if ?lo \<le> t then f n else 0) rows)"
    by (induction rows) (auto simp: bucketOf_le_iff [OF assms(2)])
  ultimately show ?thesis
    using answer h0(3) h1(3) bucketOf_bounds [OF assms(2), of "now - w"]
    by (auto simp: bucketOf_le_iff [OF assms(2)])
qed

definition sample_counts :: "int \<Rightarrow> counts" where
  "sample_counts n = \<lparr>co_requests = 1, co_tokens = n, co_costUsd = 0\<rparr>"

theorem buckets_window_sum_witness:
  "\<exists>total. fst (buckets_sum ''k'' 60 300 1000 (debits ''k'' 60 300 [(900, sample_counts 7)]
      (buckets_seed ''k'' 60 300 730 [(600, sample_counts 3), (720, sample_counts 5)] memoryCoord))) = Some total
    \<and> co_tokens total = 12"
  using buckets_window_sum [of co_tokens 60 "[(600, sample_counts 3), (720, sample_counts 5)]" 730 1000
      "[(900, sample_counts 7)]" "''k''" 300 memoryCoord]
  by (auto simp: sample_counts_def bucketOf_def)

end
