(* ===== verification/Coord_Mutex.thy ===== *)
theory Coord_Mutex
  imports Gateway_Prelude
begin

section \<open>The in-memory mutex\<close>

text \<open>
  \<^verbatim>\<open>mutex.withLock\<close> of \<^verbatim>\<open>packages/coord/src/index.ts\<close>, the one operation of the coordinator
  that waits. A call runs without interruption between two \<^verbatim>\<open>await\<close>s, so its steps are:
  look at the lock and either take it or wait on the promise found there; wake because
  that promise was released, and look again; give up because the timer fired; finish,
  which deletes the lock and releases its promise. Promises are numbered in the order they
  are made. The interleavings of any number of calls are the runs of the relation
  \<open>lock_step\<close>. The time to live is ignored by this implementation, so no step takes a
  lock from a holder.
\<close>

datatype call =
    Idle
  | Waiting string nat
  | Running string nat
  | Finished
  | Unavailable string

record lock_state =
  lk_locks :: "string \<rightharpoonup> nat"
  lk_released :: "nat set"
  lk_next :: nat
  lk_calls :: "nat \<Rightarrow> call"

definition lock_init :: lock_state where
  "lock_init = \<lparr>lk_locks = Map.empty, lk_released = {}, lk_next = 0, lk_calls = (\<lambda>t. Idle)\<rparr>"

definition lookAtLock :: "nat \<Rightarrow> string \<Rightarrow> lock_state \<Rightarrow> lock_state" where
  "lookAtLock t key s =
     (case lk_locks s key of
        Some held \<Rightarrow> s\<lparr>lk_calls := (lk_calls s)(t := Waiting key held)\<rparr>
      | None \<Rightarrow> s\<lparr>lk_locks := (lk_locks s)(key \<mapsto> lk_next s), lk_next := lk_next s + 1,
          lk_calls := (lk_calls s)(t := Running key (lk_next s))\<rparr>)"

definition finishCall :: "nat \<Rightarrow> string \<Rightarrow> nat \<Rightarrow> lock_state \<Rightarrow> lock_state" where
  "finishCall t key p s = s\<lparr>lk_locks := (lk_locks s)(key := None), lk_released := insert p (lk_released s),
     lk_calls := (lk_calls s)(t := Finished)\<rparr>"

inductive lock_step :: "lock_state \<Rightarrow> lock_state \<Rightarrow> bool" where
  call: "lk_calls s t = Idle \<Longrightarrow> lock_step s (lookAtLock t key s)"
| wake: "lk_calls s t = Waiting key p \<Longrightarrow> p \<in> lk_released s \<Longrightarrow> lock_step s (lookAtLock t key s)"
| expire: "lk_calls s t = Waiting key p \<Longrightarrow>
    lock_step s (s\<lparr>lk_calls := (lk_calls s)(t := Unavailable key)\<rparr>)"
| finish: "lk_calls s t = Running key p \<Longrightarrow> lock_step s (finishCall t key p s)"

definition lock_reachable :: "lock_state \<Rightarrow> bool" where
  "lock_reachable s \<longleftrightarrow> lock_step\<^sup>*\<^sup>* lock_init s"

inductive_cases lock_stepE: "lock_step s s'"

subsection \<open>The invariant\<close>

definition lock_inv :: "lock_state \<Rightarrow> bool" where
  "lock_inv s \<longleftrightarrow>
     (\<forall>t key p. lk_calls s t = Running key p \<longrightarrow> lk_locks s key = Some p \<and> p \<notin> lk_released s \<and> p < lk_next s)
     \<and> (\<forall>t t' key key' p. lk_calls s t = Running key p \<longrightarrow> lk_calls s t' = Running key' p \<longrightarrow> t = t')
     \<and> (\<forall>key p. lk_locks s key = Some p \<longrightarrow> (\<exists>t. lk_calls s t = Running key p))
     \<and> (\<forall>t key p. lk_calls s t = Waiting key p \<longrightarrow> p \<in> lk_released s \<or> lk_locks s key = Some p)
     \<and> (\<forall>p \<in> lk_released s. p < lk_next s)"

lemma lock_invD:
  assumes "lock_inv s"
  shows "lk_calls s t = Running key p \<Longrightarrow> lk_locks s key = Some p"
    and "lk_calls s t = Running key p \<Longrightarrow> p \<notin> lk_released s"
    and "lk_calls s t = Running key p \<Longrightarrow> p < lk_next s"
    and "lk_calls s t = Running key p \<Longrightarrow> lk_calls s t' = Running key' p \<Longrightarrow> t = t'"
    and "lk_locks s key = Some p \<Longrightarrow> \<exists>t. lk_calls s t = Running key p"
    and "lk_calls s t = Waiting key p \<Longrightarrow> p \<in> lk_released s \<or> lk_locks s key = Some p"
    and "p \<in> lk_released s \<Longrightarrow> p < lk_next s"
  using assms unfolding lock_inv_def by blast+

lemma recall_inv:
  assumes inv: "lock_inv s" and idle: "\<forall>key p. lk_calls s t \<noteq> Running key p"
    and "\<forall>key p. c \<noteq> Running key p" and "\<forall>key p. c = Waiting key p \<longrightarrow> p \<in> lk_released s \<or> lk_locks s key = Some p"
  shows "lock_inv (s\<lparr>lk_calls := (lk_calls s)(t := c)\<rparr>)"
proof -
  note D = lock_invD [OF inv]
  have same: "((lk_calls s)(t := c)) t' = Running key p \<longleftrightarrow> lk_calls s t' = Running key p" for t' key p
    using idle assms(3) by auto
  let ?s = "s\<lparr>lk_calls := (lk_calls s)(t := c)\<rparr>"
  have sel: "lk_locks ?s = lk_locks s" "lk_released ?s = lk_released s" "lk_next ?s = lk_next s"
    "lk_calls ?s = (lk_calls s)(t := c)" by simp_all
  show ?thesis
    unfolding lock_inv_def sel same
  proof (intro conjI allI ballI impI)
    fix t' key p assume "((lk_calls s)(t := c)) t' = Waiting key p"
    then show "p \<in> lk_released s \<or> lk_locks s key = Some p"
      using D(6) [of t' key p] assms(4) by (auto split: if_splits)
  qed (use D in blast)+
qed

lemma look_inv:
  assumes inv: "lock_inv s" and idle: "\<forall>key p. lk_calls s t \<noteq> Running key p"
  shows "lock_inv (lookAtLock t key s)"
proof (cases "lk_locks s key")
  case (Some held)
  then show ?thesis using recall_inv [OF inv idle, of "Waiting key held"] by (simp add: lookAtLock_def)
next
  case None
  note D = lock_invD [OF inv]
  have fresh: "lk_calls s t' \<noteq> Running k (lk_next s)" for t' k using D(3) by blast
  have unreleased: "lk_next s \<notin> lk_released s" using D(7) by blast
  show ?thesis
    unfolding lock_inv_def
  proof (intro conjI allI ballI impI)
    fix t' k p assume "lk_calls (lookAtLock t key s) t' = Running k p"
    then show "lk_locks (lookAtLock t key s) k = Some p" "p \<notin> lk_released (lookAtLock t key s)"
      "p < lk_next (lookAtLock t key s)"
      using D(1-3) None unreleased by (auto simp: lookAtLock_def less_Suc_eq split: if_splits)
  next
    fix t1 t2 k1 k2 p
    assume "lk_calls (lookAtLock t key s) t1 = Running k1 p" "lk_calls (lookAtLock t key s) t2 = Running k2 p"
    then show "t1 = t2" using D(4) fresh None by (auto simp: lookAtLock_def split: if_splits)
  next
    fix k p assume "lk_locks (lookAtLock t key s) k = Some p"
    then show "\<exists>t'. lk_calls (lookAtLock t key s) t' = Running k p"
      using D(5) [of k p] idle None by (auto simp: lookAtLock_def split: if_splits) metis
  next
    fix t' k p assume "lk_calls (lookAtLock t key s) t' = Waiting k p"
    then show "p \<in> lk_released (lookAtLock t key s) \<or> lk_locks (lookAtLock t key s) k = Some p"
      using D(6) [of t' k p] None by (auto simp: lookAtLock_def split: if_splits)
  next
    fix p assume "p \<in> lk_released (lookAtLock t key s)"
    then show "p < lk_next (lookAtLock t key s)" using D(7) None by (auto simp: lookAtLock_def less_SucI)
  qed
qed

lemma finish_inv:
  assumes inv: "lock_inv s" and run: "lk_calls s t = Running key p"
  shows "lock_inv (finishCall t key p s)"
proof -
  note D = lock_invD [OF inv]
  have other: "k \<noteq> key" if "lk_calls s t' = Running k q" "t' \<noteq> t" for t' k q
    using D(1) [OF that(1)] D(1) [OF run] D(4) [OF run] that by auto
  show ?thesis
    unfolding lock_inv_def
  proof (intro conjI allI ballI impI)
    fix t' k q assume r: "lk_calls (finishCall t key p s) t' = Running k q"
    then have r': "lk_calls s t' = Running k q" "t' \<noteq> t" by (auto simp: finishCall_def split: if_splits)
    then show "lk_locks (finishCall t key p s) k = Some q" "q < lk_next (finishCall t key p s)"
      using D(1,3) [OF r'(1)] other [OF r'] by (auto simp: finishCall_def)
    show "q \<notin> lk_released (finishCall t key p s)"
      using D(2) [OF r'(1)] D(4) [OF run] r' by (auto simp: finishCall_def)
  next
    fix t1 t2 k1 k2 q
    assume "lk_calls (finishCall t key p s) t1 = Running k1 q" "lk_calls (finishCall t key p s) t2 = Running k2 q"
    then show "t1 = t2" using D(4) by (auto simp: finishCall_def split: if_splits)
  next
    fix k q assume l: "lk_locks (finishCall t key p s) k = Some q"
    then have "k \<noteq> key" "lk_locks s k = Some q" by (auto simp: finishCall_def split: if_splits)
    moreover from D(5) [OF this(2)] obtain t' where "lk_calls s t' = Running k q" by blast
    ultimately have "lk_calls (finishCall t key p s) t' = Running k q"
      using run by (auto simp: finishCall_def)
    then show "\<exists>t'. lk_calls (finishCall t key p s) t' = Running k q" by blast
  next
    fix t' k q assume "lk_calls (finishCall t key p s) t' = Waiting k q"
    then have "lk_calls s t' = Waiting k q" by (auto simp: finishCall_def split: if_splits)
    with D(6) [OF this] D(1) [OF run]
    show "q \<in> lk_released (finishCall t key p s) \<or> lk_locks (finishCall t key p s) k = Some q"
      by (auto simp: finishCall_def)
  next
    fix q assume "q \<in> lk_released (finishCall t key p s)"
    then show "q < lk_next (finishCall t key p s)" using D(3) [OF run] D(7) by (auto simp: finishCall_def)
  qed
qed

lemma expire_inv:
  assumes "lock_inv s" and "lk_calls s t = Waiting key p"
  shows "lock_inv (s\<lparr>lk_calls := (lk_calls s)(t := Unavailable key)\<rparr>)"
  using recall_inv [OF assms(1), of t "Unavailable key"] assms(2) by simp

lemma lock_reachable_inv:
  assumes "lock_reachable s"
  shows "lock_inv s"
  using assms unfolding lock_reachable_def
proof (induction rule: rtranclp_induct)
  case base
  then show ?case by (simp add: lock_inv_def lock_init_def)
next
  case (step s s')
  from step.hyps(2) show ?case
    by (rule lock_stepE) (auto intro: look_inv finish_inv expire_inv step.IH)
qed

text \<open>
  C39: mutual exclusion. In every interleaving of any number of calls, at most one call
  runs its function while holding a given key.
\<close>

theorem mutex_exclusive:
  assumes "lock_reachable s" and "lk_calls s t = Running key p" and "lk_calls s t' = Running key p'"
  shows "t = t'"
proof -
  note D = lock_invD [OF lock_reachable_inv [OF assms(1)]]
  have "p = p'" using D(1) [OF assms(2)] D(1) [OF assms(3)] by simp
  with D(4) [OF assms(2)] assms(3) show ?thesis by simp
qed

text \<open>
  No wakeup is lost. A waiting call can always move on at once, because the promise
  it waits on has been released, or else some call is running with exactly that promise
  and will release it when it finishes; and a free lock is taken by the call that looks.
\<close>

theorem mutex_no_lost_wakeup:
  assumes "lock_reachable s" and "lk_calls s t = Waiting key p"
  shows "(p \<in> lk_released s \<and> lock_step s (lookAtLock t key s))
    \<or> (\<exists>t'. lk_calls s t' = Running key p \<and> p \<in> lk_released (finishCall t' key p s))"
proof (cases "p \<in> lk_released s")
  case True
  then show ?thesis using assms(2) lock_step.wake by blast
next
  case False
  note D = lock_invD [OF lock_reachable_inv [OF assms(1)]]
  from D(6) [OF assms(2)] False have "lk_locks s key = Some p" by simp
  from D(5) [OF this] show ?thesis by (auto simp: finishCall_def)
qed

definition sample_contended :: lock_state where
  "sample_contended = lookAtLock 1 ''seed'' (lookAtLock 0 ''seed'' lock_init)"

lemma sample_contended_reachable: "lock_reachable sample_contended"
proof -
  have "lock_step lock_init (lookAtLock 0 ''seed'' lock_init)"
    by (rule lock_step.call) (simp add: lock_init_def)
  moreover have "lock_step (lookAtLock 0 ''seed'' lock_init) sample_contended"
    unfolding sample_contended_def by (rule lock_step.call) (simp add: lock_init_def lookAtLock_def)
  ultimately show ?thesis unfolding lock_reachable_def by (meson rtranclp.simps)
qed

lemma sample_contended_calls:
  "lk_calls sample_contended 0 = Running ''seed'' 0" "lk_calls sample_contended 1 = Waiting ''seed'' 0"
  by (simp_all add: sample_contended_def lookAtLock_def lock_init_def)

theorem mutex_exclusive_witness:
  "lk_calls sample_contended 0 = Running ''seed'' 0 \<and> (\<forall>p. lk_calls sample_contended 1 \<noteq> Running ''seed'' p)"
  using mutex_exclusive [OF sample_contended_reachable sample_contended_calls(1), of 1] sample_contended_calls by auto

theorem mutex_no_lost_wakeup_witness:
  "\<exists>t'. lk_calls sample_contended t' = Running ''seed'' 0"
  using mutex_no_lost_wakeup [OF sample_contended_reachable sample_contended_calls(2)]
  by (auto simp: sample_contended_def lookAtLock_def lock_init_def)

end
