(* ===== verification/Coord_Window.thy ===== *)
theory Coord_Window
  imports Coord_Memory
begin

section \<open>What a sliding window promises its clients\<close>

text \<open>
  The half of the \<^verbatim>\<open>Coord\<close> contract (\<^verbatim>\<open>packages/coord/src/index.ts\<close>) that the limiter's
  burst safety rests on, as the locale \<open>window_provider\<close>: a claim counts at least every
  live event, records its own, and disturbs no event still live; a rollback removes at
  most the one event it names. The client's argument is made once inside the locale, for
  a ledger of claims kept in the order they were taken, and the in-memory coordinator is
  shown to be a provider.
\<close>

text \<open>
  A ledger lists the claims not yet given back, in claim order, each with the stamp it
  recorded and the count it was told. \<open>told_enough\<close>: every claim was told at least the
  number of claims before it in the ledger whose stamps lie after the cutoff.
\<close>

type_synonym ledger = "(instant \<times> nat) list"

definition after :: "int \<Rightarrow> ledger \<Rightarrow> instant multiset" where
  "after cutoff l = filter_mset (\<lambda>t. cutoff < t) (image_mset fst (mset l))"

fun told_enough :: "int \<Rightarrow> ledger \<Rightarrow> bool" where
  "told_enough cutoff l \<longleftrightarrow>
     (\<forall>xs c ys. l = xs @ c # ys \<longrightarrow> size (after cutoff xs) \<le> snd c)"

declare told_enough.simps [simp del]

lemma after_simps [simp]:
  "after c [] = {#}"
  "after c (xs @ ys) = after c xs + after c ys"
  "after c (x # xs) = (if c < fst x then add_mset (fst x) (after c xs) else after c xs)"
  by (simp_all add: after_def)

lemma told_enough_Nil [simp]: "told_enough c []"
  by (simp add: told_enough.simps)

lemma told_enough_snoc:
  "told_enough c (xs @ [x]) \<longleftrightarrow> told_enough c xs \<and> size (after c xs) \<le> snd x"
proof
  assume *: "told_enough c (xs @ [x])"
  have "size (after c as) \<le> snd y" if "xs = as @ y # bs" for as y bs
    using * [unfolded told_enough.simps, rule_format, of as y "bs @ [x]"] that by simp
  moreover have "size (after c xs) \<le> snd x"
    using * [unfolded told_enough.simps, rule_format, of xs x "[]"] by simp
  ultimately show "told_enough c xs \<and> size (after c xs) \<le> snd x"
    by (simp add: told_enough.simps)
next
  assume *: "told_enough c xs \<and> size (after c xs) \<le> snd x"
  show "told_enough c (xs @ [x])"
    unfolding told_enough.simps
  proof (intro allI impI)
    fix as y bs assume eq: "xs @ [x] = as @ y # bs"
    have "size (after c as) \<le> snd y" if "bs = ys @ [z]" for ys z
      using * [THEN conjunct1, unfolded told_enough.simps, rule_format, of as y ys] eq that by simp
    with eq * show "size (after c as) \<le> snd y" by (cases bs rule: rev_cases) auto
  qed
qed

lemma told_enough_remove: "told_enough c (xs @ x # ys) \<Longrightarrow> told_enough c (xs @ ys)"
proof (induction ys rule: rev_induct)
  case Nil
  then show ?case by (simp add: told_enough_snoc)
next
  case (snoc y ys)
  from snoc.prems have *: "told_enough c ((xs @ x # ys) @ [y])" by simp
  then have "told_enough c (xs @ ys)" "size (after c (xs @ x # ys)) \<le> snd y"
    using snoc.IH unfolding told_enough_snoc by auto
  then show ?case
    using told_enough_snoc [of c "xs @ ys" y] by (auto split: if_splits)
qed

text \<open>The count of claims told less than a limit never exceeds it.\<close>

lemma told_enough_bound:
  assumes "told_enough c l" and "0 < limit"
  shows "size (after c (filter (\<lambda>x. snd x < limit) l)) \<le> limit"
  using assms
proof (induction l rule: rev_induct)
  case (snoc x l)
  then have told: "told_enough c l" "size (after c l) \<le> snd x" by (simp_all add: told_enough_snoc)
  have "after c (filter (\<lambda>x. snd x < limit) l) \<subseteq># after c l"
    by (auto simp: after_def image_mset_subseteq_mono multiset_filter_mono)
  then have "size (after c (filter (\<lambda>x. snd x < limit) l)) \<le> size (after c l)" by (rule size_mset_mono)
  with told snoc show ?case by auto
qed simp

subsection \<open>The interface\<close>

locale window_provider =
  fixes claim :: "string \<Rightarrow> instant \<Rightarrow> 's \<Rightarrow> nat \<times> 's"
    and rollback :: "string \<Rightarrow> instant \<Rightarrow> 's \<Rightarrow> 's"
    and events :: "'s \<Rightarrow> string \<Rightarrow> instant multiset"
    and width :: int
    and inv :: "'s \<Rightarrow> bool"
  assumes claim_inv: "inv s \<Longrightarrow> inv (snd (claim k now s))"
    and claim_counts: "inv s \<Longrightarrow> size (filter_mset (\<lambda>t. now - width < t) (events s k)) \<le> fst (claim k now s)"
    and claim_records: "inv s \<Longrightarrow>
      filter_mset (\<lambda>t. now - width < t) (events s k) + {#now#} \<subseteq># events (snd (claim k now s)) k"
    and claim_others: "inv s \<Longrightarrow> k' \<noteq> k \<Longrightarrow>
      filter_mset (\<lambda>t. now - width < t) (events s k') \<subseteq># events (snd (claim k now s)) k'"
    and rollback_inv: "inv s \<Longrightarrow> inv (rollback k t s)"
    and rollback_one: "inv s \<Longrightarrow> events s k - {#t#} \<subseteq># events (rollback k t s) k"
    and rollback_others: "inv s \<Longrightarrow> k' \<noteq> k \<Longrightarrow> events s k' \<subseteq># events (rollback k t s) k'"
begin

text \<open>
  The provider covers a ledger for a key up to a horizon: it still holds every ledger
  event that a window ending at the horizon can see, and every entry was told enough.
\<close>

definition covers :: "'s \<Rightarrow> string \<Rightarrow> instant \<Rightarrow> ledger \<Rightarrow> bool" where
  "covers s k horizon l \<longleftrightarrow> after (horizon - width) l \<subseteq># events s k \<and> told_enough (horizon - width) l"

lemma live_mono:
  assumes "now \<le> horizon"
  shows "filter_mset (\<lambda>t. horizon - width < t) E \<subseteq># filter_mset (\<lambda>t. now - width < t) (E :: instant multiset)"
  using assms by (intro filter_mset_mono_strong) auto

lemma after_within:
  assumes "after (horizon - width) l \<subseteq># E" and "now \<le> horizon"
  shows "after (horizon - width) l \<subseteq># filter_mset (\<lambda>t. now - width < t) E"
proof -
  have "after (horizon - width) l = filter_mset (\<lambda>t. horizon - width < t) (after (horizon - width) l)"
    by (simp add: after_def filter_filter_mset)
  also have "\<dots> \<subseteq># filter_mset (\<lambda>t. horizon - width < t) E"
    using assms(1) by (rule multiset_filter_mono)
  finally show ?thesis using live_mono [OF assms(2)] subset_mset.order_trans by blast
qed

lemma covers_claim:
  assumes "inv s" and "covers s k horizon l" and "now \<le> horizon"
  shows "covers (snd (claim k now s)) k horizon (l @ [(now, fst (claim k now s))])"
proof -
  from assms have held: "after (horizon - width) l \<subseteq># filter_mset (\<lambda>t. now - width < t) (events s k)"
    by (auto simp: covers_def intro: after_within)
  have "after (horizon - width) (l @ [(now, fst (claim k now s))]) \<subseteq># after (horizon - width) l + {#now#}"
    by auto
  also have "\<dots> \<subseteq># events (snd (claim k now s)) k"
    using held claim_records [OF assms(1), of now k] by (meson mset_subset_eq_mono_add subset_mset.order_trans subset_mset.order_refl)
  finally show ?thesis
    using assms size_mset_mono [OF held] claim_counts [OF assms(1), of now k]
    by (auto simp: covers_def told_enough_snoc)
qed

lemma covers_claim_other:
  assumes "inv s" and "covers s k horizon l" and "now \<le> horizon" and "k \<noteq> k'"
  shows "covers (snd (claim k' now s)) k horizon l"
  using assms after_within [of horizon l "events s k" now] claim_others [OF assms(1,4), of now]
  by (auto simp: covers_def intro: subset_mset.order_trans)

lemma covers_rollback:
  assumes "inv s" and "covers s k horizon (xs @ x # ys)"
  shows "covers (rollback k (fst x) s) k horizon (xs @ ys)"
proof -
  have "after (horizon - width) (xs @ ys) \<subseteq># after (horizon - width) (xs @ x # ys) - {#fst x#}"
    by (auto simp: after_def not_in_iff diff_single_trivial)
  also have "\<dots> \<subseteq># events s k - {#fst x#}"
    using assms(2) by (simp add: covers_def subseteq_mset_def diff_le_mono)
  also have "\<dots> \<subseteq># events (rollback k (fst x) s) k"
    by (rule rollback_one [OF assms(1)])
  finally show ?thesis
    using assms(2) told_enough_remove [of "horizon - width" xs x ys] by (simp add: covers_def)
qed

lemma covers_rollback_other:
  assumes "inv s" and "covers s k horizon l" and "k \<noteq> k'"
  shows "covers (rollback k' t s) k horizon l"
  using assms rollback_others [OF assms(1,3), of t] by (auto simp: covers_def intro: subset_mset.order_trans)

lemma covers_Nil: "covers s k horizon []"
  by (simp add: covers_def)

lemma covers_bound:
  assumes "covers s k horizon l" and "0 < limit"
  shows "size (after (horizon - width) (filter (\<lambda>x. snd x < limit) l)) \<le> limit"
  using assms by (auto simp: covers_def intro: told_enough_bound)

end

subsection \<open>The in-memory coordinator is a provider\<close>

definition ringEvents :: "mem_coord \<Rightarrow> string \<Rightarrow> instant multiset" where
  "ringEvents c k = (case map_of (mc_windows c) k of None \<Rightarrow> {#} | Some r \<Rightarrow> mset (sw_stamps r))"

definition rings_ok :: "int \<Rightarrow> mem_coord \<Rightarrow> bool" where
  "rings_ok w c \<longleftrightarrow> distinct (map fst (mc_windows c)) \<and> (\<forall>(k, r) \<in> set (mc_windows c). sw_windowMs r = w)"

abbreviation mem_claim :: "int \<Rightarrow> string \<Rightarrow> instant \<Rightarrow> mem_coord \<Rightarrow> nat \<times> mem_coord" where
  "mem_claim w k now c \<equiv> (nat \<lfloor>wc_used (snd (fst (window_claim k w now c)))\<rfloor>, snd (window_claim k w now c))"

lemma rings_ok_lookup: "rings_ok w c \<Longrightarrow> map_of (mc_windows c) k = Some r \<Longrightarrow> sw_windowMs r = w"
  by (auto simp: rings_ok_def dest: map_of_SomeD)

lemma map_of_map_filter:
  assumes "distinct (map fst al)"
  shows "map_of (filter (\<lambda>(k, v). P v) (map (\<lambda>(k, v). (k, f v)) al)) k =
    (case map_of al k of None \<Rightarrow> None | Some v \<Rightarrow> if P (f v) then Some (f v) else None)"
  using assms by (induction al) (auto split: option.splits simp: map_of_eq_None_iff image_iff)

definition swept :: "instant \<Rightarrow> sliding_window option \<Rightarrow> sliding_window option" where
  "swept now r = (case r of None \<Rightarrow> None | Some r \<Rightarrow> if sw_stamps (sw_trim r now) = [] then None else Some (sw_trim r now))"

lemma sweep_lookup:
  assumes "distinct (map fst (mc_windows c))"
  shows "(\<forall>k. map_of (mc_windows (sweep now c)) k = map_of (mc_windows c) k)
    \<or> (\<forall>k. map_of (mc_windows (sweep now c)) k = swept now (map_of (mc_windows c) k))"
proof -
  have count: "snd (sw_count r now) = sw_trim r now" for r by (simp add: sw_count_def Let_def)
  show ?thesis
    using map_of_map_filter [OF assms, of "\<lambda>r. \<not> sw_empty r" "\<lambda>r. sw_trim r now"]
    by (auto simp: sweep_def count swept_def sw_empty_def split: option.splits)
qed

lemma swept_events:
  assumes "\<And>r. q = Some r \<Longrightarrow> sw_windowMs r = w"
  shows "filter_mset (\<lambda>t. now - w < t) (case q of None \<Rightarrow> {#} | Some r \<Rightarrow> mset (sw_stamps r))
    \<subseteq># (case swept now q of None \<Rightarrow> {#} | Some r \<Rightarrow> mset (sw_stamps r))"
proof (cases q)
  case (Some r)
  with trim_keeps_live [of r now] assms [OF Some] show ?thesis
    by (auto simp: swept_def live_def)
qed (simp add: swept_def)

lemma sweep_events:
  assumes "rings_ok w c"
  shows "filter_mset (\<lambda>t. now - w < t) (ringEvents c k) \<subseteq># ringEvents (sweep now c) k"
  using sweep_lookup [of c now] swept_events [of "map_of (mc_windows c) k" w now] assms rings_ok_lookup [OF assms, of k]
  by (auto simp: rings_ok_def ringEvents_def multiset_filter_subset)

lemma distinct_fst_filter_map:
  "distinct (map fst al) \<Longrightarrow> distinct (map fst (filter P (map (\<lambda>(k, v). (k, f v)) al)))"
  by (induction al) (auto simp: image_iff)

lemma sweep_ok:
  assumes "rings_ok w c"
  shows "rings_ok w (sweep now c)"
  using assms distinct_fst_filter_map [of "mc_windows c"]
  by (auto simp: rings_ok_def sweep_def sw_count_def Let_def)

lemma window_claim_unfold:
  fixes c :: mem_coord and k :: string and now :: instant and w :: int
  assumes "rings_ok w c"
  defines "r \<equiv> sw_trim (nullish (map_of (mc_windows (sweep now c)) k) (newWindow w)) now"
  shows "mem_claim w k now c = (length (sw_stamps r),
      (sweep now c)\<lparr>mc_windows := AList.update k (sw_record r now) (mc_windows (sweep now c))\<rparr>)
    \<and> sw_windowMs r = w
    \<and> filter_mset (\<lambda>t. now - w < t) (ringEvents (sweep now c) k) \<subseteq># mset (sw_stamps r)"
proof -
  have w: "sw_windowMs (nullish (map_of (mc_windows (sweep now c)) k) (newWindow w)) = w"
    using rings_ok_lookup [OF sweep_ok [OF assms(1)], of now k] by (auto split: option.splits)
  moreover have "mset (sw_stamps (nullish (map_of (mc_windows (sweep now c)) k) (newWindow w)))
      = ringEvents (sweep now c) k"
    by (auto simp: ringEvents_def newWindow_def split: option.splits)
  ultimately show ?thesis
    using trim_keeps_live [of "nullish (map_of (mc_windows (sweep now c)) k) (newWindow w)" now]
    by (simp add: window_claim_def r_def Let_def split_def sw_count_def live_def)
qed

lemma ringEvents_update [simp]:
  "ringEvents (c\<lparr>mc_windows := AList.update k r (mc_windows c)\<rparr>) k' =
     (if k' = k then mset (sw_stamps r) else ringEvents c k')"
  by (simp add: ringEvents_def)

lemma rings_ok_update:
  assumes "rings_ok w c" and "sw_windowMs r = w"
  shows "rings_ok w (c\<lparr>mc_windows := AList.update k r (mc_windows c)\<rparr>)"
proof -
  have "distinct (map fst (AList.update k r (mc_windows c)))"
    using assms(1) by (simp add: rings_ok_def distinct_update)
  moreover have "sw_windowMs r' = w" if "(k', r') \<in> set (AList.update k r (mc_windows c))" for k' r'
  proof -
    from map_of_is_SomeI [OF calculation that] show ?thesis using assms rings_ok_lookup [OF assms(1)] by (auto split: if_splits)
  qed
  ultimately show ?thesis by (auto simp: rings_ok_def)
qed

interpretation rings: window_provider "mem_claim w" window_rollback ringEvents w "rings_ok w"
proof unfold_locales
  fix c :: mem_coord and k now assume ok: "rings_ok w c"
  define r where "r = sw_trim (nullish (map_of (mc_windows (sweep now c)) k) (newWindow w)) now"
  note claim = window_claim_unfold [OF ok, where now = now and k = k, folded r_def]
  have live: "filter_mset (\<lambda>t. now - w < t) (ringEvents c k') \<subseteq># ringEvents (sweep now c) k'" for k'
    by (rule sweep_events [OF ok])
  then have "filter_mset (\<lambda>t. now - w < t) (filter_mset (\<lambda>t. now - w < t) (ringEvents c k))
      \<subseteq># filter_mset (\<lambda>t. now - w < t) (ringEvents (sweep now c) k)"
    by (rule multiset_filter_mono)
  then have mine: "filter_mset (\<lambda>t. now - w < t) (ringEvents c k) \<subseteq># mset (sw_stamps r)"
    using claim by (auto simp: filter_filter_mset intro: subset_mset.order_trans)
  show "rings_ok w (snd (mem_claim w k now c))"
    using claim rings_ok_update [OF sweep_ok [OF ok]] by simp
  show "size (filter_mset (\<lambda>t. now - w < t) (ringEvents c k)) \<le> fst (mem_claim w k now c)"
    using claim size_mset_mono [OF mine] by simp
  show "filter_mset (\<lambda>t. now - w < t) (ringEvents c k) + {#now#} \<subseteq># ringEvents (snd (mem_claim w k now c)) k"
    using claim mine by (simp add: sw_record_def)
  show "filter_mset (\<lambda>t. now - w < t) (ringEvents c k') \<subseteq># ringEvents (snd (mem_claim w k now c)) k'"
    if "k' \<noteq> k" for k'
    using claim live [of k'] that by simp
next
  fix c :: mem_coord and k t assume ok: "rings_ok w c"
  show "rings_ok w (window_rollback k t c)"
    using ok rings_ok_update [OF ok] rings_ok_lookup [OF ok, of k]
    by (auto simp: window_rollback_def split: option.splits)
  show "ringEvents c k - {#t#} \<subseteq># ringEvents (window_rollback k t c) k"
  proof (cases "map_of (mc_windows c) k")
    case (Some r)
    then have "ringEvents c k = mset (sw_stamps r)" by (simp add: ringEvents_def)
    with Some forget_mset [of r t] show ?thesis
      by (auto simp: window_rollback_def)
  qed (simp add: window_rollback_def ringEvents_def)
  show "ringEvents c k' \<subseteq># ringEvents (window_rollback k t c) k'" if "k' \<noteq> k" for k'
    using that by (auto simp: window_rollback_def split: option.splits)
qed

end
