(* ===== verification/Coord_Gauge.thy ===== *)
theory Coord_Gauge
  imports Coord_Memory
begin

section \<open>What a gauge promises its clients\<close>

text \<open>
  The gauge of \<^verbatim>\<open>packages/coord/src/index.ts\<close> as the limiter uses it: slots named by
  their holder, lapsing at an expiry that only renewal moves. The locale
  \<open>gauge_provider\<close> states what a ceiling on concurrent holders rests on: an acquire is
  told at least the number of live holders, no operation makes anybody live but the one
  acquiring, and time alone only removes holders. The client's bound is proved inside the
  locale; the in-memory gauge is shown to be a provider.
\<close>

text \<open>Claims in the order they were taken: the holder's name and the count it was told.\<close>

type_synonym slot_ledger = "(string \<times> nat) list"

definition told_live :: "string set \<Rightarrow> slot_ledger \<Rightarrow> bool" where
  "told_live H l \<longleftrightarrow> (\<forall>xs x ys. l = xs @ x # ys \<longrightarrow> card (fst ` set xs \<inter> H) \<le> snd x)"

lemma told_live_Nil [simp]: "told_live H []"
  by (simp add: told_live_def)

lemma told_live_snoc:
  "told_live H (xs @ [x]) \<longleftrightarrow> told_live H xs \<and> card (fst ` set xs \<inter> H) \<le> snd x"
proof
  assume *: "told_live H (xs @ [x])"
  have "card (fst ` set as \<inter> H) \<le> snd y" if "xs = as @ y # bs" for as y bs
    using * [unfolded told_live_def, rule_format, of as y "bs @ [x]"] that by simp
  moreover have "card (fst ` set xs \<inter> H) \<le> snd x"
    using * [unfolded told_live_def, rule_format, of xs x "[]"] by simp
  ultimately show "told_live H xs \<and> card (fst ` set xs \<inter> H) \<le> snd x"
    unfolding told_live_def by blast
next
  assume *: "told_live H xs \<and> card (fst ` set xs \<inter> H) \<le> snd x"
  show "told_live H (xs @ [x])"
    unfolding told_live_def
  proof (intro allI impI)
    fix as y bs assume eq: "xs @ [x] = as @ y # bs"
    have "card (fst ` set as \<inter> H) \<le> snd y" if "bs = ys @ [z]" for ys z
      using * [THEN conjunct1, unfolded told_live_def, rule_format, of as y ys] eq that by simp
    with eq * show "card (fst ` set as \<inter> H) \<le> snd y" by (cases bs rule: rev_cases) auto
  qed
qed

lemma told_live_antimono:
  assumes "told_live H l" and "H' \<inter> fst ` set l \<subseteq> H"
  shows "told_live H' l"
  unfolding told_live_def
proof (intro allI impI)
  fix xs x ys assume l: "l = xs @ x # ys"
  have "card (fst ` set xs \<inter> H') \<le> card (fst ` set xs \<inter> H)"
    using assms(2) l by (intro card_mono) auto
  also have "\<dots> \<le> snd x" using assms(1) l unfolding told_live_def by blast
  finally show "card (fst ` set xs \<inter> H') \<le> snd x" .
qed

lemma told_live_bound:
  assumes "told_live H l" and "0 < limit"
  shows "card (fst ` set (filter (\<lambda>x. snd x < limit) l) \<inter> H) \<le> limit"
  using assms
proof (induction l rule: rev_induct)
  case (snoc x l)
  then have told: "told_live H l" "card (fst ` set l \<inter> H) \<le> snd x" by (simp_all add: told_live_snoc)
  let ?kept = "fst ` set (filter (\<lambda>x. snd x < limit) l) \<inter> H"
  show ?case
  proof (cases "snd x < limit")
    case True
    have "card ?kept \<le> card (fst ` set l \<inter> H)" by (intro card_mono) auto
    with told True have "card ?kept < limit" by simp
    then have "card (insert (fst x) ?kept) \<le> limit" by (simp add: card_insert_if)
    moreover have "card (fst ` set (filter (\<lambda>x. snd x < limit) (l @ [x])) \<inter> H) \<le> card (insert (fst x) ?kept)"
      by (intro card_mono) auto
    ultimately show ?thesis by (rule le_trans [rotated])
  next
    case False
    with told snoc show ?thesis by simp
  qed
qed simp

lemma told_live_remove:
  assumes "told_live H (xs @ x # ys)"
  shows "told_live H (xs @ ys)"
  using assms
proof (induction ys rule: rev_induct)
  case Nil
  then show ?case by (simp add: told_live_snoc)
next
  case (snoc y ys)
  from snoc.prems have "told_live H ((xs @ x # ys) @ [y])" by simp
  then have IH: "told_live H (xs @ ys)" "card (fst ` set (xs @ x # ys) \<inter> H) \<le> snd y"
    using snoc.IH unfolding told_live_snoc by auto
  have "card (fst ` set (xs @ ys) \<inter> H) \<le> card (fst ` set (xs @ x # ys) \<inter> H)"
    by (intro card_mono) auto
  with IH show ?case using told_live_snoc [of H "xs @ ys" y] by simp
qed

subsection \<open>The interface\<close>

locale gauge_provider =
  fixes acquire :: "string \<Rightarrow> string \<Rightarrow> instant \<Rightarrow> 's \<Rightarrow> nat \<times> 's"
    and renew :: "string \<Rightarrow> string \<Rightarrow> instant \<Rightarrow> 's \<Rightarrow> 's"
    and release :: "string \<Rightarrow> string \<Rightarrow> instant \<Rightarrow> 's \<Rightarrow> 's"
    and holders :: "'s \<Rightarrow> string \<Rightarrow> instant \<Rightarrow> string set"
  assumes finite_holders: "finite (holders s k clock)"
    and lapse: "clock \<le> clock' \<Longrightarrow> holders s k clock' \<subseteq> holders s k clock"
    and acquire_counts: "h \<noteq> [] \<Longrightarrow> h \<notin> holders s k clock \<Longrightarrow> card (holders s k clock) \<le> fst (acquire k h clock s)"
    and acquire_only: "clock \<le> clock' \<Longrightarrow>
      holders (snd (acquire k h clock s)) k' clock' \<subseteq> holders s k' clock \<union> (if k' = k then {h} else {})"
    and renew_only: "clock \<le> clock' \<Longrightarrow> holders (renew k h clock s) k' clock' \<subseteq> holders s k' clock"
    and release_only: "clock \<le> clock' \<Longrightarrow> holders (release k h clock s) k' clock' \<subseteq> holders s k' clock"
begin

text \<open>
  A gauge bounds a ledger at an instant: every entry was told at least the number of
  earlier entries live at that instant. Nothing but a further acquire can disturb this.
\<close>

definition bounds :: "'s \<Rightarrow> string \<Rightarrow> instant \<Rightarrow> slot_ledger \<Rightarrow> bool" where
  "bounds s k clock l \<longleftrightarrow> told_live (holders s k clock) l"

lemma bounds_Nil: "bounds s k clock []"
  by (simp add: bounds_def)

lemma bounds_shrink:
  "\<lbrakk>bounds s k clock l; holders s' k clock' \<subseteq> holders s k clock\<rbrakk> \<Longrightarrow> bounds s' k clock' l"
  unfolding bounds_def by (rule told_live_antimono) auto

lemmas bounds_wait = bounds_shrink [OF _ lapse]
  and bounds_renew = bounds_shrink [OF _ renew_only]
  and bounds_release = bounds_shrink [OF _ release_only]

lemma bounds_drop: "bounds s k clock (xs @ x # ys) \<Longrightarrow> bounds s k clock (xs @ ys)"
  unfolding bounds_def by (rule told_live_remove)

lemma bounds_acquire_other:
  assumes "bounds s k clock l" and "k' \<noteq> k" and "clock \<le> clock'"
  shows "bounds (snd (acquire k' h clock s)) k clock' l"
  using bounds_shrink [OF assms(1)] acquire_only [OF assms(3), of k' h s k] assms(2) by simp

lemma bounds_acquire:
  assumes "bounds s k clock l" and "h \<noteq> []" and "h \<notin> holders s k clock" and "h \<notin> fst ` set l" and "clock \<le> clock'"
  shows "bounds (snd (acquire k h clock s)) k clock' (l @ [(h, fst (acquire k h clock s))])"
proof -
  let ?H = "holders (snd (acquire k h clock s)) k clock'"
  have sub: "?H \<inter> fst ` set l \<subseteq> holders s k clock"
    using acquire_only [OF assms(5), of k h s k] assms(4) by auto
  then have "fst ` set l \<inter> ?H \<subseteq> holders s k clock" by auto
  then have "card (fst ` set l \<inter> ?H) \<le> card (holders s k clock)"
    by (rule card_mono [OF finite_holders])
  also have "\<dots> \<le> fst (acquire k h clock s)" using acquire_counts assms(2,3) .
  finally show ?thesis
    using told_live_antimono [OF _ sub] assms(1) by (simp add: bounds_def told_live_snoc)
qed

lemma bounds_ceiling:
  assumes "bounds s k clock l" and "0 < limit"
  shows "card (fst ` set (filter (\<lambda>x. snd x < limit) l) \<inter> holders s k clock) \<le> limit"
  using assms unfolding bounds_def by (rule told_live_bound)

end

subsection \<open>The in-memory gauge is a provider\<close>

definition holdersOf :: "mem_coord \<Rightarrow> string \<Rightarrow> instant \<Rightarrow> string set" where
  "holdersOf c k clock = {h. \<exists>s \<in> set (heldSlots k clock c). sl_holder s = Some h}"

lemma map_of_delete [simp]: "map_of (AList.delete k al) = (map_of al)(k := None)"
  by (rule delete_conv')

lemma heldSlots_put [simp]:
  "heldSlots k' clock (putSlots k held c) =
     (if k' = k then filter (\<lambda>s. sl_expiresAt s > clock) held else heldSlots k' clock c)"
  by (auto simp: heldSlots_def putSlots_def)

lemma heldSlots_update [simp]:
  "heldSlots k' clock (c\<lparr>mc_gauges := AList.update k held (mc_gauges c)\<rparr>) =
     (if k' = k then filter (\<lambda>s. sl_expiresAt s > clock) held else heldSlots k' clock c)"
  by (auto simp: heldSlots_def)

lemma heldSlots_later: "clock \<le> clock' \<Longrightarrow> set (heldSlots k clock' c) \<subseteq> set (heldSlots k clock c)"
  by (auto simp: heldSlots_def)

lemma findIndex_Some: "findIndex P xs = Some i \<Longrightarrow> i < length xs \<and> P (xs ! i)"
  by (induction xs arbitrary: i) (auto split: if_splits)

lemma findIndex_None: "findIndex P xs = None \<longleftrightarrow> (\<forall>x \<in> set xs. \<not> P x)"
  by (induction xs) auto

definition mem_acquire :: "int \<Rightarrow> string \<Rightarrow> string \<Rightarrow> instant \<Rightarrow> mem_coord \<Rightarrow> nat \<times> mem_coord" where
  "mem_acquire ttl k h clock c = (case gauge_acquire k ttl (Some h) clock c of Inl e \<Rightarrow> (0, c) | Inr r \<Rightarrow> r)"

definition mem_renew :: "int \<Rightarrow> string \<Rightarrow> string \<Rightarrow> instant \<Rightarrow> mem_coord \<Rightarrow> mem_coord" where
  "mem_renew ttl k h clock c = (case gauge_renew k h ttl clock c of Inl e \<Rightarrow> c | Inr c' \<Rightarrow> c')"

definition mem_release :: "string \<Rightarrow> string \<Rightarrow> instant \<Rightarrow> mem_coord \<Rightarrow> mem_coord" where
  "mem_release k h clock c = (case gauge_release k (Some h) clock c of Inl e \<Rightarrow> c | Inr c' \<Rightarrow> c')"

lemma card_holders: "card (holdersOf c k clock) \<le> length (heldSlots k clock c)"
proof -
  have "holdersOf c k clock \<subseteq> (the \<circ> sl_holder) ` set (heldSlots k clock c)"
    by (force simp: holdersOf_def)
  then have "card (holdersOf c k clock) \<le> card ((the \<circ> sl_holder) ` set (heldSlots k clock c))"
    by (intro card_mono) auto
  also have "\<dots> \<le> length (heldSlots k clock c)"
    using card_image_le [of "set (heldSlots k clock c)"] card_length le_trans by blast
  finally show ?thesis .
qed

lemma set_list_update_holder:
  assumes "i < length xs" and "sl_holder (xs ! i) = sl_holder s"
  shows "sl_holder ` set (xs[i := s]) \<subseteq> sl_holder ` set xs"
proof
  fix q assume "q \<in> sl_holder ` set (xs[i := s])"
  then obtain x where "x \<in> insert s (set xs)" "q = sl_holder x"
    using set_update_subset_insert [of xs i s] by auto
  with assms show "q \<in> sl_holder ` set xs" by (metis image_eqI insertE nth_mem)
qed

lemma holdersOf_mem: "h \<in> holdersOf c k clock \<longleftrightarrow> Some h \<in> sl_holder ` set (heldSlots k clock c)"
  by (simp add: holdersOf_def image_iff eq_commute [of "Some h"])

lemma holdersOf_sub:
  assumes "sl_holder ` set (heldSlots k' clock' c') \<subseteq> Some ` X \<union> sl_holder ` set (heldSlots k' clock c)"
  shows "holdersOf c' k' clock' \<subseteq> holdersOf c k' clock \<union> X"
proof
  fix x assume "x \<in> holdersOf c' k' clock'"
  then have "Some x \<in> Some ` X \<or> Some x \<in> sl_holder ` set (heldSlots k' clock c)"
    using assms unfolding holdersOf_mem by (meson UnE subsetD)
  moreover have "x \<in> X" if "Some x \<in> Some ` X" using that by auto
  ultimately show "x \<in> holdersOf c k' clock \<union> X" unfolding Un_iff holdersOf_mem by blast
qed

lemma holdersOf_lapse: "clock \<le> clock' \<Longrightarrow> holdersOf c k clock' \<subseteq> holdersOf c k clock"
  using heldSlots_later [of clock clock' k c] by (auto simp: holdersOf_def)

lemma acquire_slots:
  assumes "h \<noteq> []"
  shows "fst (mem_acquire ttl k h clock c) = length (filter (\<lambda>s. sl_holder s \<noteq> Some h) (heldSlots k clock c)) \<or>
      length (heldSlots k clock c) - 1 = fst (mem_acquire ttl k h clock c) \<and> h \<in> holdersOf c k clock"
    and "sl_holder ` set (heldSlots k' clock' (snd (mem_acquire ttl k h clock c)))
      \<subseteq> (if k' = k then insert (Some h) (sl_holder ` set (heldSlots k clock c)) else sl_holder ` set (heldSlots k' clock' c))"
proof -
  let ?held = "heldSlots k clock c"
  let ?mine = "findIndex (\<lambda>s. sl_holder s = Some h) ?held"
  let ?new = "\<lparr>sl_expiresAt = clock + ttl, sl_holder = Some h\<rparr>"
  have eq: "mem_acquire ttl k h clock c = (case ?mine of
      Some i \<Rightarrow> (length ?held - 1, (putSlots k ?held c)\<lparr>mc_gauges := AList.update k (?held[i := ?new]) (mc_gauges (putSlots k ?held c))\<rparr>)
    | None \<Rightarrow> (length ?held, (putSlots k ?held c)\<lparr>mc_gauges := AList.update k (?held @ [?new]) (mc_gauges (putSlots k ?held c))\<rparr>))"
    using assms by (auto simp: mem_acquire_def gauge_acquire_def named_def liveSlots_def Let_def split: option.splits)
  show "fst (mem_acquire ttl k h clock c) = length (filter (\<lambda>s. sl_holder s \<noteq> Some h) ?held) \<or>
      length ?held - 1 = fst (mem_acquire ttl k h clock c) \<and> h \<in> holdersOf c k clock"
  proof (cases ?mine)
    case None
    then have "filter (\<lambda>s. sl_holder s \<noteq> Some h) ?held = ?held" by (simp add: findIndex_None)
    with None show ?thesis by (simp add: eq)
  next
    case (Some i)
    from findIndex_Some [OF Some] have "h \<in> holdersOf c k clock"
      by (auto simp: holdersOf_def intro: nth_mem)
    with Some show ?thesis by (simp add: eq)
  qed
  show "sl_holder ` set (heldSlots k' clock' (snd (mem_acquire ttl k h clock c)))
      \<subseteq> (if k' = k then insert (Some h) (sl_holder ` set ?held) else sl_holder ` set (heldSlots k' clock' c))"
  proof (cases ?mine)
    case None
    then show ?thesis by (auto simp: eq)
  next
    case (Some i)
    then show ?thesis
      using findIndex_Some [OF Some] set_list_update_holder [of i ?held ?new] by (auto simp: eq)
  qed
qed

lemma renew_slots:
  "sl_holder ` set (heldSlots k' clock' (mem_renew ttl k h clock c))
    \<subseteq> (if k' = k \<and> h \<noteq> [] then sl_holder ` set (heldSlots k clock c) else sl_holder ` set (heldSlots k' clock' c))"
proof (cases "h = []")
  case False
  let ?held = "heldSlots k clock c"
  let ?mine = "findIndex (\<lambda>s. sl_holder s = Some h) ?held"
  let ?new = "\<lparr>sl_expiresAt = clock + ttl, sl_holder = Some h\<rparr>"
  have eq: "mem_renew ttl k h clock c = (case ?mine of
      Some i \<Rightarrow> (putSlots k ?held c)\<lparr>mc_gauges := AList.update k (?held[i := ?new]) (mc_gauges (putSlots k ?held c))\<rparr>
    | None \<Rightarrow> putSlots k ?held c)"
    using False by (auto simp: mem_renew_def gauge_renew_def named_def liveSlots_def Let_def split: option.splits)
  show ?thesis
  proof (cases ?mine)
    case None
    then show ?thesis using False by (auto simp: eq)
  next
    case (Some i)
    then show ?thesis
      using findIndex_Some [OF Some] set_list_update_holder [of i ?held ?new] False by (auto simp: eq)
  qed
qed (simp add: mem_renew_def gauge_renew_def named_def)

lemma release_slots:
  "set (heldSlots k' clock' (mem_release k h clock c))
    \<subseteq> (if k' = k \<and> h \<noteq> [] then set (heldSlots k clock c) else set (heldSlots k' clock' c))"
proof (cases "h = []")
  case False
  then show ?thesis
    by (auto simp: mem_release_def gauge_release_def named_def liveSlots_def Let_def
        dest: in_set_takeD in_set_dropD split: option.splits)
qed (simp add: mem_release_def gauge_release_def named_def)

interpretation slots: gauge_provider "mem_acquire ttl" "mem_renew ttl" mem_release holdersOf
proof unfold_locales
  fix c k h and clock clock' :: instant and k'
  show "finite (holdersOf c k clock)"
    by (rule finite_subset [of _ "(the \<circ> sl_holder) ` set (heldSlots k clock c)"]) (force simp: holdersOf_def)+
  show "card (holdersOf c k clock) \<le> fst (mem_acquire ttl k h clock c)"
    if "h \<noteq> []" "h \<notin> holdersOf c k clock"
  proof -
    have "filter (\<lambda>s. sl_holder s \<noteq> Some h) (heldSlots k clock c) = heldSlots k clock c"
      using that(2) by (auto simp: holdersOf_def filter_id_conv)
    then show ?thesis using acquire_slots(1) [OF that(1), of ttl k clock c] that(2) card_holders [of c k clock] by simp
  qed
  assume later: "clock \<le> clock'"
  show "holdersOf c k clock' \<subseteq> holdersOf c k clock" by (rule holdersOf_lapse [OF later])
  have held: "set (heldSlots k' clock' c) \<subseteq> set (heldSlots k' clock c)" by (rule heldSlots_later [OF later])
  show "holdersOf (snd (mem_acquire ttl k h clock c)) k' clock' \<subseteq> holdersOf c k' clock \<union> (if k' = k then {h} else {})"
  proof (cases "h = []")
    case True
    then have "snd (mem_acquire ttl k h clock c) = c"
      by (simp add: mem_acquire_def gauge_acquire_def named_def)
    then show ?thesis using holdersOf_lapse [OF later, of c k'] by auto
  next
    case False
    show ?thesis
      using acquire_slots(2) [OF False, of k' clock' ttl k clock c] image_mono [OF held, of sl_holder]
      by (intro holdersOf_sub) (cases "k' = k"; simp; blast)
  qed
  show "holdersOf (mem_renew ttl k h clock c) k' clock' \<subseteq> holdersOf c k' clock"
    using renew_slots [of k' clock' ttl k h clock c] image_mono [OF held, of sl_holder]
    by (intro holdersOf_sub [where X = "{}", simplified]) (auto split: if_splits)
  show "holdersOf (mem_release k h clock c) k' clock' \<subseteq> holdersOf c k' clock"
    using release_slots [of k' clock' k h clock c] held
    by (intro holdersOf_sub [where X = "{}", simplified] image_mono) (auto split: if_splits)
qed

end
