(* ===== verification/Limiter.thy ===== *)
theory Limiter
  imports Coord_Window Coord_Gauge Ir_Errors
begin

section \<open>The API key rate limiter\<close>

text \<open>
  \<^verbatim>\<open>apps/gateway/src/auth/rateLimit.ts\<close>: the class \<^verbatim>\<open>ApiKeyRateLimiter\<close> over the in-memory
  coordinator, every method as a function on the state \<open>limiter\<close> (the coordinator and the
  limits last seen per subject). The store's two usage reads are parameters, each of which
  may fail; \<open>now\<close> is the one reading of the clock a check is judged at, and a fresh slot
  name stands for \<^verbatim>\<open>crypto.randomUUID\<close>. The renewal timer is the operation \<open>renewAdmission\<close>.

  A check yields at every \<^verbatim>\<open>await\<close>. What the other requests of the process do there, and what
  the clock then says, is the argument \<open>meanwhile\<close>: any function at each await. The calls a
  check makes to take and give back are noted in the order it makes them. \<open>Limiter_Burst\<close> is
  the same steps as a relation, one per stretch between two awaits, over all requests at once.

  Logging and the \<^verbatim>\<open>onRejected\<close> hook are left out. Seeding takes a lock only to save
  reads, and installs the same picture with or without it, so its body is \<open>seedBuckets\<close>.
\<close>

definition LONG_WINDOWS :: "window list" where "LONG_WINDOWS = [W5h, W1w]"

fun windowLabel :: "window \<Rightarrow> string" where
  "windowLabel W1m = ''1m''"
| "windowLabel W5h = ''5h''"
| "windowLabel W1w = ''1w''"

fun GRAIN_MS :: "window \<Rightarrow> int" where
  "GRAIN_MS W1w = 3600000"
| "GRAIN_MS _ = 60000"

definition GAUGE_TTL_MS :: int where "GAUGE_TTL_MS = 300000"
definition RENEW_INTERVAL_MS :: int where "RENEW_INTERVAL_MS = 100000"
definition MAX_RENEWED_MS :: int where "MAX_RENEWED_MS = 86400000"

definition bucketKey :: "string \<Rightarrow> window \<Rightarrow> string" where
  "bucketKey subject w = ''lim:'' @ subject @ '':'' @ windowLabel w"

subsection \<open>Subjects\<close>

definition uriUnreserved :: "char \<Rightarrow> bool" where
  "uriUnreserved c \<longleftrightarrow> (let n = (of_char c :: nat) in
     (65 \<le> n \<and> n \<le> 90) \<or> (97 \<le> n \<and> n \<le> 122) \<or> (48 \<le> n \<and> n \<le> 57)
     \<or> n \<in> {45, 95, 46, 33, 126, 42, 39, 40, 41})"

definition upperHex :: "nat \<Rightarrow> char" where
  "upperHex n = (if n < 10 then char_of (48 + n) else char_of (55 + n))"

definition percent :: "nat \<Rightarrow> string" where
  "percent n = [CHR ''%'', upperHex (n div 16), upperHex (n mod 16)]"

definition encodeChar :: "char \<Rightarrow> string" where
  "encodeChar c = (let n = (of_char c :: nat) in
     if uriUnreserved c then [c]
     else if n < 128 then percent n
     else percent (192 + n div 64) @ percent (128 + n mod 64))"

definition encodeURIComponent :: "string \<Rightarrow> string" where
  "encodeURIComponent s = concat (map encodeChar s)"

definition modelSubjectId :: "string \<Rightarrow> string \<Rightarrow> string" where
  "modelSubjectId keyId model = keyId @ ''/m/'' @ encodeURIComponent model"

record subject =
  sj_id :: string
  sj_keyId :: string
  sj_model :: "string option"
  sj_limits :: limit_base

definition keyWide :: "limit_config \<Rightarrow> limit_base" where
  "keyWide limits = limit_base.truncate limits"

definition configured :: "window_limits option \<Rightarrow> window \<Rightarrow> bool" where
  "configured row w \<longleftrightarrow> (case row of None \<Rightarrow> False | Some ws \<Rightarrow> ws w \<noteq> None)"

definition anyRequestLimit :: "limit_base \<Rightarrow> bool" where
  "anyRequestLimit limits = list_ex (configured (lb_requests limits)) [W1m, W5h, W1w]"

definition anyLimit :: "limit_base \<Rightarrow> bool" where
  "anyLimit limits \<longleftrightarrow> lb_concurrency limits \<noteq> None \<or> anyRequestLimit limits
     \<or> list_ex (configured (lb_tokens limits)) [W1m, W5h, W1w]
     \<or> configured (lb_spend limits) W5h \<or> configured (lb_spend limits) W1w"

definition anyLongLimit :: "limit_base \<Rightarrow> bool" where
  "anyLongLimit limits = list_ex (\<lambda>w. configured (lb_requests limits) w
     \<or> configured (lb_tokens limits) w \<or> configured (lb_spend limits) w) LONG_WINDOWS"

definition subjectsOf :: "string \<Rightarrow> limit_config \<Rightarrow> string \<Rightarrow> subject list" where
  "subjectsOf keyId limits model =
     (let base = keyWide limits in
      (if anyLimit base
       then [\<lparr>sj_id = keyId, sj_keyId = keyId, sj_model = None, sj_limits = base\<rparr>] else [])
      @ (case modelOverride limits model of
           None \<Rightarrow> []
         | Some override \<Rightarrow> [\<lparr>sj_id = modelSubjectId keyId model, sj_keyId = keyId, sj_model = Some model,
             sj_limits = override\<rparr>]))"

subsection \<open>Claims\<close>

record claim =
  cl_subject :: string
  cl_stamp :: instant
  cl_gauge :: bool
  cl_holder :: "string option"
  cl_requests :: window_counter
  cl_concurrency :: nat

record limiter =
  lr_coord :: mem_coord
  lr_limits :: "string \<rightharpoonup> limit_base"

text \<open>
  What a check asks of the coordinator that takes something or gives it back; the awaits a
  check has passed, and its calls so far; and what the rest of the process does at each await.
\<close>

datatype coord_call =
  ClaimsRing string instant | ReturnsRing string instant
| RaisesGauge string "string option" | LowersGauge string "string option"

record check = limiter +
  ck_awaits :: nat
  ck_calls :: "coord_call list"

record meanwhile =
  mw_clock :: "nat \<Rightarrow> instant"
  mw_others :: "nat \<Rightarrow> limiter \<Rightarrow> limiter"

definition awaited :: "meanwhile \<Rightarrow> coord_call list \<Rightarrow> check \<Rightarrow> check" where
  "awaited m calls q =
     (let l = mw_others m (ck_awaits q) (limiter.truncate q)
      in q\<lparr>lr_coord := lr_coord l, lr_limits := lr_limits l, ck_awaits := Suc (ck_awaits q), ck_calls := ck_calls q @ calls\<rparr>)"

definition clockNow :: "meanwhile \<Rightarrow> check \<Rightarrow> instant" where
  "clockNow m q = mw_clock m (ck_awaits q)"

definition takeClaim ::
  "meanwhile \<Rightarrow> string \<Rightarrow> instant \<Rightarrow> bool \<Rightarrow> string option \<Rightarrow> check \<Rightarrow> (holder_error + claim) \<times> check" where
  "takeClaim m subject now gauge holder q =
     (let ((stamp, before), c) = window_claim subject (WINDOW_MS W1m) now (lr_coord q);
          q = awaited m [ClaimsRing subject stamp] (q\<lparr>lr_coord := c\<rparr>);
          made = (\<lambda>n. \<lparr>cl_subject = subject, cl_stamp = stamp, cl_gauge = gauge, cl_holder = holder,
            cl_requests = before, cl_concurrency = n\<rparr>)
      in if gauge then
           (case gauge_acquire subject GAUGE_TTL_MS holder (clockNow m q) (lr_coord q) of
              Inl e \<Rightarrow> (Inl e, awaited m [ReturnsRing subject stamp] (q\<lparr>lr_coord := window_rollback subject stamp (lr_coord q)\<rparr>))
            | Inr (n, c) \<Rightarrow> (Inr (made n), awaited m [RaisesGauge subject holder] (q\<lparr>lr_coord := c\<rparr>)))
         else let (n, c) = gauge_read subject (clockNow m q) (lr_coord q) in (Inr (made n), awaited m [] (q\<lparr>lr_coord := c\<rparr>)))"

definition rollbackClaim :: "meanwhile \<Rightarrow> claim \<Rightarrow> check \<Rightarrow> check" where
  "rollbackClaim m cl q =
     (let q = awaited m [ReturnsRing (cl_subject cl) (cl_stamp cl)]
            (q\<lparr>lr_coord := window_rollback (cl_subject cl) (cl_stamp cl) (lr_coord q)\<rparr>)
      in if cl_gauge cl
         then let c = (case gauge_release (cl_subject cl) (cl_holder cl) (clockNow m q) (lr_coord q) of
                  Inl e \<Rightarrow> lr_coord q | Inr c \<Rightarrow> c)
              in awaited m [LowersGauge (cl_subject cl) (cl_holder cl)] (q\<lparr>lr_coord := c\<rparr>)
         else q)"

subsection \<open>Counters\<close>

text \<open>What the limiter asks the store: rows per bucket, and the oldest row since an instant.\<close>

record usage_reads =
  ur_sumBuckets :: "string \<Rightarrow> instant \<Rightarrow> int \<Rightarrow> string option \<Rightarrow> string + (int \<times> counts) list"
  ur_oldestSince :: "string \<Rightarrow> instant \<Rightarrow> string option \<Rightarrow> string + instant option"

definition seedBuckets :: "usage_reads \<Rightarrow> subject \<Rightarrow> window \<Rightarrow> instant \<Rightarrow> mem_coord \<Rightarrow> (string + counts) \<times> mem_coord" where
  "seedBuckets store subject w now c =
     (let key = bucketKey (sj_id subject) w; grain = GRAIN_MS w; len = WINDOW_MS w;
          (already, c) = buckets_sum key grain len now c in
      case already of
        Some counts \<Rightarrow> (Inr counts, c)
      | None \<Rightarrow>
          (case ur_sumBuckets store (sj_keyId subject) (now - len) grain (sj_model subject) of
             Inl e \<Rightarrow> (Inl e, c)
           | Inr rows \<Rightarrow>
               let (sum, c) = buckets_sum key grain len now (buckets_seed key grain len now rows c)
               in (Inr (nullish sum zeroCounts), c)))"

definition longCount :: "usage_reads \<Rightarrow> subject \<Rightarrow> window \<Rightarrow> instant \<Rightarrow> mem_coord \<Rightarrow> (string + counts) \<times> mem_coord" where
  "longCount store subject w now c =
     (let (sum, c) = buckets_sum (bucketKey (sj_id subject) w) (GRAIN_MS w) (WINDOW_MS w) now c
      in case sum of Some counts \<Rightarrow> (Inr counts, c) | None \<Rightarrow> seedBuckets store subject w now c)"

definition longCounts ::
  "usage_reads \<Rightarrow> subject \<Rightarrow> instant \<Rightarrow> mem_coord \<Rightarrow> (window \<rightharpoonup> counts) option \<times> mem_coord" where
  "longCounts store subject now c =
     (case longCount store subject W5h now c of
        (Inl e, c) \<Rightarrow> (None, c)
      | (Inr five, c) \<Rightarrow>
          (case longCount store subject W1w now c of
             (Inl e, c) \<Rightarrow> (None, c)
           | (Inr week, c) \<Rightarrow> (Some [W5h \<mapsto> five, W1w \<mapsto> week], c)))"

definition longCounters :: "(window \<rightharpoonup> counts) \<Rightarrow> (counts \<Rightarrow> rat) \<Rightarrow> instant \<Rightarrow> dimension_counters" where
  "longCounters totals f now = (\<lambda>w. map_option (\<lambda>n. \<lparr>wc_used = f n, wc_resetAt = now + WINDOW_MS w\<rparr>) (totals w))"

definition counters ::
  "usage_reads \<Rightarrow> subject \<Rightarrow> limit_base \<Rightarrow> claim \<Rightarrow> instant \<Rightarrow> mem_coord \<Rightarrow> counter_snapshot \<times> mem_coord" where
  "counters store subject limits cl now c =
     (let minute = [W1m \<mapsto> cl_requests cl];
          short = \<lparr>cs_windowed = [Requests \<mapsto> minute], cs_concurrency = Some (of_nat (cl_concurrency cl))\<rparr> in
      if \<not> anyLongLimit limits then (short, c)
      else
        case longCounts store subject now c of
          (None, c) \<Rightarrow> (short, c)
        | (Some totals, c) \<Rightarrow>
            (\<lparr>cs_windowed = [Requests \<mapsto> longCounters totals (\<lambda>n. of_int (co_requests n)) now ++ minute,
                Tokens \<mapsto> longCounters totals (\<lambda>n. of_int (co_tokens n)) now,
                Spend \<mapsto> longCounters totals co_costUsd now],
              cs_concurrency = Some (of_nat (cl_concurrency cl))\<rparr>, c))"

subsection \<open>Judging and refusing\<close>

definition requestsOnly :: "limit_base \<Rightarrow> limit_base" where
  "requestsOnly limits = \<lparr>lb_requests = lb_requests limits, lb_tokens = None, lb_spend = None, lb_concurrency = None\<rparr>"

definition combineAll :: "decision list \<Rightarrow> decision" where
  "combineAll decisions =
     (case decisions of
        [] \<Rightarrow> \<lparr>dc_allowed = True, dc_violation = None, dc_violations = [], dc_headroom = Map.empty\<rparr>
      | first # rest \<Rightarrow> foldl combine first rest)"

definition exactReset :: "usage_reads \<Rightarrow> subject \<Rightarrow> window option \<Rightarrow> instant \<Rightarrow> instant option" where
  "exactReset store subject w now =
     (case w of
        None \<Rightarrow> None
      | Some w \<Rightarrow>
          if w = W1m then None
          else (case ur_oldestSince store (sj_keyId subject) (now - WINDOW_MS w) (sj_model subject) of
              Inl e \<Rightarrow> None
            | Inr None \<Rightarrow> None
            | Inr (Some oldest) \<Rightarrow> Some (oldest + WINDOW_MS w)))"

definition withReset :: "headroom_by_dimension \<Rightarrow> window \<Rightarrow> instant \<Rightarrow> headroom_by_dimension" where
  "withReset room w resetAt = (\<lambda>d.
     if d \<in> set WINDOWED
     then map_option (\<lambda>entry. if hr_window entry = w then entry\<lparr>hr_resetAt := resetAt\<rparr> else entry) (room d)
     else room d)"

text \<open>The corrected resets, one per violated window, in the order they are first met.\<close>

definition exactResets :: "usage_reads \<Rightarrow> subject \<Rightarrow> violation list \<Rightarrow> instant \<Rightarrow> (window \<times> instant) list" where
  "exactResets store subject violations now =
     foldl (\<lambda>exact v.
       case vi_window v of
         None \<Rightarrow> exact
       | Some w \<Rightarrow>
           if map_of exact w \<noteq> None then exact
           else (case exactReset store subject (Some w) now of None \<Rightarrow> exact | Some r \<Rightarrow> exact @ [(w, r)]))
       [] violations"

definition correctViolation :: "(window \<times> instant) list \<Rightarrow> violation \<Rightarrow> violation" where
  "correctViolation exact v =
     (case (case vi_window v of None \<Rightarrow> None | Some w \<Rightarrow> map_of exact w) of
        None \<Rightarrow> v | Some r \<Rightarrow> v\<lparr>vi_resetAt := r\<rparr>)"

definition correctDecision :: "usage_reads \<Rightarrow> subject \<Rightarrow> decision \<Rightarrow> instant \<Rightarrow> decision" where
  "correctDecision store subject scope now =
     (if dc_violations scope = [] then scope
      else
        let exact = exactResets store subject (dc_violations scope) now;
            violations = map (correctViolation exact) (dc_violations scope);
            room = foldl (\<lambda>room (w, r). withReset room w r) (dc_headroom scope) exact
        in scope\<lparr>dc_violation := lastToClear violations, dc_violations := violations, dc_headroom := room\<rparr>)"

definition refusedHeadroom :: "decision \<Rightarrow> violation \<Rightarrow> headroom_by_dimension" where
  "refusedHeadroom d v =
     (case vi_window v of
        None \<Rightarrow> dc_headroom d
      | Some w \<Rightarrow>
          if vi_dimension v = Concurrency then dc_headroom d
          else (dc_headroom d)(vi_dimension v \<mapsto> \<lparr>hr_window = w, hr_limit = vi_limit v, hr_used = vi_used v,
              hr_remaining = max 0 (vi_limit v - vi_used v), hr_resetAt = vi_resetAt v\<rparr>))"

record rate_limit_exceeded =
  rx_retryAfterMs :: int
  rx_headroom :: headroom_by_dimension

datatype limiter_error = Exceeded rate_limit_exceeded | HolderRejected holder_error | InvariantBroken

definition refuse :: "usage_reads \<Rightarrow> subject list \<Rightarrow> decision list \<Rightarrow> instant \<Rightarrow> limiter_error" where
  "refuse store subjects decisions now =
     (let corrected = map (\<lambda>(subject, scope). correctDecision store subject scope now) (zip subjects decisions);
          d = combineAll corrected
      in case dc_violation d of
           None \<Rightarrow> InvariantBroken
         | Some v \<Rightarrow> Exceeded \<lparr>rx_retryAfterMs = retryAfterMs (Some v) now, rx_headroom = refusedHeadroom d v\<rparr>)"

text \<open>
  The bucket reads of one judgement are one stretch here. Each is of a map of its own, so
  reading them with other requests in between is reading some other coordinator at once.
\<close>

fun judgeSubjects ::
  "meanwhile \<Rightarrow> usage_reads \<Rightarrow> (limit_base \<Rightarrow> limit_base) \<Rightarrow> instant \<Rightarrow> (subject \<times> claim) list \<Rightarrow> check
     \<Rightarrow> decision list \<times> check" where
  "judgeSubjects m store scope now [] q = ([], q)"
| "judgeSubjects m store scope now ((subject, cl) # rest) q =
     (let limits = scope (sj_limits subject);
          (seen, c) = counters store subject limits cl now (lr_coord q);
          (decisions, q) = judgeSubjects m store scope now rest (awaited m [] (q\<lparr>lr_coord := c\<rparr>))
      in (evaluate limits seen now # decisions, q))"

definition judgeClaims ::
  "meanwhile \<Rightarrow> usage_reads \<Rightarrow> (limit_base \<Rightarrow> limit_base) \<Rightarrow> instant \<Rightarrow> subject list \<Rightarrow> claim list \<Rightarrow> check
     \<Rightarrow> (limiter_error + decision) \<times> check" where
  "judgeClaims m store scope now subjects claims q =
     (let (decisions, q) = judgeSubjects m store scope now (zip subjects claims) q;
          d = combineAll decisions
      in if dc_violation d \<noteq> None then (Inl (refuse store subjects decisions now), awaited m [] q) else (Inr d, q))"

subsection \<open>The class\<close>

record admission =
  ad_claims :: "claim list"
  ad_headroom :: headroom_by_dimension
  ad_renewUntil :: instant

text \<open>
  Claiming every subject in turn. The result is the claims taken and, when a claim was
  rejected, the error that stopped the loop. \<open>names\<close> supplies the fresh slot names.
\<close>

fun claimSubjects ::
  "meanwhile \<Rightarrow> bool \<Rightarrow> instant \<Rightarrow> (nat \<Rightarrow> string) \<Rightarrow> nat \<Rightarrow> subject list \<Rightarrow> check \<Rightarrow> claim list \<times> holder_error option \<times> check" where
  "claimSubjects m gauge now names i [] q = ([], None, q)"
| "claimSubjects m gauge now names i (subject # rest) q =
     (let q = q\<lparr>lr_limits := (lr_limits q)(sj_id subject \<mapsto> sj_limits subject)\<rparr>;
          holder = (if gauge \<and> lb_concurrency (sj_limits subject) \<noteq> None then Some (names i) else None);
          (r, q) = takeClaim m (sj_id subject) now gauge holder q
      in case r of
           Inl e \<Rightarrow> ([], Some e, q)
         | Inr cl \<Rightarrow>
             let (claims, err, q) = claimSubjects m gauge now names (Suc i) rest q in (cl # claims, err, q))"

definition rollbackAll :: "meanwhile \<Rightarrow> claim list \<Rightarrow> check \<Rightarrow> check" where
  "rollbackAll m claims q = foldl (\<lambda>q cl. rollbackClaim m cl q) q claims"

definition checkSubjects ::
  "meanwhile \<Rightarrow> usage_reads \<Rightarrow> (limit_base \<Rightarrow> limit_base) \<Rightarrow> bool \<Rightarrow> instant \<Rightarrow> (nat \<Rightarrow> string) \<Rightarrow> subject list \<Rightarrow> check
     \<Rightarrow> (limiter_error + claim list \<times> decision) \<times> check" where
  "checkSubjects m store scope gauge now names subjects q =
     (let (claims, err, q) = claimSubjects m gauge now names 0 subjects q in
      case err of
        Some e \<Rightarrow> (Inl (HolderRejected e), rollbackAll m claims q)
      | None \<Rightarrow>
          let (r, q) = judgeClaims m store scope now subjects claims q
          in case r of
               Inl e \<Rightarrow> (Inl e, rollbackAll m claims q)
             | Inr d \<Rightarrow> (Inr (claims, d), q))"

definition admit ::
  "meanwhile \<Rightarrow> usage_reads \<Rightarrow> string \<Rightarrow> limit_config \<Rightarrow> string \<Rightarrow> instant \<Rightarrow> (nat \<Rightarrow> string) \<Rightarrow> check
     \<Rightarrow> (limiter_error + admission) \<times> check" where
  "admit m store keyId limits model now names q =
     (let subjects = subjectsOf keyId limits model in
      if subjects = [] then (Inr \<lparr>ad_claims = [], ad_headroom = Map.empty, ad_renewUntil = now\<rparr>, q)
      else
        case checkSubjects m store (\<lambda>scope. scope) True now names subjects q of
          (Inl e, q) \<Rightarrow> (Inl e, q)
        | (Inr (claims, d), q) \<Rightarrow>
            (Inr \<lparr>ad_claims = claims, ad_headroom = dc_headroom d, ad_renewUntil = now + MAX_RENEWED_MS\<rparr>, q))"

definition consume ::
  "meanwhile \<Rightarrow> usage_reads \<Rightarrow> string \<Rightarrow> limit_config \<Rightarrow> string \<Rightarrow> instant \<Rightarrow> check \<Rightarrow> (limiter_error + unit) \<times> check" where
  "consume m store keyId limits model now q =
     (let subjects = filter (\<lambda>s. anyRequestLimit (sj_limits s)) (subjectsOf keyId limits model) in
      if subjects = [] then (Inr (), q)
      else
        case checkSubjects m store requestsOnly False now (\<lambda>i. []) subjects q of
          (Inl e, q) \<Rightarrow> (Inl e, q)
        | (Inr _, q) \<Rightarrow> (Inr (), q))"

definition renewClaim :: "instant \<Rightarrow> mem_coord \<Rightarrow> claim \<Rightarrow> mem_coord" where
  "renewClaim clock c cl =
     (case cl_holder cl of
        None \<Rightarrow> c
      | Some h \<Rightarrow> (case gauge_renew (cl_subject cl) h GAUGE_TTL_MS clock c of Inl e \<Rightarrow> c | Inr c' \<Rightarrow> c'))"

definition renewAdmission :: "instant \<Rightarrow> admission \<Rightarrow> limiter \<Rightarrow> limiter" where
  "renewAdmission clock a l =
     (if clock \<ge> ad_renewUntil a then l
      else l\<lparr>lr_coord := foldl (renewClaim clock) (lr_coord l) (ad_claims a)\<rparr>)"

definition releaseClaim :: "instant \<Rightarrow> mem_coord \<Rightarrow> claim \<Rightarrow> mem_coord" where
  "releaseClaim clock c cl =
     (case gauge_release (cl_subject cl) (cl_holder cl) clock c of Inl e \<Rightarrow> c | Inr c' \<Rightarrow> c')"

definition releaseAdmission :: "instant \<Rightarrow> admission \<Rightarrow> limiter \<Rightarrow> limiter" where
  "releaseAdmission clock a l = l\<lparr>lr_coord := foldl (releaseClaim clock) (lr_coord l) (ad_claims a)\<rparr>"

definition debitSubject :: "string \<Rightarrow> counts \<Rightarrow> instant \<Rightarrow> limiter \<Rightarrow> limiter" where
  "debitSubject subject delta now l =
     (case lr_limits l subject of
        None \<Rightarrow> l
      | Some limits \<Rightarrow>
          if \<not> anyLongLimit limits then l
          else l\<lparr>lr_coord := foldl (\<lambda>c w. buckets_add (bucketKey subject w) (GRAIN_MS w) (WINDOW_MS w) now delta c)
                 (lr_coord l) LONG_WINDOWS\<rparr>)"

definition debit :: "string \<Rightarrow> string \<Rightarrow> int \<Rightarrow> rat \<Rightarrow> instant \<Rightarrow> limiter \<Rightarrow> limiter" where
  "debit keyId requestedModel tokens costUsd now l =
     (let delta = \<lparr>co_requests = 1, co_tokens = tokens, co_costUsd = costUsd\<rparr>
      in debitSubject (modelSubjectId keyId requestedModel) delta now (debitSubject keyId delta now l))"

definition recordOverride :: "string \<Rightarrow> limit_config \<Rightarrow> string \<Rightarrow> limiter \<Rightarrow> limiter" where
  "recordOverride keyId limits model l =
     (case modelOverride limits model of
        None \<Rightarrow> l
      | Some override \<Rightarrow> l\<lparr>lr_limits := (lr_limits l)(modelSubjectId keyId model \<mapsto> override)\<rparr>)"

definition inFlight :: "string \<Rightarrow> instant \<Rightarrow> limiter \<Rightarrow> nat \<times> limiter" where
  "inFlight subject clock l = (let (n, c) = gauge_read subject clock (lr_coord l) in (n, l\<lparr>lr_coord := c\<rparr>))"

subsection \<open>Keys keep subjects apart\<close>

lemma of_char_upperHex: "n < 16 \<Longrightarrow> (of_char (upperHex n) :: nat) = (if n < 10 then 48 + n else 55 + n)"
  by (simp add: upperHex_def)

lemma upperHex_inject:
  assumes "m < 16" and "n < 16" and "upperHex m = upperHex n"
  shows "m = n"
proof -
  from assms(3) have "(of_char (upperHex m) :: nat) = of_char (upperHex n)" by simp
  then show ?thesis
    unfolding of_char_upperHex [OF assms(1)] of_char_upperHex [OF assms(2)] by (simp split: if_splits)
qed

lemma percent_append_inject:
  assumes "m < 256" and "n < 256" and "percent m @ x = percent n @ y"
  shows "m = n \<and> x = y"
proof -
  from assms(3) have eq: "upperHex (m div 16) = upperHex (n div 16)" "upperHex (m mod 16) = upperHex (n mod 16)"
    and "x = y" by (simp_all add: percent_def)
  have "m div 16 = n div 16" using assms(1,2) by (intro upperHex_inject eq) auto
  moreover have "m mod 16 = n mod 16" by (intro upperHex_inject eq) auto
  ultimately show ?thesis using \<open>x = y\<close> by (metis div_mult_mod_eq)
qed

lemma encodeChar_cases:
  obtains "uriUnreserved c" "encodeChar c = [c]" "c \<noteq> CHR ''%''"
  | "\<not> uriUnreserved c" "(of_char c :: nat) < 128" "encodeChar c = percent (of_char c)"
  | "\<not> uriUnreserved c" "128 \<le> (of_char c :: nat)"
    "encodeChar c = percent (192 + of_char c div 64) @ percent (128 + of_char c mod 64)"
proof -
  have "\<not> uriUnreserved (CHR ''%'')" by (simp add: uriUnreserved_def)
  then show thesis using that by (cases "uriUnreserved c"; cases "(of_char c :: nat) < 128")
      (auto simp: encodeChar_def Let_def)
qed

lemma of_char_inject: "(of_char c :: nat) = of_char d \<Longrightarrow> c = d"
  by (metis char_of_char)

lemma percent_head: "percent n @ x = y \<Longrightarrow> hd y = CHR ''%'' \<and> y \<noteq> []"
  by (auto simp: percent_def)

lemma encodeChar_inject:
  assumes eq: "encodeChar c @ x = encodeChar d @ y"
  shows "c = d \<and> x = y"
proof -
  have c: "(of_char c :: nat) < 256" and d: "(of_char d :: nat) < 256" by simp_all
  have hi: "192 + n div 64 < (256 :: nat)" "128 + n mod 64 < (256 :: nat)" if "n < 256" for n
    using that by auto
  show ?thesis
  proof (cases c rule: encodeChar_cases; cases d rule: encodeChar_cases)
    assume "encodeChar c = percent (of_char c)" "encodeChar d = percent (of_char d)"
    with eq show ?thesis using percent_append_inject [OF c d] of_char_inject by auto
  next
    assume *: "encodeChar c = percent (192 + of_char c div 64) @ percent (128 + of_char c mod 64)"
      "encodeChar d = percent (192 + of_char d div 64) @ percent (128 + of_char d mod 64)"
    from eq have "192 + of_char c div 64 = 192 + (of_char d :: nat) div 64"
      and rest: "percent (128 + of_char c mod 64) @ x = percent (128 + of_char d mod 64) @ y"
      unfolding * append_assoc using percent_append_inject [OF hi(1) [OF c] hi(1) [OF d]] by auto
    moreover from percent_append_inject [OF hi(2) [OF c] hi(2) [OF d] rest]
    have "128 + of_char c mod 64 = 128 + (of_char d :: nat) mod 64" "x = y" by auto
    ultimately have "(of_char c :: nat) = of_char d" by (metis add_left_cancel div_mult_mod_eq)
    then show ?thesis using \<open>x = y\<close> of_char_inject by auto
  next
    assume *: "encodeChar c = percent (of_char c)" "(of_char c :: nat) < 128"
      "encodeChar d = percent (192 + of_char d div 64) @ percent (128 + of_char d mod 64)"
    from eq have "of_char c = 192 + (of_char d :: nat) div 64"
      unfolding * append_assoc using percent_append_inject [OF c hi(1) [OF d]] by auto
    with *(2) show ?thesis by simp
  next
    assume *: "encodeChar d = percent (of_char d)" "(of_char d :: nat) < 128"
      "encodeChar c = percent (192 + of_char c div 64) @ percent (128 + of_char c mod 64)"
    from eq have "192 + (of_char c :: nat) div 64 = of_char d"
      unfolding * append_assoc using percent_append_inject [OF hi(1) [OF c] d] by auto
    with *(2) show ?thesis by simp
  qed (use eq in \<open>auto simp: percent_def\<close>)
qed

lemma encodeURIComponent_inject: "encodeURIComponent s = encodeURIComponent t \<Longrightarrow> s = t"
proof (induction s arbitrary: t)
  case Nil
  have "encodeChar d \<noteq> []" for d by (cases d rule: encodeChar_cases) (auto simp: percent_def)
  with Nil show ?case by (cases t) (auto simp: encodeURIComponent_def)
next
  case (Cons c s)
  have "encodeChar d \<noteq> []" for d by (cases d rule: encodeChar_cases) (auto simp: percent_def)
  with Cons.prems obtain d t' where t: "t = d # t'" by (cases t) (auto simp: encodeURIComponent_def)
  with Cons.prems have "encodeChar c @ encodeURIComponent s = encodeChar d @ encodeURIComponent t'"
    by (simp add: encodeURIComponent_def)
  from encodeChar_inject [OF this] Cons.IH t show ?case by blast
qed

text \<open>
  The coordinator's keys tell subjects apart. Key ids hold no slash, so no model
  name, however spelled, makes one key's override share counters with another's, with
  another model's, or with a key-wide scope, and a bucket key has one reading.
\<close>

theorem subject_keys_distinct:
  assumes "CHR ''/'' \<notin> set k" and "CHR ''/'' \<notin> set k'"
  shows "(modelSubjectId k m = modelSubjectId k' m' \<longleftrightarrow> k = k' \<and> m = m')
    \<and> modelSubjectId k m \<noteq> k'
    \<and> (\<forall>s s' w w'. w \<in> set LONG_WINDOWS \<longrightarrow> w' \<in> set LONG_WINDOWS \<longrightarrow>
         (bucketKey s w = bucketKey s' w' \<longleftrightarrow> s = s' \<and> w = w'))"
proof -
  have "k = k' \<and> ''m/'' @ encodeURIComponent m = ''m/'' @ encodeURIComponent m'"
    if "modelSubjectId k m = modelSubjectId k' m'"
    using append_sep_inject [of k "CHR ''/''" "''m/'' @ encodeURIComponent m" k' "''m/'' @ encodeURIComponent m'"]
      that assms by (simp add: modelSubjectId_def)
  then have "modelSubjectId k m = modelSubjectId k' m' \<longleftrightarrow> k = k' \<and> m = m'"
    using encodeURIComponent_inject by auto
  moreover have "modelSubjectId k m \<noteq> k'"
    using assms(2) by (auto simp: modelSubjectId_def)
  moreover have "bucketKey s w = bucketKey s' w' \<longleftrightarrow> s = s' \<and> w = w'"
    if "w \<in> set LONG_WINDOWS" "w' \<in> set LONG_WINDOWS" for s s' w w'
    using that by (auto simp: bucketKey_def LONG_WINDOWS_def)
  ultimately show ?thesis by blast
qed

theorem subject_keys_distinct_witness:
  "modelSubjectId ''k1'' ''a/m/b'' \<noteq> modelSubjectId ''k1/m/a'' ''b''
   \<and> modelSubjectId ''k1'' ''a/m/b'' \<noteq> modelSubjectId ''k1'' ''a''
   \<and> modelSubjectId ''k1'' ''a/m/b'' = ''k1/m/a%2Fm%2Fb''"
proof -
  have "modelSubjectId ''k1'' ''a/m/b'' \<noteq> modelSubjectId ''k1'' ''a''"
    using subject_keys_distinct [of "''k1''" "''k1''" "''a/m/b''" "''a''"] by simp
  moreover have "modelSubjectId ''k1'' ''a/m/b'' = ''k1/m/a%2Fm%2Fb''"
    by code_simp
  moreover have "modelSubjectId ''k1/m/a'' ''b'' = ''k1/m/a/m/b''"
    by code_simp
  ultimately show ?thesis by simp
qed

end
