(* ===== verification/Limiter_Burst.thy ===== *)
theory Limiter_Burst
  imports Limiter
begin

section \<open>Bursts\<close>

text \<open>
  The limiter under concurrency. A request's check yields at every \<^verbatim>\<open>await\<close>: between the
  ring stamp and the gauge slot of its claim, before its judgement, and between the two
  halves of a rollback, any other request may run. The relation \<open>burst_step\<close> has one step
  per stretch the code runs without yielding, taken in any order by any number of
  requests, under a clock that does not run backwards; a stamp may have been read earlier
  than it is recorded. A request judged against two subjects is two claims here, each
  admitted only if its own subject allows it. The bucket maps may change in any way at any
  time, and a judgement may have read any of them, which covers every interleaving of the
  long-window reads, seeds and debits. A slot's fresh name is drawn where it is first
  used.

  The log lists the claims not given back, in the order they were stamped; \<open>bs_slots\<close> the
  named slots ever taken (subject, name, count told), in the order they were acquired; and
  \<open>bs_owed\<close> the slots of refused claims still to be released.
\<close>

datatype claim_status = Stamped | Pending | Admitted | Released

record burst =
  bs_coord :: mem_coord
  bs_clock :: instant
  bs_log :: "(claim \<times> claim_status) list"
  bs_slots :: "(string \<times> string \<times> nat) list"
  bs_owed :: "(string \<times> string option) list"

definition burst_init :: burst where
  "burst_init = \<lparr>bs_coord = memoryCoord, bs_clock = 0, bs_log = [], bs_slots = [], bs_owed = []\<rparr>"

text \<open>What one claim is judged on: all limits of its subject, or requests only.\<close>

definition scopeOf :: "claim \<Rightarrow> limit_base \<Rightarrow> limit_base" where
  "scopeOf cl limits = (if cl_gauge cl then limits else requestsOnly limits)"

definition judgeClaim :: "usage_reads \<Rightarrow> subject \<Rightarrow> claim \<Rightarrow> mem_coord \<Rightarrow> bool" where
  "judgeClaim store subject cl c =
     (let limits = scopeOf cl (sj_limits subject)
      in dc_allowed (evaluate limits (fst (counters store subject limits cl (cl_stamp cl) c)) (cl_stamp cl)))"

text \<open>A claim once its ring is stamped, before the gauge has answered.\<close>

definition stampedClaim :: "string \<Rightarrow> bool \<Rightarrow> instant \<times> window_counter \<Rightarrow> claim" where
  "stampedClaim k gauge r = \<lparr>cl_subject = k, cl_stamp = fst r, cl_gauge = gauge, cl_holder = None,
     cl_requests = snd r, cl_concurrency = 0\<rparr>"

inductive burst_step :: "usage_reads \<Rightarrow> (string \<Rightarrow> subject) \<Rightarrow> burst \<Rightarrow> burst \<Rightarrow> bool"
  for store :: usage_reads and subjectAt :: "string \<Rightarrow> subject" where
  tick: "bs_clock s \<le> t \<Longrightarrow> burst_step store subjectAt s (s\<lparr>bs_clock := t\<rparr>)"
| buckets: "burst_step store subjectAt s (s\<lparr>bs_coord := (bs_coord s)\<lparr>mc_buckets := b\<rparr>\<rparr>)"
| stamped: "\<lbrakk>now \<le> bs_clock s; window_claim k (WINDOW_MS W1m) now (bs_coord s) = (r, c')\<rbrakk> \<Longrightarrow>
    burst_step store subjectAt s
      (s\<lparr>bs_coord := c', bs_log := bs_log s @ [(stampedClaim k gauge r, Stamped)]\<rparr>)"
| named_slot: "\<lbrakk>bs_log s = xs @ (cl, Stamped) # ys; cl_gauge cl;
    lb_concurrency (sj_limits (subjectAt (cl_subject cl))) \<noteq> None;
    h \<noteq> []; h \<notin> fst ` snd ` set (bs_slots s);
    gauge_acquire (cl_subject cl) GAUGE_TTL_MS (Some h) (bs_clock s) (bs_coord s) = Inr (n, c')\<rbrakk> \<Longrightarrow>
    burst_step store subjectAt s (s\<lparr>bs_coord := c',
      bs_log := xs @ (cl\<lparr>cl_holder := Some h, cl_concurrency := n\<rparr>, Pending) # ys,
      bs_slots := bs_slots s @ [(cl_subject cl, h, n)]\<rparr>)"
| anonymous_slot: "\<lbrakk>bs_log s = xs @ (cl, Stamped) # ys; cl_gauge cl;
    lb_concurrency (sj_limits (subjectAt (cl_subject cl))) = None;
    gauge_acquire (cl_subject cl) GAUGE_TTL_MS None (bs_clock s) (bs_coord s) = Inr (n, c')\<rbrakk> \<Longrightarrow>
    burst_step store subjectAt s (s\<lparr>bs_coord := c', bs_log := xs @ (cl\<lparr>cl_concurrency := n\<rparr>, Pending) # ys\<rparr>)"
| no_slot: "\<lbrakk>bs_log s = xs @ (cl, Stamped) # ys; \<not> cl_gauge cl;
    gauge_read (cl_subject cl) (bs_clock s) (bs_coord s) = (n, c')\<rbrakk> \<Longrightarrow>
    burst_step store subjectAt s (s\<lparr>bs_coord := c', bs_log := xs @ (cl\<lparr>cl_concurrency := n\<rparr>, Pending) # ys\<rparr>)"
| judged: "\<lbrakk>bs_log s = xs @ (cl, Pending) # ys; judgeClaim store (subjectAt (cl_subject cl)) cl seen\<rbrakk> \<Longrightarrow>
    burst_step store subjectAt s (s\<lparr>bs_log := xs @ (cl, Admitted) # ys\<rparr>)"
| refused: "bs_log s = xs @ (cl, status) # ys \<Longrightarrow> status \<in> {Stamped, Pending} \<Longrightarrow>
    burst_step store subjectAt s
      (s\<lparr>bs_coord := window_rollback (cl_subject cl) (cl_stamp cl) (bs_coord s), bs_log := xs @ ys,
         bs_owed := bs_owed s @ (if cl_gauge cl \<and> status = Pending then [(cl_subject cl, cl_holder cl)] else [])\<rparr>)"
| returned: "\<lbrakk>bs_owed s = xs @ (k, holder) # ys; gauge_release k holder (bs_clock s) (bs_coord s) = Inr c'\<rbrakk> \<Longrightarrow>
    burst_step store subjectAt s (s\<lparr>bs_coord := c', bs_owed := xs @ ys\<rparr>)"
| renewed: "(cl, status) \<in> set (bs_log s) \<Longrightarrow> status \<in> {Admitted, Released} \<Longrightarrow>
    burst_step store subjectAt s (s\<lparr>bs_coord := renewClaim (bs_clock s) (bs_coord s) cl\<rparr>)"
| released: "bs_log s = xs @ (cl, Admitted) # ys \<Longrightarrow> cl_gauge cl \<Longrightarrow>
    burst_step store subjectAt s
      (s\<lparr>bs_coord := releaseClaim (bs_clock s) (bs_coord s) cl, bs_log := xs @ (cl, Released) # ys\<rparr>)"

definition burst_reachable :: "usage_reads \<Rightarrow> (string \<Rightarrow> subject) \<Rightarrow> burst \<Rightarrow> bool" where
  "burst_reachable store subjectAt s \<longleftrightarrow> (burst_step store subjectAt)\<^sup>*\<^sup>* burst_init s"

inductive_cases burst_stepE: "burst_step store subjectAt s s'"

lemma burst_induct [consumes 1, case_names init step]:
  assumes "burst_reachable store subjectAt s" and "P burst_init"
    and "\<And>s s'. P s \<Longrightarrow> burst_step store subjectAt s s' \<Longrightarrow> P s'"
  shows "P s"
  using assms(1) unfolding burst_reachable_def
  by (induction rule: rtranclp_induct) (use assms(2,3) in auto)

subsection \<open>The sequential limiter is an instance\<close>

text \<open>With nothing else running, a claim of \<open>Limiter\<close> is a stamp followed by a slot.\<close>

definition alone :: "instant \<Rightarrow> meanwhile" where
  "alone clock = \<lparr>mw_clock = (\<lambda>n. clock), mw_others = (\<lambda>n l. l)\<rparr>"

lemma awaited_alone [simp]: "awaited (alone clock) calls q = q\<lparr>ck_awaits := Suc (ck_awaits q), ck_calls := ck_calls q @ calls\<rparr>"
  by (simp add: awaited_def alone_def Let_def limiter.truncate_def)

lemma clockNow_alone [simp]: "clockNow (alone clock) q = clock"
  by (simp add: clockNow_def alone_def)

lemma takeClaim_is_steps:
  assumes "takeClaim (alone (bs_clock s)) k now gauge holder q = (Inr cl, q')" and "lr_coord q = bs_coord s" and "now \<le> bs_clock s"
    and "holder \<noteq> None \<longleftrightarrow> gauge \<and> lb_concurrency (sj_limits (subjectAt k)) \<noteq> None"
    and "\<And>h. holder = Some h \<Longrightarrow> h \<noteq> [] \<and> h \<notin> fst ` snd ` set (bs_slots s)"
  shows "(burst_step store subjectAt)\<^sup>*\<^sup>* s (s\<lparr>bs_coord := lr_coord q', bs_log := bs_log s @ [(cl, Pending)],
      bs_slots := bs_slots s @ (case holder of None \<Rightarrow> [] | Some h \<Rightarrow> [(k, h, cl_concurrency cl)])\<rparr>)"
proof -
  obtain r c where r: "window_claim k (WINDOW_MS W1m) now (bs_coord s) = (r, c)" by fastforce
  let ?s = "s\<lparr>bs_coord := c, bs_log := bs_log s @ [(stampedClaim k gauge r, Stamped)]\<rparr>"
  have first: "burst_step store subjectAt s ?s" using burst_step.stamped [OF assms(3) r] .
  have log: "bs_log ?s = bs_log s @ (stampedClaim k gauge r, Stamped) # []" by simp
  have second: "burst_step store subjectAt ?s (s\<lparr>bs_coord := lr_coord q', bs_log := bs_log s @ [(cl, Pending)],
      bs_slots := bs_slots s @ (case holder of None \<Rightarrow> [] | Some h \<Rightarrow> [(k, h, cl_concurrency cl)])\<rparr>)"
  proof (cases holder)
    case (Some h)
    with assms r obtain n where n: "gauge" "gauge_acquire k GAUGE_TTL_MS (Some h) (bs_clock s) c = Inr (n, lr_coord q')"
      "cl = (stampedClaim k gauge r)\<lparr>cl_holder := Some h, cl_concurrency := n\<rparr>"
      by (auto simp: takeClaim_def stampedClaim_def split_def Let_def split: sum.splits)
    with burst_step.named_slot [OF log, of subjectAt h n "lr_coord q'" store] Some assms(4) assms(5) [OF Some]
    show ?thesis by (simp add: stampedClaim_def)
  next
    case None
    show ?thesis
    proof (cases gauge)
      case True
      with None assms(1,2) r obtain n where n: "gauge_acquire k GAUGE_TTL_MS None (bs_clock s) c = Inr (n, lr_coord q')"
        "cl = (stampedClaim k gauge r)\<lparr>cl_concurrency := n\<rparr>"
        by (auto simp: takeClaim_def stampedClaim_def split_def Let_def split: sum.splits)
      with burst_step.anonymous_slot [OF log, of subjectAt n "lr_coord q'" store] None True assms(4)
      show ?thesis by (simp add: stampedClaim_def)
    next
      case False
      with None assms(1,2) r obtain n where n: "gauge_read k (bs_clock s) c = (n, lr_coord q')"
        "cl = (stampedClaim k gauge r)\<lparr>cl_concurrency := n\<rparr>"
        by (cases "gauge_read k (bs_clock s) c") (auto simp: takeClaim_def stampedClaim_def Let_def split: prod.splits)
      with burst_step.no_slot [OF log, of n "lr_coord q'" store subjectAt] None False
      show ?thesis by (simp add: stampedClaim_def)
    qed
  qed
  show ?thesis using first second by (meson converse_rtranclp_into_rtranclp r_into_rtranclp)
qed

subsection \<open>Which operation touches which map\<close>

lemma slots_windows [simp]:
  "mc_windows (putSlots k held c) = mc_windows c" "mc_windows (snd (gauge_read k clock c)) = mc_windows c"
  by (simp_all add: putSlots_def gauge_read_def liveSlots_def Let_def)

lemma gauge_windows:
  "gauge_acquire k ttl h clock c = Inr (n, c') \<Longrightarrow> mc_windows c' = mc_windows c"
  "gauge_release k h clock c = Inr c' \<Longrightarrow> mc_windows c' = mc_windows c"
  "gauge_renew k h' ttl clock c = Inr c' \<Longrightarrow> mc_windows c' = mc_windows c"
  "gauge_read k clock c = (n, c') \<Longrightarrow> mc_windows c' = mc_windows c"
  by (auto simp: gauge_acquire_def gauge_release_def gauge_renew_def gauge_read_def liveSlots_def
      Let_def split: option.splits sum.splits)

lemma buckets_frame [simp]:
  "mc_windows (trimBuckets k g w t c) = mc_windows c" "mc_gauges (trimBuckets k g w t c) = mc_gauges c"
  "mc_windows (buckets_add k g w t n c) = mc_windows c" "mc_gauges (buckets_add k g w t n c) = mc_gauges c"
  "mc_windows (snd (buckets_sum k g w t c)) = mc_windows c" "mc_gauges (snd (buckets_sum k g w t c)) = mc_gauges c"
  "mc_windows (buckets_seed k g w t rows c) = mc_windows c" "mc_gauges (buckets_seed k g w t rows c) = mc_gauges c"
  by (auto simp: trimBuckets_def buckets_add_def buckets_sum_def buckets_seed_def Let_def split: option.splits)

lemma longCount_frame [simp]:
  "mc_windows (snd (longCount store j w t c)) = mc_windows c" "mc_gauges (snd (longCount store j w t c)) = mc_gauges c"
  by (auto simp: longCount_def seedBuckets_def Let_def split_def split: option.splits sum.splits)

lemma counters_frame [simp]:
  "mc_windows (snd (counters store j limits cl now c)) = mc_windows c"
  "mc_gauges (snd (counters store j limits cl now c)) = mc_gauges c"
proof -
  have long: "mc_windows (snd (longCounts store j now c)) = mc_windows c"
    "mc_gauges (snd (longCounts store j now c)) = mc_gauges c"
    using longCount_frame [of store j W5h now c] longCount_frame [of store j W1w now "snd (longCount store j W5h now c)"]
    by (auto simp: longCounts_def split_def split: sum.splits)
  show "mc_windows (snd (counters store j limits cl now c)) = mc_windows c"
    "mc_gauges (snd (counters store j limits cl now c)) = mc_gauges c"
    using long by (auto simp: counters_def Let_def split_def split: option.splits prod.splits)
qed

lemma window_gauges [simp]:
  "mc_gauges (snd (window_claim k w now c)) = mc_gauges c"
  "mc_gauges (window_rollback k t c) = mc_gauges c"
  by (auto simp: window_claim_def window_rollback_def sweep_def Let_def split_def split: option.splits)

lemma rings_cong:
  "mc_windows c = mc_windows c' \<Longrightarrow> ringEvents c k = ringEvents c' k"
  "mc_windows c = mc_windows c' \<Longrightarrow> rings_ok w c = rings_ok w c'"
  by (simp_all add: ringEvents_def rings_ok_def)

lemma holders_cong: "mc_gauges c = mc_gauges c' \<Longrightarrow> holdersOf c k clock = holdersOf c' k clock"
  by (simp add: holdersOf_def heldSlots_def)

subsection \<open>Slots only lapse\<close>

lemma gauge_read_slots: "heldSlots k' clock' (snd (gauge_read k clock c)) =
    (if k' = k then filter (\<lambda>s. sl_expiresAt s > clock') (heldSlots k clock c) else heldSlots k' clock' c)"
  by (simp add: gauge_read_def liveSlots_def Let_def)

lemma gauge_read_holders: "clock \<le> clock' \<Longrightarrow> holdersOf (snd (gauge_read k clock c)) k' clock' \<subseteq> holdersOf c k' clock"
  using heldSlots_later [of clock clock' k' c] by (auto simp: holdersOf_def gauge_read_slots)

lemma holders_from:
  assumes "\<And>x. x \<in> set (heldSlots k clock' c') \<Longrightarrow> sl_holder x \<noteq> None \<Longrightarrow> x \<in> set (heldSlots k clock c)"
  shows "holdersOf c' k clock' \<subseteq> holdersOf c k clock"
proof
  fix h assume "h \<in> holdersOf c' k clock'"
  then obtain x where "x \<in> set (heldSlots k clock' c')" "sl_holder x = Some h" by (auto simp: holdersOf_def)
  with assms [of x] show "h \<in> holdersOf c k clock" by (auto simp: holdersOf_def)
qed

lemma anonymous_acquire_holders:
  assumes "gauge_acquire k ttl None clock c = Inr (n, c')" and "clock \<le> clock'"
  shows "holdersOf c' k' clock' \<subseteq> holdersOf c k' clock"
proof (rule holders_from)
  let ?new = "\<lparr>sl_expiresAt = clock + ttl, sl_holder = None\<rparr>"
  from assms(1) have c': "c' = (putSlots k (heldSlots k clock c) c)\<lparr>mc_gauges :=
      AList.update k (heldSlots k clock c @ [?new]) (mc_gauges (putSlots k (heldSlots k clock c) c))\<rparr>"
    by (simp add: gauge_acquire_def named_def liveSlots_def Let_def)
  have "set (heldSlots k' clock' c') \<subseteq> insert ?new (set (heldSlots k' clock c))"
    using heldSlots_later [OF assms(2), of k' c] unfolding c' by (cases "k' = k") (simp_all, blast+)
  then show "x \<in> set (heldSlots k' clock c)" if "x \<in> set (heldSlots k' clock' c')" "sl_holder x \<noteq> None" for x
    using that by auto
qed

lemma set_tl_subset: "set (tl xs) \<subseteq> set xs"
  by (cases xs) auto

lemma gauge_release_holders:
  assumes "gauge_release k holder clock c = Inr c'" and "clock \<le> clock'"
  shows "holdersOf c' k' clock' \<subseteq> holdersOf c k' clock"
proof (cases holder)
  case (Some h)
  with assms(1) have "c' = mem_release k h clock c" by (simp add: mem_release_def)
  then show ?thesis using slots.release_only [OF assms(2), of k h c k'] by simp
next
  case None
  show ?thesis
  proof (rule holders_from)
    from None assms(1) have c': "c' = putSlots k (tl (sort_key sl_expiresAt (heldSlots k clock c))) (putSlots k (heldSlots k clock c) c)"
      by (simp add: gauge_release_def named_def liveSlots_def Let_def)
    have "set (heldSlots k' clock' c') \<subseteq> set (heldSlots k' clock c)"
      using heldSlots_later [OF assms(2), of k' c] set_tl_subset [of "sort_key sl_expiresAt (heldSlots k clock c)"]
      unfolding c' by (cases "k' = k") (simp_all, blast+)
    then show "x \<in> set (heldSlots k' clock c)" if "x \<in> set (heldSlots k' clock' c')" for x
      using that by blast
  qed
qed

lemma releaseClaim_holders:
  "clock \<le> clock' \<Longrightarrow> holdersOf (releaseClaim clock c cl) k' clock' \<subseteq> holdersOf c k' clock"
  using gauge_release_holders [of "cl_subject cl" "cl_holder cl" clock c _ clock' k'] holdersOf_lapse [of clock clock' c k']
  by (auto simp: releaseClaim_def split: sum.splits)

lemma renewClaim_holders:
  assumes "clock \<le> clock'"
  shows "holdersOf (renewClaim clock c cl) k' clock' \<subseteq> holdersOf c k' clock"
proof (cases "cl_holder cl")
  case (Some h)
  then have "renewClaim clock c cl = mem_renew GAUGE_TTL_MS (cl_subject cl) h clock c"
    by (simp add: renewClaim_def mem_renew_def split: sum.splits)
  then show ?thesis using slots.renew_only [OF assms, of GAUGE_TTL_MS "cl_subject cl" h c k'] by simp
qed (use assms holdersOf_lapse in \<open>simp add: renewClaim_def\<close>)

lemmas slots_lapse = gauge_read_holders anonymous_acquire_holders gauge_release_holders
  releaseClaim_holders renewClaim_holders holdersOf_lapse

subsection \<open>No burst passes a minute ceiling\<close>

abbreviation minute :: int where "minute \<equiv> WINDOW_MS W1m"

definition toldRequests :: "claim \<Rightarrow> nat" where
  "toldRequests cl = nat \<lfloor>wc_used (cl_requests cl)\<rfloor>"

definition ringLedger :: "string \<Rightarrow> (claim \<times> claim_status) list \<Rightarrow> ledger" where
  "ringLedger k entries = map (\<lambda>(cl, _). (cl_stamp cl, toldRequests cl)) (filter (\<lambda>(cl, _). cl_subject cl = k) entries)"

lemma ringLedger_simps [simp]:
  "ringLedger k [] = []"
  "ringLedger k (xs @ ys) = ringLedger k xs @ ringLedger k ys"
  "ringLedger k ((cl, st) # xs) =
     (if cl_subject cl = k then [(cl_stamp cl, toldRequests cl)] else []) @ ringLedger k xs"
  by (simp_all add: ringLedger_def)

definition ring_inv :: "string \<Rightarrow> burst \<Rightarrow> bool" where
  "ring_inv k s \<longleftrightarrow> rings_ok minute (bs_coord s) \<and>
     (\<forall>horizon \<ge> bs_clock s. rings.covers minute (bs_coord s) k horizon (ringLedger k (bs_log s)))"

lemma window_claim_told:
  "window_claim k w now c = (r, c') \<Longrightarrow>
     fst r = now \<and> toldRequests (stampedClaim k gauge r) = fst (mem_claim w k now c) \<and> c' = snd (mem_claim w k now c)"
  by (auto simp: window_claim_def toldRequests_def stampedClaim_def Let_def split_def)

lemma claim_updates [simp]:
  "toldRequests (cl\<lparr>cl_concurrency := n\<rparr>) = toldRequests cl" "toldRequests (cl\<lparr>cl_holder := h\<rparr>) = toldRequests cl"
  by (simp_all add: toldRequests_def)

lemma renewClaim_windows [simp]: "mc_windows (renewClaim clock c cl) = mc_windows c"
  by (auto simp: renewClaim_def gauge_windows split: option.splits sum.splits)

lemma releaseClaim_windows [simp]: "mc_windows (releaseClaim clock c cl) = mc_windows c"
  by (auto simp: releaseClaim_def gauge_windows split: sum.splits)

lemma ring_inv_frame:
  assumes "ring_inv k s" and "mc_windows (bs_coord s') = mc_windows (bs_coord s)" and "bs_clock s \<le> bs_clock s'"
    and "ringLedger k (bs_log s') = ringLedger k (bs_log s)"
  shows "ring_inv k s'"
  using assms rings_cong(2) [OF assms(2), of minute] rings_cong(1) [OF assms(2), of k]
  by (auto simp: ring_inv_def rings.covers_def)

lemma ring_inv_step:
  assumes "burst_step store subjectAt s s'" and inv: "ring_inv k s"
  shows "ring_inv k s'"
  using assms(1)
proof cases
  case (stamped now k' r c' gauge)
  then have told: "fst r = now" "toldRequests (stampedClaim k' gauge r) = fst (mem_claim minute k' now (bs_coord s))"
    "c' = snd (mem_claim minute k' now (bs_coord s))"
    using window_claim_told by (blast, blast, blast)
  show ?thesis
    unfolding ring_inv_def stamped(1)
    using inv stamped told rings.claim_inv [of minute "bs_coord s" k' now]
      rings.covers_claim [of minute "bs_coord s" k _ "ringLedger k (bs_log s)" now]
      rings.covers_claim_other [of minute "bs_coord s" k _ "ringLedger k (bs_log s)" now k']
    by (auto simp: ring_inv_def stampedClaim_def)
next
  case (refused xs cl status ys)
  let ?c = "window_rollback (cl_subject cl) (cl_stamp cl) (bs_coord s)"
  from inv have ok: "rings_ok minute (bs_coord s)" by (simp add: ring_inv_def)
  have "rings.covers minute ?c k horizon (ringLedger k (xs @ ys))" if "bs_clock s \<le> horizon" for horizon
  proof -
    from inv that refused(2) have held: "rings.covers minute (bs_coord s) k horizon (ringLedger k (xs @ (cl, status) # ys))"
      by (simp add: ring_inv_def)
    show ?thesis
    proof (cases "cl_subject cl = k")
      case True
      with held rings.covers_rollback [OF ok, of k horizon "ringLedger k xs" "(cl_stamp cl, toldRequests cl)" "ringLedger k ys"]
      show ?thesis by simp
    next
      case False
      with held rings.covers_rollback_other [OF ok, of k horizon "ringLedger k xs @ ringLedger k ys" "cl_subject cl"]
      show ?thesis by auto
    qed
  qed
  with rings.rollback_inv [OF ok] show ?thesis unfolding ring_inv_def refused(1) by simp
qed (auto intro!: ring_inv_frame [OF inv] dest: gauge_windows)

lemma ring_inv_reachable: "burst_reachable store subjectAt s \<Longrightarrow> ring_inv k s"
proof (induction rule: burst_induct)
  case init
  then show ?case by (simp add: ring_inv_def burst_init_def rings_ok_def memoryCoord_def rings.covers_Nil)
qed (rule ring_inv_step)

subsection \<open>What an admitted claim was told\<close>

definition passed :: "claim_status \<Rightarrow> bool" where
  "passed st \<longleftrightarrow> st \<in> {Admitted, Released}"

lemma passed_simps [simp]: "passed Admitted" "passed Released" "\<not> passed Pending" "\<not> passed Stamped"
  by (simp_all add: passed_def)

text \<open>Every claim let through was judged as it stands, and counts whole requests.\<close>

definition judged_inv :: "usage_reads \<Rightarrow> (string \<Rightarrow> subject) \<Rightarrow> burst \<Rightarrow> bool" where
  "judged_inv store subjectAt s \<longleftrightarrow> (\<forall>(cl, st) \<in> set (bs_log s). wc_used (cl_requests cl) \<in> \<nat> \<and>
     (passed st \<longrightarrow> (\<exists>seen. judgeClaim store (subjectAt (cl_subject cl)) cl seen)))"

lemma window_claim_Nats: "window_claim k w now c = (r, c') \<Longrightarrow> wc_used (snd r) \<in> \<nat>"
  by (auto simp: window_claim_def Let_def split_def)

lemma judged_inv_reachable: "burst_reachable store subjectAt s \<Longrightarrow> judged_inv store subjectAt s"
proof (induction rule: burst_induct)
  case init
  then show ?case by (simp add: judged_inv_def burst_init_def)
next
  case (step s s')
  from step(2) show ?case
    by cases (use step(1) window_claim_Nats in \<open>fastforce simp: judged_inv_def stampedClaim_def\<close>)+
qed

lemma counters_minute:
  "usedIn (fst (counters store j limits cl now c)) Requests W1m = wc_used (cl_requests cl)"
  "cs_concurrency (fst (counters store j limits cl now c)) = Some (of_nat (cl_concurrency cl))"
  by (auto simp: counters_def usedIn_def observedUsed_def Let_def split: option.splits prod.splits)

lemma evaluate_allowed:
  assumes "dc_allowed (evaluate config seen now)"
  shows "limitAt config d w = Some limit \<Longrightarrow> usedIn seen d w < limit"
    and "lb_concurrency config = Some limit \<Longrightarrow> nullish (cs_concurrency seen) 0 < limit"
proof -
  from assms have none: "\<And>d w. d \<in> set WINDOWED \<Longrightarrow> windowTrip config seen now d w = []"
    "gaugeTrip config seen now = []"
    by (auto simp: evaluate_violations)
  show "usedIn seen d w < limit" if "limitAt config d w = Some limit"
    using none(1) [OF limitAt_windowed [OF that], of w] that by (simp add: windowTrip_def split: if_splits)
  show "nullish (cs_concurrency seen) 0 < limit" if "lb_concurrency config = Some limit"
    using none(2) that by (simp add: gaugeTrip_def split: if_splits)
qed

lemma judgeClaim_requests:
  assumes "judgeClaim store j cl seen" and "limitAt (sj_limits j) Requests W1m = Some limit"
  shows "wc_used (cl_requests cl) < limit"
proof -
  have "limitAt (scopeOf cl (sj_limits j)) Requests W1m = Some limit"
    using assms(2) by (simp add: scopeOf_def limitAt_def requestsOnly_def)
  from evaluate_allowed(1) [OF assms(1) [unfolded judgeClaim_def Let_def] this]
  show ?thesis by (simp add: counters_minute)
qed

lemma judgeClaim_concurrency:
  assumes "judgeClaim store j cl seen" and "lb_concurrency (sj_limits j) = Some limit" and "cl_gauge cl"
  shows "of_nat (cl_concurrency cl) < limit"
proof -
  have "lb_concurrency (scopeOf cl (sj_limits j)) = Some limit"
    using assms(2,3) by (simp add: scopeOf_def)
  from evaluate_allowed(2) [OF assms(1) [unfolded judgeClaim_def Let_def] this]
  show ?thesis by (simp add: counters_minute)
qed

definition admittedSince :: "string \<Rightarrow> int \<Rightarrow> burst \<Rightarrow> claim list" where
  "admittedSince k cutoff s =
     map fst (filter (\<lambda>(cl, st). cl_subject cl = k \<and> passed st \<and> cutoff < cl_stamp cl) (bs_log s))"

lemma told_below:
  assumes "judged_inv store subjectAt s" and "limitAt (sj_limits (subjectAt k)) Requests W1m = Some (of_nat n)"
    and "(cl, st) \<in> set (bs_log s)" and "passed st" and "cl_subject cl = k"
  shows "toldRequests cl < n"
proof -
  from assms obtain seen where "wc_used (cl_requests cl) \<in> \<nat>" "judgeClaim store (subjectAt k) cl seen"
    by (fastforce simp: judged_inv_def)
  with judgeClaim_requests [OF _ assms(2)] obtain m where "wc_used (cl_requests cl) = of_nat m" "(of_nat m :: rat) < of_nat n"
    by (metis Nats_cases)
  then show ?thesis by (simp add: toldRequests_def)
qed

lemma length_admitted:
  assumes "\<And>cl st. (cl, st) \<in> set entries \<Longrightarrow> passed st \<Longrightarrow> cl_subject cl = k \<Longrightarrow> toldRequests cl < n"
  shows "length (filter (\<lambda>(cl, st). cl_subject cl = k \<and> passed st \<and> cutoff < cl_stamp cl) entries)
    \<le> size (after cutoff (filter (\<lambda>x. snd x < n) (ringLedger k entries)))"
  using assms
proof (induction entries)
  case (Cons e entries)
  obtain cl st where e: "e = (cl, st)" by fastforce
  have "length (filter (\<lambda>(cl, st). cl_subject cl = k \<and> passed st \<and> cutoff < cl_stamp cl) entries)
      \<le> size (after cutoff (filter (\<lambda>x. snd x < n) (ringLedger k entries)))"
    using Cons.prems by (intro Cons.IH) auto
  then show ?case using Cons.prems [of cl st] by (simp add: e)
qed simp

text \<open>
  C7: however requests interleave, the claims of one subject let through with a stamp in
  the last minute never outnumber its requests-per-minute limit: a burst cannot pass the
  ceiling, whatever the order of stamps, judgements, rollbacks and releases.
\<close>

theorem burst_never_passes_minute:
  assumes "burst_reachable store subjectAt s"
    and "limitAt (sj_limits (subjectAt k)) Requests W1m = Some (of_nat n)"
  shows "length (admittedSince k (bs_clock s - WINDOW_MS W1m) s) \<le> n"
proof -
  from ring_inv_reachable [OF assms(1), of k]
  have covers: "rings.covers minute (bs_coord s) k (bs_clock s) (ringLedger k (bs_log s))"
    by (simp add: ring_inv_def)
  have below: "toldRequests cl < n" if "(cl, st) \<in> set (bs_log s)" "passed st" "cl_subject cl = k" for cl st
    using told_below [OF judged_inv_reachable [OF assms(1)] assms(2) that] .
  have "length (admittedSince k (bs_clock s - minute) s)
      \<le> size (after (bs_clock s - minute) (filter (\<lambda>x. snd x < n) (ringLedger k (bs_log s))))"
    unfolding admittedSince_def length_map using below by (rule length_admitted)
  also have "\<dots> \<le> n" using rings.covers_bound [OF covers, of n] by (cases "n = 0") simp_all
  finally show ?thesis .
qed

subsection \<open>No burst passes a concurrency ceiling\<close>

definition slotLedger :: "string \<Rightarrow> (string \<times> string \<times> nat) list \<Rightarrow> slot_ledger" where
  "slotLedger k taken = map snd (filter (\<lambda>(k', _). k' = k) taken)"

lemma slotLedger_simps [simp]:
  "slotLedger k [] = []" "slotLedger k (xs @ ys) = slotLedger k xs @ slotLedger k ys"
  "slotLedger k ((k', x) # xs) = (if k' = k then x # slotLedger k xs else slotLedger k xs)"
  by (simp_all add: slotLedger_def)

lemma slotLedger_mem: "x \<in> set (slotLedger k taken) \<longleftrightarrow> (k, x) \<in> set taken"
  by (force simp: slotLedger_def)

definition holdersIn :: "(claim \<times> claim_status) list \<Rightarrow> string list" where
  "holdersIn entries = concat (map (\<lambda>(cl, _). case cl_holder cl of None \<Rightarrow> [] | Some h \<Rightarrow> [h]) entries)"

lemma holdersIn_simps [simp]:
  "holdersIn [] = []" "holdersIn (xs @ ys) = holdersIn xs @ holdersIn ys"
  "holdersIn ((cl, st) # xs) = (case cl_holder cl of None \<Rightarrow> [] | Some h \<Rightarrow> [h]) @ holdersIn xs"
  by (simp_all add: holdersIn_def)

lemma holdersIn_mem: "h \<in> set (holdersIn entries) \<longleftrightarrow> (\<exists>cl st. (cl, st) \<in> set entries \<and> cl_holder cl = Some h)"
proof (induction entries)
  case (Cons e entries)
  then show ?case by (cases e) (auto split: option.splits)
qed simp

lemma holdersIn_filter: "distinct (holdersIn entries) \<Longrightarrow> distinct (holdersIn (filter P entries))"
proof (induction entries)
  case (Cons e entries)
  obtain cl st where e: "e = (cl, st)" by fastforce
  have "set (holdersIn (filter P entries)) \<subseteq> set (holdersIn entries)"
    unfolding subset_iff holdersIn_mem by auto
  with Cons show ?case by (auto simp: e split: option.splits)
qed simp

definition bounded_inv :: "burst \<Rightarrow> bool" where
  "bounded_inv s \<longleftrightarrow> (\<forall>k. slots.bounds (bs_coord s) k (bs_clock s) (slotLedger k (bs_slots s))
     \<and> holdersOf (bs_coord s) k (bs_clock s) \<subseteq> fst ` set (slotLedger k (bs_slots s)))"

definition named_inv :: "burst \<Rightarrow> bool" where
  "named_inv s \<longleftrightarrow> distinct (holdersIn (bs_log s)) \<and> (\<forall>(cl, st) \<in> set (bs_log s). \<forall>h. cl_holder cl = Some h \<longrightarrow>
     st \<noteq> Stamped \<and> cl_gauge cl \<and> (cl_subject cl, h, cl_concurrency cl) \<in> set (bs_slots s))"

lemma bounded_inv_frame:
  assumes "bounded_inv s" and "bs_slots s' = bs_slots s"
    and "\<And>k. holdersOf (bs_coord s') k (bs_clock s') \<subseteq> holdersOf (bs_coord s) k (bs_clock s)"
  shows "bounded_inv s'"
  using assms(1) slots.bounds_shrink [OF _ assms(3)] order_trans [OF assms(3)]
  unfolding bounded_inv_def assms(2) by blast

lemma bounded_inv_step:
  assumes "burst_step store subjectAt s s'" and inv: "bounded_inv s"
  shows "bounded_inv s'"
  using assms(1)
proof cases
  case (named_slot xs cl ys h n c')
  let ?k = "cl_subject cl"
  have eq: "mem_acquire GAUGE_TTL_MS ?k h (bs_clock s) (bs_coord s) = (n, c')"
    using named_slot by (simp add: mem_acquire_def)
  have fresh: "h \<notin> fst ` set (slotLedger k (bs_slots s))" for k
    using named_slot(6) slotLedger_mem by (force simp: image_iff)
  have "slots.bounds c' k (bs_clock s) (slotLedger k (bs_slots s @ [(?k, h, n)]))
      \<and> holdersOf c' k (bs_clock s) \<subseteq> fst ` set (slotLedger k (bs_slots s @ [(?k, h, n)]))" for k
  proof -
    from inv have k: "slots.bounds (bs_coord s) k (bs_clock s) (slotLedger k (bs_slots s))"
      and sub: "holdersOf (bs_coord s) k (bs_clock s) \<subseteq> fst ` set (slotLedger k (bs_slots s))"
      by (simp_all add: bounded_inv_def)
    have "h \<notin> holdersOf (bs_coord s) k (bs_clock s)" using sub fresh by blast
    then have "slots.bounds c' k (bs_clock s) (slotLedger k (bs_slots s @ [(?k, h, n)]))"
      using slots.bounds_acquire [OF k named_slot(5) _ fresh order_refl, of GAUGE_TTL_MS]
        slots.bounds_acquire_other [OF k _ order_refl, of ?k GAUGE_TTL_MS h] eq
      by (cases "k = ?k") auto
    moreover have "holdersOf c' k (bs_clock s) \<subseteq> fst ` set (slotLedger k (bs_slots s @ [(?k, h, n)]))"
      using slots.acquire_only [OF order_refl, of GAUGE_TTL_MS ?k h "bs_clock s" "bs_coord s" k] sub eq
      by (auto split: if_splits)
    ultimately show ?thesis ..
  qed
  then show ?thesis unfolding named_slot(1) bounded_inv_def by simp
next
  case (no_slot xs cl ys n c')
  then show ?thesis using gauge_read_holders [OF order_refl, of "cl_subject cl" "bs_clock s" "bs_coord s"]
    by (intro bounded_inv_frame [OF inv]) simp_all
next
  case (stamped now k r c' gauge)
  then show ?thesis using holders_cong [OF window_gauges(1) [of k minute now "bs_coord s"]]
    by (intro bounded_inv_frame [OF inv]) simp_all
next
  case (refused xs cl status ys)
  then show ?thesis using holders_cong [OF window_gauges(2) [of "cl_subject cl" "cl_stamp cl" "bs_coord s"]]
    by (intro bounded_inv_frame [OF inv]) simp_all
next
  case (buckets b)
  then show ?thesis using holders_cong [of "(bs_coord s)\<lparr>mc_buckets := b\<rparr>" "bs_coord s"]
    by (intro bounded_inv_frame [OF inv]) simp_all
qed (rule bounded_inv_frame [OF inv]; simp add: slots_lapse)+

lemma bounded_inv_reachable: "burst_reachable store subjectAt s \<Longrightarrow> bounded_inv s"
proof (induction rule: burst_induct)
  case init
  then show ?case
    by (simp add: bounded_inv_def burst_init_def slots.bounds_Nil holdersOf_def heldSlots_def memoryCoord_def)
qed (rule bounded_inv_step)

lemma named_inv_step:
  assumes "burst_step store subjectAt s s'" and inv: "named_inv s"
  shows "named_inv s'"
  using assms(1)
proof cases
  case (named_slot xs cl ys h n c')
  have held: "h' \<in> fst ` snd ` set (bs_slots s)" if "h' \<in> set (holdersIn (bs_log s))" for h'
  proof -
    from that obtain cl st where "(cl, st) \<in> set (bs_log s)" "cl_holder cl = Some h'" by (auto simp: holdersIn_mem)
    with inv have "(cl_subject cl, h', cl_concurrency cl) \<in> set (bs_slots s)" by (auto simp: named_inv_def)
    from imageI [OF imageI [OF this, of snd], of fst] show ?thesis by simp
  qed
  then have "h \<notin> set (holdersIn (bs_log s))" using named_slot(6) by blast
  moreover have "cl_holder cl = None"
    using inv unfolding named_inv_def named_slot(2) by (cases "cl_holder cl") auto
  ultimately show ?thesis
    using inv unfolding named_inv_def named_slot(1,2) by (fastforce simp: named_slot(3))
next
  case (anonymous_slot xs cl ys n c')
  have "cl_holder cl = None"
    using inv unfolding named_inv_def anonymous_slot(2) by (cases "cl_holder cl") auto
  then show ?thesis using inv unfolding named_inv_def anonymous_slot(1,2) by auto
next
  case (no_slot xs cl ys n c')
  have "cl_holder cl = None"
    using inv unfolding named_inv_def no_slot(2) by (cases "cl_holder cl") auto
  then show ?thesis using inv unfolding named_inv_def no_slot(1,2) by auto
qed (use inv in \<open>auto simp: named_inv_def stampedClaim_def split: if_splits\<close>)

lemma named_inv_reachable: "burst_reachable store subjectAt s \<Longrightarrow> named_inv s"
proof (induction rule: burst_induct)
  case init
  then show ?case by (simp add: named_inv_def burst_init_def)
qed (rule named_inv_step)

text \<open>An admitted claim in flight: it holds a slot that has not lapsed.\<close>

definition slotLive :: "burst \<Rightarrow> claim \<Rightarrow> bool" where
  "slotLive s cl = (case cl_holder cl of None \<Rightarrow> False
     | Some h \<Rightarrow> list_ex (\<lambda>sl. sl_holder sl = Some h) (heldSlots (cl_subject cl) (bs_clock s) (bs_coord s)))"

definition inFlightClaims :: "string \<Rightarrow> burst \<Rightarrow> (claim \<times> claim_status) list" where
  "inFlightClaims k s = filter (\<lambda>(cl, st). cl_subject cl = k \<and> st = Admitted \<and> slotLive s cl) (bs_log s)"

lemma slotLive_holders: "slotLive s cl \<longleftrightarrow> (\<exists>h. cl_holder cl = Some h \<and> h \<in> holdersOf (bs_coord s) (cl_subject cl) (bs_clock s))"
  by (auto simp: slotLive_def holdersOf_def list_ex_iff split: option.splits)

lemma length_holdersIn: "(\<And>cl st. (cl, st) \<in> set entries \<Longrightarrow> cl_holder cl \<noteq> None) \<Longrightarrow> length (holdersIn entries) = length entries"
proof (induction entries)
  case (Cons e entries)
  obtain cl st where e: "e = (cl, st)" by fastforce
  from Cons.prems [of cl st] obtain h where "cl_holder cl = Some h" by (auto simp: e)
  with Cons show ?case by (auto simp: e)
qed simp

text \<open>
  C8: however requests interleave, the admitted requests of one subject in flight (their
  slots not released and not lapsed) never outnumber its concurrency ceiling.
\<close>

theorem burst_never_passes_concurrency:
  assumes "burst_reachable store subjectAt s"
    and "lb_concurrency (sj_limits (subjectAt k)) = Some (of_nat n)"
  shows "length (inFlightClaims k s) \<le> n"
proof -
  let ?L = "slotLedger k (bs_slots s)" and ?H = "holdersOf (bs_coord s) k (bs_clock s)"
  note named = named_inv_reachable [OF assms(1), unfolded named_inv_def]
  have live: "\<exists>h. cl_holder cl = Some h \<and> h \<in> ?H \<and> (h, cl_concurrency cl) \<in> set ?L \<and> cl_concurrency cl < n"
    if "(cl, st) \<in> set (inFlightClaims k s)" for cl st
  proof -
    from that have cl: "(cl, Admitted) \<in> set (bs_log s)" "cl_subject cl = k" "slotLive s cl"
      by (auto simp: inFlightClaims_def)
    then obtain h where h: "cl_holder cl = Some h" "h \<in> ?H" by (auto simp: slotLive_holders)
    with named cl have "cl_gauge cl" "(h, cl_concurrency cl) \<in> set ?L" by (auto simp: slotLedger_mem)
    moreover obtain seen where "judgeClaim store (subjectAt k) cl seen"
      using judged_inv_reachable [OF assms(1)] cl by (fastforce simp: judged_inv_def)
    then have "cl_concurrency cl < n"
      using judgeClaim_concurrency [OF _ assms(2) \<open>cl_gauge cl\<close>] by fastforce
    ultimately show ?thesis using h by blast
  qed
  have "length (inFlightClaims k s) = length (holdersIn (inFlightClaims k s))"
    using live by (intro length_holdersIn [symmetric]) fastforce
  also have "\<dots> = card (set (holdersIn (inFlightClaims k s)))"
    using named unfolding inFlightClaims_def by (intro distinct_card [symmetric] holdersIn_filter) simp
  also have "\<dots> \<le> card (fst ` set (filter (\<lambda>x. snd x < n) ?L) \<inter> ?H)"
  proof (rule card_mono)
    show "set (holdersIn (inFlightClaims k s)) \<subseteq> fst ` set (filter (\<lambda>x. snd x < n) ?L) \<inter> ?H"
      using live by (fastforce simp: holdersIn_mem image_iff)
  qed simp
  also have "\<dots> \<le> n"
    using slots.bounds_ceiling [of "bs_coord s" k "bs_clock s" ?L n] bounded_inv_reachable [OF assms(1)]
    by (cases "n = 0") (simp_all add: bounded_inv_def)
  finally show ?thesis .
qed

subsection \<open>A run\<close>

definition idle_store :: usage_reads where
  "idle_store = \<lparr>ur_sumBuckets = (\<lambda>key since grain model. Inr []), ur_oldestSince = (\<lambda>key since model. Inr None)\<rparr>"

definition sample_subject :: "string \<Rightarrow> subject" where
  "sample_subject k = \<lparr>sj_id = k, sj_keyId = k, sj_model = None, sj_limits =
     \<lparr>lb_requests = Some (\<lambda>w. if w = W1m then Some 2 else None), lb_tokens = None, lb_spend = None,
       lb_concurrency = Some 1\<rparr>\<rparr>"

definition sample_claim :: claim where
  "sample_claim = \<lparr>cl_subject = ''k1'', cl_stamp = 0, cl_gauge = True, cl_holder = Some ''h1'',
     cl_requests = \<lparr>wc_used = 0, wc_resetAt = 0\<rparr>, cl_concurrency = 0\<rparr>"

definition idle_check :: check where
  "idle_check = \<lparr>lr_coord = memoryCoord, lr_limits = Map.empty, ck_awaits = 0, ck_calls = []\<rparr>"

abbreviation sample_taken :: "(holder_error + claim) \<times> check" where
  "sample_taken \<equiv> takeClaim (alone 0) ''k1'' 0 True (Some ''h1'') idle_check"

definition sample_burst :: burst where
  "sample_burst = \<lparr>bs_coord = lr_coord (snd sample_taken), bs_clock = 0,
     bs_log = [(sample_claim, Admitted)], bs_slots = [(''k1'', ''h1'', 0)], bs_owed = []\<rparr>"

lemma sample_claim_taken: "fst sample_taken = Inr sample_claim"
  by code_simp

lemma sample_claim_judged: "judgeClaim idle_store (sample_subject ''k1'') sample_claim c"
  by (simp add: judgeClaim_def scopeOf_def counters_def anyLongLimit_def LONG_WINDOWS_def configured_def
      sample_subject_def sample_claim_def evaluate_violations windowTrip_def gaugeTrip_def limitAt_def
      WINDOWED_def WINDOWS_def usedIn_def observedUsed_def)

lemma sample_burst_reachable: "burst_reachable idle_store sample_subject sample_burst"
proof -
  let ?c = "lr_coord (snd sample_taken)"
  let ?s = "burst_init\<lparr>bs_coord := ?c, bs_log := [(sample_claim, Pending)], bs_slots := [(''k1'', ''h1'', 0)]\<rparr>"
  have taken: "takeClaim (alone (bs_clock burst_init)) ''k1'' 0 True (Some ''h1'') idle_check = (Inr sample_claim, snd sample_taken)"
    using sample_claim_taken by (simp add: burst_init_def prod_eq_iff)
  have "(burst_step idle_store sample_subject)\<^sup>*\<^sup>* burst_init ?s"
    using takeClaim_is_steps [OF taken, of sample_subject idle_store]
    by (simp add: sample_subject_def burst_init_def sample_claim_def idle_check_def)
  moreover have "burst_step idle_store sample_subject ?s sample_burst"
    using burst_step.judged [of ?s "[]" sample_claim "[]" idle_store sample_subject memoryCoord] sample_claim_judged [of memoryCoord]
    by (simp add: sample_burst_def burst_init_def sample_claim_def)
  ultimately show ?thesis by (simp add: burst_reachable_def)
qed

theorem burst_never_passes_minute_witness:
  "burst_reachable idle_store sample_subject sample_burst
   \<and> admittedSince ''k1'' (0 - 60000) sample_burst = [sample_claim]
   \<and> length (admittedSince ''k1'' (0 - 60000) sample_burst) \<le> 2"
proof -
  have "limitAt (sj_limits (sample_subject ''k1'')) Requests W1m = Some (of_nat 2)"
    by (simp add: limitAt_def sample_subject_def)
  from burst_never_passes_minute [OF sample_burst_reachable this] sample_burst_reachable
  show ?thesis by (simp add: sample_burst_def admittedSince_def sample_claim_def)
qed

theorem burst_never_passes_concurrency_witness:
  "burst_reachable idle_store sample_subject sample_burst
   \<and> inFlightClaims ''k1'' sample_burst = [(sample_claim, Admitted)]
   \<and> length (inFlightClaims ''k1'' sample_burst) \<le> 1"
proof -
  have "lb_concurrency (sj_limits (sample_subject ''k1'')) = Some (of_nat 1)"
    by (simp add: sample_subject_def)
  from burst_never_passes_concurrency [OF sample_burst_reachable this] sample_burst_reachable
  have "burst_reachable idle_store sample_subject sample_burst \<and> length (inFlightClaims ''k1'' sample_burst) \<le> 1" by simp
  moreover have "inFlightClaims ''k1'' sample_burst = [(sample_claim, Admitted)]" by code_simp
  ultimately show ?thesis by blast
qed

end
