(* ===== verification/Limiter_Refusal.thy ===== *)
theory Limiter_Refusal
  imports Limiter_Burst
begin

section \<open>What a refusal says and what it leaves\<close>

text \<open>
  Facts about the whole methods \<open>admit\<close> and \<open>consume\<close> of \<^verbatim>\<open>apps/gateway/src/auth/rateLimit.ts\<close>
  run alone: a refusal's wait is the true one of the window that clears last, and a
  refused request keeps no stamp and no slot. The last section records that a tokens
  limit on the minute window is accepted and never enforced.
\<close>

subsection \<open>The wait is true\<close>

text \<open>A violation with the reset its own subject's rows give it.\<close>

definition trueReset :: "usage_reads \<Rightarrow> subject \<Rightarrow> instant \<Rightarrow> violation \<Rightarrow> violation" where
  "trueReset store j now v = (case exactReset store j (vi_window v) now of None \<Rightarrow> v | Some r \<Rightarrow> v\<lparr>vi_resetAt := r\<rparr>)"

definition trueViolations :: "usage_reads \<Rightarrow> instant \<Rightarrow> (subject \<times> decision) list \<Rightarrow> violation list" where
  "trueViolations store now judged = concat (map (\<lambda>(j, d). map (trueReset store j now) (dc_violations d)) judged)"

definition exactStep :: "usage_reads \<Rightarrow> subject \<Rightarrow> instant \<Rightarrow> (window \<times> instant) list \<Rightarrow> violation \<Rightarrow> (window \<times> instant) list" where
  "exactStep store j now exact v =
     (case vi_window v of
        None \<Rightarrow> exact
      | Some w \<Rightarrow> if map_of exact w \<noteq> None then exact
          else (case exactReset store j (Some w) now of None \<Rightarrow> exact | Some r \<Rightarrow> exact @ [(w, r)]))"

lemma exactResets_fold: "exactResets store j vs now = foldl (exactStep store j now) [] vs"
  unfolding exactResets_def exactStep_def ..

lemma exactStep_lookup:
  assumes "\<And>w. map_of exact w \<noteq> None \<Longrightarrow> map_of exact w = exactReset store j (Some w) now"
  shows "map_of (exactStep store j now exact v) w =
    (if vi_window v = Some w then exactReset store j (Some w) now else map_of exact w)"
  using assms [of w] by (auto simp: exactStep_def map_add_def split: option.splits if_splits)

lemma exactResets_lookup:
  "map_of (exactResets store j vs now) w =
     (if Some w \<in> vi_window ` set vs then exactReset store j (Some w) now else None)"
  unfolding exactResets_fold
proof (induction vs arbitrary: w rule: rev_induct)
  case (snoc v vs)
  have "map_of (foldl (exactStep store j now) [] vs) w = exactReset store j (Some w) now"
    if "map_of (foldl (exactStep store j now) [] vs) w \<noteq> None" for w
    using that snoc.IH [of w] by (auto split: if_splits)
  from exactStep_lookup [OF this, of v w] snoc.IH [of w] show ?case by auto
qed simp

lemma correctViolation_true:
  assumes "v \<in> set vs"
  shows "correctViolation (exactResets store j vs now) v = trueReset store j now v"
proof (cases "vi_window v")
  case None
  then show ?thesis by (simp add: correctViolation_def trueReset_def exactReset_def)
next
  case (Some w)
  with assms have "Some w \<in> vi_window ` set vs" by force
  with Some show ?thesis by (simp add: correctViolation_def trueReset_def exactResets_lookup)
qed

definition coherent :: "decision \<Rightarrow> bool" where
  "coherent d \<longleftrightarrow> dc_violation d = lastToClear (dc_violations d)"

lemma evaluate_coherent [simp]: "coherent (evaluate limits seen now)"
  by (simp add: coherent_def)

lemma correctDecision_violations:
  assumes "coherent d"
  shows "dc_violations (correctDecision store j d now) = map (trueReset store j now) (dc_violations d)
    \<and> coherent (correctDecision store j d now)"
  using assms correctViolation_true [of _ "dc_violations d" store j now]
  by (auto simp: correctDecision_def coherent_def Let_def)

lemma combine_violations: "dc_violations (combine a b) = dc_violations a @ dc_violations b" "coherent (combine a b)"
  by (simp_all add: combine_def coherent_def Let_def)

lemma foldl_combine:
  "coherent d \<Longrightarrow> dc_violations (foldl combine d ds) = dc_violations d @ concat (map dc_violations ds)
    \<and> coherent (foldl combine d ds)"
  by (induction ds arbitrary: d) (simp_all add: combine_violations)

lemma combineAll_violations:
  assumes "list_all coherent ds"
  shows "dc_violations (combineAll ds) = concat (map dc_violations ds) \<and> coherent (combineAll ds)"
proof (cases ds)
  case Nil
  then show ?thesis by (simp add: combineAll_def coherent_def)
next
  case (Cons d rest)
  with assms foldl_combine [of d rest] show ?thesis by (simp add: combineAll_def)
qed

lemma refuse_decision:
  assumes "list_all coherent decisions" and "length subjects = length decisions"
  shows "refuse store subjects decisions now =
    (let d = combineAll (map (\<lambda>(j, d). correctDecision store j d now) (zip subjects decisions))
     in case lastToClear (trueViolations store now (zip subjects decisions)) of
          None \<Rightarrow> InvariantBroken
        | Some v \<Rightarrow> Exceeded \<lparr>rx_retryAfterMs = retryAfterMs (Some v) now, rx_headroom = refusedHeadroom d v\<rparr>)"
proof -
  let ?ds = "map (\<lambda>(j, d). correctDecision store j d now) (zip subjects decisions)"
  have "list_all coherent ?ds"
    using assms(1) correctDecision_violations by (fastforce simp: list_all_iff dest: set_zip_rightD)
  moreover have "concat (map dc_violations ?ds) = trueViolations store now (zip subjects decisions)"
    unfolding trueViolations_def map_map
    using assms(1) correctDecision_violations
    by (intro arg_cong [of _ _ concat] map_cong) (auto simp: list_all_iff dest: set_zip_rightD)
  ultimately have "dc_violation (combineAll ?ds) = lastToClear (trueViolations store now (zip subjects decisions))"
    using combineAll_violations [of ?ds] by (simp add: coherent_def)
  then show ?thesis unfolding refuse_def Let_def by simp
qed

text \<open>
  C38: a refusal is never an internal error, and the wait it tells is true. Each violated
  window is first given the reset its own subject's rows say, and only then is the one
  clearing last chosen: the Retry-After is that instant, no violated window of any subject
  clears later, and the rate-limit header of the refused dimension names the same instant.
\<close>

theorem refusal_tells_true_wait:
  fixes store :: usage_reads and judged :: "(subject \<times> limit_base \<times> counter_snapshot) list" and now :: instant
  defines "decisions \<equiv> map (\<lambda>(j, limits, seen). evaluate limits seen now) judged"
  defines "violations \<equiv> trueViolations store now (zip (map fst judged) decisions)"
  assumes "\<exists>d \<in> set decisions. \<not> dc_allowed d"
  shows "\<exists>v rx. refuse store (map fst judged) decisions now = Exceeded rx \<and> v \<in> set violations
    \<and> (\<forall>u \<in> set violations. vi_resetAt u \<le> vi_resetAt v)
    \<and> rx_retryAfterMs rx = max 0 (vi_resetAt v - now)
    \<and> (\<forall>w. vi_window v = Some w \<and> vi_dimension v \<noteq> Concurrency \<longrightarrow>
         (\<exists>h. rx_headroom rx (vi_dimension v) = Some h \<and> hr_window h = w \<and> hr_resetAt h = vi_resetAt v))"
proof -
  have coherent: "list_all coherent decisions" and len: "length (map fst judged) = length decisions"
    by (auto simp: decisions_def list_all_iff)
  from assms(3) obtain d where d: "d \<in> set decisions" "\<not> dc_allowed d" by blast
  then have some: "dc_violations d \<noteq> []" by (auto simp: decisions_def)
  have "\<exists>j. (j, d) \<in> set (zip (map fst judged) decisions)"
    using d(1) len by (metis in_set_impl_in_set_zip2)
  with some have "violations \<noteq> []" by (fastforce simp: violations_def trueViolations_def)
  then obtain v where v: "lastToClear violations = Some v" by fastforce
  from lastToClear_max [OF v] have max: "v \<in> set violations" "\<forall>u \<in> set violations. vi_resetAt u \<le> vi_resetAt v"
    by (auto simp: clearKey_def less_eq_prod_def)
  show ?thesis
    unfolding refuse_decision [OF coherent len] Let_def v [unfolded violations_def] option.case
    using max by (intro exI [of _ v] exI) (auto simp: retryAfterMs_def refusedHeadroom_def)
qed

definition refused_judgement :: "(subject \<times> limit_base \<times> counter_snapshot) list" where
  "refused_judgement =
     (let limits = \<lparr>lb_requests = Some (\<lambda>w. if w = W1w then None else Some 1), lb_tokens = None, lb_spend = None,
            lb_concurrency = None\<rparr>;
          seen = \<lparr>cs_windowed = (\<lambda>d. if d = Requests then Some (\<lambda>w. Some \<lparr>wc_used = 1,
            wc_resetAt = (if w = W1m then 59000 else 18000000)\<rparr>) else None), cs_concurrency = Some 0\<rparr>
      in [(\<lparr>sj_id = ''k1'', sj_keyId = ''k1'', sj_model = None, sj_limits = limits\<rparr>, limits, seen)])"

definition five_seconds_left :: usage_reads where
  "five_seconds_left = \<lparr>ur_sumBuckets = (\<lambda>key since grain model. Inr []),
     ur_oldestSince = (\<lambda>key since model. Inr (Some (since + 5000)))\<rparr>"

theorem refusal_tells_true_wait_witness:
  "\<exists>rx. refuse five_seconds_left (map fst refused_judgement)
      (map (\<lambda>(j, limits, seen). evaluate limits seen 0) refused_judgement) 0 = Exceeded rx
    \<and> rx_retryAfterMs rx = 59000"
proof -
  let ?ds = "map (\<lambda>(j, limits, seen). evaluate limits seen 0) refused_judgement"
  have judged: "dc_violations (hd ?ds) = [\<lparr>vi_dimension = Requests, vi_window = Some W1m, vi_limit = 1, vi_used = 1, vi_resetAt = 59000\<rparr>,
      \<lparr>vi_dimension = Requests, vi_window = Some W5h, vi_limit = 1, vi_used = 1, vi_resetAt = 18000000\<rparr>]"
    by (simp add: refused_judgement_def evaluate_violations WINDOWED_def WINDOWS_def windowTrip_def limitAt_def
        usedIn_def resetIn_def observedUsed_def observedReset_def gaugeTrip_def Let_def)
  have "map vi_resetAt (trueViolations five_seconds_left 0 (zip (map fst refused_judgement) ?ds)) = [59000, 5000]"
    using judged by (simp add: trueViolations_def refused_judgement_def trueReset_def exactReset_def five_seconds_left_def Let_def)
  then have resets: "vi_resetAt ` set (trueViolations five_seconds_left 0 (zip (map fst refused_judgement) ?ds)) = {59000, 5000}"
    by (metis list.set_map list.simps(15) empty_set)
  have "\<exists>d \<in> set ?ds. \<not> dc_allowed d"
    using judged by (simp add: refused_judgement_def Let_def)
  from refusal_tells_true_wait [OF this, of five_seconds_left]
  obtain v rx where rx: "refuse five_seconds_left (map fst refused_judgement) ?ds 0 = Exceeded rx"
    "v \<in> set (trueViolations five_seconds_left 0 (zip (map fst refused_judgement) ?ds))"
    "\<forall>u \<in> set (trueViolations five_seconds_left 0 (zip (map fst refused_judgement) ?ds)). vi_resetAt u \<le> vi_resetAt v"
    "rx_retryAfterMs rx = max 0 (vi_resetAt v - 0)" by blast
  have "vi_resetAt v \<in> {59000, 5000}" and "\<forall>t \<in> {59000, 5000}. t \<le> vi_resetAt v"
    using rx(2,3) unfolding resets [symmetric] by auto
  then have "vi_resetAt v = 59000" by auto
  with rx(1,4) show ?thesis by simp
qed

subsection \<open>A refused request gives back what it took\<close>

text \<open>What a claim takes, and what giving it back asks, in the order of the calls.\<close>

definition takes :: "claim \<Rightarrow> coord_call list" where
  "takes cl = ClaimsRing (cl_subject cl) (cl_stamp cl)
     # (if cl_gauge cl then [RaisesGauge (cl_subject cl) (cl_holder cl)] else [])"

definition gives :: "claim \<Rightarrow> coord_call list" where
  "gives cl = ReturnsRing (cl_subject cl) (cl_stamp cl)
     # (if cl_gauge cl then [LowersGauge (cl_subject cl) (cl_holder cl)] else [])"

text \<open>
  A refused check took some claims, perhaps stamped one more ring whose gauge refused the
  name and gave that stamp back at once, and gave back every claim it took.
\<close>

definition givenBack :: "coord_call list \<Rightarrow> bool" where
  "givenBack calls \<longleftrightarrow> (\<exists>claims failed. calls = concat (map takes claims) @ failed @ concat (map gives claims)
     \<and> (failed = [] \<or> (\<exists>k t. failed = [ClaimsRing k t, ReturnsRing k t])))"

lemma awaited_calls [simp]: "ck_calls (awaited m calls q) = ck_calls q @ calls"
  by (simp add: awaited_def Let_def)

lemma takeClaim_calls:
  assumes "takeClaim m k now gauge holder q = (r, q')"
  shows "case r of Inl e \<Rightarrow> \<exists>t. ck_calls q' = ck_calls q @ [ClaimsRing k t, ReturnsRing k t]
    | Inr cl \<Rightarrow> ck_calls q' = ck_calls q @ takes cl"
  using assms by (auto simp: takeClaim_def takes_def Let_def split: prod.splits sum.splits if_splits)

lemma claimSubjects_calls:
  assumes "claimSubjects m gauge now names i subjects q = (claims, err, q')"
  shows "\<exists>failed. ck_calls q' = ck_calls q @ concat (map takes claims) @ failed
    \<and> (if err = None then failed = [] else \<exists>k t. failed = [ClaimsRing k t, ReturnsRing k t])"
  using assms
proof (induction subjects arbitrary: i q claims err q')
  case (Cons j subjects)
  let ?holder = "if gauge \<and> lb_concurrency (sj_limits j) \<noteq> None then Some (names i) else None"
  obtain r q1 where r: "takeClaim m (sj_id j) now gauge ?holder (q\<lparr>lr_limits := (lr_limits q)(sj_id j \<mapsto> sj_limits j)\<rparr>) = (r, q1)"
    by fastforce
  show ?case
  proof (cases r)
    case (Inl e)
    with Cons.prems r takeClaim_calls [OF r] show ?thesis by auto
  next
    case (Inr cl)
    obtain claims' err' q2 where rest: "claimSubjects m gauge now names (Suc i) subjects q1 = (claims', err', q2)"
      using prod_cases3 by blast
    from Cons.prems r Inr rest have "claims = cl # claims'" "err = err'" "q' = q2" by simp_all
    with Cons.IH [OF rest] takeClaim_calls [OF r] Inr show ?thesis by simp
  qed
qed simp

lemma rollbackAll_calls: "ck_calls (rollbackAll m claims q) = ck_calls q @ concat (map gives claims)"
proof (induction claims arbitrary: q)
  case (Cons cl claims)
  have "ck_calls (rollbackClaim m cl q) = ck_calls q @ gives cl"
    by (simp add: rollbackClaim_def gives_def Let_def)
  with Cons [of "rollbackClaim m cl q"] show ?case by (simp add: rollbackAll_def)
qed (simp add: rollbackAll_def)

lemma judgeSubjects_calls: "ck_calls (snd (judgeSubjects m store scope now judged q)) = ck_calls q"
proof (induction judged arbitrary: q)
  case (Cons x judged)
  then show ?case by (cases x) (simp add: Let_def split_def)
qed simp

lemma judgeClaims_calls: "ck_calls (snd (judgeClaims m store scope now subjects claims q)) = ck_calls q"
  by (simp add: judgeClaims_def Let_def split_def judgeSubjects_calls)

lemma checkSubjects_calls:
  assumes "checkSubjects m store scope gauge now names subjects q = (r, q')"
  shows "case r of Inl e \<Rightarrow> \<exists>calls. ck_calls q' = ck_calls q @ calls \<and> givenBack calls
    | Inr (claims, d) \<Rightarrow> ck_calls q' = ck_calls q @ concat (map takes claims)"
proof -
  obtain claims err q1 where claimed: "claimSubjects m gauge now names 0 subjects q = (claims, err, q1)"
    using prod_cases3 by blast
  from claimSubjects_calls [OF claimed] obtain failed where failed: "ck_calls q1 = ck_calls q @ concat (map takes claims) @ failed"
    "if err = None then failed = [] else \<exists>k t. failed = [ClaimsRing k t, ReturnsRing k t]" by blast
  then have returned: "givenBack (concat (map takes claims) @ failed @ concat (map gives claims))"
    unfolding givenBack_def by (auto split: if_splits)
  obtain v q2 where judged: "judgeClaims m store scope now subjects claims q1 = (v, q2)" by fastforce
  with judgeClaims_calls [of m store scope now subjects claims q1] have "ck_calls q2 = ck_calls q1" by simp
  with assms claimed judged failed returned show ?thesis
    by (auto simp: checkSubjects_def rollbackAll_calls split: option.splits sum.splits)
qed

text \<open>
  C36: a refused request gives back everything it took, and an admitted one nothing.
  Whatever the rest of the process does to the coordinator and to the clock at every await
  of the check, and whether it is a refusal or a slot name the gauge rejects that stops it:
  the calls of a refused \<open>admit\<close> or \<open>consume\<close> are the claims of some subjects, then one
  rollback for each of them, with the stamp and the slot name that claim was given. An
  admission's calls are exactly those that took the claims it hands on.
\<close>

theorem refused_gives_back:
  "(case admit m store keyId limits model now names q of
      (Inl e, q') \<Rightarrow> \<exists>calls. ck_calls q' = ck_calls q @ calls \<and> givenBack calls
    | (Inr a, q') \<Rightarrow> ck_calls q' = ck_calls q @ concat (map takes (ad_claims a)))
   \<and> (case consume m store keyId limits model now q of
      (Inl e, q') \<Rightarrow> \<exists>calls. ck_calls q' = ck_calls q @ calls \<and> givenBack calls
    | (Inr u, q') \<Rightarrow> \<exists>claims. ck_calls q' = ck_calls q @ concat (map takes claims))"
proof
  show "case admit m store keyId limits model now names q of
      (Inl e, q') \<Rightarrow> \<exists>calls. ck_calls q' = ck_calls q @ calls \<and> givenBack calls
    | (Inr a, q') \<Rightarrow> ck_calls q' = ck_calls q @ concat (map takes (ad_claims a))"
    using checkSubjects_calls [of m store "\<lambda>scope. scope" True now names "subjectsOf keyId limits model" q]
    by (auto simp: admit_def Let_def split: prod.splits sum.splits)
  show "case consume m store keyId limits model now q of
      (Inl e, q') \<Rightarrow> \<exists>calls. ck_calls q' = ck_calls q @ calls \<and> givenBack calls
    | (Inr u, q') \<Rightarrow> \<exists>claims. ck_calls q' = ck_calls q @ concat (map takes claims)"
    using checkSubjects_calls [of m store requestsOnly False now "\<lambda>i. []"
        "filter (\<lambda>s. anyRequestLimit (sj_limits s)) (subjectsOf keyId limits model)" q]
    by (auto simp: consume_def Let_def intro: exI [of _ "[]"] split: prod.splits sum.splits)
qed

subsection \<open>Tokens per minute\<close>

lemma usedIn_tokens_minute: "usedIn (fst (counters store j limits cl now c)) Tokens W1m = 0"
proof (cases "anyLongLimit limits")
  case True
  have "totals W1m = None" if "longCounts store j now c = (Some totals, c')" for totals c'
    using that by (auto simp: longCounts_def split: sum.splits prod.splits)
  with True show ?thesis
    by (auto simp: counters_def usedIn_def observedUsed_def longCounters_def Let_def split: prod.splits option.splits)
qed (simp add: counters_def usedIn_def observedUsed_def Let_def)

lemma gauge_acquire_ok: "holder \<noteq> Some [] \<Longrightarrow> \<exists>n c'. gauge_acquire k ttl holder clock c = Inr (n, c')"
  by (cases "if holder = None then None else findIndex (\<lambda>s. sl_holder s = holder) (heldSlots k clock c)")
    (auto simp: gauge_acquire_def named_def liveSlots_def Let_def)

text \<open>
  A limit on tokens per minute is stored, accepted as a limit and never enforced.
  Nothing counts tokens in the minute window, so a key whose only limit is a positive
  number of tokens per minute is admitted on every request, whatever it has used.
\<close>

theorem tokens_per_minute_never_refuse:
  assumes "0 < t"
  shows "anyLimit (keyWide \<lparr>lb_requests = None, lb_tokens = Some [W1m \<mapsto> t], lb_spend = None, lb_concurrency = None, lc_models = None\<rparr>)
    \<and> (\<exists>a. fst (admit m store keyId \<lparr>lb_requests = None, lb_tokens = Some [W1m \<mapsto> t], lb_spend = None,
        lb_concurrency = None, lc_models = None\<rparr> model now names q) = Inr a)"
proof -
  let ?limits = "\<lparr>lb_requests = None, lb_tokens = Some [W1m \<mapsto> t], lb_spend = None, lb_concurrency = None, lc_models = None\<rparr> :: limit_config"
  let ?base = "\<lparr>lb_requests = None, lb_tokens = Some [W1m \<mapsto> t], lb_spend = None, lb_concurrency = None\<rparr> :: limit_base"
  let ?j = "\<lparr>sj_id = keyId, sj_keyId = keyId, sj_model = None, sj_limits = ?base\<rparr>"
  have base: "keyWide ?limits = ?base" by (simp add: keyWide_def limit_base.truncate_def)
  have any: "anyLimit ?base" by (simp add: anyLimit_def configured_def)
  have subjects: "subjectsOf keyId ?limits model = [?j]"
    by (simp add: subjectsOf_def base any modelOverride_def)
  have allowed: "dc_violation (evaluate ?base (fst (counters store ?j ?base cl now c)) now) = None" for cl c
    using assms usedIn_tokens_minute [of store ?j ?base cl now c]
    by (simp add: evaluate_violations WINDOWED_def WINDOWS_def windowTrip_def limitAt_def gaugeTrip_def)
  have accepted: "\<exists>n c'. gauge_acquire keyId GAUGE_TTL_MS None clock c = Inr (n, c')" for clock c
    by (rule gauge_acquire_ok) simp
  have "\<exists>cl q'. takeClaim m keyId now True None q = (Inr cl, q')" for q :: check
  proof -
    obtain stamp before c where ring: "window_claim keyId minute now (lr_coord q) = ((stamp, before), c)"
      by (metis prod.collapse)
    let ?q = "awaited m [ClaimsRing keyId stamp] (q\<lparr>lr_coord := c\<rparr>)"
    obtain n c' where "gauge_acquire keyId GAUGE_TTL_MS None (clockNow m ?q) (lr_coord ?q) = Inr (n, c')"
      using accepted by blast
    with ring show ?thesis by (simp add: takeClaim_def Let_def)
  qed
  then obtain cl q' where "takeClaim m keyId now True None (q\<lparr>lr_limits := (lr_limits q)(keyId \<mapsto> ?base)\<rparr>) = (Inr cl, q')"
    by blast
  then have "\<exists>a. fst (admit m store keyId ?limits model now names q) = Inr a"
    using allowed [of cl "lr_coord q'"] unfolding admit_def subjects
    by (simp add: checkSubjects_def judgeClaims_def combineAll_def Let_def split_def)
  with any base show ?thesis by simp
qed

theorem tokens_per_minute_never_refuse_witness:
  "\<exists>a. fst (admit (alone 0) idle_store ''k1'' \<lparr>lb_requests = None, lb_tokens = Some [W1m \<mapsto> 1], lb_spend = None,
     lb_concurrency = None, lc_models = None\<rparr> ''m'' 0 (\<lambda>i. ''h'') idle_check) = Inr a"
  using tokens_per_minute_never_refuse [of 1 "alone 0" idle_store "''k1''" "''m''" 0 "\<lambda>i. ''h''" idle_check] by simp

end
