(* ===== verification/Limiter_Exact.thy ===== *)
theory Limiter_Exact
  imports Limiter_Refusal
begin

section \<open>What a refused request leaves\<close>

text \<open>
  \<open>Limiter_Refusal\<close> shows which calls a refused check makes to give back what it took; this
  theory shows what those calls do to the coordinator while other requests run, over the
  steps of \<open>Limiter_Burst\<close>. A stamp is recorded in order when no later one is in its ring
  already, which is what \<^verbatim>\<open>packages/ratelimit/src/window.ts\<close> says of its list. Under that
  order the ring is exact; the last theorem shows that without it a refused stamp can stay.
\<close>

subsection \<open>The ring is exact\<close>

definition stampsOf :: "mem_coord \<Rightarrow> string \<Rightarrow> instant list" where
  "stampsOf c k = (case map_of (mc_windows c) k of None \<Rightarrow> [] | Some r \<Rightarrow> sw_stamps r)"

lemma stampsOf_simps [simp]:
  "stampsOf (c\<lparr>mc_windows := AList.update k r (mc_windows c)\<rparr>) k' = (if k' = k then sw_stamps r else stampsOf c k')"
  "mset (stampsOf c k) = ringEvents c k"
  by (simp_all add: stampsOf_def ringEvents_def split: option.splits)

lemma stampsOf_cong: "mc_windows c = mc_windows c' \<Longrightarrow> stampsOf c k = stampsOf c' k"
  by (simp add: stampsOf_def)

definition orderly_step :: "usage_reads \<Rightarrow> (string \<Rightarrow> subject) \<Rightarrow> burst \<Rightarrow> burst \<Rightarrow> bool" where
  "orderly_step store subjectAt s s' \<longleftrightarrow> burst_step store subjectAt s s' \<and> (\<forall>k. sorted (stampsOf (bs_coord s') k))"

definition orderly_reachable :: "usage_reads \<Rightarrow> (string \<Rightarrow> subject) \<Rightarrow> burst \<Rightarrow> bool" where
  "orderly_reachable store subjectAt s \<longleftrightarrow> (orderly_step store subjectAt)\<^sup>*\<^sup>* burst_init s"

definition claimsOf :: "string \<Rightarrow> burst \<Rightarrow> claim list" where
  "claimsOf k s = map fst (filter (\<lambda>(cl, _). cl_subject cl = k) (bs_log s))"

text \<open>The stamps a window ending now or later can see.\<close>

abbreviation liveAt :: "instant \<Rightarrow> instant multiset \<Rightarrow> instant multiset" where
  "liveAt horizon \<equiv> filter_mset (\<lambda>t. horizon - minute < t)"

definition ring_exact :: "string \<Rightarrow> burst \<Rightarrow> bool" where
  "ring_exact k s \<longleftrightarrow> (\<forall>horizon \<ge> bs_clock s.
     liveAt horizon (ringEvents (bs_coord s) k) = liveAt horizon (mset (map cl_stamp (claimsOf k s))))"

lemma filter_dropWhile: "(\<And>x. Q x \<Longrightarrow> \<not> P x) \<Longrightarrow> filter P (dropWhile Q xs) = filter P xs"
  by (induction xs) auto

lemma drop_dead: "a \<le> lo \<Longrightarrow> filter (\<lambda>t. lo < t) (dropWhile (\<lambda>t. \<not> t > a) xs) = filter (\<lambda>t. lo < (t :: int)) xs"
  by (rule filter_dropWhile) simp

lemma sweep_live:
  assumes "rings_ok w c" and "now - w \<le> lo"
  shows "filter (\<lambda>t. lo < t) (stampsOf (sweep now c) k) = filter (\<lambda>t. lo < t) (stampsOf c k)"
proof -
  have "distinct (map fst (mc_windows c))" using assms(1) by (simp add: rings_ok_def)
  from sweep_lookup [OF this, of now] show ?thesis
  proof
    assume *: "\<forall>k. map_of (mc_windows (sweep now c)) k = swept now (map_of (mc_windows c) k)"
    show ?thesis
    proof (cases "map_of (mc_windows c) k")
      case (Some r)
      have "sw_windowMs r = w" by (rule rings_ok_lookup [OF assms(1) Some])
      with * Some have "stampsOf (sweep now c) k = dropWhile (\<lambda>t. \<not> t > now - w) (stampsOf c k)"
        by (simp add: stampsOf_def swept_def sw_trim_def del: dropWhile_eq_Nil_conv not_less)
      then show ?thesis by (simp add: drop_dead [OF assms(2)] del: not_less)
    qed (simp add: * stampsOf_def swept_def)
  qed (simp add: stampsOf_def)
qed

lemma claim_live:
  assumes "rings_ok w c" and "now - w \<le> lo"
  shows "filter (\<lambda>t. lo < t) (stampsOf (snd (window_claim k' w now c)) k)
    = filter (\<lambda>t. lo < t) (stampsOf c k @ (if k' = k then [now] else []))"
proof -
  define r where "r = sw_trim (nullish (map_of (mc_windows (sweep now c)) k') (newWindow w)) now"
  note claim = window_claim_unfold [OF assms(1), where now = now and k = k', folded r_def]
  have "sw_stamps r = dropWhile (\<lambda>t. \<not> t > now - w) (stampsOf (sweep now c) k')"
    using claim rings_ok_lookup [OF sweep_ok [OF assms(1)], of now k']
    by (auto simp: r_def sw_trim_def stampsOf_def newWindow_def split: option.splits)
  then show ?thesis
    using claim sweep_live [OF assms] by (simp add: drop_dead [OF assms(2)] sw_record_def del: not_less)
qed

lemma rollback_events:
  assumes "sorted (stampsOf c k)"
  shows "ringEvents (window_rollback k t c) k = ringEvents c k - {#t#}"
    and "k' \<noteq> k \<Longrightarrow> ringEvents (window_rollback k t c) k' = ringEvents c k'"
  using assms forget_sorted
  by (auto simp: window_rollback_def ringEvents_def stampsOf_def split: option.splits)

lemma ring_exact_frame:
  assumes "ring_exact k s" and "mc_windows (bs_coord s') = mc_windows (bs_coord s)" and "bs_clock s \<le> bs_clock s'"
    and "map cl_stamp (claimsOf k s') = map cl_stamp (claimsOf k s)"
  shows "ring_exact k s'"
  using assms unfolding ring_exact_def by (simp add: ringEvents_def)

lemma ring_exact_step:
  assumes "burst_step store subjectAt s s'" and exact: "ring_exact k s" and ok: "rings_ok minute (bs_coord s)"
    and sorted: "\<And>k. sorted (stampsOf (bs_coord s) k)"
  shows "ring_exact k s'"
  using assms(1)
proof cases
  case (stamped now k' r c' gauge)
  from window_claim_told [OF stamped(3)] have stamp: "cl_stamp (stampedClaim k' gauge r) = now"
    by (simp add: stampedClaim_def)
  have "liveAt horizon (ringEvents c' k) = liveAt horizon (mset (map cl_stamp (claimsOf k s')))" if "bs_clock s \<le> horizon" for horizon
  proof -
    have "now - minute \<le> horizon - minute" using that stamped(2) by simp
    from arg_cong [OF claim_live [OF ok this, of k' k], of mset] stamped(3) exact that stamp
    show ?thesis by (simp add: ring_exact_def claimsOf_def stamped(1) stampedClaim_def)
  qed
  then show ?thesis by (simp add: ring_exact_def stamped(1))
next
  case (refused xs cl status ys)
  have "liveAt horizon (ringEvents (bs_coord s') k) = liveAt horizon (mset (map cl_stamp (claimsOf k s')))"
    if later: "bs_clock s \<le> horizon" for horizon
  proof (cases "cl_subject cl = k")
    case True
    let ?E = "ringEvents (bs_coord s) k" and ?rest = "mset (map cl_stamp (claimsOf k s'))"
    have all: "mset (map cl_stamp (claimsOf k s)) = add_mset (cl_stamp cl) ?rest"
      using True by (simp add: claimsOf_def refused(1,2))
    have events: "ringEvents (bs_coord s') k = ?E - {#cl_stamp cl#}"
      using rollback_events(1) [OF sorted, of k "cl_stamp cl"] True by (simp add: refused(1))
    from exact later all have "liveAt horizon ?E = liveAt horizon (add_mset (cl_stamp cl) ?rest)"
      by (simp add: ring_exact_def)
    then show ?thesis unfolding events by (cases "horizon - minute < cl_stamp cl") simp_all
  next
    case False
    with exact later rollback_events(2) [OF sorted, of k "cl_subject cl" "cl_stamp cl"]
    show ?thesis by (simp add: ring_exact_def claimsOf_def refused(1,2))
  qed
  then show ?thesis by (simp add: ring_exact_def refused(1))
qed (auto intro!: ring_exact_frame [OF exact] simp: claimsOf_def stampedClaim_def dest: gauge_windows)

subsection \<open>Live slots have an owner\<close>

definition namesIn :: "slot list \<Rightarrow> string option list" where
  "namesIn held = map sl_holder (filter (\<lambda>x. sl_holder x \<noteq> None) held)"

definition names_distinct :: "mem_coord \<Rightarrow> bool" where
  "names_distinct c \<longleftrightarrow> (\<forall>k. distinct (namesIn (nullish (map_of (mc_gauges c) k) [])))"

abbreviation slotsAt :: "mem_coord \<Rightarrow> string \<Rightarrow> slot list" where
  "slotsAt c k \<equiv> nullish (map_of (mc_gauges c) k) []"

lemma namesIn_filter: "distinct (namesIn xs) \<Longrightarrow> distinct (namesIn (filter P xs))"
proof -
  have "filter (\<lambda>x. sl_holder x \<noteq> None) (filter P xs) = filter P (filter (\<lambda>x. sl_holder x \<noteq> None) xs)"
    by (simp add: conj_commute)
  then show "distinct (namesIn xs) \<Longrightarrow> distinct (namesIn (filter P xs))"
    unfolding namesIn_def by (simp only: distinct_map_filter)
qed

lemma namesIn_append [simp]: "namesIn (xs @ ys) = namesIn xs @ namesIn ys"
  by (simp add: namesIn_def)

lemma namesIn_set: "q \<in> set (namesIn xs) \<longleftrightarrow> q \<noteq> None \<and> q \<in> sl_holder ` set xs"
  by (auto simp: namesIn_def)

lemma namesIn_update:
  assumes "i < length xs" and "sl_holder (xs ! i) = sl_holder x"
  shows "namesIn (xs[i := x]) = namesIn xs"
  using assms
proof (induction xs arbitrary: i)
  case (Cons y ys)
  then show ?case by (cases i) (auto simp: namesIn_def)
qed simp

lemma namesIn_drop_one:
  assumes "distinct (namesIn xs)" and "i < length xs"
  shows "distinct (namesIn (take i xs @ drop (Suc i) xs))"
    and "sl_holder (xs ! i) = Some h \<Longrightarrow> Some h \<notin> sl_holder ` set (take i xs @ drop (Suc i) xs)"
proof -
  have "xs = take i xs @ [xs ! i] @ drop (Suc i) xs" using assms(2) by (simp add: id_take_nth_drop)
  then have "namesIn xs = namesIn (take i xs) @ namesIn [xs ! i] @ namesIn (drop (Suc i) xs)"
    by (metis namesIn_append)
  with assms(1) have d: "distinct (namesIn (take i xs) @ namesIn [xs ! i] @ namesIn (drop (Suc i) xs))" by simp
  then show "distinct (namesIn (take i xs @ drop (Suc i) xs))" by auto
  show "Some h \<notin> sl_holder ` set (take i xs @ drop (Suc i) xs)" if "sl_holder (xs ! i) = Some h"
  proof -
    have "Some h \<notin> set (namesIn (take i xs)) \<and> Some h \<notin> set (namesIn (drop (Suc i) xs))"
      using d that by (auto simp: namesIn_def)
    then show ?thesis unfolding namesIn_set set_append image_Un by blast
  qed
qed

lemma slotsAt_put [simp]: "slotsAt (putSlots k held c) k' = (if k' = k then held else slotsAt c k')"
  by (auto simp: putSlots_def)

lemma names_distinct_frame: "mc_gauges c' = mc_gauges c \<Longrightarrow> names_distinct c \<Longrightarrow> names_distinct c'"
  by (simp add: names_distinct_def)

lemma names_distinct_put:
  assumes "names_distinct c" and "distinct (namesIn held)"
  shows "names_distinct (putSlots k held c)"
    and "names_distinct (c\<lparr>mc_gauges := AList.update k held (mc_gauges c)\<rparr>)"
  using assms unfolding names_distinct_def slotsAt_put by auto

lemma names_distinct_held: "names_distinct c \<Longrightarrow> distinct (namesIn (heldSlots k clock c))"
  by (simp add: names_distinct_def heldSlots_def namesIn_filter)

lemma acquire_names:
  assumes "gauge_acquire k ttl holder clock c = Inr (n, c')" and "names_distinct c"
  shows "names_distinct c'"
proof -
  let ?held = "heldSlots k clock c" and ?new = "\<lparr>sl_expiresAt = clock + ttl, sl_holder = holder\<rparr>"
  note held = names_distinct_held [OF assms(2), of k clock]
  note put = names_distinct_put [OF names_distinct_put(1) [OF assms(2) held]]
  show ?thesis
  proof (cases "if holder = None then None else findIndex (\<lambda>s. sl_holder s = holder) ?held")
    case None
    then have "distinct (namesIn (?held @ [?new]))"
      using held by (auto simp: namesIn_set findIndex_None namesIn_def split: if_splits)
    then show ?thesis using assms(1) None put(2)
      by (auto simp: gauge_acquire_def named_def liveSlots_def Let_def split: if_splits)
  next
    case (Some i)
    then have "i < length ?held" "sl_holder (?held ! i) = sl_holder ?new"
      using findIndex_Some [of "\<lambda>s. sl_holder s = holder" ?held i] by (auto split: if_splits)
    from namesIn_update [OF this] held have "distinct (namesIn (?held[i := ?new]))" by simp
    then show ?thesis using assms(1) Some put(2)
      by (auto simp: gauge_acquire_def named_def liveSlots_def Let_def split: if_splits)
  qed
qed

lemma read_names: "names_distinct c \<Longrightarrow> names_distinct (snd (gauge_read k clock c))"
  using names_distinct_put(1) names_distinct_held by (simp add: gauge_read_def liveSlots_def Let_def)

lemma renew_names:
  assumes "gauge_renew k h ttl clock c = Inr c'" and "names_distinct c"
  shows "names_distinct c'"
proof -
  let ?held = "heldSlots k clock c" and ?new = "\<lparr>sl_expiresAt = clock + ttl, sl_holder = Some h\<rparr>"
  note held = names_distinct_held [OF assms(2), of k clock]
  note put = names_distinct_put [OF names_distinct_put(1) [OF assms(2) held]]
  show ?thesis
  proof (cases "findIndex (\<lambda>s. sl_holder s = Some h) ?held")
    case None
    then show ?thesis using assms(1) names_distinct_put(1) [OF assms(2) held]
      by (auto simp: gauge_renew_def named_def liveSlots_def Let_def split: if_splits)
  next
    case (Some i)
    then have "i < length ?held" "sl_holder (?held ! i) = sl_holder ?new"
      using findIndex_Some [OF Some] by auto
    from namesIn_update [OF this] held have "distinct (namesIn (?held[i := ?new]))" by simp
    then show ?thesis using assms(1) Some put(2)
      by (auto simp: gauge_renew_def named_def liveSlots_def Let_def split: if_splits)
  qed
qed

lemma tl_sorted_names: "distinct (namesIn xs) \<Longrightarrow> distinct (namesIn (tl (sort_key f xs)))"
proof -
  have perm: "mset (namesIn (sort_key f xs)) = mset (namesIn xs)" by (simp add: namesIn_def mset_filter)
  assume "distinct (namesIn xs)"
  then have "distinct (namesIn (sort_key f xs))" using perm mset_eq_imp_distinct_iff by blast
  then show ?thesis by (cases "sort_key f xs") (auto simp: namesIn_def split: if_splits)
qed

lemma release_names:
  assumes "gauge_release k holder clock c = Inr c'" and "names_distinct c"
  shows "names_distinct c'" and "holder = Some h \<Longrightarrow> clock \<le> clock' \<Longrightarrow> h \<notin> holdersOf c' k clock'"
proof -
  let ?held = "heldSlots k clock c"
  let ?left = "case holder of None \<Rightarrow> tl (sort_key sl_expiresAt ?held)
    | Some h \<Rightarrow> (case findIndex (\<lambda>s. sl_holder s = Some h) ?held of None \<Rightarrow> ?held | Some i \<Rightarrow> take i ?held @ drop (Suc i) ?held)"
  note held = names_distinct_held [OF assms(2), of k clock]
  have c': "c' = putSlots k ?left (putSlots k ?held c)"
    using assms(1) by (auto simp: gauge_release_def named_def liveSlots_def Let_def split: if_splits)
  have left: "distinct (namesIn ?left) \<and> (\<forall>h. holder = Some h \<longrightarrow> Some h \<notin> sl_holder ` set ?left)"
  proof (cases holder)
    case None
    then show ?thesis using tl_sorted_names [OF held] by simp
  next
    case (Some h)
    show ?thesis
    proof (cases "findIndex (\<lambda>s. sl_holder s = Some h) ?held")
      case None
      then have "\<forall>x \<in> set ?held. sl_holder x \<noteq> Some h" unfolding findIndex_None .
      then show ?thesis using Some None held by auto
    next
      case i: (Some i)
      then show ?thesis using Some namesIn_drop_one [OF held, of i] findIndex_Some [OF i] by simp
    qed
  qed
  then show "names_distinct c'"
    unfolding c' by (intro names_distinct_put(1) [OF names_distinct_put(1) [OF assms(2) held]]) simp
  show "h \<notin> holdersOf c' k clock'" if "holder = Some h" "clock \<le> clock'"
  proof
    assume "h \<in> holdersOf c' k clock'"
    then have "Some h \<in> sl_holder ` set ?left"
      unfolding c' holdersOf_mem heldSlots_put by auto
    with left that(1) show False by blast
  qed
qed

text \<open>Whose a live named slot is: a claim's that is being judged or served, or one still to be released.\<close>

definition owns :: "burst \<Rightarrow> string \<Rightarrow> string \<Rightarrow> bool" where
  "owns s k h \<longleftrightarrow> (\<exists>cl st. (cl, st) \<in> set (bs_log s) \<and> st \<in> {Pending, Admitted} \<and> cl_subject cl = k \<and> cl_holder cl = Some h)
     \<or> (k, Some h) \<in> set (bs_owed s)"

definition owned_inv :: "burst \<Rightarrow> bool" where
  "owned_inv s \<longleftrightarrow> names_distinct (bs_coord s)
     \<and> (\<forall>cl st. (cl, st) \<in> set (bs_log s) \<longrightarrow> cl_holder cl \<noteq> Some [])
     \<and> (\<forall>k. \<forall>h \<in> holdersOf (bs_coord s) k (bs_clock s). owns s k h)"

lemma owned_invI:
  assumes "names_distinct (bs_coord s')" and "\<And>cl st. (cl, st) \<in> set (bs_log s') \<Longrightarrow> cl_holder cl \<noteq> Some []"
    and "\<And>k h. h \<in> holdersOf (bs_coord s') k (bs_clock s') \<Longrightarrow> owns s' k h"
  shows "owned_inv s'"
  using assms unfolding owned_inv_def by blast

lemma owned_inv_step:
  assumes "burst_step store subjectAt s s'" and inv: "owned_inv s" and named: "named_inv s"
  shows "owned_inv s'"
proof -
  have names: "names_distinct (bs_coord s)" and some: "\<And>cl st. (cl, st) \<in> set (bs_log s) \<Longrightarrow> cl_holder cl \<noteq> Some []"
    and owned: "\<And>k h. h \<in> holdersOf (bs_coord s) k (bs_clock s) \<Longrightarrow> owns s k h"
    using inv unfolding owned_inv_def by blast+
  have unnamed: "cl_holder cl = None" if "(cl, Stamped) \<in> set (bs_log s)" for cl
    using named that unfolding named_inv_def by (cases "cl_holder cl") auto
  from assms(1) show ?thesis
  proof cases
    case (tick t)
    show ?thesis
    proof (rule owned_invI)
      fix k h assume "h \<in> holdersOf (bs_coord s') k (bs_clock s')"
      then have "h \<in> holdersOf (bs_coord s) k (bs_clock s)" using holdersOf_lapse [OF tick(2), of "bs_coord s" k] by (auto simp: tick(1))
      then show "owns s' k h" using owned by (simp add: owns_def tick)
    qed (use names some tick in auto)
  next
    case (buckets b)
    then show ?thesis using inv holders_cong [of "bs_coord s'" "bs_coord s"]
      by (auto simp: owned_inv_def owns_def names_distinct_def)
  next
    case (stamped now k r c' gauge)
    then have same: "mc_gauges c' = mc_gauges (bs_coord s)" by (metis snd_conv window_gauges(1))
    show ?thesis
    proof (rule owned_invI)
      show "names_distinct (bs_coord s')" using names_distinct_frame [OF same names] by (simp add: stamped)
      fix k h assume "h \<in> holdersOf (bs_coord s') k (bs_clock s')"
      then show "owns s' k h" using owned [of h k] holders_cong [OF same] by (auto simp: owns_def stamped)
    qed (use some in \<open>auto simp: stamped stampedClaim_def\<close>)
  next
    case (named_slot xs cl ys h n c')
    have new: "holdersOf c' k (bs_clock s) \<subseteq> holdersOf (bs_coord s) k (bs_clock s) \<union> (if k = cl_subject cl then {h} else {})" for k
      using slots.acquire_only [of "bs_clock s" "bs_clock s" GAUGE_TTL_MS "cl_subject cl" h "bs_coord s" k] named_slot(7)
      by (simp add: mem_acquire_def)
    show ?thesis
    proof (rule owned_invI)
      show "names_distinct (bs_coord s')" using acquire_names [OF named_slot(7) names] by (simp add: named_slot)
      fix k h' assume "h' \<in> holdersOf (bs_coord s') k (bs_clock s')"
      then consider "owns s k h'" | "k = cl_subject cl" "h' = h"
        using new [of k] owned [of h' k] by (auto simp: named_slot split: if_splits)
      then show "owns s' k h'"
      proof cases
        case 1
        then show ?thesis using unnamed [of cl] by (auto simp: owns_def named_slot)
      next
        case 2
        have "(cl\<lparr>cl_holder := Some h, cl_concurrency := n\<rparr>, Pending) \<in> set (bs_log s')" by (simp add: named_slot(1))
        with 2 show ?thesis unfolding owns_def by fastforce
      qed
    qed (use some named_slot in \<open>auto simp: named_slot\<close>)
  next
    case (anonymous_slot xs cl ys n c')
    show ?thesis
    proof (rule owned_invI)
      show "names_distinct (bs_coord s')" using acquire_names [OF anonymous_slot(5) names] by (simp add: anonymous_slot)
      fix k h assume "h \<in> holdersOf (bs_coord s') k (bs_clock s')"
      then have "owns s k h" using owned anonymous_acquire_holders [OF anonymous_slot(5) order.refl] by (auto simp: anonymous_slot)
      then show "owns s' k h" using unnamed [of cl] by (auto simp: owns_def anonymous_slot)
    qed (use some unnamed [of cl] anonymous_slot in \<open>auto simp: anonymous_slot\<close>)
  next
    case (no_slot xs cl ys n c')
    then have c': "c' = snd (gauge_read (cl_subject cl) (bs_clock s) (bs_coord s))" by simp
    show ?thesis
    proof (rule owned_invI)
      show "names_distinct (bs_coord s')" using read_names [OF names] by (simp add: no_slot(1) c')
      fix k h assume "h \<in> holdersOf (bs_coord s') k (bs_clock s')"
      then have "owns s k h" 
        using owned subsetD [OF gauge_read_holders [OF order.refl, of "cl_subject cl" "bs_clock s" "bs_coord s" k], of h]
        by (simp add: no_slot(1) c')
      then show "owns s' k h" using unnamed [of cl] by (auto simp: owns_def no_slot)
    qed (use some unnamed [of cl] no_slot(2) in \<open>auto simp: no_slot(1)\<close>)
  next
    case (judged xs cl ys seen)
    show ?thesis
    proof (rule owned_invI)
      fix k h assume "h \<in> holdersOf (bs_coord s') k (bs_clock s')"
      then have "owns s k h" using owned by (simp add: judged(1))
      then show "owns s' k h" unfolding owns_def judged(1,2) by (simp add: judged(2)) blast
    qed (use names some [of cl Pending] some judged(2) in \<open>auto simp: judged(1)\<close>)
  next
    case (refused xs cl status ys)
    have same: "mc_gauges (window_rollback (cl_subject cl) (cl_stamp cl) (bs_coord s)) = mc_gauges (bs_coord s)" by simp
    have gauge: "cl_gauge cl \<and> status = Pending" if "cl_holder cl = Some h" for h
      using named that refused(2,3) unfolding named_inv_def by auto
    show ?thesis
    proof (rule owned_invI)
      show "names_distinct (bs_coord s')" using names_distinct_frame [OF same names] by (simp add: refused(1))
      fix k h assume "h \<in> holdersOf (bs_coord s') k (bs_clock s')"
      then have "owns s k h" using owned holders_cong [OF same] by (auto simp: refused(1))
      then show "owns s' k h" using gauge [of h] by (auto simp: owns_def refused(1,2))
    qed (use some in \<open>auto simp: refused(1,2)\<close>)
  next
    case (returned xs k holder ys c')
    show ?thesis
    proof (rule owned_invI)
      show "names_distinct (bs_coord s')" using release_names(1) [OF returned(3) names] by (simp add: returned)
      fix k' h assume h: "h \<in> holdersOf (bs_coord s') k' (bs_clock s')"
      then have "owns s k' h" using owned gauge_release_holders [OF returned(3) order.refl] by (auto simp: returned)
      moreover have "\<not> (k' = k \<and> holder = Some h)" using h release_names(2) [OF returned(3) names _ order.refl] by (auto simp: returned)
      ultimately show "owns s' k' h" by (auto simp: owns_def returned)
    qed (use some in \<open>auto simp: returned\<close>)
  next
    case (renewed cl status)
    have "names_distinct (renewClaim (bs_clock s) (bs_coord s) cl)"
      using names renew_names by (auto simp: renewClaim_def split: option.splits sum.splits)
    then show ?thesis
    proof (intro owned_invI)
      fix k h assume "h \<in> holdersOf (bs_coord s') k (bs_clock s')"
      then have "owns s k h"
        using owned subsetD [OF renewClaim_holders [OF order.refl, of "bs_clock s" "bs_coord s" cl k], of h]
        by (simp add: renewed(1))
      then show "owns s' k h" by (simp add: owns_def renewed(1))
    qed (use some in \<open>simp_all add: renewed(1)\<close>)
  next
    case (released xs cl ys)
    have rel: "names_distinct (releaseClaim (bs_clock s) (bs_coord s) cl)"
      "cl_holder cl = Some h \<Longrightarrow> h \<notin> holdersOf (releaseClaim (bs_clock s) (bs_coord s) cl) (cl_subject cl) (bs_clock s)" for h
    proof -
      have "cl_holder cl \<noteq> Some []" using some [of cl Admitted] by (simp add: released(2))
      then obtain c' where c': "gauge_release (cl_subject cl) (cl_holder cl) (bs_clock s) (bs_coord s) = Inr c'"
        by (auto simp: gauge_release_def named_def Let_def split_def)
      then have "releaseClaim (bs_clock s) (bs_coord s) cl = c'" by (simp add: releaseClaim_def)
      with release_names [OF c' names] show "names_distinct (releaseClaim (bs_clock s) (bs_coord s) cl)"
        "cl_holder cl = Some h \<Longrightarrow> h \<notin> holdersOf (releaseClaim (bs_clock s) (bs_coord s) cl) (cl_subject cl) (bs_clock s)" by auto
    qed
    show ?thesis
    proof (rule owned_invI)
      show "names_distinct (bs_coord s')" using rel(1) by (simp add: released(1))
      fix k h assume h: "h \<in> holdersOf (bs_coord s') k (bs_clock s')"
      then have "owns s k h"
        using owned subsetD [OF releaseClaim_holders [OF order.refl, of "bs_clock s" "bs_coord s" cl k], of h]
        by (simp add: released(1))
      moreover have "\<not> (k = cl_subject cl \<and> cl_holder cl = Some h)" using h rel(2) by (auto simp: released(1))
      ultimately show "owns s' k h" by (auto simp: owns_def released(1,2))
    qed (use some in \<open>auto simp: released(1,2)\<close>)
  qed
qed

lemma owned_inv_reachable: "burst_reachable store subjectAt s \<Longrightarrow> owned_inv s \<and> named_inv s"
proof (induction rule: burst_induct)
  case init
  then show ?case
    by (simp add: owned_inv_def named_inv_def burst_init_def memoryCoord_def names_distinct_def namesIn_def holdersOf_def heldSlots_def)
next
  case (step s s')
  then show ?case using owned_inv_step named_inv_step by blast
qed

subsection \<open>A refused request leaves nothing\<close>

lemma orderly_burst: "orderly_reachable store subjectAt s \<Longrightarrow> burst_reachable store subjectAt s"
  unfolding orderly_reachable_def burst_reachable_def orderly_step_def
  by (rule rtranclp_mono [THEN predicate2D, rotated]) auto

lemma ring_exact_reachable:
  assumes "orderly_reachable store subjectAt s"
  shows "ring_exact k s \<and> (\<forall>k. sorted (stampsOf (bs_coord s) k))"
  using assms unfolding orderly_reachable_def
proof (induction rule: rtranclp_induct)
  case base
  then show ?case
    by (simp add: ring_exact_def burst_init_def memoryCoord_def ringEvents_def stampsOf_def claimsOf_def)
next
  case (step s s')
  then have "burst_reachable store subjectAt s" by (intro orderly_burst) (simp add: orderly_reachable_def)
  then have "rings_ok minute (bs_coord s)" using ring_inv_reachable [of store subjectAt s k] by (simp add: ring_inv_def)
  with step ring_exact_step [of store subjectAt s s' k] show ?case by (auto simp: orderly_step_def)
qed

text \<open>
  C37: a refused request leaves nothing behind, however requests interleave, while stamps
  are recorded in order. The stamps of the last minute in a subject's ring are exactly those
  of its claims not given back, each once; and every live slot that has a name is the slot
  of a claim being judged or served, or one a refused claim is about to release.
\<close>

theorem burst_keeps_no_refused:
  assumes "orderly_reachable store subjectAt s"
  shows "filter_mset (\<lambda>t. bs_clock s - WINDOW_MS W1m < t) (ringEvents (bs_coord s) k)
      = filter_mset (\<lambda>t. bs_clock s - WINDOW_MS W1m < t) (mset (map cl_stamp (claimsOf k s)))
    \<and> (\<forall>h \<in> holdersOf (bs_coord s) k (bs_clock s). owns s k h)"
  using ring_exact_reachable [OF assms] owned_inv_reachable [OF orderly_burst [OF assms]]
  by (simp add: ring_exact_def owned_inv_def)

definition two_stamped :: "instant \<Rightarrow> instant \<Rightarrow> burst" where
  "two_stamped t u =
     (let (r1, c1) = window_claim ''k1'' minute t memoryCoord; (r2, c2) = window_claim ''k1'' minute u c1
      in burst_init\<lparr>bs_clock := t, bs_coord := c2,
           bs_log := [(stampedClaim ''k1'' True r1, Stamped), (stampedClaim ''k1'' True r2, Stamped)]\<rparr>)"

definition one_refused :: "instant \<Rightarrow> burst \<Rightarrow> burst" where
  "one_refused t s = s\<lparr>bs_coord := window_rollback ''k1'' t (bs_coord s), bs_log := tl (bs_log s)\<rparr>"

lemmas ring_run = two_stamped_def one_refused_def window_claim_def sweep_def sw_count_def sw_trim_def sw_record_def
  sw_resetAt_def sw_empty_def sw_forget_def newWindow_def memoryCoord_def window_rollback_def WINDOW_MS.simps Let_def

lemma two_stamped_stamps:
  assumes "0 \<le> t" and "t < 1000" and "0 \<le> u" and "u < 1000"
  shows "stampsOf (bs_coord (two_stamped t u)) k = (if k = ''k1'' then [t, u] else [])"
    and "stampsOf (bs_coord (one_refused t (two_stamped t u))) k
      = (if k = ''k1'' then rev (forget_scan t [u, t]) else [])"
  using assms by (simp_all add: ring_run stampsOf_def SWEEP_INTERVAL_MS_def)

lemma two_stamped_steps:
  assumes "0 \<le> u" and "u \<le> t" and "t < 1000"
  defines "first \<equiv> (burst_init\<lparr>bs_clock := t\<rparr>)\<lparr>bs_coord := snd (window_claim ''k1'' minute t memoryCoord),
      bs_log := [(stampedClaim ''k1'' True (fst (window_claim ''k1'' minute t memoryCoord)), Stamped)]\<rparr>"
  shows "burst_step store subjectAt burst_init (burst_init\<lparr>bs_clock := t\<rparr>)"
    and "burst_step store subjectAt (burst_init\<lparr>bs_clock := t\<rparr>) first"
    and "burst_step store subjectAt first (two_stamped t u)"
    and "burst_step store subjectAt (two_stamped t u) (one_refused t (two_stamped t u))"
    and "stampsOf (bs_coord first) k = (if k = ''k1'' then [t] else [])"
proof -
  show "burst_step store subjectAt burst_init (burst_init\<lparr>bs_clock := t\<rparr>)"
    using assms by (intro burst_step.tick) (simp add: burst_init_def)
  show "burst_step store subjectAt (burst_init\<lparr>bs_clock := t\<rparr>) first"
    using burst_step.stamped [of t "burst_init\<lparr>bs_clock := t\<rparr>" "''k1''" "fst (window_claim ''k1'' minute t memoryCoord)"
        "snd (window_claim ''k1'' minute t memoryCoord)" store subjectAt True]
    by (simp add: first_def burst_init_def)
  show "burst_step store subjectAt first (two_stamped t u)"
    using burst_step.stamped [of u first "''k1''" "fst (window_claim ''k1'' minute u (bs_coord first))"
        "snd (window_claim ''k1'' minute u (bs_coord first))" store subjectAt True] assms(2)
    by (simp add: first_def two_stamped_def burst_init_def split_def Let_def)
  obtain cl other where log: "bs_log (two_stamped t u) = [] @ (cl, Stamped) # [other]" "cl_subject cl = ''k1''" "cl_stamp cl = t"
    by (auto simp: ring_run stampedClaim_def split_def)
  show "burst_step store subjectAt (two_stamped t u) (one_refused t (two_stamped t u))"
  proof -
    let ?s = "two_stamped t u"
    have "one_refused t ?s = ?s\<lparr>bs_coord := window_rollback ''k1'' t (bs_coord ?s), bs_log := [] @ [other], bs_owed := bs_owed ?s @ []\<rparr>"
      by (rule burst.equality) (simp_all add: one_refused_def log(1))
    with burst_step.refused [OF log(1), of store subjectAt] log(2,3) show ?thesis by simp
  qed
  show "stampsOf (bs_coord first) k = (if k = ''k1'' then [t] else [])"
    by (simp add: first_def ring_run stampsOf_def)
qed

lemma one_refused_claims: "map cl_stamp (claimsOf ''k1'' (one_refused t (two_stamped t u))) = [u]"
  by (simp add: ring_run claimsOf_def stampedClaim_def split_def)

theorem burst_keeps_no_refused_witness:
  "orderly_reachable idle_store sample_subject (one_refused 5 (two_stamped 5 5))
   \<and> filter_mset (\<lambda>t. 5 - WINDOW_MS W1m < t) (ringEvents (bs_coord (one_refused 5 (two_stamped 5 5))) ''k1'') = {#5#}"
proof -
  note steps = two_stamped_steps(1-4) [where t = 5 and u = 5 and store = idle_store and subjectAt = sample_subject, simplified]
    and first = two_stamped_steps(5) [where t = 5 and u = 5, simplified]
  have start: "stampsOf (bs_coord (burst_init\<lparr>bs_clock := 5\<rparr>)) k = []" for k
    by (simp add: stampsOf_def burst_init_def memoryCoord_def)
  have "orderly_reachable idle_store sample_subject (one_refused 5 (two_stamped 5 5))"
    unfolding orderly_reachable_def
    by (rule rtranclp.rtrancl_into_rtrancl [OF rtranclp.rtrancl_into_rtrancl
          [OF rtranclp.rtrancl_into_rtrancl [OF r_into_rtranclp]]])
      (use steps first start two_stamped_stamps [of 5 5] in \<open>auto simp: orderly_step_def\<close>)
  moreover from burst_keeps_no_refused [OF this, of "''k1''"]
  have "filter_mset (\<lambda>t. 5 - minute < t) (ringEvents (bs_coord (one_refused 5 (two_stamped 5 5))) ''k1'') = {#5#}"
    unfolding one_refused_claims by (simp add: one_refused_def two_stamped_def split_def Let_def)
  ultimately show ?thesis by simp
qed

text \<open>
  Out of order it does leave something: a stamp read before another request's and recorded
  after it stops the backward scan of \<^verbatim>\<open>forget\<close>, and the refused request stays counted.
\<close>

theorem overtaken_refusal_stays:
  "burst_reachable idle_store sample_subject (one_refused 5 (two_stamped 5 3))
   \<and> map cl_stamp (claimsOf ''k1'' (one_refused 5 (two_stamped 5 3))) = [3]
   \<and> ringEvents (bs_coord (one_refused 5 (two_stamped 5 3))) ''k1'' = {#5, 3#}"
proof -
  note steps = two_stamped_steps(1-4) [where t = 5 and u = 3 and store = idle_store and subjectAt = sample_subject, simplified]
  have "burst_reachable idle_store sample_subject (one_refused 5 (two_stamped 5 3))"
    unfolding burst_reachable_def using steps by (meson converse_rtranclp_into_rtranclp rtranclp.rtrancl_refl)
  moreover have "mset (stampsOf (bs_coord (one_refused 5 (two_stamped 5 3))) ''k1'') = {#5, 3#}"
    unfolding two_stamped_stamps(2) [of 5 3, simplified] by simp
  ultimately show ?thesis using one_refused_claims by simp
qed

end
