(* ===== verification/Ir_Stream.thy ===== *)
theory Ir_Stream
  imports Ir_Request Ir_Errors
begin

section \<open>The canonical event stream\<close>

text \<open>
  \<^verbatim>\<open>packages/ir/src/stream.ts\<close>: the events every provider decoder emits and every egress
  reads, and \<open>collect\<close>, which folds a stream into one response for a client that did not
  ask for streaming. The accumulators the source keeps in a map by block index are an
  association list. \<^verbatim>\<open>JSON.parse\<close> is the parameter \<open>parse\<close>, \<open>None\<close> where it throws. A
  citation delta without a citation appends JSON null where the source appends
  \<^verbatim>\<open>undefined\<close>.

  The lemmas show that \<open>collect\<close> sees neither how a decoder cut its text into deltas nor
  how deltas of different blocks interleave.
\<close>

datatype stop_reason = EndTurn | MaxTokens | ToolUse | StopSequence | ContentFilter | PauseTurn

record usage =
  us_inputTokens :: int
  us_outputTokens :: int
  us_cacheReadTokens :: int
  us_cacheWriteTokens :: int
  us_cacheWrite5mTokens :: "int option"
  us_cacheWrite1hTokens :: "int option"

definition usageFromPromptTotal :: "int \<Rightarrow> int \<Rightarrow> int \<Rightarrow> int \<Rightarrow> usage" where
  "usageFromPromptTotal promptTokens outputTokens cacheReadTokens cacheWriteTokens =
     \<lparr>us_inputTokens = max 0 (promptTokens - cacheReadTokens - cacheWriteTokens),
      us_outputTokens = outputTokens, us_cacheReadTokens = cacheReadTokens,
      us_cacheWriteTokens = cacheWriteTokens, us_cacheWrite5mTokens = None, us_cacheWrite1hTokens = None\<rparr>"

definition promptTokens :: "usage \<Rightarrow> int" where
  "promptTokens u = us_inputTokens u + us_cacheReadTokens u + us_cacheWriteTokens u"

type_synonym members = "(string \<times> json) list"

datatype content_block_start =
    StartText
  | StartThinking "bool option"
  | StartToolUse string string
  | StartNative provider_id string members

datatype fold_kind = Merge | Citation

datatype delta =
    DText string
  | DThinking string
  | DSignature string
  | DToolJson string
  | DNativeJson provider_id string
  | DNative provider_id string "fold_kind option" members

datatype stream_event =
    Start string string
  | BlockStart int content_block_start
  | BlockDelta int delta
  | BlockEnd int
  | End stop_reason usage "(string \<times> members) list option"
  | Err error_code string bool

fun is_delta :: "stream_event \<Rightarrow> bool" where
  "is_delta (BlockDelta i d) = True"
| "is_delta e = False"

fun is_end :: "stream_event \<Rightarrow> bool" where
  "is_end (End r u v) = True"
| "is_end e = False"

fun is_err :: "stream_event \<Rightarrow> bool" where
  "is_err (Err code message retryable) = True"
| "is_err e = False"

record collected_response =
  cr_rid :: string
  cr_model :: string
  cr_content :: "content_block list"
  cr_stopReason :: stop_reason
  cr_usage :: usage
  cr_vendor :: "(string \<times> members) list option"

datatype accum =
    AText string "json list"
  | AThinking string "string option"
  | AToolUse string string string
  | ANative provider_id string members string "(fold_kind option \<times> members) list"

subsection \<open>Collecting\<close>

record collecting =
  cg_id :: string
  cg_model :: string
  cg_stopReason :: stop_reason
  cg_usage :: usage
  cg_vendor :: "(string \<times> members) list option"
  cg_blocks :: "(int \<times> accum) list"

definition no_usage :: usage where
  "no_usage = \<lparr>us_inputTokens = 0, us_outputTokens = 0, us_cacheReadTokens = 0, us_cacheWriteTokens = 0,
     us_cacheWrite5mTokens = None, us_cacheWrite1hTokens = None\<rparr>"

definition collect_init :: collecting where
  "collect_init = \<lparr>cg_id = [], cg_model = [], cg_stopReason = EndTurn, cg_usage = no_usage, cg_vendor = None, cg_blocks = []\<rparr>"

fun openBlock :: "content_block_start \<Rightarrow> accum" where
  "openBlock (StartToolUse i name) = AToolUse i name []"
| "openBlock (StartThinking signed) = AThinking [] None"
| "openBlock (StartNative p blockType data) = ANative p blockType data [] []"
| "openBlock StartText = AText [] []"

fun applyDelta :: "delta \<Rightarrow> accum \<Rightarrow> accum" where
  "applyDelta (DText t) (AText text cs) = AText (text @ t) cs"
| "applyDelta (DThinking t) (AThinking text sig) = AThinking (text @ t) sig"
| "applyDelta (DSignature s) (AThinking text sig) = AThinking text (Some (nullish sig [] @ s))"
| "applyDelta (DToolJson s) (AToolUse i name j) = AToolUse i name (j @ s)"
| "applyDelta (DNativeJson p s) (ANative p' bt data j ds) = ANative p' bt data (j @ s) ds"
| "applyDelta (DNative p dt fk d) (ANative p' bt data j ds) = ANative p' bt data j (ds @ [(fk, d)])"
| "applyDelta (DNative p dt fk d) (AText text cs) =
     (if fk = Some Citation then AText text (cs @ [nullish (map_of d ''citation'') JNull]) else AText text cs)"
| "applyDelta d acc = acc"

fun collectStep :: "collecting \<Rightarrow> stream_event \<Rightarrow> collecting" where
  "collectStep c (Start i m) = c\<lparr>cg_id := i, cg_model := m\<rparr>"
| "collectStep c (BlockStart index b) = c\<lparr>cg_blocks := AList.update index (openBlock b) (cg_blocks c)\<rparr>"
| "collectStep c (BlockDelta index d) =
     (case map_of (cg_blocks c) index of
        None \<Rightarrow> c
      | Some acc \<Rightarrow> c\<lparr>cg_blocks := AList.update index (applyDelta d acc) (cg_blocks c)\<rparr>)"
| "collectStep c (End reason u vendor) = c\<lparr>cg_stopReason := reason, cg_usage := u, cg_vendor := vendor\<rparr>"
| "collectStep c (BlockEnd index) = c"
| "collectStep c (Err code message retryable) = c"

definition parseJson :: "(string \<Rightarrow> json option) \<Rightarrow> string \<Rightarrow> json" where
  "parseJson parse raw = (if length (js_trim raw) = 0 then JObj [] else nullish (parse raw) (JObj []))"

definition spread :: "members \<Rightarrow> members \<Rightarrow> members" where
  "spread base over = foldl (\<lambda>ms (k, v). AList.update k v ms) base over"

fun closeBlock :: "(string \<Rightarrow> json option) \<Rightarrow> accum \<Rightarrow> content_block" where
  "closeBlock parse (AText text cs) =
     TextBlock \<lparr>tb_text = text, tb_cacheControl = None, tb_citations = (if length cs = 0 then None else Some cs)\<rparr>"
| "closeBlock parse (AThinking text sig) = ThinkingBlock \<lparr>th_text = text, th_signature = sig\<rparr>"
| "closeBlock parse (AToolUse i name j) =
     ToolUseBlock \<lparr>tu_id = i, tu_name = name, tu_input = parseJson parse j, tu_cacheControl = None\<rparr>"
| "closeBlock parse (ANative p bt data j ds) =
     (let data = (if j = [] then data else AList.update ''input'' (parseJson parse j) data);
          data = foldl (\<lambda>data (fk, d). if fk = Some Merge then spread data d else data) data ds
      in ProviderNativeBlock \<lparr>pn_provider = p, pn_blockType = bt, pn_data = JObj data, pn_cacheControl = None\<rparr>)"

definition closeAll :: "(string \<Rightarrow> json option) \<Rightarrow> collecting \<Rightarrow> collected_response" where
  "closeAll parse c = \<lparr>cr_rid = cg_id c, cr_model = cg_model c,
     cr_content = map (closeBlock parse \<circ> snd) (sort_key fst (cg_blocks c)),
     cr_stopReason = cg_stopReason c, cr_usage = cg_usage c, cr_vendor = cg_vendor c\<rparr>"

definition collect :: "(string \<Rightarrow> json option) \<Rightarrow> stream_event list \<Rightarrow> collected_response" where
  "collect parse events = closeAll parse (foldl collectStep collect_init events)"

subsection \<open>Fragments and interleavings\<close>

text \<open>Two deltas that say together what one says.\<close>

fun joined :: "delta \<Rightarrow> delta \<Rightarrow> delta option" where
  "joined (DText a) (DText b) = Some (DText (a @ b))"
| "joined (DThinking a) (DThinking b) = Some (DThinking (a @ b))"
| "joined (DSignature a) (DSignature b) = Some (DSignature (a @ b))"
| "joined (DToolJson a) (DToolJson b) = Some (DToolJson (a @ b))"
| "joined (DNativeJson p a) (DNativeJson p' b) = (if p = p' then Some (DNativeJson p (a @ b)) else None)"
| "joined _ _ = None"

lemma applyDelta_joined: "joined d e = Some f \<Longrightarrow> applyDelta e (applyDelta d acc) = applyDelta f acc"
  by (cases d; cases e; cases acc) (auto split: if_splits)

text \<open>Reorderings that keep what each block receives, and cuts of a delta in two.\<close>

inductive same_stream :: "stream_event list \<Rightarrow> stream_event list \<Rightarrow> bool" where
  same: "same_stream es es"
| cut: "joined d e = Some f \<Longrightarrow> same_stream (xs @ BlockDelta i d # BlockDelta i e # ys) (xs @ BlockDelta i f # ys)"
| swap: "i \<noteq> j \<Longrightarrow> same_stream (xs @ BlockDelta i d # BlockDelta j e # ys) (xs @ BlockDelta j e # BlockDelta i d # ys)"
| swapped: "same_stream es fs \<Longrightarrow> same_stream fs es"
| trans: "same_stream es fs \<Longrightarrow> same_stream fs gs \<Longrightarrow> same_stream es gs"

definition keyed :: "collecting \<Rightarrow> bool" where
  "keyed c \<longleftrightarrow> distinct (map fst (cg_blocks c))"

lemma collectStep_keyed: "keyed c \<Longrightarrow> keyed (collectStep c e)"
  by (cases e) (auto simp: keyed_def distinct_update split: option.splits)

lemma collect_keyed: "keyed c \<Longrightarrow> keyed (foldl collectStep c es)"
  by (induction es arbitrary: c) (simp_all add: collectStep_keyed)

lemma update_absent: "map_of al k = None \<Longrightarrow> AList.update k v al = al @ [(k, v)]"
  by (induction al) auto

lemma update_twice: "AList.update k w (AList.update k v al) = AList.update k w al"
  by (induction al) auto

lemma update_swap_present:
  assumes "j \<noteq> i" and "map_of al i \<noteq> None" and "map_of al j \<noteq> None"
  shows "AList.update i v (AList.update j w al) = AList.update j w (AList.update i v al)"
  using assms by (induction al) (auto split: if_splits simp: update_absent)

lemma step_cut:
  assumes "joined d e = Some f"
  shows "collectStep (collectStep c (BlockDelta i d)) (BlockDelta i e) = collectStep c (BlockDelta i f)"
  by (auto simp: applyDelta_joined [OF assms] update_twice split: option.splits)

lemma step_swap:
  assumes "i \<noteq> j"
  shows "collectStep (collectStep c (BlockDelta i d)) (BlockDelta j e)
    = collectStep (collectStep c (BlockDelta j e)) (BlockDelta i d)"
  using assms update_swap_present [of i j "cg_blocks c"]
  by (auto split: option.splits)

lemma same_stream_collects: "same_stream es fs \<Longrightarrow> foldl collectStep c es = foldl collectStep c fs"
proof (induction rule: same_stream.induct)
  case (cut d e f xs i ys)
  show ?case unfolding foldl_append foldl_Cons step_cut [OF cut] ..
next
  case (swap i j xs d e ys)
  show ?case unfolding foldl_append foldl_Cons step_swap [OF swap] ..
qed simp_all

text \<open>
  C40: the collected response does not depend on how a decoder fragmented the stream.
  Cutting a text, reasoning, signature or JSON delta in two, joining two of them, and
  interleaving deltas of different blocks any other way all give the same response; and
  a response holds one block per index opened, in index order.
\<close>

theorem collect_fragmentation:
  assumes "same_stream es fs"
  shows "collect parse es = collect parse fs
    \<and> length (cr_content (collect parse es)) = card {i. \<exists>b. BlockStart i b \<in> set es}"
proof -
  have "fst ` set (cg_blocks (foldl collectStep c es)) = fst ` set (cg_blocks c) \<union> {i. \<exists>b. BlockStart i b \<in> set es}" for c es
  proof (induction es arbitrary: c)
    case (Cons e es)
    have "fst ` set (cg_blocks (collectStep c e)) = fst ` set (cg_blocks c) \<union> {i. \<exists>b. e = BlockStart i b}"
      by (cases e) (auto simp: AList_update_keys split: option.splits dest!: map_of_SomeD intro: rev_image_eqI)
    with Cons show ?case by auto
  qed simp
  from this [of collect_init es]
  have "{i. \<exists>b. BlockStart i b \<in> set es} = set (map fst (cg_blocks (foldl collectStep collect_init es)))"
    by (simp add: collect_init_def)
  moreover have "distinct (map fst (cg_blocks (foldl collectStep collect_init es)))"
    using collect_keyed [of collect_init es] by (simp add: keyed_def collect_init_def)
  ultimately have "card {i. \<exists>b. BlockStart i b \<in> set es} = length (cg_blocks (foldl collectStep collect_init es))"
    using distinct_card by fastforce
  then show ?thesis using same_stream_collects [OF assms] by (simp add: collect_def closeAll_def)
qed

theorem collect_fragmentation_witness:
  "collect (\<lambda>s. None) [BlockStart 0 StartText, BlockStart 1 (StartThinking None), BlockDelta 0 (DText ''he''),
      BlockDelta 1 (DThinking ''hm''), BlockDelta 0 (DText ''y'')]
   = collect (\<lambda>s. None) [BlockStart 0 StartText, BlockStart 1 (StartThinking None),
      BlockDelta 1 (DThinking ''hm''), BlockDelta 0 (DText ''hey'')]"
proof -
  let ?pre = "[BlockStart 0 StartText, BlockStart 1 (StartThinking None)]"
  have swap: "same_stream (?pre @ BlockDelta 0 (DText ''he'') # BlockDelta 1 (DThinking ''hm'') # [BlockDelta 0 (DText ''y'')])
      (?pre @ BlockDelta 1 (DThinking ''hm'') # BlockDelta 0 (DText ''he'') # [BlockDelta 0 (DText ''y'')])"
    by (rule same_stream.swap) simp
  have cut: "same_stream ((?pre @ [BlockDelta 1 (DThinking ''hm'')]) @ BlockDelta 0 (DText ''he'') # BlockDelta 0 (DText ''y'') # [])
      ((?pre @ [BlockDelta 1 (DThinking ''hm'')]) @ BlockDelta 0 (DText ''hey'') # [])"
    by (rule same_stream.cut) simp
  from collect_fragmentation [OF same_stream.trans [OF swap [unfolded append.simps] cut [unfolded append.simps]]]
  show ?thesis by simp
qed

end
