(* ===== verification/Dispatch_Price.thy ===== *)
theory Dispatch_Price
  imports Ir_Stream Router_Types
begin

section \<open>What a request cost, and what an error means\<close>

text \<open>
  \<^verbatim>\<open>apps/gateway/src/dispatch/price.ts\<close> and \<^verbatim>\<open>classify.ts\<close>. Prices are exact rationals, in
  dollars per million tokens. The lemmas show that every token class is charged once at
  its own rate and that no part of an aggregate is lost to a partial breakdown; and that
  an error is this gateway's own defect exactly when nothing in it is recognised.
\<close>

record write_split =
  ws_fiveMinute :: int
  ws_oneHour :: int

definition splitWrites :: "usage \<Rightarrow> write_split" where
  "splitWrites u =
     (let total = us_cacheWriteTokens u in
      case (us_cacheWrite5mTokens u, us_cacheWrite1hTokens u) of
        (Some five, Some hour) \<Rightarrow> \<lparr>ws_fiveMinute = five, ws_oneHour = hour\<rparr>
      | (Some five, None) \<Rightarrow> \<lparr>ws_fiveMinute = five, ws_oneHour = max 0 (total - five)\<rparr>
      | (None, Some hour) \<Rightarrow> \<lparr>ws_fiveMinute = max 0 (total - hour), ws_oneHour = hour\<rparr>
      | (None, None) \<Rightarrow> \<lparr>ws_fiveMinute = total, ws_oneHour = 0\<rparr>)"

definition priceOf :: "target_pricing \<Rightarrow> usage \<Rightarrow> provider_id \<Rightarrow> descriptors \<Rightarrow> rat" where
  "priceOf prices u provider providers =
     (let fallback = nullish (map_option pd_writeOverInput (map_of providers provider))
            \<lparr>wo_fiveMinute = 0, wo_oneHour = 0\<rparr>;
          readRate = cacheReadRate prices;
          write5mRate = nullish (tp_cacheWrite5m prices) (tp_input prices * wo_fiveMinute fallback);
          write1hRate = nullish (tp_cacheWrite1h prices) (tp_input prices * wo_oneHour fallback);
          writes = splitWrites u
      in (of_int (us_inputTokens u) * tp_input prices
          + of_int (us_outputTokens u) * tp_output prices
          + of_int (us_cacheReadTokens u) * readRate
          + of_int (ws_fiveMinute writes) * write5mRate
          + of_int (ws_oneHour writes) * write1hRate) / 1000000)"

subsection \<open>Classifying what was thrown\<close>

definition NETWORK_HINTS :: "string list" where
  "NETWORK_HINTS = [''fetch failed'', ''econnrefused'', ''econnreset'', ''enotfound'', ''etimedout'',
     ''socket hang up'', ''unable to connect'']"

definition lowerChar :: "char \<Rightarrow> char" where
  "lowerChar c = (let n = (of_char c :: nat) in
     if 65 \<le> n \<and> n \<le> 90 \<or> 192 \<le> n \<and> n \<le> 222 \<and> n \<noteq> 215 then char_of (n + 32) else c)"

definition toLowerCase :: "string \<Rightarrow> string" where
  "toLowerCase s = map lowerChar s"

fun js_includes :: "string \<Rightarrow> string \<Rightarrow> bool" where
  "js_includes [] hint = (hint = [])"
| "js_includes (c # s) hint = (prefix hint (c # s) \<or> js_includes s hint)"

record classified =
  cf_code :: error_code
  cf_retryAfterMs :: "int option"
  cf_provider :: "provider_id option"
  cf_gatewayAuthored :: bool

definition bare :: "error_code \<Rightarrow> classified" where
  "bare code = \<lparr>cf_code = code, cf_retryAfterMs = None, cf_provider = None, cf_gatewayAuthored = False\<rparr>"

definition classifyText :: "string \<Rightarrow> string \<Rightarrow> classified" where
  "classifyText name message =
     (let text = toLowerCase (name @ '' '' @ message)
      in if list_ex (js_includes text) NETWORK_HINTS then bare NETWORK else bare INTERNAL)"

fun classify :: "thrown \<Rightarrow> classified"
  and classifyFirst :: "thrown list \<Rightarrow> classified" where
  "classify (ThrownGateway e) = \<lparr>cf_code = ge_code e, cf_retryAfterMs = ge_retryAfterMs e,
     cf_provider = ge_provider e, cf_gatewayAuthored = ge_gatewayAuthored e\<rparr>"
| "classify (ThrownDom name message) =
     (if name = ''AbortError'' then bare TIMEOUT else classifyText name message)"
| "classify (ThrownAggregate name message errors) = classifyFirst errors"
| "classify (ThrownError name message) = classifyText name message"
| "classify ThrownOther = bare INTERNAL"
| "classifyFirst [] = bare INTERNAL"
| "classifyFirst (inner # rest) =
     (let c = classify inner in if cf_code c \<noteq> INTERNAL then c else classifyFirst rest)"

subsection \<open>Every token is charged once\<close>

definition wholeUsage :: "usage \<Rightarrow> bool" where
  "wholeUsage u \<longleftrightarrow> 0 \<le> us_inputTokens u \<and> 0 \<le> us_outputTokens u \<and> 0 \<le> us_cacheReadTokens u
     \<and> 0 \<le> us_cacheWriteTokens u
     \<and> (\<forall>n. us_cacheWrite5mTokens u = Some n \<longrightarrow> 0 \<le> n \<and> n \<le> us_cacheWriteTokens u)
     \<and> (\<forall>n. us_cacheWrite1hTokens u = Some n \<longrightarrow> 0 \<le> n \<and> n \<le> us_cacheWriteTokens u)
     \<and> (\<forall>m n. us_cacheWrite5mTokens u = Some m \<longrightarrow> us_cacheWrite1hTokens u = Some n \<longrightarrow> m + n = us_cacheWriteTokens u)"

lemma splitWrites_whole:
  assumes "wholeUsage u"
  shows "0 \<le> ws_fiveMinute (splitWrites u)" and "0 \<le> ws_oneHour (splitWrites u)"
    and "ws_fiveMinute (splitWrites u) + ws_oneHour (splitWrites u) = us_cacheWriteTokens u"
  using assms by (auto simp: wholeUsage_def splitWrites_def Let_def split: option.splits)

definition rates_within :: "rat \<Rightarrow> rat \<Rightarrow> target_pricing \<Rightarrow> provider_id \<Rightarrow> descriptors \<Rightarrow> bool" where
  "rates_within lo hi prices provider providers \<longleftrightarrow>
     (let fallback = nullish (map_option pd_writeOverInput (map_of providers provider)) \<lparr>wo_fiveMinute = 0, wo_oneHour = 0\<rparr>
      in \<forall>r \<in> {tp_input prices, tp_output prices, cacheReadRate prices,
           nullish (tp_cacheWrite5m prices) (tp_input prices * wo_fiveMinute fallback),
           nullish (tp_cacheWrite1h prices) (tp_input prices * wo_oneHour fallback)}. lo \<le> r \<and> r \<le> hi)"

lemma charge_within:
  fixes n :: int and r lo hi :: rat
  assumes "0 \<le> n" and "lo \<le> r" and "r \<le> hi"
  shows "of_int n * lo \<le> of_int n * r" and "of_int n * r \<le> of_int n * hi"
  using assms by (simp_all add: mult_left_mono)

text \<open>
  Every token is charged exactly once, at one of the target's rates. When all rates
  lie between two bounds, the cost of a request lies between those bounds times the whole
  prompt and answer, cache reads and both kinds of cache writes included: no token class
  is dropped and none is charged twice, whichever part of the write breakdown the upstream
  reported.
\<close>

theorem priceOf_charges_once:
  assumes "wholeUsage u" and "rates_within lo hi prices provider providers"
  shows "of_int (promptTokens u + us_outputTokens u) * lo / 1000000 \<le> priceOf prices u provider providers
    \<and> priceOf prices u provider providers \<le> of_int (promptTokens u + us_outputTokens u) * hi / 1000000"
proof -
  let ?fallback = "nullish (map_option pd_writeOverInput (map_of providers provider)) \<lparr>wo_fiveMinute = 0, wo_oneHour = 0\<rparr>"
  let ?r5 = "nullish (tp_cacheWrite5m prices) (tp_input prices * wo_fiveMinute ?fallback)"
    and ?r1 = "nullish (tp_cacheWrite1h prices) (tp_input prices * wo_oneHour ?fallback)"
  let ?f = "ws_fiveMinute (splitWrites u)" and ?h = "ws_oneHour (splitWrites u)"
  note split = splitWrites_whole [OF assms(1)]
  have tokens: "of_int (promptTokens u + us_outputTokens u) = (of_int (us_inputTokens u) + of_int (us_outputTokens u)
      + of_int (us_cacheReadTokens u) + of_int ?f + of_int ?h :: rat)"
    unfolding promptTokens_def split(3) [symmetric] by simp
  have nonneg: "0 \<le> us_inputTokens u" "0 \<le> us_outputTokens u" "0 \<le> us_cacheReadTokens u"
    using assms(1) by (simp_all add: wholeUsage_def)
  have within: "lo \<le> r \<and> r \<le> hi" if "r \<in> {tp_input prices, tp_output prices, cacheReadRate prices, ?r5, ?r1}" for r
    using assms(2) that unfolding rates_within_def Let_def by blast
  have price: "priceOf prices u provider providers = (of_int (us_inputTokens u) * tp_input prices
      + of_int (us_outputTokens u) * tp_output prices + of_int (us_cacheReadTokens u) * cacheReadRate prices
      + of_int ?f * ?r5 + of_int ?h * ?r1) / 1000000"
    unfolding priceOf_def Let_def ..
  note each = charge_within [OF nonneg(1) within [of "tp_input prices", THEN conjunct1] within [of "tp_input prices", THEN conjunct2]]
    charge_within [OF nonneg(2) within [of "tp_output prices", THEN conjunct1] within [of "tp_output prices", THEN conjunct2]]
    charge_within [OF nonneg(3) within [of "cacheReadRate prices", THEN conjunct1] within [of "cacheReadRate prices", THEN conjunct2]]
    charge_within [OF split(1) within [of ?r5, THEN conjunct1] within [of ?r5, THEN conjunct2]]
    charge_within [OF split(2) within [of ?r1, THEN conjunct1] within [of ?r1, THEN conjunct2]]
  show ?thesis unfolding price tokens
    by (intro conjI divide_right_mono) (use each in \<open>simp_all add: distrib_right\<close>)
qed

definition sample_usage :: usage where
  "sample_usage = \<lparr>us_inputTokens = 100, us_outputTokens = 20, us_cacheReadTokens = 50, us_cacheWriteTokens = 30,
     us_cacheWrite5mTokens = None, us_cacheWrite1hTokens = Some 10\<rparr>"

definition flat_pricing :: target_pricing where
  "flat_pricing = \<lparr>tp_input = 5, tp_output = 5, tp_cacheRead = Some 5, tp_cacheWrite5m = Some 5, tp_cacheWrite1h = Some 5\<rparr>"

theorem priceOf_charges_once_witness: "priceOf flat_pricing sample_usage ''anthropic'' [] = 200 * 5 / 1000000"
proof -
  have "wholeUsage sample_usage" "rates_within 5 5 flat_pricing ''anthropic'' []" "promptTokens sample_usage + us_outputTokens sample_usage = 200"
    by (simp_all add: wholeUsage_def sample_usage_def rates_within_def flat_pricing_def cacheReadRate_def promptTokens_def)
  with priceOf_charges_once [of sample_usage 5 5 flat_pricing "''anthropic''" "[]"] show ?thesis by simp
qed

subsection \<open>What is this gateway's own defect\<close>

text \<open>The errors an aggregate stands for, at any depth.\<close>

fun causes :: "thrown \<Rightarrow> thrown list" where
  "causes (ThrownAggregate name message errors) = concat (map causes errors)"
| "causes e = [e]"

lemma classify_causes:
  "classify e = nullish (find (\<lambda>c. cf_code c \<noteq> INTERNAL) (map classify (causes e)))
     (case e of ThrownAggregate _ _ _ \<Rightarrow> bare INTERNAL | _ \<Rightarrow> classify e)"
  "classifyFirst es = nullish (find (\<lambda>c. cf_code c \<noteq> INTERNAL) (map classify (concat (map causes es)))) (bare INTERNAL)"
proof (induction e and es rule: classify_classifyFirst.induct)
  case (3 name message errors)
  then show ?case unfolding thrown.case by simp
next
  case (7 inner rest)
  have found: "find P (xs @ ys) = (case find P xs of None \<Rightarrow> find P ys | Some x \<Rightarrow> Some x)" for P :: "classified \<Rightarrow> bool" and xs ys
    by (induction xs) auto
  show ?case
  proof (cases "find (\<lambda>c. cf_code c \<noteq> INTERNAL) (map classify (causes inner))")
    case None
    have "cf_code (classify inner) = INTERNAL"
    proof (cases inner)
      case (ThrownAggregate n m es)
      with 7(1) None show ?thesis by (simp add: bare_def)
    qed (use None in \<open>auto split: if_splits\<close>)
    with 7(2) None show ?thesis by (simp add: found Let_def)
  next
    case (Some c)
    with 7(1) find_SomeD [OF Some] show ?thesis by (simp add: found Let_def)
  qed
qed (auto split: if_splits)

text \<open>
  An error is filed as the gateway's own defect exactly when nothing in it is
  recognised. An aggregate of per-address failures, however nested, takes the
  classification of its first recognised cause, so a transport failure reported as an
  aggregate stays retryable.
\<close>

theorem classify_first_recognised:
  "(cf_code (classify e) = INTERNAL \<longleftrightarrow> (\<forall>c \<in> set (causes e). cf_code (classify c) = INTERNAL))
   \<and> (\<forall>xs c ys. causes e = xs @ c # ys \<longrightarrow> (\<forall>x \<in> set xs. cf_code (classify x) = INTERNAL)
        \<longrightarrow> cf_code (classify c) \<noteq> INTERNAL \<longrightarrow> classify e = classify c)"
proof (intro conjI allI impI)
  let ?find = "find (\<lambda>c. cf_code c \<noteq> INTERNAL) (map classify (causes e))"
  show "cf_code (classify e) = INTERNAL \<longleftrightarrow> (\<forall>c \<in> set (causes e). cf_code (classify c) = INTERNAL)"
  proof (cases ?find)
    case None
    then have all: "\<forall>c \<in> set (causes e). cf_code (classify c) = INTERNAL" by (auto simp: find_None_iff_ball)
    moreover have "cf_code (classify e) = INTERNAL"
      using all classify_causes(1) [of e] None by (cases e) (auto simp: bare_def)
    ultimately show ?thesis by simp
  next
    case (Some c)
    with find_SomeD [OF Some] classify_causes(1) [of e] show ?thesis by auto
  qed
  fix xs c ys
  assume "causes e = xs @ c # ys" "\<forall>x \<in> set xs. cf_code (classify x) = INTERNAL" "cf_code (classify c) \<noteq> INTERNAL"
  moreover have "find P (map f (xs @ c # ys)) = Some (f c)" if "\<forall>x \<in> set xs. \<not> P (f x)" "P (f c)"
    for P :: "classified \<Rightarrow> bool" and f :: "thrown \<Rightarrow> classified"
    using that by (induction xs) auto
  ultimately have "?find = Some (classify c)" by simp
  with classify_causes(1) [of e] show "classify e = classify c" by simp
qed

theorem classify_first_recognised_witness:
  "classify (ThrownAggregate ''AggregateError'' [] [ThrownError ''Error'' ''odd'',
     ThrownAggregate ''AggregateError'' [] [ThrownError ''Error'' ''connect ECONNREFUSED 1.2.3.4'']]) = bare NETWORK"
proof -
  let ?odd = "ThrownError ''Error'' ''odd''" and ?refused = "ThrownError ''Error'' ''connect ECONNREFUSED 1.2.3.4''"
  let ?e = "ThrownAggregate ''AggregateError'' [] [?odd, ThrownAggregate ''AggregateError'' [] [?refused]]"
  have odd: "cf_code (classify ?odd) = INTERNAL" and refused: "classify ?refused = bare NETWORK" by code_simp+
  have "causes ?e = [?odd] @ ?refused # []" by simp
  then have "classify ?e = classify ?refused"
    using classify_first_recognised [of ?e] odd refused by (force simp: bare_def)
  with refused show ?thesis by simp
qed

end
