(* ===== verification/Dispatch_Run.thy ===== *)
theory Dispatch_Run
  imports Dispatch_Price Router_Breaker Router_Rank Router_Resolve
begin

section \<open>One request, from its candidates to its last event\<close>

text \<open>
  \<^verbatim>\<open>apps/gateway/src/dispatch/index.ts\<close> from \<^verbatim>\<open>persistHealth\<close> on, and \<^verbatim>\<open>attempt.ts\<close>: the
  generator \<^verbatim>\<open>run\<close> that tries the ranked candidates in order, streams the first one that
  answers and records what happened.

  \<^item> What the generator does to the world is a list of \<open>effect\<close>s in order: events yielded,
    load slots and probe claims taken and freed, health rows updated, requests sent.
  \<^item> What the world answers is a \<open>world\<close>, read one answer per call at a tick of its own: the
    clock, the client's and the deadline's signals, store rows, probe counts, adapter
    replies, and whether the consumer closes the generator at a \<^verbatim>\<open>yield\<close>. Every theorem is
    about every world, so other requests may change any of it between two calls.
  \<^item> A reply's events are the list its generator yields and, if it throws at the end, what.
  \<^item> \<open>stop\<close> is how control leaves a block: a \<^verbatim>\<open>return\<close>, a \<^verbatim>\<open>throw\<close>, the rethrown abort of the
    client, or the consumer closing the generator, which runs the \<^verbatim>\<open>finally\<close> blocks alone.

  Log lines other than the rejection, and trace spans, are left out.
\<close>

datatype log_code = Code error_code | Interrupted
datatype log_state = Pending | Done

record request_log =
  rl_id :: string
  rl_state :: log_state
  rl_at :: instant
  rl_apiKeyId :: "string option"
  rl_requestedModel :: string
  rl_resolvedProvider :: "provider_id option"
  rl_resolvedModel :: "string option"
  rl_credentialId :: "string option"
  rl_attempts :: nat
  rl_status :: nat
  rl_errorCode :: "log_code option"
  rl_inputTokens :: int
  rl_outputTokens :: int
  rl_cacheReadTokens :: int
  rl_cacheWriteTokens :: int
  rl_ttftMs :: "int option"
  rl_durationMs :: int
  rl_costUsd :: rat
  rl_degradations :: "string list"

definition requestLogDefaults :: "string \<Rightarrow> instant \<Rightarrow> request_log" where
  "requestLogDefaults i accepted = \<lparr>rl_id = i, rl_state = Done, rl_at = accepted, rl_apiKeyId = None, rl_requestedModel = [],
     rl_resolvedProvider = None, rl_resolvedModel = None, rl_credentialId = None, rl_attempts = 0, rl_status = 0,
     rl_errorCode = None, rl_inputTokens = 0, rl_outputTokens = 0, rl_cacheReadTokens = 0, rl_cacheWriteTokens = 0,
     rl_ttftMs = None, rl_durationMs = 0, rl_costUsd = 0, rl_degradations = []\<rparr>"

definition newCompletedRequestLog :: "string \<Rightarrow> instant \<Rightarrow> string \<Rightarrow> request_log" where
  "newCompletedRequestLog i accepted requestedModel = (requestLogDefaults i accepted)\<lparr>rl_requestedModel := requestedModel, rl_status := 0\<rparr>"

definition noted :: "string list \<Rightarrow> string list \<Rightarrow> string list" where
  "noted ds entries = foldl (\<lambda>ds d. if d \<in> set ds then ds else ds @ [d]) ds entries"

definition DISPATCH_REFRESH_LEAD_MS :: int where "DISPATCH_REFRESH_LEAD_MS = 120000"
definition PROBE_TTL_MS :: int where "PROBE_TTL_MS = 180000"

subsection \<open>Effects and answers\<close>

datatype effect =
    Yielded stream_event
  | ClaimedSlot nat string string provider_id
  | FreedSlot nat "int option"
  | ClaimedProbe string nat
  | FreedProbe string
  | Health credential_health credential_health
  | Routed provider_id string string
  | Refreshed string
  | Sent string string
  | Opened "stream_event list"
  | Rejected gateway_error

record reply =
  ry_degradations :: "string list"
  ry_events :: "stream_event list"
  ry_fails :: "thrown option"

record world =
  wd_now :: "nat \<Rightarrow> instant"
  wd_rand :: "nat \<Rightarrow> rat"
  wd_gone :: "nat \<Rightarrow> bool"
  wd_cut :: "nat \<Rightarrow> bool"
  wd_reason :: "nat \<Rightarrow> thrown"
  wd_left :: "nat \<Rightarrow> bool"
  wd_held :: "nat \<Rightarrow> thrown + nat"
  wd_row :: "nat \<Rightarrow> thrown + credential_health option"
  wd_route :: "nat \<Rightarrow> thrown + unit"
  wd_secrets :: "nat \<Rightarrow> thrown + unit"
  wd_refresh :: "nat \<Rightarrow> thrown + unit"
  wd_send :: "nat \<Rightarrow> thrown + reply"

record run_input =
  rc_candidates :: "candidate list"
  rc_snapshot :: snapshot
  rc_started :: instant
  rc_deadline :: "instant option"
  rc_providers :: descriptors
  rc_adapters :: "provider_id list"
  rc_requestedModel :: string
  rc_world :: world

record run_state =
  rn_tick :: nat
  rn_trace :: "effect list"
  rn_log :: request_log
  rn_lastError :: "gateway_error option"
  rn_attempts :: nat
  rn_slots :: nat
  rn_eagerHeld :: bool
  rn_probe :: "string option"
  rn_probing :: bool
  rn_committed :: bool
  rn_closedAtCommit :: bool
  rn_retried :: bool
  rn_terminal :: bool
  rn_pending :: "stream_event list"

datatype stop = SReturn | SThrow thrown | SAbort | SClosed

datatype control = Retry | NextCandidate | BreakLoop

type_synonym 'a step = "run_state \<Rightarrow> (stop + 'a) \<times> run_state"

definition ret :: "'a \<Rightarrow> 'a step" where "ret v s = (Inr v, s)"
definition raise :: "stop \<Rightarrow> 'a step" where "raise h s = (Inl h, s)"

definition andThen :: "'a step \<Rightarrow> ('a \<Rightarrow> 'b step) \<Rightarrow> 'b step" where
  "andThen m f s = (case m s of (Inl h, s') \<Rightarrow> (Inl h, s') | (Inr v, s') \<Rightarrow> f v s')"

definition change :: "(run_state \<Rightarrow> run_state) \<Rightarrow> unit step" where "change f s = (Inr (), f s)"
definition emit :: "effect \<Rightarrow> unit step" where "emit e = change (\<lambda>s. s\<lparr>rn_trace := rn_trace s @ [e]\<rparr>)"
definition setLog :: "(request_log \<Rightarrow> request_log) \<Rightarrow> unit step" where "setLog f = change (\<lambda>s. s\<lparr>rn_log := f (rn_log s)\<rparr>)"

definition ask :: "(nat \<Rightarrow> 'a) \<Rightarrow> 'a step" where
  "ask f s = (Inr (f (rn_tick s)), s\<lparr>rn_tick := rn_tick s + 1\<rparr>)"

definition tryAsk :: "(nat \<Rightarrow> thrown + 'a) \<Rightarrow> 'a step" where
  "tryAsk f = andThen (ask f) (\<lambda>r. case r of Inl e \<Rightarrow> raise (SThrow e) | Inr v \<Rightarrow> ret v)"

text \<open>\<^verbatim>\<open>finally\<close> and a \<^verbatim>\<open>catch\<close> that swallows.\<close>

definition andFinally :: "'a step \<Rightarrow> (run_state \<Rightarrow> run_state) \<Rightarrow> 'a step" where
  "andFinally m f s = (let (r, s') = m s in (r, f s'))"

definition swallow :: "'a step \<Rightarrow> unit step" where
  "swallow m s = (case m s of (Inl (SThrow e), s') \<Rightarrow> (Inr (), s') | (Inl h, s') \<Rightarrow> (Inl h, s') | (Inr v, s') \<Rightarrow> (Inr (), s'))"

text \<open>A \<^verbatim>\<open>yield\<close>: the consumer resumes the generator, or closes it there.\<close>

definition yieldEvent :: "run_input \<Rightarrow> stream_event \<Rightarrow> unit step" where
  "yieldEvent x e = andThen (emit (Yielded e)) (\<lambda>_. andThen (ask (wd_left (rc_world x)))
     (\<lambda>left. if left then raise SClosed else ret ()))"

primrec yieldAll :: "run_input \<Rightarrow> stream_event list \<Rightarrow> unit step" where
  "yieldAll x [] = ret ()"
| "yieldAll x (e # es) = andThen (yieldEvent x e) (\<lambda>_. yieldAll x es)"

subsection \<open>Helpers of the generator\<close>

abbreviation clock :: "run_input \<Rightarrow> instant step" where "clock x \<equiv> ask (wd_now (rc_world x))"

definition noteDegradations :: "string list \<Rightarrow> unit step" where
  "noteDegradations entries = setLog (\<lambda>l. l\<lparr>rl_degradations := noted (rl_degradations l) entries\<rparr>)"

definition rewrap :: "classified \<Rightarrow> string \<Rightarrow> gateway_error" where
  "rewrap c message = GatewayError (cf_code c) message
     (no_opts\<lparr>geo_retryAfterMs := cf_retryAfterMs c, geo_provider := cf_provider c,
        geo_gatewayAuthored := (if cf_gatewayAuthored c then Some True else None)\<rparr>)"

definition deadlineError :: gateway_error where
  "deadlineError = GatewayError TIMEOUT ''request deadline exceeded'' no_opts"

definition maxAttempts :: "run_input \<Rightarrow> nat" where
  "maxAttempts x = min (st_maxAttempts (sn_settings (rc_snapshot x))) (length (rc_candidates x))"

definition persistHealth :: "run_input \<Rightarrow> candidate \<Rightarrow> (credential_health \<Rightarrow> credential_health) \<Rightarrow> credential_health step" where
  "persistHealth x c transition = andThen (tryAsk (wd_row (rc_world x))) (\<lambda>current.
     let prior = nullish current (blankHealth (cr_id (pr_credential c)) (tg_model (pr_target c)))
     in andThen (emit (Health prior (transition prior))) (\<lambda>_. ret prior))"

definition persistFailure :: "run_input \<Rightarrow> candidate \<Rightarrow> error_code \<Rightarrow> int option \<Rightarrow> unit step" where
  "persistFailure x c code retryAfterMs = andThen (clock x) (\<lambda>now. andThen (ask (wd_rand (rc_world x))) (\<lambda>jitter.
     andThen (persistHealth x c (\<lambda>current. recordFailure current
       \<lparr>fo_settings = sn_settings (rc_snapshot x), fo_now = now, fo_code = code,
        fo_retryAfterMs = retryAfterMs, fo_jitter = Some jitter\<rparr>)) (\<lambda>_. ret ())))"

definition concluded :: "run_input \<Rightarrow> nat \<Rightarrow> log_code option \<Rightarrow> unit step" where
  "concluded x status code = andThen (clock x) (\<lambda>now. setLog (\<lambda>l. l\<lparr>rl_status := status, rl_errorCode := code,
     rl_durationMs := now - rc_started x\<rparr>))"

definition waitForCancellation :: "run_input \<Rightarrow> 'a step \<Rightarrow> 'a step" where
  "waitForCancellation x m = andThen (ask (wd_cut (rc_world x))) (\<lambda>cut.
     if cut then andThen (ask (wd_reason (rc_world x))) (\<lambda>e. raise (SThrow e)) else m)"

text \<open>\<^verbatim>\<open>checkCancellation\<close>: the client is gone, the deadline has passed, or go on.\<close>

definition checkCancellation :: "run_input \<Rightarrow> unit step" where
  "checkCancellation x = andThen (ask (wd_gone (rc_world x))) (\<lambda>gone. if gone then raise SAbort else
     andThen (ask (wd_cut (rc_world x))) (\<lambda>cut. andThen (clock x) (\<lambda>now.
       case rc_deadline x of
         None \<Rightarrow> ret ()
       | Some d \<Rightarrow> if cut \<or> now \<ge> d then raise (SThrow (ThrownGateway deadlineError)) else ret ())))"

subsection \<open>One attempt\<close>

definition isStale :: "credential_view \<Rightarrow> instant \<Rightarrow> bool" where
  "isStale cred now = (cr_authType cred = OAuth
     \<and> (case cr_expiresAt cred of None \<Rightarrow> False | Some t \<Rightarrow> t - DISPATCH_REFRESH_LEAD_MS \<le> now))"

text \<open>\<^verbatim>\<open>attempt\<close>: refreshed secrets in hand, a stale token refreshed first, then the adapter.\<close>

definition attempt :: "run_input \<Rightarrow> candidate \<Rightarrow> instant \<Rightarrow> bool \<Rightarrow> reply step" where
  "attempt x c now hasSecrets =
     (let cred = pr_credential c in
      andThen (if hasSecrets then ret () else tryAsk (wd_secrets (rc_world x))) (\<lambda>_.
      andThen (if \<not> hasSecrets \<and> isStale cred now
               then if \<not> cr_hasRefreshToken cred
                    then raise (SThrow (ThrownGateway (GatewayError AUTH ''credential expired with no refresh token''
                           (no_opts\<lparr>geo_provider := Some (cr_provider cred)\<rparr>))))
                    else andThen (emit (Refreshed (cr_id cred)))
                           (\<lambda>_. waitForCancellation x (tryAsk (wd_refresh (rc_world x))))
               else ret ()) (\<lambda>_.
      andThen (emit (Sent (cr_id cred) (tg_model (pr_target c)))) (\<lambda>_. tryAsk (wd_send (rc_world x))))))"

definition flush :: "run_input \<Rightarrow> unit step" where
  "flush x s = andThen (yieldAll x (rn_pending s)) (\<lambda>_. change (\<lambda>s. s\<lparr>rn_pending := []\<rparr>)) s"

text \<open>The commit point, at the first delta: from here on there is no failover.\<close>

definition commitPoint :: "run_input \<Rightarrow> candidate \<Rightarrow> unit step" where
  "commitPoint x c =
     andThen (change (\<lambda>s. s\<lparr>rn_committed := True\<rparr>)) (\<lambda>_.
     andThen (clock x) (\<lambda>now.
     andThen (setLog (\<lambda>l. l\<lparr>rl_ttftMs := Some (now - rc_started x)\<rparr>)) (\<lambda>_.
     andThen (flush x) (\<lambda>_ s.
       if rn_probing s
       then andThen (persistHealth x c recordSuccess)
              (\<lambda>_. change (\<lambda>s. s\<lparr>rn_probing := False, rn_closedAtCommit := True\<rparr>)) s
       else (Inr (), s)))))"

definition streamError :: "run_input \<Rightarrow> candidate \<Rightarrow> error_code \<Rightarrow> string \<Rightarrow> bool \<Rightarrow> unit step" where
  "streamError x c code message retryable s =
     (let said = GatewayError code message (no_opts\<lparr>geo_provider := Some (tg_provider (pr_target c))\<rparr>) in
      if \<not> rn_committed s \<and> RETRYABLE code
      then raise (SThrow (ThrownGateway said)) (s\<lparr>rn_terminal := True\<rparr>)
      else
        andThen (concluded x (HTTP_STATUS code) (Some (Code code))) (\<lambda>_.
        andThen (emit (Rejected said)) (\<lambda>_.
        andThen (yieldEvent x (Err code message retryable)) (\<lambda>_.
        andThen (swallow (persistFailure x c code None)) (\<lambda>_. raise SReturn)))) (s\<lparr>rn_terminal := True, rn_committed := True\<rparr>))"

definition logUsage :: "run_input \<Rightarrow> candidate \<Rightarrow> usage \<Rightarrow> unit step" where
  "logUsage x c u = andThen (change (\<lambda>s. s\<lparr>rn_terminal := True\<rparr>)) (\<lambda>_.
     setLog (\<lambda>l. l\<lparr>rl_inputTokens := us_inputTokens u, rl_outputTokens := us_outputTokens u,
       rl_cacheReadTokens := us_cacheReadTokens u, rl_cacheWriteTokens := us_cacheWriteTokens u,
       rl_costUsd := priceOf (tg_costPerMTok (pr_target c)) u (tg_provider (pr_target c)) (rc_providers x)\<rparr>))"

text \<open>One turn of the \<^verbatim>\<open>for await\<close>, and the loop, left at \<^verbatim>\<open>end\<close>.\<close>

definition forward :: "run_input \<Rightarrow> stream_event \<Rightarrow> unit step" where
  "forward x e s =
     (if \<not> rn_committed s \<and> \<not> is_end e then (Inr (), s\<lparr>rn_pending := rn_pending s @ [e]\<rparr>)
      else andThen (if \<not> rn_committed s then flush x else ret ()) (\<lambda>_. yieldEvent x e) s)"

definition onEvent :: "run_input \<Rightarrow> candidate \<Rightarrow> stream_event \<Rightarrow> unit step" where
  "onEvent x c e =
     andThen (\<lambda>s. if is_delta e \<and> \<not> rn_committed s then commitPoint x c s else (Inr (), s)) (\<lambda>_.
     andThen (case e of End r u v \<Rightarrow> logUsage x c u | Err code message retryable \<Rightarrow> streamError x c code message retryable | _ \<Rightarrow> ret ()) (\<lambda>_.
     forward x e))"

fun runEvents :: "run_input \<Rightarrow> candidate \<Rightarrow> thrown option \<Rightarrow> stream_event list \<Rightarrow> unit step" where
  "runEvents x c fails [] = (case fails of None \<Rightarrow> ret () | Some e \<Rightarrow> raise (SThrow e))"
| "runEvents x c fails (e # es) = andThen (onEvent x c e) (\<lambda>_. if is_end e then ret () else runEvents x c fails es)"

definition successWrites :: "run_input \<Rightarrow> candidate \<Rightarrow> bool" where
  "successWrites x c = successWouldChange (sn_health (rc_snapshot x) (healthKey (cr_id (pr_credential c)) (tg_model (pr_target c))))"

text \<open>Draining a reply: its events, then the bookkeeping of a success.\<close>

definition succeed :: "run_input \<Rightarrow> candidate \<Rightarrow> unit step" where
  "succeed x c =
     andThen (\<lambda>s. if rn_terminal s then (Inr (), s)
       else raise (SThrow (ThrownGateway (GatewayError UPSTREAM ''upstream stream ended without a terminal event'' no_opts))) s) (\<lambda>_.
     andThen (\<lambda>s. if successWrites x c \<and> \<not> rn_closedAtCommit s
       then andThen (persistHealth x c recordSuccess) (\<lambda>_. ret ()) s else (Inr (), s)) (\<lambda>_.
     concluded x 200 None))"

definition drain :: "run_input \<Rightarrow> candidate \<Rightarrow> reply \<Rightarrow> unit step" where
  "drain x c result =
     andThen (noteDegradations (ry_degradations result)) (\<lambda>_.
     andThen (emit (Opened (ry_events result))) (\<lambda>_.
     andThen (change (\<lambda>s. s\<lparr>rn_terminal := False, rn_pending := []\<rparr>)) (\<lambda>_.
     andThen (runEvents x c (ry_fails result) (ry_events result)) (\<lambda>_.
     succeed x c))))"

text \<open>The body of the \<^verbatim>\<open>while\<close>'s \<^verbatim>\<open>try\<close>.\<close>

definition tryOnce :: "run_input \<Rightarrow> candidate \<Rightarrow> instant \<Rightarrow> unit step" where
  "tryOnce x c now s = andThen (waitForCancellation x (attempt x c now (rn_retried s))) (drain x c) s"

subsection \<open>A failed attempt\<close>

definition judged_as :: "run_input \<Rightarrow> thrown \<Rightarrow> string \<Rightarrow> gateway_error step" where
  "judged_as x e fallback =
     andThen (ask (wd_gone (rc_world x))) (\<lambda>gone. if gone then raise SAbort else
     andThen (ask (wd_cut (rc_world x))) (\<lambda>cut.
     let classified = (if rc_deadline x \<noteq> None \<and> cut then bare TIMEOUT else classify e);
         lastError = rewrap classified (describeError e fallback)
     in andThen (change (\<lambda>s. s\<lparr>rn_lastError := Some lastError\<rparr>)) (\<lambda>_. ret lastError)))"

definition refreshable :: "candidate \<Rightarrow> instant \<Rightarrow> error_code \<Rightarrow> run_state \<Rightarrow> bool" where
  "refreshable c now code s = (code = AUTH \<and> \<not> rn_committed s \<and> \<not> rn_retried s
     \<and> \<not> isStale (pr_credential c) now \<and> cr_authType (pr_credential c) = OAuth \<and> cr_hasRefreshToken (pr_credential c))"

definition settle :: "run_input \<Rightarrow> candidate \<Rightarrow> gateway_error \<Rightarrow> control step" where
  "settle x c failure =
     andThen (persistFailure x c (ge_code failure) (ge_retryAfterMs failure)) (\<lambda>_ s.
       if rn_committed s
       then andThen (concluded x (HTTP_STATUS (ge_code failure)) (Some (Code (ge_code failure)))) (\<lambda>_.
            andThen (emit (Rejected failure)) (\<lambda>_.
            andThen (yieldEvent x (Err (ge_code failure) (ge_message failure) False)) (\<lambda>_. raise SReturn))) s
       else (Inr (if RETRYABLE (ge_code failure) then NextCandidate else BreakLoop), s))"

definition onFailure :: "run_input \<Rightarrow> candidate \<Rightarrow> instant \<Rightarrow> thrown \<Rightarrow> control step" where
  "onFailure x c now e =
     andThen (judged_as x e ''attempt failed'') (\<lambda>failure.
     andThen (case e of ThrownGateway g \<Rightarrow> noteDegradations (ge_degradations g) | _ \<Rightarrow> ret ()) (\<lambda>_ s.
       if refreshable c now (ge_code failure) s
       then (case andThen (emit (Refreshed (cr_id (pr_credential c))))
               (\<lambda>_. waitForCancellation x (tryAsk (wd_refresh (rc_world x)))) (s\<lparr>rn_retried := True\<rparr>) of
               (Inr u, s') \<Rightarrow> (Inr Retry, s')
             | (Inl (SThrow e'), s') \<Rightarrow> andThen (judged_as x e' ''credential refresh failed'') (settle x c) s'
             | (Inl h, s') \<Rightarrow> (Inl h, s'))
       else settle x c failure s))"

subsection \<open>Framing\<close>

text \<open>
  Most steps leave most of the state alone. A relation between the states before and after
  that is a preorder, and blind to the tick, is kept by a sequence whose parts keep it; the
  rules are proved once and used for each relation below.
\<close>

definition keeps :: "(run_state \<Rightarrow> run_state \<Rightarrow> bool) \<Rightarrow> 'a step \<Rightarrow> bool" where
  "keeps R m \<longleftrightarrow> (\<forall>s. R s (snd (m s)))"

locale framed =
  fixes R :: "run_state \<Rightarrow> run_state \<Rightarrow> bool"
  assumes same: "R s s"
    and trans: "R s s' \<Longrightarrow> R s' s'' \<Longrightarrow> R s s''"
    and ticked: "R s (s\<lparr>rn_tick := n\<rparr>)"
begin

lemma keeps_ret [intro!]: "keeps R (ret v)"
  by (simp add: keeps_def ret_def same)

lemma keeps_raise [intro!]: "keeps R (raise h)"
  by (simp add: keeps_def raise_def same)

lemma keeps_skip [intro!]: "keeps R (Pair r)"
  by (simp add: keeps_def same)

lemma keeps_ask [intro!]: "keeps R (ask f)"
  by (simp add: keeps_def ask_def ticked)

lemma keeps_change: "(\<And>s. R s (f s)) \<Longrightarrow> keeps R (change f)"
  by (simp add: keeps_def change_def)

lemma keeps_andThen: "keeps R m \<Longrightarrow> (\<And>v. keeps R (f v)) \<Longrightarrow> keeps R (andThen m f)"
  unfolding keeps_def andThen_def by (auto split: prod.splits sum.splits) (metis snd_conv trans)+

lemma keeps_tryAsk [intro!]: "keeps R (tryAsk f)"
  unfolding tryAsk_def by (rule keeps_andThen) (auto split: sum.splits)

lemma keeps_swallow: "keeps R m \<Longrightarrow> keeps R (swallow m)"
  unfolding keeps_def swallow_def by (auto split: prod.splits sum.splits stop.splits) (metis snd_conv)+

lemma keeps_let: "(\<And>s. keeps R (f s)) \<Longrightarrow> keeps R (\<lambda>s. f s s)"
  by (simp add: keeps_def)

lemma keeps_if: "keeps R a \<Longrightarrow> keeps R b \<Longrightarrow> keeps R (\<lambda>s. if P s then a s else b s)"
  by (simp add: keeps_def)

end

fun is_claim :: "effect \<Rightarrow> bool" where
  "is_claim (ClaimedSlot i cid m p) = True"
| "is_claim (FreedSlot i t) = True"
| "is_claim (ClaimedProbe k n) = True"
| "is_claim (FreedProbe k) = True"
| "is_claim (Routed p m cid) = True"
| "is_claim e = False"

text \<open>The columns of the row that say who served the request.\<close>

definition servedBy :: "request_log \<Rightarrow> provider_id option \<times> string option \<times> string option" where
  "servedBy l = (rl_resolvedProvider l, rl_resolvedModel l, rl_credentialId l)"

text \<open>
  What one try of an attempt may touch: the log but for these columns, the flags of the
  attempt, effects that claim nothing.
\<close>

locale try_framed = framed +
  assumes emitted: "\<not> is_claim e \<Longrightarrow> R s (s\<lparr>rn_trace := rn_trace s @ [e]\<rparr>)"
    and logged: "servedBy l = servedBy (rn_log s) \<Longrightarrow> R s (s\<lparr>rn_log := l\<rparr>)"
    and errored: "R s (s\<lparr>rn_lastError := le\<rparr>)"
    and committed: "R s (s\<lparr>rn_committed := b\<rparr>)"
    and probed: "R s (s\<lparr>rn_probing := b, rn_closedAtCommit := b'\<rparr>)"
    and streamed: "R s (s\<lparr>rn_terminal := b, rn_pending := es\<rparr>)"
begin

lemma keeps_emit [intro!]: "\<not> is_claim e \<Longrightarrow> keeps R (emit e)"
  unfolding emit_def by (rule keeps_change) (rule emitted)

lemma keeps_setLog: "(\<And>l. servedBy (f l) = servedBy l) \<Longrightarrow> keeps R (setLog f)"
  unfolding setLog_def by (rule keeps_change) (rule logged)

lemma keeps_yieldEvent [intro!]: "keeps R (yieldEvent x e)"
  unfolding yieldEvent_def by (auto intro!: keeps_andThen)

lemma keeps_yieldAll [intro!]: "keeps R (yieldAll x es)"
  by (induction es) (auto intro!: keeps_andThen)

lemma keeps_pending: "R s (s\<lparr>rn_pending := es\<rparr>)" "R s (s\<lparr>rn_terminal := b\<rparr>)"
  using streamed [where s = s and b = "rn_terminal s" and es = es] streamed [where s = s and b = b and es = "rn_pending s"] by simp_all

lemma keeps_flush [intro!]: "keeps R (flush x)"
  unfolding flush_def by (rule keeps_let) (auto intro!: keeps_andThen keeps_change keeps_pending)

lemma keeps_persistHealth [intro!]: "keeps R (persistHealth x c t)"
  unfolding persistHealth_def Let_def by (auto intro!: keeps_andThen)

lemma keeps_persistFailure [intro!]: "keeps R (persistFailure x c code r)"
  unfolding persistFailure_def by (auto intro!: keeps_andThen)

lemma keeps_concluded [intro!]: "keeps R (concluded x st code)"
  unfolding concluded_def by (auto intro!: keeps_andThen keeps_setLog simp: servedBy_def)

lemma keeps_noteDegradations [intro!]: "keeps R (noteDegradations es)"
  unfolding noteDegradations_def by (rule keeps_setLog) (simp add: servedBy_def)

lemma keeps_waitForCancellation: "keeps R m \<Longrightarrow> keeps R (waitForCancellation x m)"
  unfolding waitForCancellation_def by (auto intro!: keeps_andThen)

lemma keeps_attempt [intro!]: "keeps R (attempt x c now b)"
  unfolding attempt_def Let_def by (auto intro!: keeps_andThen keeps_waitForCancellation)

lemma keeps_commitPoint [intro!]: "keeps R (commitPoint x c)"
  unfolding commitPoint_def by (auto intro!: keeps_andThen keeps_if keeps_change keeps_setLog committed probed simp: servedBy_def)

lemma keeps_streamError [intro!]: "keeps R (streamError x c code m r)"
proof -
  have "keeps R (andThen (change (\<lambda>s. s\<lparr>rn_terminal := True\<rparr>)) (\<lambda>_ s. if \<not> rn_committed s \<and> RETRYABLE code
      then raise (SThrow (ThrownGateway (GatewayError code m (no_opts\<lparr>geo_provider := Some (tg_provider (pr_target c))\<rparr>)))) s
      else andThen (change (\<lambda>s. s\<lparr>rn_committed := True\<rparr>)) (\<lambda>_. andThen (concluded x (HTTP_STATUS code) (Some (Code code))) (\<lambda>_.
        andThen (emit (Rejected (GatewayError code m (no_opts\<lparr>geo_provider := Some (tg_provider (pr_target c))\<rparr>)))) (\<lambda>_.
        andThen (yieldEvent x (Err code m r)) (\<lambda>_.
        andThen (swallow (persistFailure x c code None)) (\<lambda>_. raise SReturn))))) s))"
    by (intro keeps_andThen keeps_change keeps_if keeps_pending committed keeps_swallow) auto
  moreover have "streamError x c code m r = \<dots>" by (simp add: fun_eq_iff streamError_def andThen_def change_def Let_def)
  ultimately show ?thesis by simp
qed

lemma keeps_onEvent [intro!]: "keeps R (onEvent x c e)"
proof -
  have "keeps R (logUsage x c u)" for u
    unfolding logUsage_def by (auto intro!: keeps_andThen keeps_change keeps_setLog keeps_pending simp: servedBy_def)
  moreover have "keeps R (forward x e)"
  proof -
    have "keeps R (andThen (if b then flush x else ret ()) (\<lambda>_. yieldEvent x e))" for b
      by (auto intro!: keeps_andThen)
    then show ?thesis by (simp add: keeps_def forward_def keeps_pending)
  qed
  ultimately show ?thesis unfolding onEvent_def by (auto intro!: keeps_andThen keeps_if split: stream_event.split)
qed

lemma keeps_runEvents [intro!]: "keeps R (runEvents x c fails es)"
  by (induction es) (auto intro!: keeps_andThen split: option.split)

lemma keeps_drain [intro!]: "keeps R (drain x c result)"
  unfolding drain_def succeed_def by (auto intro!: keeps_andThen keeps_change keeps_if streamed)

lemma keeps_tryOnce [intro!]: "keeps R (tryOnce x c now)"
  unfolding tryOnce_def by (rule keeps_let) (auto intro!: keeps_andThen keeps_waitForCancellation)

lemma keeps_judged_as [intro!]: "keeps R (judged_as x e fallback)"
  unfolding judged_as_def Let_def by (auto intro!: keeps_andThen keeps_change errored)

lemma keeps_settle [intro!]: "keeps R (settle x c g)"
  unfolding settle_def by (auto intro!: keeps_andThen keeps_if)

end

text \<open>The retry of a rejected token sets its flag, and nothing else does.\<close>

locale attempt_framed = try_framed +
  assumes retried: "R s (s\<lparr>rn_retried := b\<rparr>)"
begin

lemma keeps_onFailure [intro!]: "keeps R (onFailure x c now e)"
proof -
  let ?refresh = "andThen (emit (Refreshed (cr_id (pr_credential c)))) (\<lambda>_. waitForCancellation x (tryAsk (wd_refresh (rc_world x))))"
  have refresh: "keeps R (andThen (change (\<lambda>s. s\<lparr>rn_retried := True\<rparr>)) (\<lambda>_. ?refresh))"
    by (auto intro!: keeps_andThen keeps_change keeps_waitForCancellation retried)
  have again: "keeps R (andThen (judged_as x e' m) (settle x c))" for e' m by (auto intro!: keeps_andThen)
  have "keeps R (\<lambda>s. case ?refresh (s\<lparr>rn_retried := True\<rparr>) of (Inr u, s') \<Rightarrow> (Inr Retry, s')
      | (Inl (SThrow e'), s') \<Rightarrow> andThen (judged_as x e' ''credential refresh failed'') (settle x c) s'
      | (Inl h, s') \<Rightarrow> (Inl h, s'))"
    unfolding keeps_def
  proof
    fix s
    obtain r s' where r: "?refresh (s\<lparr>rn_retried := True\<rparr>) = (r, s')" by fastforce
    have "R s s'" using refresh r unfolding keeps_def by (force simp: andThen_def change_def split: prod.splits sum.splits)
    then show "R s (snd (case ?refresh (s\<lparr>rn_retried := True\<rparr>) of (Inr u, s') \<Rightarrow> (Inr Retry, s')
      | (Inl (SThrow e'), s') \<Rightarrow> andThen (judged_as x e' ''credential refresh failed'') (settle x c) s'
      | (Inl h, s') \<Rightarrow> (Inl h, s')))"
      unfolding r using again unfolding keeps_def by (auto intro: trans split: sum.split stop.split)
  qed
  then show ?thesis unfolding onFailure_def by (auto intro!: keeps_andThen keeps_if split: thrown.split)
qed

end

definition same_retry :: "run_state \<Rightarrow> run_state \<Rightarrow> bool" where
  "same_retry s s' \<longleftrightarrow> rn_retried s' = rn_retried s"

interpretation retry: try_framed same_retry
  by unfold_locales (simp_all add: same_retry_def)

text \<open>Inside an attempt no slot is taken or freed, and no candidate begun.\<close>

definition within_attempt :: "run_state \<Rightarrow> run_state \<Rightarrow> bool" where
  "within_attempt s s' \<longleftrightarrow> filter is_claim (rn_trace s') = filter is_claim (rn_trace s) \<and> rn_slots s' = rn_slots s
     \<and> rn_eagerHeld s' = rn_eagerHeld s \<and> rn_probe s' = rn_probe s \<and> rn_attempts s' = rn_attempts s"

interpretation inner: attempt_framed within_attempt
  by unfold_locales (simp_all add: within_attempt_def)

text \<open>Inside an attempt the row keeps saying who serves.\<close>

definition same_server :: "run_state \<Rightarrow> run_state \<Rightarrow> bool" where
  "same_server s s' \<longleftrightarrow> servedBy (rn_log s') = servedBy (rn_log s)"

interpretation served: attempt_framed same_server
  by unfold_locales (simp_all add: same_server_def)

subsection \<open>The token retry runs once\<close>

lemma andThen_Inr: "andThen m f s = (Inr v, s') \<longleftrightarrow> (\<exists>u t. m s = (Inr u, t) \<and> f u t = (Inr v, s'))"
  by (auto simp: andThen_def split: prod.splits sum.splits)

lemma andThen_Inl: "andThen m f s = (Inl h, s') \<longleftrightarrow> m s = (Inl h, s') \<or> (\<exists>u t. m s = (Inr u, t) \<and> f u t = (Inl h, s'))"
  by (auto simp: andThen_def split: prod.splits sum.splits)

lemma keepsD: "keeps R m \<Longrightarrow> m s = (r, s') \<Longrightarrow> R s s'"
  by (metis keeps_def snd_conv)

lemma settle_not_Retry: "settle x c g s \<noteq> (Inr Retry, s')"
  by (auto simp: settle_def andThen_Inr raise_def split: if_splits)

lemma onFailure_Retry:
  assumes "onFailure x c now e s = (Inr Retry, s')"
  shows "\<not> rn_retried s \<and> rn_retried s'"
proof -
  from assms obtain g t u t' where t: "judged_as x e ''attempt failed'' s = (Inr g, t)"
    "(case e of ThrownGateway g \<Rightarrow> noteDegradations (ge_degradations g) | _ \<Rightarrow> ret ()) t = (Inr u, t')"
    and rest: "(if refreshable c now (ge_code g) t'
       then (case andThen (emit (Refreshed (cr_id (pr_credential c))))
               (\<lambda>_. waitForCancellation x (tryAsk (wd_refresh (rc_world x)))) (t'\<lparr>rn_retried := True\<rparr>) of
               (Inr u, s') \<Rightarrow> (Inr Retry, s')
             | (Inl (SThrow e'), s') \<Rightarrow> andThen (judged_as x e' ''credential refresh failed'') (settle x c) s'
             | (Inl h, s') \<Rightarrow> (Inl h, s'))
       else settle x c g t') = (Inr Retry, s')"
    unfolding onFailure_def andThen_Inr by blast
  have "rn_retried t' = rn_retried s"
  proof -
    have "keeps same_retry (case e of ThrownGateway g \<Rightarrow> noteDegradations (ge_degradations g) | _ \<Rightarrow> ret ())"
      by (auto split: thrown.split)
    from keepsD [OF retry.keeps_judged_as t(1)] keepsD [OF this t(2)] show ?thesis by (simp add: same_retry_def)
  qed
  moreover have ref: "refreshable c now (ge_code g) t'" using rest settle_not_Retry by (auto split: if_splits)
  moreover have "rn_retried s'"
  proof -
    have "keeps same_retry (andThen (emit (Refreshed (cr_id (pr_credential c))))
        (\<lambda>_. waitForCancellation x (tryAsk (wd_refresh (rc_world x)))))"
      by (auto intro!: retry.keeps_andThen retry.keeps_waitForCancellation)
    from keepsD [OF this, of "t'\<lparr>rn_retried := True\<rparr>"] rest ref
    show ?thesis by (auto simp: same_retry_def andThen_Inr settle_not_Retry split: prod.splits sum.splits stop.splits)
  qed
  ultimately show ?thesis by (simp add: refreshable_def)
qed

lemma tryOnce_retried: "tryOnce x c now s = (r, s') \<Longrightarrow> rn_retried s' = rn_retried s"
  using keepsD [OF retry.keeps_tryOnce] by (simp add: same_retry_def)

text \<open>The \<^verbatim>\<open>while (true)\<close> of an attempt.\<close>

function runAttempt :: "run_input \<Rightarrow> candidate \<Rightarrow> instant \<Rightarrow> control step" where
  "runAttempt x c now s =
     (case tryOnce x c now s of
        (Inl (SThrow e), s1) \<Rightarrow>
          (case onFailure x c now e s1 of
             (Inr Retry, s2) \<Rightarrow> runAttempt x c now s2
           | (r, s2) \<Rightarrow> (r, s2))
      | (Inl h, s1) \<Rightarrow> (Inl h, s1)
      | (Inr u, s1) \<Rightarrow> (Inl SReturn, s1))"
  by pat_completeness auto
termination
  by (relation "measure (\<lambda>(x, c, now, s). if rn_retried s then 0 else 1)")
    (auto dest!: tryOnce_retried [OF HOL.sym] onFailure_Retry [OF HOL.sym])

declare runAttempt.simps [simp del]

text \<open>The three ways a turn of the loop goes.\<close>

lemma runAttempt_turn:
  obtains (again) e s1 s2 where "tryOnce x c now s = (Inl (SThrow e), s1)" "onFailure x c now e s1 = (Inr Retry, s2)"
      "runAttempt x c now s = runAttempt x c now s2"
  | (failed) e s1 r s2 where "tryOnce x c now s = (Inl (SThrow e), s1)" "onFailure x c now e s1 = (r, s2)"
      "runAttempt x c now s = (r, s2)"
  | (ended) r s1 where "tryOnce x c now s = (r, s1)" "\<forall>e. r \<noteq> Inl (SThrow e)"
      "runAttempt x c now s = (case r of Inl h \<Rightarrow> (Inl h, s1) | Inr u \<Rightarrow> (Inl SReturn, s1))"
proof -
  obtain r s1 where s1: "tryOnce x c now s = (r, s1)" by fastforce
  show thesis
  proof (cases "\<exists>e. r = Inl (SThrow e)")
    case True
    then obtain e where e: "r = Inl (SThrow e)" ..
    obtain r' s2 where s2: "onFailure x c now e s1 = (r', s2)" by fastforce
    show thesis
    proof (cases "r' = Inr Retry")
      case True
      with s1 s2 e show thesis by (intro again [of e s1 s2]) (simp_all add: runAttempt.simps [of x c now s])
    next
      case False
      with s1 s2 e show thesis
        by (intro failed [of e s1 r' s2]) (auto simp: runAttempt.simps [of x c now s] split: sum.split control.split)
    qed
  next
    case False
    with s1 show thesis by (intro ended [of r s1]) (auto simp: runAttempt.simps [of x c now s] split: sum.split stop.split)
  qed
qed

subsection \<open>Candidates in turn\<close>

definition probeKey :: "candidate \<Rightarrow> string" where
  "probeKey c = ''probe:'' @ healthKey (cr_id (pr_credential c)) (tg_model (pr_target c))"

text \<open>The probe claim: whether the candidate may run.\<close>

definition claimProbe :: "run_input \<Rightarrow> candidate \<Rightarrow> bool step" where
  "claimProbe x c =
     andThen (tryAsk (wd_held (rc_world x))) (\<lambda>held.
     andThen (emit (ClaimedProbe (probeKey c) held)) (\<lambda>_.
     andThen (change (\<lambda>s. s\<lparr>rn_probe := Some (probeKey c)\<rparr>)) (\<lambda>_.
     if held > 0
     then andThen (noteDegradations [''excluded:'' @ cr_id (pr_credential c) @ '':breaker:probing'']) (\<lambda>_. ret False)
     else andThen (persistHealth x c (\<lambda>current. if h_breakerState current = Closed then current else current\<lparr>h_breakerState := HalfOpen\<rparr>)) (\<lambda>prior.
          andThen (change (\<lambda>s. s\<lparr>rn_probing := (h_breakerState prior \<noteq> Closed)\<rparr>)) (\<lambda>_. ret True)))))"

definition beginAttempt :: "run_input \<Rightarrow> candidate \<Rightarrow> instant step" where
  "beginAttempt x c =
     (let cred = pr_credential c; target = pr_target c in
      andThen (change (\<lambda>s. s\<lparr>rn_attempts := rn_attempts s + 1,
        rn_log := (rn_log s)\<lparr>rl_attempts := rn_attempts s + 1, rl_credentialId := Some (cr_id cred),
          rl_resolvedProvider := Some (tg_provider target), rl_resolvedModel := Some (tg_model target)\<rparr>\<rparr>)) (\<lambda>_.
      andThen (emit (Routed (tg_provider target) (tg_model target) (cr_id cred))) (\<lambda>_.
      andThen (tryAsk (wd_route (rc_world x))) (\<lambda>_.
      andThen (setLog (\<lambda>l. l\<lparr>rl_inputTokens := 0, rl_outputTokens := 0, rl_cacheReadTokens := 0, rl_cacheWriteTokens := 0,
        rl_ttftMs := None\<rparr>)) (\<lambda>_.
      andThen (change (\<lambda>s. s\<lparr>rn_committed := False, rn_closedAtCommit := False, rn_retried := False\<rparr>)) (\<lambda>_.
      andThen (clock x) (\<lambda>now.
      if tg_provider target \<in> set (rc_adapters x) then ret now
      else raise (SThrow (ThrownGateway (GatewayError INTERNAL (''no adapter for provider '' @ tg_provider target) no_opts))))))))))"

definition tryCandidate :: "run_input \<Rightarrow> candidate \<Rightarrow> control step" where
  "tryCandidate x c =
     andThen (if pr_probe c then claimProbe x c else ret True) (\<lambda>go.
     if go then andThen (beginAttempt x c) (runAttempt x c) else ret NextCandidate)"

text \<open>The slot of an attempt: the one claimed at rank time when it is this candidate's, else its own.\<close>

definition adoptable :: "run_input \<Rightarrow> candidate \<Rightarrow> run_state \<Rightarrow> bool" where
  "adoptable x c s = (rn_eagerHeld s \<and> (case rc_candidates x of
      [] \<Rightarrow> False
    | h # _ \<Rightarrow> cr_id (pr_credential h) = cr_id (pr_credential c) \<and> tg_model (pr_target h) = tg_model (pr_target c)))"

definition takeSlot :: "run_input \<Rightarrow> candidate \<Rightarrow> nat step" where
  "takeSlot x c s =
     (if adoptable x c s then (Inr 0, s\<lparr>rn_eagerHeld := False\<rparr>)
      else (Inr (rn_slots s), s\<lparr>rn_slots := rn_slots s + 1, rn_trace := rn_trace s @
              [ClaimedSlot (rn_slots s) (cr_id (pr_credential c)) (tg_model (pr_target c)) (tg_provider (pr_target c))]\<rparr>))"

definition freeClaims :: "nat \<Rightarrow> run_state \<Rightarrow> run_state" where
  "freeClaims slot s = s\<lparr>rn_trace := rn_trace s @ [FreedSlot slot (rl_ttftMs (rn_log s))]
     @ (case rn_probe s of None \<Rightarrow> [] | Some k \<Rightarrow> [FreedProbe k]), rn_probe := None\<rparr>"

definition runCandidate :: "run_input \<Rightarrow> candidate \<Rightarrow> control step" where
  "runCandidate x c = andThen (takeSlot x c) (\<lambda>slot.
     andThen (change (\<lambda>s. s\<lparr>rn_probing := False\<rparr>)) (\<lambda>_.
     andFinally (tryCandidate x c) (freeClaims slot)))"

fun candidateLoop :: "run_input \<Rightarrow> candidate list \<Rightarrow> unit step" where
  "candidateLoop x [] s = (Inr (), s)"
| "candidateLoop x (c # cs) s =
     (if rn_attempts s \<ge> maxAttempts x then (Inr (), s)
      else case checkCancellation x s of
        (Inl (SThrow e), s) \<Rightarrow> (Inr (), s\<lparr>rn_lastError := Some deadlineError\<rparr>)
      | (Inl h, s) \<Rightarrow> (Inl h, s)
      | (Inr u, s) \<Rightarrow>
          (case runCandidate x c s of
             (Inr BreakLoop, s) \<Rightarrow> (Inr (), s)
           | (Inr r, s) \<Rightarrow> candidateLoop x cs s
           | (Inl h, s) \<Rightarrow> (Inl h, s)))"

definition exhausted :: "run_state \<Rightarrow> error_code" where
  "exhausted s = (case rn_lastError s of
     None \<Rightarrow> if rn_attempts s = 0 then NO_CANDIDATES else ALL_CANDIDATES_FAILED
   | Some e \<Rightarrow> if ge_code e = TIMEOUT then TIMEOUT else if \<not> RETRYABLE (ge_code e) then ge_code e else ALL_CANDIDATES_FAILED)"

definition exhaustedMessage :: "run_input \<Rightarrow> run_state \<Rightarrow> string" where
  "exhaustedMessage x s = (case rn_lastError s of
     Some e \<Rightarrow> ge_message e
   | None \<Rightarrow> if rn_attempts s = 0 then ''no eligible credential for model \"'' @ safeToken (rc_requestedModel x) @ ''\"''
       else ''all candidates failed'')"

text \<open>Whoever wrote the last candidate's message wrote this one.\<close>

definition exhaustedError :: "run_input \<Rightarrow> run_state \<Rightarrow> gateway_error" where
  "exhaustedError x s = GatewayError (exhausted s) (exhaustedMessage x s)
     (case rn_lastError s of
        None \<Rightarrow> no_opts
      | Some e \<Rightarrow> if ge_provider e = None then no_opts
          else no_opts\<lparr>geo_provider := ge_provider e, geo_gatewayAuthored := (if ge_gatewayAuthored e then Some True else None)\<rparr>)"

definition giveUp :: "run_input \<Rightarrow> unit step" where
  "giveUp x s =
     andThen (concluded x (HTTP_STATUS (exhausted s)) (Some (Code (exhausted s)))) (\<lambda>_.
     andThen (emit (Rejected (exhaustedError x s))) (\<lambda>_.
     yieldEvent x (Err (exhausted s) (exhaustedMessage x s) False))) s"

text \<open>\<^verbatim>\<open>run\<close>, with the outer \<^verbatim>\<open>finally\<close> that frees the slot claimed at rank time.\<close>

definition run :: "run_input \<Rightarrow> unit step" where
  "run x = andFinally (andThen (candidateLoop x (rc_candidates x)) (\<lambda>_. giveUp x))
     (\<lambda>s. s\<lparr>rn_trace := rn_trace s @ [FreedSlot 0 None]\<rparr>)"

text \<open>The state \<^verbatim>\<open>dispatch\<close> hands to the generator: the head's slot claimed, the row begun.\<close>

definition begun :: "nat \<Rightarrow> run_input \<Rightarrow> request_log \<Rightarrow> run_state" where
  "begun n x l = \<lparr>rn_tick = n,
     rn_trace = (case rc_candidates x of [] \<Rightarrow> [] | h # _ \<Rightarrow>
       [ClaimedSlot 0 (cr_id (pr_credential h)) (tg_model (pr_target h)) (tg_provider (pr_target h))]),
     rn_log = l, rn_lastError = None, rn_attempts = 0, rn_slots = 1, rn_eagerHeld = True, rn_probe = None,
     rn_probing = False, rn_committed = False, rn_closedAtCommit = False, rn_retried = False, rn_terminal = False,
     rn_pending = []\<rparr>"

text \<open>
  The object \<^verbatim>\<open>dispatch\<close> returns wraps the generator. A consumer draws from it, and what
  closes it there is in \<^verbatim>\<open>run\<close>; or closes it before the first pull, by \<^verbatim>\<open>return\<close>, \<^verbatim>\<open>throw\<close> or
  disposal, which skips the generator's body; or never touches it. A wrapper that was closed
  frees the head's slot once more, after the generator.
\<close>

datatype consumer = Draws | ClosesUnstarted | NeverTouches

fun handedOut :: "consumer \<Rightarrow> bool \<Rightarrow> run_input \<Rightarrow> run_state \<Rightarrow> effect list" where
  "handedOut Draws shut x s = rn_trace (snd (run x s)) @ (if shut then [FreedSlot 0 None] else [])"
| "handedOut ClosesUnstarted shut x s = rn_trace s @ [FreedSlot 0 None]"
| "handedOut NeverTouches shut x s = rn_trace s"

text \<open>
  \<^verbatim>\<open>releaseOnAbort\<close>: the client's abort frees the head's slot, at once when the signal was
  aborted by the time the slot was taken, later between any two effects.
\<close>

fun abortFrees :: "nat option \<Rightarrow> effect list \<Rightarrow> effect list" where
  "abortFrees (Some k) (e # tr) = e # take k tr @ [FreedSlot 0 None] @ drop k tr"
| "abortFrees _ tr = tr"

end
