(* ===== verification/Dispatch_Outcome.thy ===== *)
theory Dispatch_Outcome
  imports Dispatch_Run
begin

section \<open>What a dispatched request yields and leaves behind\<close>

text \<open>
  The contract of \<^verbatim>\<open>run\<close>: one stream, one terminal event, a row that agrees with it, no
  failover once a byte went out, and every claim returned. The steps are reasoned about
  with their weakest preconditions, which are equations and computed by the simplifier.
\<close>

definition wp :: "'a step \<Rightarrow> ('a \<Rightarrow> run_state \<Rightarrow> bool) \<Rightarrow> (stop \<Rightarrow> run_state \<Rightarrow> bool) \<Rightarrow> run_state \<Rightarrow> bool" where
  "wp m Q E s \<longleftrightarrow> (case m s of (Inr v, s') \<Rightarrow> Q v s' | (Inl h, s') \<Rightarrow> E h s')"

named_theorems wp_rules

lemma wp_basic [wp_rules]:
  "wp (ret v) Q E s \<longleftrightarrow> Q v s"
  "wp (raise h) Q E s \<longleftrightarrow> E h s"
  "wp (Pair (Inr v)) Q E s \<longleftrightarrow> Q v s"
  "wp (change f) Q' E s \<longleftrightarrow> Q' () (f s)"
  "wp (ask g) Q'' E s \<longleftrightarrow> Q'' (g (rn_tick s)) (s\<lparr>rn_tick := Suc (rn_tick s)\<rparr>)"
  "wp (emit e) Q' E s \<longleftrightarrow> Q' () (s\<lparr>rn_trace := rn_trace s @ [e]\<rparr>)"
  "wp (setLog l) Q' E s \<longleftrightarrow> Q' () (s\<lparr>rn_log := l (rn_log s)\<rparr>)"
  by (simp_all add: wp_def ret_def raise_def change_def ask_def emit_def setLog_def)

lemma wp_andThen [wp_rules]: "wp (andThen m f) Q E s \<longleftrightarrow> wp m (\<lambda>v. wp (f v) Q E) E s"
  by (simp add: wp_def andThen_def split: prod.splits sum.splits)

lemma wp_state [wp_rules]:
  "wp (\<lambda>s. if P s then m s else n s) Q E s \<longleftrightarrow> (if P s then wp m Q E s else wp n Q E s)"
  by (simp add: wp_def)

lemma wp_at: "wp (\<lambda>s. m s s) Q E s \<longleftrightarrow> wp (m s) Q E s"
  by (simp add: wp_def)

lemma wp_tryAsk [wp_rules]: "wp (tryAsk f) Q E s \<longleftrightarrow>
    (case f (rn_tick s) of Inl e \<Rightarrow> E (SThrow e) (s\<lparr>rn_tick := Suc (rn_tick s)\<rparr>) | Inr v \<Rightarrow> Q v (s\<lparr>rn_tick := Suc (rn_tick s)\<rparr>))"
  by (simp add: tryAsk_def wp_rules split: sum.split)

lemma wp_mono:
  assumes "wp m Q E s" and "\<And>v s'. Q v s' \<Longrightarrow> Q' v s'" and "\<And>h s'. E h s' \<Longrightarrow> E' h s'"
  shows "wp m Q' E' s"
  using assms by (auto simp: wp_def split: prod.splits sum.splits)

lemma wp_always: "wp m (\<lambda>_. P) (\<lambda>_. P) s \<longleftrightarrow> P (snd (m s))"
  by (simp add: wp_def split: prod.split sum.split)

lemma wpD: "wp m Q E s \<Longrightarrow> m s = (Inr v, s') \<Longrightarrow> Q v s'" "wp m Q E s \<Longrightarrow> m s = (Inl h, s') \<Longrightarrow> E h s'"
  by (simp_all add: wp_def)

lemma wp_swallow [wp_rules]:
  "wp (swallow m) Q E s \<longleftrightarrow> wp m (\<lambda>_. Q ()) (\<lambda>h s. case h of SThrow e \<Rightarrow> Q () s | _ \<Rightarrow> E h s) s"
  by (simp add: wp_def swallow_def split: prod.splits sum.splits stop.splits)

lemma wp_andFinally [wp_rules]: "wp (andFinally m f) Q E s \<longleftrightarrow> wp m (\<lambda>v s. Q v (f s)) (\<lambda>h s. E h (f s)) s"
  by (simp add: wp_def andFinally_def split: prod.splits sum.splits)

lemma wp_yieldEvent [wp_rules]: "wp (yieldEvent x e) Q E s \<longleftrightarrow>
    (if wd_left (rc_world x) (rn_tick s)
     then E SClosed (s\<lparr>rn_trace := rn_trace s @ [Yielded e], rn_tick := Suc (rn_tick s)\<rparr>)
     else Q () (s\<lparr>rn_trace := rn_trace s @ [Yielded e], rn_tick := Suc (rn_tick s)\<rparr>))"
  by (simp add: yieldEvent_def wp_rules)

lemma wp_yieldAll:
  assumes "\<And>n. Q () (s\<lparr>rn_trace := rn_trace s @ map Yielded es, rn_tick := n\<rparr>)"
    and "\<And>n pre. prefix pre es \<Longrightarrow> E SClosed (s\<lparr>rn_trace := rn_trace s @ map Yielded pre, rn_tick := n\<rparr>)"
  shows "wp (yieldAll x es) Q E s"
  using assms
proof (induction es arbitrary: s)
  case Nil
  from Nil(1) [of "rn_tick s"] show ?case by (simp add: wp_rules)
next
  case (Cons e es)
  let ?s = "s\<lparr>rn_trace := rn_trace s @ [Yielded e], rn_tick := Suc (rn_tick s)\<rparr>"
  have "Q () (?s\<lparr>rn_trace := rn_trace ?s @ map Yielded es, rn_tick := n\<rparr>)" for n
    using Cons.prems(1) [of n] by simp
  moreover have "E SClosed (?s\<lparr>rn_trace := rn_trace ?s @ map Yielded pre, rn_tick := n\<rparr>)" if "prefix pre es" for n pre
    using Cons.prems(2) [of "e # pre" n] that by simp
  ultimately have "wp (yieldAll x es) Q E ?s" by (rule Cons.IH)
  moreover have "E SClosed ?s" using Cons.prems(2) [of "[e]" "Suc (rn_tick s)"] by simp
  ultimately show ?case by (simp add: wp_rules)
qed

subsection \<open>Yields\<close>

fun yields :: "effect list \<Rightarrow> stream_event list" where
  "yields [] = []"
| "yields (Yielded e # tr) = e # yields tr"
| "yields (_ # tr) = yields tr"

lemma yields_append [simp]: "yields (tr @ tr') = yields tr @ yields tr'"
  by (induction tr rule: yields.induct) simp_all

lemma yields_map [simp]: "yields (map Yielded es) = es"
  by (induction es) simp_all

definition noterm :: "stream_event list \<Rightarrow> bool" where
  "noterm es \<longleftrightarrow> list_all (\<lambda>e. \<not> is_end e \<and> \<not> is_err e) es"

lemma noterm_simps [simp]: "noterm []" "noterm (es @ [e]) \<longleftrightarrow> noterm es \<and> \<not> is_end e \<and> \<not> is_err e"
  by (simp_all add: noterm_def)

lemma wp_flush:
  assumes "\<And>n. Q () (s\<lparr>rn_trace := rn_trace s @ map Yielded (rn_pending s), rn_tick := n, rn_pending := []\<rparr>)"
    and "\<And>s'. E SClosed s'"
  shows "wp (flush x) Q E s"
proof -
  have "wp (andThen (yieldAll x (rn_pending s)) (\<lambda>_. change (\<lambda>s. s\<lparr>rn_pending := []\<rparr>))) Q E s"
    unfolding wp_andThen by (rule wp_yieldAll) (use assms in \<open>simp_all add: wp_rules\<close>)
  then show ?thesis unfolding flush_def wp_def .
qed

lemma wp_persistHealth [wp_rules]: "wp (persistHealth x c t) Q E s \<longleftrightarrow>
    (case wd_row (rc_world x) (rn_tick s) of
       Inl e \<Rightarrow> E (SThrow e) (s\<lparr>rn_tick := Suc (rn_tick s)\<rparr>)
     | Inr row \<Rightarrow> let prior = nullish row (blankHealth (cr_id (pr_credential c)) (tg_model (pr_target c))) in
         Q prior (s\<lparr>rn_tick := Suc (rn_tick s), rn_trace := rn_trace s @ [Health prior (t prior)]\<rparr>))"
  by (simp add: persistHealth_def wp_rules Let_def split: sum.split)

lemma wp_concluded [wp_rules]: "wp (concluded x status code) Q E s \<longleftrightarrow>
    Q () (s\<lparr>rn_tick := Suc (rn_tick s), rn_log := (rn_log s)\<lparr>rl_status := status, rl_errorCode := code,
      rl_durationMs := wd_now (rc_world x) (rn_tick s) - rc_started x\<rparr>\<rparr>)"
  by (simp add: concluded_def wp_rules)

definition failedWith :: "error_code \<Rightarrow> request_log \<Rightarrow> bool" where
  "failedWith code l \<longleftrightarrow> rl_status l = HTTP_STATUS code \<and> rl_errorCode l = Some (Code code)"

definition billed :: "run_input \<Rightarrow> candidate \<Rightarrow> usage \<Rightarrow> request_log \<Rightarrow> bool" where
  "billed x c u l \<longleftrightarrow> rl_inputTokens l = us_inputTokens u \<and> rl_outputTokens l = us_outputTokens u
     \<and> rl_cacheReadTokens l = us_cacheReadTokens u \<and> rl_cacheWriteTokens l = us_cacheWriteTokens u
     \<and> rl_costUsd l = priceOf (tg_costPerMTok (pr_target c)) u (tg_provider (pr_target c)) (rc_providers x)"

text \<open>In the middle of a stream, after its end, and when it is cut short.\<close>

definition streaming :: "stream_event list \<Rightarrow> stream_event list \<Rightarrow> stream_event list \<Rightarrow> run_state \<Rightarrow> bool" where
  "streaming evs y0 seen s \<longleftrightarrow> noterm seen \<and> prefix seen evs \<and> \<not> rn_terminal s
     \<and> yields (rn_trace s) = y0 @ (if rn_committed s then seen else [])
     \<and> rn_pending s = (if rn_committed s then [] else seen)"

definition finished :: "run_input \<Rightarrow> candidate \<Rightarrow> stream_event list \<Rightarrow> stream_event list \<Rightarrow> run_state \<Rightarrow> bool" where
  "finished x c evs y0 s \<longleftrightarrow> rn_terminal s \<and> (\<exists>us r u v. noterm us \<and> prefix (us @ [End r u v]) evs
     \<and> yields (rn_trace s) = y0 @ us @ [End r u v] \<and> billed x c u (rn_log s))"

fun stopped :: "stream_event list \<Rightarrow> stream_event list \<Rightarrow> stop \<Rightarrow> run_state \<Rightarrow> bool" where
  "stopped evs y0 (SThrow e) s \<longleftrightarrow> (\<exists>us. noterm us \<and> prefix us evs \<and> yields (rn_trace s) = y0 @ (if rn_committed s then us else []))"
| "stopped evs y0 SReturn s \<longleftrightarrow> (\<exists>us code m r. noterm us \<and> prefix us evs
     \<and> yields (rn_trace s) = y0 @ us @ [Err code m r] \<and> failedWith code (rn_log s))"
| "stopped evs y0 SClosed s \<longleftrightarrow> True"
| "stopped evs y0 SAbort s \<longleftrightarrow> False"

lemma commitPoint_streaming:
  assumes "streaming evs y0 seen s" and "\<not> rn_committed s"
  shows "wp (commitPoint x c) (\<lambda>_ s. streaming evs y0 seen s \<and> rn_committed s) (stopped evs y0) s"
proof -
  let ?s = "s\<lparr>rn_committed := True, rn_tick := Suc (rn_tick s),
    rn_log := (rn_log s)\<lparr>rl_ttftMs := Some (wd_now (rc_world x) (rn_tick s) - rc_started x)\<rparr>\<rparr>"
  have "wp (flush x) (\<lambda>_. wp (\<lambda>s. if rn_probing s
       then andThen (persistHealth x c recordSuccess) (\<lambda>_. change (\<lambda>s. s\<lparr>rn_probing := False, rn_closedAtCommit := True\<rparr>)) s
       else (Inr (), s)) (\<lambda>_ s. streaming evs y0 seen s \<and> rn_committed s) (stopped evs y0)) (stopped evs y0) ?s"
    by (rule wp_flush)
      (use assms in \<open>auto simp: streaming_def wp_rules Let_def split: sum.split\<close>)
  then show ?thesis unfolding commitPoint_def by (simp add: wp_rules)
qed

lemma wp_here: "m s = n s \<Longrightarrow> wp m Q E s \<longleftrightarrow> wp n Q E s"
  by (simp add: wp_def)

lemma wp_forward [wp_rules]: "wp (forward x e) Q E s \<longleftrightarrow>
    (if \<not> rn_committed s \<and> \<not> is_end e then Q () (s\<lparr>rn_pending := rn_pending s @ [e]\<rparr>)
     else if \<not> rn_committed s then wp (flush x) (\<lambda>_. wp (yieldEvent x e) Q E) E s else wp (yieldEvent x e) Q E s)"
proof -
  have "wp (forward x e) Q E s \<longleftrightarrow> (if \<not> rn_committed s \<and> \<not> is_end e
      then wp (\<lambda>s. (Inr (), s\<lparr>rn_pending := rn_pending s @ [e]\<rparr>)) Q E s
      else wp (andThen (if \<not> rn_committed s then flush x else ret ()) (\<lambda>_. yieldEvent x e)) Q E s)"
    by (simp add: forward_def wp_def)
  also have "wp (\<lambda>s. (Inr (), s\<lparr>rn_pending := rn_pending s @ [e]\<rparr>)) Q E s \<longleftrightarrow> Q () (s\<lparr>rn_pending := rn_pending s @ [e]\<rparr>)"
    by (simp add: wp_def)
  finally show ?thesis by (simp only: wp_andThen wp_basic if_distrib [of "\<lambda>m. wp m Q E s"] if_distrib [of "\<lambda>m. wp m (\<lambda>v. wp (yieldEvent x e) Q E) E s"])
qed

lemma forward_streaming:
  assumes "streaming evs y0 seen s" and "prefix (seen @ [e]) evs" and "\<not> is_end e" "\<not> is_err e"
  shows "wp (forward x e) (\<lambda>_. streaming evs y0 (seen @ [e])) (stopped evs y0) s"
  using assms by (simp add: streaming_def wp_rules)

lemma forward_end:
  assumes "streaming evs y0 seen s" and "prefix (seen @ [End r u v]) evs"
  shows "wp (logUsage x c u) (\<lambda>_. wp (forward x (End r u v)) (\<lambda>_. finished x c evs y0) (stopped evs y0)) (stopped evs y0) s"
proof -
  define s1 where "s1 = snd (logUsage x c u s)"
  have s1: "rn_terminal s1" "billed x c u (rn_log s1)" "rn_trace s1 = rn_trace s" "rn_pending s1 = rn_pending s" "rn_committed s1 = rn_committed s"
    by (simp_all add: s1_def logUsage_def andThen_def change_def setLog_def billed_def)
  note st = assms(1) [unfolded streaming_def]
  have "wp (forward x (End r u v)) (\<lambda>_. finished x c evs y0) (stopped evs y0) s1"
  proof (cases "rn_committed s")
    case True
    with st s1 assms(2) show ?thesis by (simp add: wp_rules finished_def)
  next
    case False
    have "wp (flush x) (\<lambda>_. wp (yieldEvent x (End r u v)) (\<lambda>_. finished x c evs y0) (stopped evs y0)) (stopped evs y0) s1"
      by (rule wp_flush) (use False st s1 assms(2) in \<open>auto simp: wp_rules finished_def\<close>)
    with False s1 show ?thesis by (simp add: wp_rules)
  qed
  then show ?thesis by (simp add: s1_def wp_def logUsage_def andThen_def change_def setLog_def)
qed

lemma streamError_stopped:
  assumes "streaming evs y0 seen s"
  shows "wp (streamError x c code m r) (\<lambda>_ _. False) (stopped evs y0) s"
proof -
  note st = assms [unfolded streaming_def]
  show ?thesis
  proof (cases "\<not> rn_committed s \<and> RETRYABLE code")
    case True
    with st show ?thesis by (simp add: streamError_def wp_def Let_def raise_def) blast
  next
    case False
    let ?said = "GatewayError code m (no_opts\<lparr>geo_provider := Some (tg_provider (pr_target c))\<rparr>)"
    let ?rest = "andThen (concluded x (HTTP_STATUS code) (Some (Code code))) (\<lambda>_. andThen (emit (Rejected ?said)) (\<lambda>_.
        andThen (yieldEvent x (Err code m r)) (\<lambda>_. andThen (swallow (persistFailure x c code None)) (\<lambda>_. raise SReturn))))"
    have "wp ?rest (\<lambda>_ _. False) (stopped evs y0) (s\<lparr>rn_terminal := True, rn_committed := True\<rparr>)"
      unfolding persistFailure_def using st
      by (auto simp: wp_rules Let_def failedWith_def split: sum.split)
    moreover have "streamError x c code m r s = ?rest (s\<lparr>rn_terminal := True, rn_committed := True\<rparr>)"
      by (simp only: streamError_def Let_def if_not_P [OF False])
    ultimately show ?thesis by (simp add: wp_def)
  qed
qed

lemma onEvent_streaming:
  assumes "streaming evs y0 seen s" and "prefix (seen @ [e]) evs"
  shows "wp (onEvent x c e) (\<lambda>_ s. if is_end e then finished x c evs y0 s else streaming evs y0 (seen @ [e]) s) (stopped evs y0) s"
proof -
  let ?body = "case e of End r u v \<Rightarrow> logUsage x c u | Err code m r \<Rightarrow> streamError x c code m r | _ \<Rightarrow> ret ()"
  let ?Q = "\<lambda>s. if is_end e then finished x c evs y0 s else streaming evs y0 (seen @ [e]) s"
  have rest: "wp ?body (\<lambda>_. wp (forward x e) (\<lambda>_. ?Q) (stopped evs y0)) (stopped evs y0) s" if "streaming evs y0 seen s" for s
  proof (cases e)
    case (End r u v)
    then show ?thesis using forward_end [OF that, of r u v x c] assms(2) by simp
  next
    case (Err code m r)
    then show ?thesis using wp_mono [OF streamError_stopped [OF that]] by simp
  qed (use forward_streaming [OF that assms(2)] in \<open>simp_all add: wp_rules del: wp_forward\<close>)
  have "wp (\<lambda>s. if is_delta e \<and> \<not> rn_committed s then commitPoint x c s else (Inr (), s)) (\<lambda>_. streaming evs y0 seen) (stopped evs y0) s"
    using wp_mono [OF commitPoint_streaming [OF assms(1)]] assms(1) by (simp add: wp_rules)
  then show ?thesis unfolding onEvent_def wp_andThen by (rule wp_mono) (erule rest)
qed

lemma runEvents_streaming:
  assumes "streaming evs y0 seen s" and "evs = seen @ es"
  shows "wp (runEvents x c fails es) (\<lambda>_ s. finished x c evs y0 s \<or> streaming evs y0 evs s) (stopped evs y0) s"
  using assms
proof (induction es arbitrary: seen s)
  case Nil
  then show ?case by (auto simp: wp_rules streaming_def split: option.split)
next
  case (Cons e es)
  have pre: "prefix (seen @ [e]) evs" using Cons.prems(2) by (simp add: prefix_def)
  have "wp (if is_end e then ret () else runEvents x c fails es) (\<lambda>_ s. finished x c evs y0 s \<or> streaming evs y0 evs s) (stopped evs y0) t"
    if "if is_end e then finished x c evs y0 t else streaming evs y0 (seen @ [e]) t" for t
    using that Cons.IH [of "seen @ [e]" t] Cons.prems(2) by (simp add: wp_rules split: if_splits)
  then show ?case unfolding runEvents.simps wp_andThen
    by (rule wp_mono [OF onEvent_streaming [OF Cons.prems(1) pre]]) assumption+
qed

subsection \<open>One attempt\<close>

text \<open>The row of a finished request says what its last event says.\<close>

fun recorded :: "run_input \<Rightarrow> candidate \<Rightarrow> stream_event \<Rightarrow> request_log \<Rightarrow> bool" where
  "recorded x c (End r u v) l \<longleftrightarrow> rl_status l = 200 \<and> rl_errorCode l = None \<and> billed x c u l"
| "recorded x c (Err code m r) l \<longleftrightarrow> failedWith code l"
| "recorded x c e l \<longleftrightarrow> False"

definition attributed :: "candidate \<Rightarrow> provider_id option \<times> string option \<times> string option" where
  "attributed c = (Some (tg_provider (pr_target c)), Some (tg_model (pr_target c)), Some (cr_id (pr_credential c)))"

text \<open>Events of a stream an adapter opened, in its order, none of them terminal.\<close>

definition carried :: "stream_event list \<Rightarrow> run_state \<Rightarrow> bool" where
  "carried us s \<longleftrightarrow> noterm us \<and> (us = [] \<or> (\<exists>evs. Opened evs \<in> set (rn_trace s) \<and> prefix us evs))"

definition told :: "run_input \<Rightarrow> candidate \<Rightarrow> stream_event list \<Rightarrow> run_state \<Rightarrow> bool" where
  "told x c y0 s \<longleftrightarrow> (\<exists>us e. carried us s \<and> yields (rn_trace s) = y0 @ us @ [e] \<and> recorded x c e (rn_log s)
     \<and> (is_end e \<longrightarrow> (\<exists>evs. Opened evs \<in> set (rn_trace s) \<and> prefix (us @ [e]) evs)))"

definition broken :: "stream_event list \<Rightarrow> run_state \<Rightarrow> bool" where
  "broken y0 s \<longleftrightarrow> (\<exists>us. carried us s \<and> yields (rn_trace s) = y0 @ (if rn_committed s then us else []))"

fun left_with :: "run_input \<Rightarrow> candidate \<Rightarrow> stream_event list \<Rightarrow> stop \<Rightarrow> run_state \<Rightarrow> bool" where
  "left_with x c y0 (SThrow e) s \<longleftrightarrow> broken y0 s"
| "left_with x c y0 SReturn s \<longleftrightarrow> told x c y0 s"
| "left_with x c y0 _ s \<longleftrightarrow> True"

definition quiet :: "run_state \<Rightarrow> run_state \<Rightarrow> bool" where
  "quiet s s' \<longleftrightarrow> yields (rn_trace s') = yields (rn_trace s) \<and> rn_committed s' = rn_committed s
     \<and> set (rn_trace s) \<subseteq> set (rn_trace s')"

lemma attempt_quiet:
  "wp (waitForCancellation x (attempt x c now b)) (\<lambda>_. quiet s) (\<lambda>h s'. (\<exists>e. h = SThrow e) \<and> quiet s s') s"
  unfolding waitForCancellation_def attempt_def Let_def
  by (auto simp: wp_rules quiet_def split: sum.split)

text \<open>Effects are only ever added.\<close>

definition grown :: "run_state \<Rightarrow> run_state \<Rightarrow> bool" where
  "grown s s' \<longleftrightarrow> prefix (rn_trace s) (rn_trace s')"

interpretation grows: attempt_framed grown
  by unfold_locales (auto simp: grown_def)

lemma wp_keeps: "wp m Q E s \<Longrightarrow> keeps R m \<Longrightarrow> wp m (\<lambda>v s'. Q v s' \<and> R s s') (\<lambda>h s'. E h s' \<and> R s s') s"
  by (auto simp: wp_def dest: keepsD split: prod.splits sum.splits)

lemma grownD: "grown s s' \<Longrightarrow> e \<in> set (rn_trace s) \<Longrightarrow> e \<in> set (rn_trace s')"
  by (auto simp: grown_def dest: set_mono_prefix)

definition healthy :: "run_input \<Rightarrow> bool" where
  "healthy x \<longleftrightarrow> (\<forall>t e. wd_row (rc_world x) t \<noteq> Inl e)"

lemma broken_silent: "yields (rn_trace s) = y0 \<Longrightarrow> \<not> rn_committed s \<Longrightarrow> broken y0 s"
  unfolding broken_def by (rule exI [of _ "[]"]) (simp add: carried_def)

lemma stopped_left_with:
  assumes "stopped evs y0 h s" and "Opened evs \<in> set (rn_trace s)"
  shows "left_with x c y0 h s"
  using assms by (cases h) (auto simp: broken_def told_def carried_def)

text \<open>The stream of an opened reply, through to the row.\<close>

lemma drain_outcome:
  assumes "healthy x" and "\<not> rn_committed s" and "yields (rn_trace s) = y0"
  shows "wp (drain x c result) (\<lambda>_. told x c y0) (left_with x c y0) s"
proof -
  let ?evs = "ry_events result"
  let ?s = "s\<lparr>rn_log := (rn_log s)\<lparr>rl_degradations := noted (rl_degradations (rn_log s)) (ry_degradations result)\<rparr>,
    rn_trace := rn_trace s @ [Opened ?evs], rn_terminal := False, rn_pending := []\<rparr>"
  have start: "streaming ?evs y0 [] ?s" using assms(2,3) by (simp add: streaming_def)
  have rest: "wp (succeed x c) (\<lambda>_. told x c y0) (left_with x c y0) t"
    if t: "finished x c ?evs y0 t \<or> streaming ?evs y0 ?evs t" and o: "Opened ?evs \<in> set (rn_trace t)" for t
    using t
  proof
    assume "finished x c ?evs y0 t"
    then obtain us r u v where fin: "rn_terminal t" "noterm us" "prefix (us @ [End r u v]) ?evs"
      "yields (rn_trace t) = y0 @ us @ [End r u v]" "billed x c u (rn_log t)" by (auto simp: finished_def)
    have ok: "told x c y0 t'" if "yields (rn_trace t') = yields (rn_trace t)" "Opened ?evs \<in> set (rn_trace t')"
      "rl_status (rn_log t') = 200" "rl_errorCode (rn_log t') = None" "billed x c u (rn_log t')" for t'
      unfolding told_def using that fin(2,3,4)
      by (intro exI [of _ us] exI [of _ "End r u v"]) (auto simp: carried_def dest: append_prefixD)
    obtain row where row: "wd_row (rc_world x) (rn_tick t) = Inr row"
      using assms(1) unfolding healthy_def by (cases "wd_row (rc_world x) (rn_tick t)") auto
    show ?thesis using fin(1,5) o by (auto simp: succeed_def wp_rules Let_def billed_def row intro!: ok)
  next
    assume "streaming ?evs y0 ?evs t"
    with o show ?thesis by (auto simp: succeed_def wp_rules streaming_def broken_def carried_def)
  qed
  have "wp (runEvents x c (ry_fails result) ?evs) (\<lambda>_. wp (succeed x c) (\<lambda>_. told x c y0) (left_with x c y0)) (left_with x c y0) ?s"
  proof (rule wp_mono [OF wp_keeps [OF runEvents_streaming [OF start] grows.keeps_runEvents]])
    fix v t assume "(finished x c ?evs y0 t \<or> streaming ?evs y0 ?evs t) \<and> grown ?s t"
    then show "wp (succeed x c) (\<lambda>_. told x c y0) (left_with x c y0) t"
      using grownD [of ?s t "Opened ?evs"] by (intro rest) simp_all
  next
    fix h t assume "stopped ?evs y0 h t \<and> grown ?s t"
    then show "left_with x c y0 h t" using grownD [of ?s t "Opened ?evs"] by (intro stopped_left_with) simp_all
  qed simp
  then show ?thesis by (simp add: drain_def noteDegradations_def wp_andThen wp_basic)
qed

lemma tryOnce_outcome:
  assumes "healthy x" and "\<not> rn_committed s" and "yields (rn_trace s) = y0"
  shows "wp (tryOnce x c now) (\<lambda>_. told x c y0) (left_with x c y0) s"
proof -
  have quiet: "wp (waitForCancellation x (attempt x c now (rn_retried s))) (\<lambda>_ t. \<not> rn_committed t \<and> yields (rn_trace t) = y0)
      (left_with x c y0) s"
    by (rule wp_mono [OF attempt_quiet]) (use assms(2,3) in \<open>auto simp: quiet_def intro: broken_silent\<close>)
  have "wp (andThen (waitForCancellation x (attempt x c now (rn_retried s))) (drain x c)) (\<lambda>_. told x c y0) (left_with x c y0) s"
    unfolding wp_andThen by (rule wp_mono [OF quiet]) (auto intro: drain_outcome [OF assms(1)])
  then show ?thesis by (simp add: tryOnce_def wp_def)
qed

lemma carried_mono: "carried us s \<Longrightarrow> set (rn_trace s) \<subseteq> set (rn_trace s') \<Longrightarrow> carried us s'"
  unfolding carried_def by (metis subsetD)

lemma judged_as_quiet:
  "wp (judged_as x e m) (\<lambda>_ s'. quiet s s') (\<lambda>h _. h = SAbort) s"
  by (simp add: judged_as_def wp_rules Let_def quiet_def)

lemma quiet_broken:
  assumes "quiet s s'" and "broken y0 s"
  shows "broken y0 s'"
proof -
  from assms(2) obtain us where us: "carried us s" "yields (rn_trace s) = y0 @ (if rn_committed s then us else [])"
    by (auto simp: broken_def)
  then show ?thesis unfolding broken_def using assms(1) carried_mono [OF us(1), of s']
    by (intro exI [of _ us]) (simp add: quiet_def)
qed

lemma quiet_trans: "quiet s s' \<Longrightarrow> quiet s' s'' \<Longrightarrow> quiet s s''"
  unfolding quiet_def by auto

text \<open>Before the commit nothing has been said; after it, the failure is said in the stream.\<close>

definition silent :: "stream_event list \<Rightarrow> run_state \<Rightarrow> bool" where
  "silent y0 s \<longleftrightarrow> \<not> rn_committed s \<and> yields (rn_trace s) = y0"

fun gave_up :: "run_input \<Rightarrow> candidate \<Rightarrow> stream_event list \<Rightarrow> stop \<Rightarrow> run_state \<Rightarrow> bool" where
  "gave_up x c y0 SReturn s \<longleftrightarrow> told x c y0 s"
| "gave_up x c y0 _ s \<longleftrightarrow> True"

lemma settle_outcome:
  assumes "broken y0 s"
  shows "wp (settle x c g) (\<lambda>_. silent y0) (gave_up x c y0) s"
proof -
  from assms obtain us where us: "carried us s" "yields (rn_trace s) = y0 @ (if rn_committed s then us else [])"
    by (auto simp: broken_def)
  have ok: "told x c y0 s'" if "rn_committed s" "yields (rn_trace s') = yields (rn_trace s) @ [Err (ge_code g) (ge_message g) False]"
    "failedWith (ge_code g) (rn_log s')" "set (rn_trace s) \<subseteq> set (rn_trace s')" for s'
    unfolding told_def using us that carried_mono [OF us(1) that(4)]
    by (intro exI [of _ us] exI [of _ "Err (ge_code g) (ge_message g) False"]) simp
  show ?thesis unfolding settle_def persistFailure_def using us(2)
    by (auto simp: wp_rules Let_def silent_def failedWith_def split: sum.split intro!: ok)
qed

lemma onFailure_outcome:
  assumes "broken y0 s"
  shows "wp (onFailure x c now e) (\<lambda>_. silent y0) (gave_up x c y0) s"
proof -
  let ?refresh = "andThen (emit (Refreshed (cr_id (pr_credential c)))) (\<lambda>_. waitForCancellation x (tryAsk (wd_refresh (rc_world x))))"
  let ?act = "\<lambda>failure s. if refreshable c now (ge_code failure) s
       then (case ?refresh (s\<lparr>rn_retried := True\<rparr>) of
               (Inr u, s') \<Rightarrow> (Inr Retry, s')
             | (Inl (SThrow e'), s') \<Rightarrow> andThen (judged_as x e' ''credential refresh failed'') (settle x c) s'
             | (Inl h, s') \<Rightarrow> (Inl h, s'))
       else settle x c failure s"
  have again: "wp (andThen (judged_as x e' m) (settle x c)) (\<lambda>_. silent y0) (gave_up x c y0) t" if "broken y0 t" for e' m t
    unfolding wp_andThen
    by (rule wp_mono [OF judged_as_quiet]) (auto intro: settle_outcome quiet_broken [OF _ that])
  have act: "wp (?act failure) (\<lambda>_. silent y0) (gave_up x c y0) t" if t: "broken y0 t" for failure t
  proof (cases "refreshable c now (ge_code failure) t")
    case True
    obtain r t' where r: "?refresh (t\<lparr>rn_retried := True\<rparr>) = (r, t')" by fastforce
    have "wp ?refresh (\<lambda>_. quiet t) (\<lambda>h t'. (\<exists>e. h = SThrow e) \<and> quiet t t') (t\<lparr>rn_retried := True\<rparr>)"
      by (auto simp: waitForCancellation_def wp_rules quiet_def split: sum.split)
    with r have q: "quiet t t'" and h: "\<And>h. r = Inl h \<Longrightarrow> \<exists>e. h = SThrow e" by (auto simp: wp_def split: sum.splits)
    show ?thesis
    proof (cases r)
      case (Inl h)
      with h obtain e' where "r = Inl (SThrow e')" by blast
      with r True have "?act failure t = andThen (judged_as x e' ''credential refresh failed'') (settle x c) t'" by simp
      with again [OF quiet_broken [OF q t], of e' "''credential refresh failed''"] show ?thesis by (simp only: wp_def)
    next
      case (Inr u)
      moreover have "silent y0 t'" using True t q by (auto simp: refreshable_def silent_def broken_def quiet_def)
      ultimately show ?thesis using r True by (simp add: wp_def)
    qed
  next
    case False
    with settle_outcome [OF t] show ?thesis by (simp add: wp_def)
  qed
  have note_q: "wp (case e of ThrownGateway g \<Rightarrow> noteDegradations (ge_degradations g) | _ \<Rightarrow> ret ()) (\<lambda>_. broken y0) (\<lambda>_ _. False) t"
    if "broken y0 t" for t
    using that by (auto simp: noteDegradations_def wp_rules broken_def carried_def split: thrown.split)
  show ?thesis unfolding onFailure_def wp_andThen
  proof (rule wp_mono [OF judged_as_quiet])
    fix failure t assume "quiet s t"
    from note_q [OF quiet_broken [OF this assms]]
    show "wp (case e of ThrownGateway g \<Rightarrow> noteDegradations (ge_degradations g) | _ \<Rightarrow> ret ())
       (\<lambda>_. wp (?act failure) (\<lambda>_. silent y0) (gave_up x c y0)) (gave_up x c y0) t"
      by (rule wp_mono) (erule act, simp)
  qed simp
qed

lemma runAttempt_outcome:
  assumes "healthy x" and "silent y0 s"
  shows "wp (runAttempt x c now) (\<lambda>_. silent y0) (gave_up x c y0) s"
  using assms
proof (induction x c now s rule: runAttempt.induct)
  case (1 x c now s)
  have out: "case fst (tryOnce x c now s) of Inr v \<Rightarrow> told x c y0 (snd (tryOnce x c now s)) | Inl h \<Rightarrow> left_with x c y0 h (snd (tryOnce x c now s))"
    using tryOnce_outcome [of x s y0 c now] 1(2,3) by (simp add: wp_def silent_def split: prod.splits sum.splits)
  show ?case
  proof (cases rule: runAttempt_turn [of x c now s])
    case (again e s1 s2)
    then have "silent y0 s2" using onFailure_outcome [of y0 s1 x c now e] out by (simp add: wp_def)
    with 1(1) [OF again(1) [symmetric] refl refl again(2) [symmetric] refl refl 1(2)] again(3)
    show ?thesis by (simp add: wp_def)
  next
    case (failed e s1 r s2)
    then show ?thesis using onFailure_outcome [of y0 s1 x c now e] out by (simp add: wp_def)
  next
    case (ended r s1)
    with out show ?thesis unfolding wp_def by (cases r; cases "projl r") auto
  qed
qed

subsection \<open>The whole run\<close>

lemma claimProbe_quiet: "wp (claimProbe x c) (\<lambda>_ s'. yields (rn_trace s') = yields (rn_trace s)) (\<lambda>h _. \<exists>e. h = SThrow e) s"
  by (auto simp: claimProbe_def noteDegradations_def wp_rules Let_def split: sum.split)

lemma beginAttempt_silent:
  "wp (beginAttempt x c) (\<lambda>_. silent (yields (rn_trace s))) (\<lambda>h _. \<exists>e. h = SThrow e) s"
  by (auto simp: beginAttempt_def wp_rules Let_def silent_def split: sum.split)

lemma tryCandidate_outcome:
  assumes "healthy x" and "yields (rn_trace s) = y0"
  shows "wp (tryCandidate x c) (\<lambda>_ s'. yields (rn_trace s') = y0) (gave_up x c y0) s"
proof -
  have "wp (andThen (beginAttempt x c) (runAttempt x c)) (\<lambda>_ s'. yields (rn_trace s') = y0) (gave_up x c y0) t"
    if "yields (rn_trace t) = y0" for t
    unfolding wp_andThen
  proof (rule wp_mono [OF beginAttempt_silent])
    fix now t' assume "silent (yields (rn_trace t)) t'"
    with that have "wp (runAttempt x c now) (\<lambda>_. silent y0) (gave_up x c y0) t'"
      using runAttempt_outcome [OF assms(1)] by simp
    then show "wp (runAttempt x c now) (\<lambda>_ s'. yields (rn_trace s') = y0) (gave_up x c y0) t'"
      by (rule wp_mono) (auto simp: silent_def)
  qed auto
  then have rest: "wp (if go then andThen (beginAttempt x c) (runAttempt x c) else ret NextCandidate)
      (\<lambda>_ s'. yields (rn_trace s') = y0) (gave_up x c y0) t" if "yields (rn_trace t) = y0" for go t
    using that by (simp add: wp_rules)
  have "wp (claimProbe x c) (\<lambda>_ s'. yields (rn_trace s') = y0) (gave_up x c y0) s"
    by (rule wp_mono [OF claimProbe_quiet]) (use assms(2) in auto)
  then have "wp (if pr_probe c then claimProbe x c else ret True) (\<lambda>_ s'. yields (rn_trace s') = y0) (gave_up x c y0) s"
    using assms(2) by (simp add: wp_rules)
  then show ?thesis unfolding tryCandidate_def wp_andThen by (rule wp_mono) (erule rest)
qed

text \<open>The row names the candidate whose outcome it tells.\<close>

lemma beginAttempt_served: "wp (beginAttempt x c) (\<lambda>_ s'. servedBy (rn_log s') = attributed c) (\<lambda>h _. \<exists>e. h = SThrow e) s"
  by (auto simp: beginAttempt_def wp_rules Let_def servedBy_def attributed_def split: sum.split)

lemma runAttempt_served: "servedBy (rn_log (snd (runAttempt x c now s))) = servedBy (rn_log s)"
proof (induction x c now s rule: runAttempt.induct)
  case (1 x c now s)
  have once: "servedBy (rn_log s1) = servedBy (rn_log s)" if "tryOnce x c now s = (r, s1)" for r s1
    using keepsD [OF served.keeps_tryOnce that] by (simp add: same_server_def)
  have failed: "servedBy (rn_log s2) = servedBy (rn_log s1)" if "onFailure x c now e s1 = (r, s2)" for e r s1 s2
    using keepsD [OF served.keeps_onFailure that] by (simp add: same_server_def)
  show ?case
  proof (cases rule: runAttempt_turn [of x c now s])
    case (again e s1 s2)
    with 1 [OF again(1) [symmetric] refl refl again(2) [symmetric] refl refl] once failed show ?thesis by simp
  next
    case (failed e s1 r s2)
    with once \<open>\<And>s2 s1 r e. onFailure x c now e s1 = (r, s2) \<Longrightarrow> servedBy (rn_log s2) = servedBy (rn_log s1)\<close> show ?thesis by simp
  next
    case (ended r s1)
    with once show ?thesis by (cases r) simp_all
  qed
qed

lemma tryCandidate_served: "tryCandidate x c s = (Inl SReturn, s') \<Longrightarrow> servedBy (rn_log s') = attributed c"
proof -
  let ?E = "\<lambda>h s'. h = SReturn \<longrightarrow> servedBy (rn_log s') = attributed c"
  have "wp (andThen (beginAttempt x c) (runAttempt x c)) (\<lambda>_ _. True) ?E t" for t
    unfolding wp_andThen
    by (rule wp_mono [OF beginAttempt_served])
      (auto simp: wp_def split: prod.split sum.split dest: arg_cong [where f = "\<lambda>p. servedBy (rn_log (snd p))"] simp: runAttempt_served)
  then have rest: "wp (if go then andThen (beginAttempt x c) (runAttempt x c) else ret NextCandidate) (\<lambda>_ _. True) ?E t" for go t
    by (simp add: wp_rules)
  have "wp (claimProbe x c) (\<lambda>_ _. True) ?E s"
    by (rule wp_mono [OF claimProbe_quiet]) auto
  then have "wp (if pr_probe c then claimProbe x c else ret True) (\<lambda>_ _. True) ?E s" by (simp add: wp_rules)
  then have "wp (tryCandidate x c) (\<lambda>_ _. True) ?E s"
    unfolding tryCandidate_def wp_andThen by (rule wp_mono) (rule rest, assumption)
  then show "tryCandidate x c s = (Inl SReturn, s') \<Longrightarrow> servedBy (rn_log s') = attributed c" by (simp add: wp_def)
qed

lemma freeClaims_facts [simp]:
  "yields (rn_trace (freeClaims i s)) = yields (rn_trace s)" "rn_log (freeClaims i s) = rn_log s"
  "set (rn_trace s) \<subseteq> set (rn_trace (freeClaims i s))"
  by (auto simp: freeClaims_def split: option.splits)

lemma told_freed:
  assumes "told x c y0 s" and "yields (rn_trace s') = yields (rn_trace s)" and "rn_log s' = rn_log s"
    and "set (rn_trace s) \<subseteq> set (rn_trace s')"
  shows "told x c y0 s'"
proof -
  from assms(1) obtain us e where us: "carried us s" "yields (rn_trace s) = y0 @ us @ [e]" "recorded x c e (rn_log s)"
    "is_end e \<Longrightarrow> \<exists>evs. Opened evs \<in> set (rn_trace s) \<and> prefix (us @ [e]) evs" by (auto simp: told_def)
  with assms(2-4) carried_mono [OF us(1) assms(4)] show ?thesis
    unfolding told_def by (intro exI [of _ us] exI [of _ e]) auto
qed

lemma runCandidate_outcome:
  assumes "healthy x" and "yields (rn_trace s) = y0"
  shows "wp (runCandidate x c) (\<lambda>_ s'. yields (rn_trace s') = y0) (gave_up x c y0) s"
proof -
  have body: "wp (tryCandidate x c) (\<lambda>_ s'. yields (rn_trace (freeClaims slot s')) = y0)
      (\<lambda>h s'. gave_up x c y0 h (freeClaims slot s')) t" if "yields (rn_trace t) = y0" for slot t
  proof (rule wp_mono [OF tryCandidate_outcome [OF assms(1) that]])
    fix h s' assume "gave_up x c y0 h s'"
    then show "gave_up x c y0 h (freeClaims slot s')"
      using told_freed [of x c y0 s' "freeClaims slot s'"] by (cases h) simp_all
  qed simp
  have "wp (takeSlot x c) (\<lambda>_ s'. yields (rn_trace s') = y0) (\<lambda>_ _. False) s"
    using assms(2) by (auto simp: takeSlot_def wp_def)
  then show ?thesis unfolding runCandidate_def wp_andThen wp_basic wp_andFinally
    by (rule wp_mono) (rule body, simp_all)
qed

lemma runCandidate_served: "runCandidate x c s = (Inl SReturn, s') \<Longrightarrow> servedBy (rn_log s') = attributed c"
  by (auto simp: runCandidate_def takeSlot_def andThen_def change_def andFinally_def dest!: tryCandidate_served
      split: prod.splits if_splits)

fun concludes :: "run_input \<Rightarrow> stream_event list \<Rightarrow> stop \<Rightarrow> run_state \<Rightarrow> bool" where
  "concludes x y0 SReturn s \<longleftrightarrow> (\<exists>c \<in> set (rc_candidates x). told x c y0 s \<and> servedBy (rn_log s) = attributed c)"
| "concludes x y0 _ s \<longleftrightarrow> True"

lemma candidateLoop_outcome:
  assumes "healthy x" and "set cs \<subseteq> set (rc_candidates x)" and "yields (rn_trace s) = y0"
  shows "wp (candidateLoop x cs) (\<lambda>_ s'. yields (rn_trace s') = y0) (concludes x y0) s"
  using assms(2,3)
proof (induction cs arbitrary: s)
  case Nil
  then show ?case by (simp add: wp_def)
next
  case (Cons c cs)
  obtain r1 s1 where s1: "checkCancellation x s = (r1, s1)" by fastforce
  have "wp (checkCancellation x) (\<lambda>_ s'. yields (rn_trace s') = y0) (\<lambda>h s'. h \<noteq> SReturn \<and> yields (rn_trace s') = y0) s"
    using Cons.prems(2) by (auto simp: checkCancellation_def wp_rules split: option.split)
  with s1 have y1: "yields (rn_trace s1) = y0" "r1 \<noteq> Inl SReturn" by (auto simp: wp_def split: sum.splits)
  obtain r2 s2 where s2: "runCandidate x c s1 = (r2, s2)" by fastforce
  have out: "case r2 of Inr v \<Rightarrow> yields (rn_trace s2) = y0 | Inl h \<Rightarrow> gave_up x c y0 h s2"
    using runCandidate_outcome [OF assms(1) y1(1), of c] s2 by (simp add: wp_def)
  have "concludes x y0 h s2" if "r2 = Inl h" for h
    using out that s2 Cons.prems(1) runCandidate_served [of x c s1 s2] by (cases h) auto
  with out y1 s1 s2 Cons.IH [of s2] Cons.prems show ?case
    by (cases r1; cases r2) (auto simp: wp_def split: stop.split control.split)
qed

definition completed :: "stop + unit \<Rightarrow> bool" where
  "completed r \<longleftrightarrow> r = Inr () \<or> r = Inl SReturn"

lemma run_outcome:
  assumes "healthy x" and "yields (rn_trace s) = []"
  shows "wp (run x) (\<lambda>_ s'. \<exists>code m. yields (rn_trace s') = [Err code m False] \<and> failedWith code (rn_log s')) (concludes x []) s"
proof -
  let ?Q = "\<lambda>s'. \<exists>code m. yields (rn_trace s') = [Err code m False] \<and> failedWith code (rn_log s')"
  let ?free = "\<lambda>s. s\<lparr>rn_trace := rn_trace s @ [FreedSlot 0 None]\<rparr>"
  have last: "wp (giveUp x) (\<lambda>_ s. ?Q (?free s)) (\<lambda>h s. concludes x [] h (?free s)) t" if "yields (rn_trace t) = []" for t
  proof -
    have "wp (andThen (concluded x (HTTP_STATUS (exhausted t)) (Some (Code (exhausted t)))) (\<lambda>_.
        andThen (emit (Rejected (exhaustedError x t))) (\<lambda>_. yieldEvent x (Err (exhausted t) (exhaustedMessage x t) False))))
        (\<lambda>_ s. ?Q (?free s)) (\<lambda>h s. concludes x [] h (?free s)) t"
      using that by (simp add: wp_rules failedWith_def)
    then show ?thesis by (simp add: giveUp_def wp_def)
  qed
  have "wp (candidateLoop x (rc_candidates x)) (\<lambda>_ s'. yields (rn_trace s') = []) (\<lambda>h s. concludes x [] h (?free s)) s"
  proof (rule wp_mono [OF candidateLoop_outcome [OF assms(1) subset_refl assms(2)]])
    fix h s' assume "concludes x [] h s'"
    then show "concludes x [] h (?free s')" by (cases h) (auto intro!: bexI intro: told_freed)
  qed
  then show ?thesis unfolding run_def wp_andFinally wp_andThen by (rule wp_mono) (erule last)
qed

text \<open>
  C1: a request that runs to its end says one thing. While no health write to the store
  fails (\<open>healthy\<close>; what happens when one does is \<open>error_after_end\<close> below) and the consumer
  stays, the generator yields exactly one terminal event, and yields it last; what
  came prior is the beginning of a single adapter's stream, so nothing of a failed
  candidate reaches the client and no candidate is tried after a byte went out; and the row
  agrees. For an \<^verbatim>\<open>end\<close> it says status 200, the tokens reported, and their price at the
  target the row itself names as having served, with the account it names; for an \<^verbatim>\<open>error\<close>, the
  code and its HTTP status.
\<close>

theorem run_says_one_outcome:
  assumes "healthy x" and "rc_candidates x \<noteq> []" and "run x (begun n x l) = (r, s)" and "completed r"
  shows "\<exists>us e. yields (rn_trace s) = us @ [e] \<and> noterm us \<and> (is_end e \<or> is_err e)
    \<and> (\<exists>c \<in> set (rc_candidates x). recorded x c e (rn_log s) \<and> (is_end e \<longrightarrow> servedBy (rn_log s) = attributed c))
    \<and> (\<exists>evs. (Opened evs \<in> set (rn_trace s) \<or> evs = []) \<and> prefix (if is_end e then us @ [e] else us) evs)"
proof -
  have "yields (rn_trace (begun n x l)) = []" by (simp add: begun_def split: list.split)
  note out = run_outcome [OF assms(1) this]
  show ?thesis
  proof (cases r)
    case (Inr u)
    with wpD(1) [OF out] assms(3) obtain code m where "yields (rn_trace s) = [Err code m False]" "failedWith code (rn_log s)" by auto
    with assms(2) show ?thesis by (intro exI [of _ "[]"] exI [of _ "Err code m False"]) (auto simp: neq_Nil_conv)
  next
    case (Inl h)
    with assms(4) wpD(2) [OF out] assms(3) obtain c where c: "c \<in> set (rc_candidates x)" "told x c [] s" "servedBy (rn_log s) = attributed c"
      by (auto simp: completed_def)
    then obtain us e where us: "carried us s" "yields (rn_trace s) = us @ [e]" "recorded x c e (rn_log s)"
      "is_end e \<Longrightarrow> \<exists>evs. Opened evs \<in> set (rn_trace s) \<and> prefix (us @ [e]) evs" by (auto simp: told_def)
    have "is_end e \<or> is_err e" using us(3) by (cases e) auto
    with us c(1,3) show ?thesis by (intro exI [of _ us] exI [of _ e]) (auto simp: carried_def)
  qed
qed

text \<open>Two candidates, the first of them overloaded.\<close>

definition sample_world :: world where
  "sample_world = \<lparr>wd_now = (\<lambda>_. 5), wd_rand = (\<lambda>_. 0), wd_gone = (\<lambda>_. False), wd_cut = (\<lambda>_. False),
     wd_reason = (\<lambda>_. ThrownOther), wd_left = (\<lambda>_. False), wd_held = (\<lambda>_. Inr 0), wd_row = (\<lambda>_. Inr None),
     wd_route = (\<lambda>_. Inr ()), wd_secrets = (\<lambda>_. Inr ()), wd_refresh = (\<lambda>_. Inr ()),
     wd_send = (\<lambda>t. if t < 8 then Inl (ThrownGateway (GatewayError OVERLOADED ''busy'' no_opts))
       else Inr \<lparr>ry_degradations = [], ry_events = [Start ''r'' ''m'', BlockStart 0 StartText, BlockDelta 0 (DText ''hi''),
         BlockEnd 0, End EndTurn no_usage None], ry_fails = None\<rparr>)\<rparr>"

definition sample_run :: run_input where
  "sample_run = \<lparr>rc_candidates = [sample_candidate ''a'', sample_candidate ''b''],
     rc_snapshot = buildSnapshot [] [] [] [] DEFAULT_SETTINGS 0, rc_started = 0, rc_deadline = Some 1000,
     rc_providers = [], rc_adapters = [''anthropic''], rc_requestedModel = ''fast'', rc_world = sample_world\<rparr>"

definition sample_log :: request_log where
  "sample_log = newCompletedRequestLog ''id'' 0 ''fast''"

definition told_by :: "run_input \<Rightarrow> (stop + unit) \<times> stream_event list \<times> nat \<times> log_code option" where
  "told_by x = (case run x (begun 0 x sample_log) of (r, s) \<Rightarrow> (r, yields (rn_trace s), rl_status (rn_log s), rl_errorCode (rn_log s)))"

theorem run_says_one_outcome_witness:
  "\<exists>us e. yields (rn_trace (snd (run sample_run (begun 0 sample_run sample_log)))) = us @ [e] \<and> noterm us \<and> is_end e"
proof -
  have told: "told_by sample_run = (Inl SReturn, [Start ''r'' ''m'', BlockStart 0 StartText, BlockDelta 0 (DText ''hi''),
      BlockEnd 0, End EndTurn no_usage None], 200, None)" by code_simp
  obtain s where s: "run sample_run (begun 0 sample_run sample_log) = (Inl SReturn, s)" and last: "last (yields (rn_trace s)) = End EndTurn no_usage None"
    using told by (auto simp: told_by_def split: prod.splits)
  from run_says_one_outcome [OF _ _ s] obtain us e where "yields (rn_trace s) = us @ [e]" "noterm us"
    by (auto simp: healthy_def sample_run_def sample_world_def completed_def)
  with last s show ?thesis by auto
qed

definition late_run :: run_input where
  "late_run = sample_run\<lparr>
     rc_snapshot := buildSnapshot [] [(blankHealth ''a'' ''m'')\<lparr>h_consecutiveFailures := 1\<rparr>] [] [] DEFAULT_SETTINGS 0,
     rc_world := sample_world\<lparr>
       wd_send := (\<lambda>_. Inr \<lparr>ry_degradations = [], ry_events = [Start ''r'' ''m'', BlockDelta 0 (DText ''hi''), End EndTurn no_usage None], ry_fails = None\<rparr>),
       wd_row := (\<lambda>t. if t < 16 then Inl (ThrownError ''Error'' ''SQLITE_BUSY'') else Inr None)\<rparr>\<rparr>"

text \<open>
  The health write after a completed stream is not shielded as the one after an
  in-stream error is. When it fails once, a client that has been given its whole response
  and its \<^verbatim>\<open>end\<close> is then given an error, and the row says the request failed.
\<close>

theorem error_after_end:
  "\<exists>r. told_by late_run = (r, [Start ''r'' ''m'', BlockDelta 0 (DText ''hi''), End EndTurn no_usage None,
     Err INTERNAL ''SQLITE_BUSY'' False], 500, Some (Code INTERNAL))"
proof -
  have "told_by late_run = (Inl SReturn, [Start ''r'' ''m'', BlockDelta 0 (DText ''hi''), End EndTurn no_usage None,
     Err INTERNAL ''SQLITE_BUSY'' False], 500, Some (Code INTERNAL))" by code_simp
  then show ?thesis by blast
qed

end
