(* ===== verification/Dispatch_Claims.thy ===== *)
theory Dispatch_Claims
  imports Dispatch_Outcome
begin

section \<open>What a dispatched request takes and returns\<close>

text \<open>
  The load slots and probe claims of \<^verbatim>\<open>run\<close>, read off its effects, and the order and number
  of the candidates it begins. These hold for every world and every way of leaving.
\<close>

subsection \<open>Claims are returned\<close>

text \<open>
  The slots and probe claims open after a trace. Freeing a slot twice is harmless, as it is
  in the load registry; the probe gauge counts, so freeing a claim not held would take
  another request's, and counts as a failure here.
\<close>

fun track :: "(nat set \<times> string list) option \<Rightarrow> effect list \<Rightarrow> (nat set \<times> string list) option" where
  "track st [] = st"
| "track None tr = None"
| "track (Some (slots, probes)) (e # tr) = track (case e of
      ClaimedSlot i cid m p \<Rightarrow> if i \<in> slots then None else Some (insert i slots, probes)
    | FreedSlot i t \<Rightarrow> Some (slots - {i}, probes)
    | ClaimedProbe k n \<Rightarrow> Some (slots, k # probes)
    | FreedProbe k \<Rightarrow> (case probes of [] \<Rightarrow> None | k' # ps \<Rightarrow> if k' = k then Some (slots, ps) else None)
    | _ \<Rightarrow> Some (slots, probes)) tr"

lemma track_None [simp]: "track None tr = None"
  by (cases tr) simp_all

lemma track_append: "track st (tr @ tr') = track (track st tr) tr'"
  by (induction st tr rule: track.induct) simp_all

lemma track_claims: "track st (filter is_claim tr) = track st tr"
proof (induction tr arbitrary: st)
  case (Cons e tr)
  show ?case
  proof (cases st)
    case (Some p)
    with Cons show ?thesis by (cases p; cases e) simp_all
  qed simp
qed simp

lemma track_unclaimed [simp]: "\<not> is_claim e \<Longrightarrow> track st (e # tr) = track st tr"
  using track_claims [of st "e # tr"] track_claims [of st tr] by simp

definition claims :: "run_state \<Rightarrow> (nat set \<times> string list) option" where
  "claims s = track (Some ({}, [])) (rn_trace s)"

lemma claims_within: "within_attempt s s' \<Longrightarrow> claims s' = claims s"
  unfolding claims_def within_attempt_def by (metis track_claims)

definition probe_list :: "run_state \<Rightarrow> string list" where
  "probe_list s = (case rn_probe s of None \<Rightarrow> [] | Some k \<Rightarrow> [k])"

lemma runAttempt_within: "within_attempt s (snd (runAttempt x c now s))"
proof (induction x c now s rule: runAttempt.induct)
  case (1 x c now s)
  show ?case
  proof (cases rule: runAttempt_turn [of x c now s])
    case (again e s1 s2)
    note w = inner.trans [OF keepsD [OF inner.keeps_tryOnce again(1)] keepsD [OF inner.keeps_onFailure again(2)]]
    from inner.trans [OF w 1 [OF again(1) [symmetric] refl refl again(2) [symmetric] refl refl]] again(3)
    show ?thesis by simp
  next
    case (failed e s1 r s2)
    from inner.trans [OF keepsD [OF inner.keeps_tryOnce failed(1)] keepsD [OF inner.keeps_onFailure failed(2)]] failed(3)
    show ?thesis by simp
  next
    case (ended r s1)
    from keepsD [OF inner.keeps_tryOnce ended(1)] ended(3) show ?thesis by (cases r) simp_all
  qed
qed

text \<open>While a candidate runs, the open claims are the slots and its own probe.\<close>

definition holding :: "nat set \<Rightarrow> nat \<Rightarrow> bool \<Rightarrow> run_state \<Rightarrow> bool" where
  "holding slots n eager s \<longleftrightarrow> claims s = Some (slots, probe_list s) \<and> rn_slots s = n \<and> rn_eagerHeld s = eager"

lemma holding_within: "within_attempt s s' \<Longrightarrow> holding slots n eager s \<Longrightarrow> holding slots n eager s'"
  using claims_within [of s s'] by (simp add: holding_def within_attempt_def probe_list_def)

lemma tryCandidate_holding:
  assumes "holding slots n eager s" and "rn_probe s = None"
  shows "holding slots n eager (snd (tryCandidate x c s))"
proof -
  let ?P = "holding slots n eager"
  have probe: "wp (claimProbe x c) (\<lambda>_. ?P) (\<lambda>_. ?P) s"
    using assms by (auto simp: claimProbe_def noteDegradations_def wp_rules Let_def holding_def claims_def track_append
        probe_list_def split: sum.split)
  have run: "wp (runAttempt x c now) (\<lambda>_. ?P) (\<lambda>_. ?P) t" if "?P t" for now t
    using holding_within [OF runAttempt_within that] by (simp add: wp_always)
  have begins: "wp (beginAttempt x c) (\<lambda>_. ?P) (\<lambda>_. ?P) t" if "?P t" for t
    using that by (auto simp: beginAttempt_def wp_rules Let_def holding_def claims_def track_append probe_list_def split: sum.split)
  have go: "wp (if go then andThen (beginAttempt x c) (runAttempt x c) else ret NextCandidate) (\<lambda>_. ?P) (\<lambda>_. ?P) t" if "?P t" for go t
    using wp_mono [OF begins [OF that] run] that by (simp add: wp_rules)
  have "wp (if pr_probe c then claimProbe x c else ret True) (\<lambda>_. ?P) (\<lambda>_. ?P) s" using probe assms(1) by (simp add: wp_rules)
  then have "wp (tryCandidate x c) (\<lambda>_. ?P) (\<lambda>_. ?P) s"
    unfolding tryCandidate_def wp_andThen by (rule wp_mono) (erule go)
  then show ?thesis by (simp add: wp_always)
qed

definition at_rest :: "run_state \<Rightarrow> bool" where
  "at_rest s \<longleftrightarrow> claims s = Some (if rn_eagerHeld s then {0} else {}, []) \<and> rn_probe s = None \<and> 0 < rn_slots s"

lemma freeClaims_claims:
  assumes "holding slots n eager s"
  shows "claims (freeClaims i s) = Some (slots - {i}, [])" "rn_probe (freeClaims i s) = None"
    "rn_slots (freeClaims i s) = n" "rn_eagerHeld (freeClaims i s) = eager"
  using assms by (auto simp: holding_def freeClaims_def claims_def track_append probe_list_def split: option.splits)

lemma runCandidate_at_rest:
  assumes "at_rest s"
  shows "at_rest (snd (runCandidate x c s))"
proof (cases "adoptable x c s")
  case True
  then have e: "rn_eagerHeld s" by (simp add: adoptable_def)
  let ?s = "s\<lparr>rn_eagerHeld := False, rn_probing := False\<rparr>"
  have "holding {0} (rn_slots s) False ?s" "rn_probe ?s = None"
    using assms e by (auto simp: at_rest_def holding_def claims_def probe_list_def)
  from freeClaims_claims [OF tryCandidate_holding [OF this, of x c], of 0]
  have "at_rest (freeClaims 0 (snd (tryCandidate x c ?s)))" using assms by (simp add: at_rest_def)
  then show ?thesis using True by (simp add: runCandidate_def takeSlot_def andThen_def change_def andFinally_def case_prod_beta)
next
  case False
  let ?n = "rn_slots s"
  let ?slots = "if rn_eagerHeld s then {0} else {}"
  let ?s = "s\<lparr>rn_slots := ?n + 1, rn_trace := rn_trace s @
    [ClaimedSlot ?n (cr_id (pr_credential c)) (tg_model (pr_target c)) (tg_provider (pr_target c))], rn_probing := False\<rparr>"
  have "holding (insert ?n ?slots) (?n + 1) (rn_eagerHeld s) ?s" "rn_probe ?s = None"
    using assms by (auto simp: at_rest_def holding_def claims_def track_append probe_list_def)
  from freeClaims_claims [OF tryCandidate_holding [OF this, of x c], of ?n]
  have "at_rest (freeClaims ?n (snd (tryCandidate x c ?s)))" using assms by (auto simp: at_rest_def)
  then show ?thesis using False by (simp add: runCandidate_def takeSlot_def andThen_def change_def andFinally_def case_prod_beta)
qed

lemma checkCancellation_claims: "checkCancellation x s = (r, s') \<Longrightarrow>
    rn_trace s' = rn_trace s \<and> rn_probe s' = rn_probe s \<and> rn_slots s' = rn_slots s \<and> rn_eagerHeld s' = rn_eagerHeld s \<and> rn_attempts s' = rn_attempts s"
  by (auto simp: checkCancellation_def andThen_def ask_def ret_def raise_def split: if_splits option.splits)

lemma candidateLoop_at_rest: "at_rest s \<Longrightarrow> at_rest (snd (candidateLoop x cs s))"
proof (induction cs arbitrary: s)
  case (Cons c cs)
  obtain r1 s1 where s1: "checkCancellation x s = (r1, s1)" by fastforce
  have rest: "at_rest s1" using Cons.prems checkCancellation_claims [OF s1] by (simp add: at_rest_def claims_def)
  obtain r2 s2 where s2: "runCandidate x c s1 = (r2, s2)" by fastforce
  have "at_rest s2" using runCandidate_at_rest [OF rest, of x c] s2 by simp
  moreover have "at_rest (s1\<lparr>rn_lastError := le\<rparr>)" for le using rest by (simp add: at_rest_def claims_def)
  ultimately show ?case using Cons rest s1 s2 by (auto split: sum.split stop.split control.split)
qed simp

lemma run_claims: "claims (snd (run x (begun n x l))) = Some ({}, [])"
proof -
  have give: "claims (snd (giveUp x s)) = claims s" for s
    by (simp add: giveUp_def claims_def concluded_def yieldEvent_def andThen_def ask_def emit_def setLog_def change_def ret_def
        raise_def track_append)
  have "claims (snd (andThen (candidateLoop x (rc_candidates x)) (\<lambda>_. giveUp x) (begun n x l))) \<in> {Some ({0}, []), Some ({}, [])}"
  proof (cases "rc_candidates x")
    case Nil
    then show ?thesis using give [of "begun n x l"] by (simp add: andThen_def begun_def claims_def)
  next
    case (Cons h cs)
    then have "at_rest (begun n x l)" by (simp add: at_rest_def begun_def claims_def)
    from candidateLoop_at_rest [OF this, of x "rc_candidates x"] give show ?thesis
      by (auto simp: andThen_def at_rest_def split: prod.splits sum.splits)
  qed
  then show ?thesis by (auto simp: run_def andFinally_def claims_def track_append split: prod.splits)
qed

text \<open>
  C2: every claim is returned. Whatever the world answers and however the request ends,
  by its last event, by an error thrown through it, by the client going away or by the
  consumer closing the generator at any \<^verbatim>\<open>yield\<close>, each load slot it took is free again and
  each probe claim was returned exactly once, by the candidate that made it.
\<close>

theorem run_returns_claims: "claims (snd (run x (begun n x l))) = Some ({}, [])"
  by (rule run_claims)

subsection \<open>The wrapper around the generator\<close>

text \<open>Freeing the head's slot once more, at any point after it was taken, loses no claim and leaves none.\<close>

lemma track_freed:
  assumes "track (Some (slots, probes)) tr = Some (slots', probes')" and "fewer \<subseteq> slots"
  shows "\<exists>fewer' \<subseteq> slots'. track (Some (fewer, probes)) tr = Some (fewer', probes')"
  using assms
proof (induction tr arbitrary: slots probes fewer)
  case (Cons e tr)
  show ?case
  proof (cases e)
    case (ClaimedSlot i cid m p)
    with Cons.prems have "i \<notin> slots" by (auto split: if_splits)
    with Cons.prems(2) have "i \<notin> fewer" by blast
    with ClaimedSlot Cons.prems \<open>i \<notin> slots\<close> Cons.IH [of "insert i slots" probes "insert i fewer"] show ?thesis by auto
  next
    case (FreedSlot i t)
    with Cons.prems Cons.IH [of "slots - {i}" probes "fewer - {i}"] show ?thesis by auto
  next
    case (FreedProbe k)
    with Cons.prems obtain ps where "probes = k # ps" by (auto split: list.splits if_splits)
    with FreedProbe Cons.prems Cons.IH [of slots ps fewer] show ?thesis by auto
  qed (use Cons in auto)
qed auto

lemma track_insert_free:
  assumes "track (Some ({}, [])) (tr @ tr') = Some ({}, [])"
  shows "track (Some ({}, [])) (tr @ FreedSlot i t # tr') = Some ({}, [])"
proof -
  obtain slots probes where mid: "track (Some ({}, [])) tr = Some (slots, probes)"
    using assms by (cases "track (Some ({}, [])) tr") (auto simp: track_append)
  with assms have "track (Some (slots, probes)) tr' = Some ({}, [])" by (simp add: track_append)
  from track_freed [OF this, of "slots - {i}"] mid show ?thesis by (auto simp: track_append)
qed

lemma track_abortFrees:
  assumes "track (Some ({}, [])) tr = Some ({}, [])"
  shows "track (Some ({}, [])) (abortFrees k tr) = Some ({}, [])"
proof (cases "(k, tr)" rule: abortFrees.cases)
  case (1 n e tr')
  have "track (Some ({}, [])) ((e # take n tr') @ drop n tr') = Some ({}, [])" using assms 1 by simp
  from track_insert_free [OF this, of 0 None] 1 show ?thesis by simp
qed (use assms in auto)

text \<open>
  C3: the slot taken for the head before the generator starts is returned too. Whether the
  consumer draws from the stream, closes it before the first pull or, its client gone,
  never touches it, and wherever the client's abort falls among the effects, every load slot
  is free and every probe claim returned in the end. A stream nobody ever touches keeps its
  slot until the abort: that case is the hypothesis.
\<close>

theorem wrapper_returns_claims:
  assumes "rc_candidates x \<noteq> []" and "how = NeverTouches \<longrightarrow> abort \<noteq> None"
  shows "track (Some ({}, [])) (abortFrees abort (handedOut how shut x (begun n x l))) = Some ({}, [])"
proof (cases how)
  case Draws
  have "track (Some ({}, [])) (rn_trace (snd (run x (begun n x l)))) = Some ({}, [])"
    using run_claims [of x n l] by (simp add: claims_def)
  then have "track (Some ({}, [])) (handedOut how shut x (begun n x l)) = Some ({}, [])"
    using Draws by (simp add: track_append)
  then show ?thesis by (rule track_abortFrees)
next
  case ClosesUnstarted
  with assms(1) have "track (Some ({}, [])) (handedOut how shut x (begun n x l)) = Some ({}, [])"
    by (simp add: begun_def neq_Nil_conv) (auto simp: begun_def)
  then show ?thesis by (rule track_abortFrees)
next
  case NeverTouches
  with assms obtain k where "abort = Some k" by auto
  with NeverTouches assms(1) show ?thesis by (auto simp: begun_def neq_Nil_conv)
qed

theorem wrapper_returns_claims_witness:
  "track (Some ({}, [])) (abortFrees (Some 0) (handedOut NeverTouches False sample_run (begun 0 sample_run sample_log))) = Some ({}, [])"
  by (rule wrapper_returns_claims) (simp_all add: sample_run_def)

subsection \<open>Candidates in rank order\<close>

fun routed :: "effect list \<Rightarrow> (provider_id \<times> string \<times> string) list" where
  "routed [] = []"
| "routed (Routed p m cid # tr) = (p, m, cid) # routed tr"
| "routed (_ # tr) = routed tr"

lemma routed_append [simp]: "routed (tr @ tr') = routed tr @ routed tr'"
  by (induction tr rule: routed.induct) simp_all

lemma routed_claims: "routed (filter is_claim tr) = routed tr"
  by (induction tr rule: routed.induct) simp_all

definition route :: "candidate \<Rightarrow> provider_id \<times> string \<times> string" where
  "route c = (tg_provider (pr_target c), tg_model (pr_target c), cr_id (pr_credential c))"

lemma routed_within: "within_attempt s s' \<Longrightarrow> routed (rn_trace s') = routed (rn_trace s) \<and> rn_attempts s' = rn_attempts s"
  unfolding within_attempt_def by (metis routed_claims)

text \<open>A candidate is begun once, or skipped because its probe is held.\<close>

definition tried :: "candidate \<Rightarrow> run_state \<Rightarrow> run_state \<Rightarrow> bool" where
  "tried c s s' \<longleftrightarrow> routed (rn_trace s') = routed (rn_trace s) \<and> rn_attempts s' = rn_attempts s
     \<or> routed (rn_trace s') = routed (rn_trace s) @ [route c] \<and> rn_attempts s' = Suc (rn_attempts s)"

lemma tryCandidate_tried: "tried c s (snd (tryCandidate x c s))"
proof -
  let ?none = "\<lambda>t. routed (rn_trace t) = routed (rn_trace s) \<and> rn_attempts t = rn_attempts s"
  let ?P = "\<lambda>t. tried c s t"
  have begins: "wp (beginAttempt x c) (\<lambda>_. ?P) (\<lambda>_. ?P) t" if "?none t" for t
    using that by (auto simp: beginAttempt_def wp_rules Let_def tried_def route_def split: sum.split)
  have run: "wp (runAttempt x c now) (\<lambda>_. ?P) (\<lambda>_. ?P) t" if "?P t" for now t
    using routed_within [OF runAttempt_within [where s = t and x = x and c = c and now = now]] that
    by (simp add: wp_always tried_def)
  have go: "wp (if go then andThen (beginAttempt x c) (runAttempt x c) else ret NextCandidate) (\<lambda>_. ?P) (\<lambda>_. ?P) t" if "?none t" for go t
    using wp_mono [OF begins [OF that] run] that by (simp add: wp_rules tried_def)
  have "wp (claimProbe x c) (\<lambda>_. ?none) (\<lambda>_. ?P) s"
    by (auto simp: claimProbe_def noteDegradations_def wp_rules Let_def tried_def split: sum.split)
  then have "wp (if pr_probe c then claimProbe x c else ret True) (\<lambda>_. ?none) (\<lambda>_. ?P) s" by (simp add: wp_rules)
  then have "wp (tryCandidate x c) (\<lambda>_. ?P) (\<lambda>_. ?P) s"
    unfolding tryCandidate_def wp_andThen by (rule wp_mono) (erule go)
  then show ?thesis by (simp add: wp_always)
qed

lemma runCandidate_tried: "tried c s (snd (runCandidate x c s))"
proof -
  have free: "routed (rn_trace (freeClaims i t)) = routed (rn_trace t)" "rn_attempts (freeClaims i t) = rn_attempts t" for i t
    by (simp_all add: freeClaims_def split: option.split)
  obtain i t where t: "takeSlot x c s = (Inr i, t)" "routed (rn_trace t) = routed (rn_trace s)" "rn_attempts t = rn_attempts s"
    by (cases "adoptable x c s") (simp_all add: takeSlot_def)
  then have "snd (runCandidate x c s) = freeClaims i (snd (tryCandidate x c (t\<lparr>rn_probing := False\<rparr>)))"
    by (simp add: runCandidate_def andThen_def change_def andFinally_def case_prod_beta)
  with t(2,3) free tryCandidate_tried [of c "t\<lparr>rn_probing := False\<rparr>" x] show ?thesis by (simp add: tried_def)
qed

lemma candidateLoop_order:
  assumes "rn_attempts s \<le> maxAttempts x"
  shows "\<exists>ds. subseq ds cs \<and> routed (rn_trace (snd (candidateLoop x cs s))) = routed (rn_trace s) @ map route ds
    \<and> rn_attempts (snd (candidateLoop x cs s)) = rn_attempts s + length ds
    \<and> rn_attempts (snd (candidateLoop x cs s)) \<le> maxAttempts x"
  using assms
proof (induction cs arbitrary: s)
  case (Cons c cs)
  let ?ok = "\<lambda>cs s s'. \<exists>ds. subseq ds cs \<and> routed (rn_trace s') = routed (rn_trace s) @ map route ds
    \<and> rn_attempts s' = rn_attempts s + length ds \<and> rn_attempts s' \<le> maxAttempts x"
  have none: "?ok (c # cs) s s'" if "routed (rn_trace s') = routed (rn_trace s)" "rn_attempts s' = rn_attempts s" for s'
    using that Cons.prems by (intro exI [of _ "[]"]) simp
  show ?case
  proof (cases "maxAttempts x \<le> rn_attempts s")
    case True
    with none [of s] show ?thesis by simp
  next
    case False
    obtain r1 s1 where s1: "checkCancellation x s = (r1, s1)" by fastforce
    note same = checkCancellation_claims [OF s1]
    obtain r2 s2 where s2: "runCandidate x c s1 = (r2, s2)" by fastforce
    have t: "tried c s1 s2" using runCandidate_tried [of c s1 x] s2 by simp
    then have le: "rn_attempts s2 \<le> maxAttempts x" using False same by (auto simp: tried_def)
    have more: "?ok (c # cs) s s'" if later: "?ok cs s2 s'" for s'
    proof -
      from later obtain ds where ds: "subseq ds cs" "routed (rn_trace s') = routed (rn_trace s2) @ map route ds"
        "rn_attempts s' = rn_attempts s2 + length ds" "rn_attempts s' \<le> maxAttempts x" by blast
      from t show ?thesis unfolding tried_def
      proof
        assume "routed (rn_trace s2) = routed (rn_trace s1) \<and> rn_attempts s2 = rn_attempts s1"
        with ds same show ?thesis by (intro exI [of _ ds]) auto
      next
        assume "routed (rn_trace s2) = routed (rn_trace s1) @ [route c] \<and> rn_attempts s2 = Suc (rn_attempts s1)"
        with ds same show ?thesis by (intro exI [of _ "c # ds"]) auto
      qed
    qed
    have here: "?ok (c # cs) s s2" by (rule more) (use le in \<open>intro exI [of _ "[]"], simp\<close>)
    have broke: "?ok (c # cs) s (s1\<lparr>rn_lastError := le\<rparr>)" "?ok (c # cs) s s1" for le using same by (intro none; simp)+
    have later: "?ok (c # cs) s (snd (candidateLoop x cs s2))" by (rule more [OF Cons.IH [OF le]])
    show ?thesis
    proof (cases r1)
      case (Inl h)
      with False s1 broke show ?thesis by (cases h) simp_all
    next
      case (Inr u)
      with False s1 s2 here later show ?thesis by (cases r2; cases "projr r2") simp_all
    qed
  qed
qed simp

text \<open>
  C5: candidates are begun in rank order, each at most once, and never more of them than
  the operator's limit on attempts; one skipped because its probe is already running costs
  no attempt. The count the row will show is the number begun.
\<close>

theorem run_tries_in_order:
  "\<exists>ds. subseq ds (rc_candidates x) \<and> routed (rn_trace (snd (run x (begun n x l)))) = map route ds
     \<and> length ds \<le> st_maxAttempts (sn_settings (rc_snapshot x)) \<and> rn_attempts (snd (run x (begun n x l))) = length ds"
proof -
  have give: "routed (rn_trace (snd (giveUp x s))) = routed (rn_trace s)" "rn_attempts (snd (giveUp x s)) = rn_attempts s" for s
    by (simp_all add: giveUp_def concluded_def yieldEvent_def andThen_def ask_def emit_def setLog_def change_def ret_def raise_def)
  have start: "routed (rn_trace (begun n x l)) = []" "rn_attempts (begun n x l) = 0"
    by (simp_all add: begun_def split: list.split)
  obtain r s where loop: "candidateLoop x (rc_candidates x) (begun n x l) = (r, s)" by fastforce
  have "routed (rn_trace (snd (run x (begun n x l)))) = routed (rn_trace s) \<and> rn_attempts (snd (run x (begun n x l))) = rn_attempts s"
    by (cases r) (simp_all add: run_def andFinally_def andThen_def loop give case_prod_beta)
  with candidateLoop_order [of "begun n x l" x "rc_candidates x"] loop start
  show ?thesis by (auto simp: maxAttempts_def)
qed

end
