(* ===== verification/Dispatch_Front.thy ===== *)
theory Dispatch_Front
  imports Dispatch_Claims
begin

section \<open>From a request to its candidates\<close>

text \<open>
  \<^verbatim>\<open>dispatch\<close> of \<^verbatim>\<open>apps/gateway/src/dispatch/index.ts\<close> up to the generator: the deadline, the
  model, the ranked candidates, the reasons the others were left out, and the failures
  decided before any attempt. The request comes in as the RTK and ponytail transforms left
  it, with the notes they recorded; the load counts and history are those the registry
  answers at that moment.
\<close>

definition LOCAL_ONLY_MESSAGE :: string where
  "LOCAL_ONLY_MESSAGE = ''confidential routing is not configured''"

record dispatch_input =
  di_requestId :: string
  di_requestedModel :: string
  di_request :: chat_request
  di_notes :: "string list"
  di_localOnly :: bool
  di_snapshot :: snapshot
  di_started :: instant
  di_rand :: rat
  di_round :: "rat \<Rightarrow> rat"
  di_load :: "string \<rightharpoonup> nat"
  di_recent :: "string \<rightharpoonup> recent_use"
  di_providers :: descriptors
  di_adapters :: "provider_id list"
  di_world :: world

definition deadlineAt :: "dispatch_input \<Rightarrow> instant option" where
  "deadlineAt d = (let ms = st_requestDeadlineMs (sn_settings (di_snapshot d)) in
     if ms = 0 then None else Some (di_started d + ms))"

definition runInput :: "dispatch_input \<Rightarrow> candidate list \<Rightarrow> run_input" where
  "runInput d cs = \<lparr>rc_candidates = cs, rc_snapshot = di_snapshot d, rc_started = di_started d, rc_deadline = deadlineAt d,
     rc_providers = di_providers d, rc_adapters = di_adapters d, rc_requestedModel = di_requestedModel d, rc_world = di_world d\<rparr>"

text \<open>\<^verbatim>\<open>fail\<close>: a failure decided before any attempt ran.\<close>

definition fail :: "dispatch_input \<Rightarrow> error_code \<Rightarrow> string \<Rightarrow> bool \<Rightarrow> unit step" where
  "fail d code message cancelled =
     (let x = runInput d [] in
      andThen (concluded x (if cancelled then 499 else HTTP_STATUS code) (Some (if cancelled then Interrupted else Code code))) (\<lambda>_.
      andThen (if cancelled then ret () else emit (Rejected (GatewayError code message no_opts))) (\<lambda>_.
      yieldEvent x (Err code message (RETRYABLE code)))))"

definition failWith :: "dispatch_input \<Rightarrow> stop \<Rightarrow> unit step" where
  "failWith d h = (case h of
     SThrow e \<Rightarrow> fail d (cf_code (classify e)) (describeError e ''unresolvable model'') False
   | _ \<Rightarrow> fail d TIMEOUT ''client disconnected'' True)"

definition chooseModel :: "dispatch_input \<Rightarrow> gateway_error + virtual_model" where
  "chooseModel d =
     (let name = rq_model (di_request d) in
      if di_localOnly d
      then (case localOnlyModel name (di_snapshot d) (di_providers d) of
              None \<Rightarrow> Inl (GatewayError INTERNAL LOCAL_ONLY_MESSAGE no_opts)
            | Some m \<Rightarrow> Inr m)
      else resolveModel name (di_snapshot d) (di_providers d))"

definition rankInput :: "dispatch_input \<Rightarrow> virtual_model \<Rightarrow> rank_input" where
  "rankInput d m = \<lparr>ri_request = di_request d, ri_model = m, ri_snapshot = di_snapshot d, ri_now = di_started d,
     ri_rand = di_rand d, ri_round = di_round d, ri_load = di_load d, ri_recent = di_recent d, ri_providers = di_providers d\<rparr>"

definition excludedNote :: "excluded \<Rightarrow> string" where
  "excludedNote e = (if ex_kind e = KTarget then ''excluded:'' @ ex_reason e
     else ''excluded:'' @ ex_credentialId e @ '':'' @ ex_reason e)"

definition startState :: "dispatch_input \<Rightarrow> run_state" where
  "startState d = (begun 0 (runInput d []) (newCompletedRequestLog (di_requestId d) (di_started d) (di_requestedModel d)))"

definition dispatchModel :: "dispatch_input \<Rightarrow> virtual_model \<Rightarrow> unit step" where
  "dispatchModel d m s =
     (let ranked = rank (rankInput d m) in
      andThen (noteDegradations (map excludedNote (rr_excluded ranked))) (\<lambda>_ s.
        if rr_candidates ranked = []
        then fail d NO_CANDIDATES (''no eligible credential for model \"'' @ safeToken (di_requestedModel d) @ ''\"'') False s
        else let x = runInput d (rr_candidates ranked) in run x (begun (rn_tick s) x (rn_log s))) s)"

definition dispatch :: "dispatch_input \<Rightarrow> (stop + unit) \<times> run_state" where
  "dispatch d =
     (let x = runInput d [] in
      case andThen (checkCancellation x) (\<lambda>_. andThen (noteDegradations (di_notes d)) (\<lambda>_. checkCancellation x)) (startState d) of
        (Inl h, s) \<Rightarrow> failWith d h s
      | (Inr u, s) \<Rightarrow> (case chooseModel d of
            Inl e \<Rightarrow> failWith d (SThrow (ThrownGateway e)) s
          | Inr m \<Rightarrow> dispatchModel d m s))"

subsection \<open>Where a request may go\<close>

lemma checkCancellation_trace: "snd (checkCancellation x s) = s' \<Longrightarrow> rn_trace s' = rn_trace s"
  using checkCancellation_claims [of x s "fst (checkCancellation x s)" s'] by (simp add: prod_eq_iff)

lemma fail_routed: "routed (rn_trace (snd (fail d code m b s))) = routed (rn_trace s)"
  by (simp add: fail_def Let_def concluded_def yieldEvent_def andThen_def ask_def emit_def setLog_def change_def ret_def raise_def)

lemma failWith_routed: "routed (rn_trace (snd (failWith d h s))) = routed (rn_trace s)"
  by (cases h) (simp_all add: failWith_def fail_routed)

lemma rank_admitted:
  assumes "c \<in> set (rr_candidates (rank input))"
  shows "\<exists>t \<in> set (vm_targets (ri_model input)). \<exists>a \<in> set (sn_credentials (ri_snapshot input)).
    admissible input t a \<and> pr_target c = t \<and> pr_credential c = a"
proof -
  have "set (rr_candidates (rank input)) = set (score (fst (eligible input)) input)"
  proof (cases "fst (eligible input) = []")
    case True
    then show ?thesis by (simp add: rank_def split_def)
  next
    case False
    from mset_eq_setD [OF rank_candidates [OF False]] show ?thesis .
  qed
  with assms have "pair.truncate c \<in> pair.truncate ` set (score (fst (eligible input)) input)" by blast
  then have "pair.truncate c \<in> set (fst (eligible input))"
    using score_truncate [of "fst (eligible input)" input] by (metis set_map)
  then show ?thesis unfolding eligible_sets by (auto simp: pair.truncate_def)
qed

lemma chooseModel_local:
  "di_localOnly d \<Longrightarrow> chooseModel d = Inr m \<Longrightarrow> t \<in> set (vm_targets m) \<Longrightarrow> tg_provider t = ''custom''"
  by (auto simp: chooseModel_def localOnlyModel_def list_all_iff Let_def split: option.splits sum.splits if_splits)

lemma run_routes_candidates:
  assumes "r \<in> set (routed (rn_trace (snd (run x (begun n x l)))))"
  shows "\<exists>c \<in> set (rc_candidates x). r = route c"
proof -
  obtain r' s where loop: "candidateLoop x (rc_candidates x) (begun n x l) = (r', s)" by fastforce
  have "routed (rn_trace (snd (giveUp x s))) = routed (rn_trace s)" for s
    by (simp add: giveUp_def concluded_def yieldEvent_def andThen_def ask_def emit_def setLog_def change_def ret_def raise_def)
  then have "routed (rn_trace (snd (run x (begun n x l)))) = routed (rn_trace s)"
    by (cases r') (simp_all add: run_def andFinally_def andThen_def loop case_prod_beta)
  moreover have "routed (rn_trace (begun n x l)) = []" "rn_attempts (begun n x l) = 0"
    by (simp_all add: begun_def split: list.split)
  ultimately show ?thesis using assms candidateLoop_order [of "begun n x l" x "rc_candidates x"] loop
    by (fastforce elim: list_emb_set)
qed

lemma dispatch_routes_admitted:
  assumes "(p, model, account) \<in> set (routed (rn_trace (snd (dispatch d))))"
  shows "\<exists>m t a. chooseModel d = Inr m \<and> t \<in> set (vm_targets m) \<and> a \<in> set (sn_credentials (di_snapshot d))
    \<and> admissible (rankInput d m) t a \<and> p = tg_provider t \<and> model = tg_model t \<and> account = cr_id a
    \<and> (di_localOnly d \<longrightarrow> p = ''custom'')"
proof -
  let ?x = "runInput d []"
  let ?check = "andThen (checkCancellation ?x) (\<lambda>_. andThen (noteDegradations (di_notes d)) (\<lambda>_. checkCancellation ?x))"
  obtain r s where s: "?check (startState d) = (r, s)" by fastforce
  have "rn_trace s = rn_trace (startState d)"
    using s by (auto simp: andThen_def noteDegradations_def setLog_def change_def split: prod.splits sum.splits
        dest!: checkCancellation_claims)
  then have none: "routed (rn_trace s) = []" by (simp add: startState_def begun_def runInput_def)
  from assms s none obtain m where m: "chooseModel d = Inr m" and r: "(p, model, account) \<in> set (routed (rn_trace (snd (dispatchModel d m s))))"
    by (auto simp: dispatch_def Let_def failWith_routed split: sum.splits)
  let ?cs = "rr_candidates (rank (rankInput d m))"
  have "\<exists>c \<in> set ?cs. (p, model, account) = route c"
    using r none by (auto simp: dispatchModel_def Let_def andThen_def noteDegradations_def setLog_def change_def fail_routed
        runInput_def split: if_splits dest!: run_routes_candidates)
  then obtain c where "c \<in> set ?cs" "(p, model, account) = route c" by blast
  with rank_admitted [of c "rankInput d m"] m chooseModel_local [of d m] show ?thesis
    by (force simp: route_def rankInput_def)
qed

text \<open>
  C4: an attempt reaches only what routing admitted. Every account a dispatch begins an
  attempt on serves, with its target, the model the request resolved to, and was admissible
  for this request on the snapshot: enabled, not parked, its breaker not cooling down, with
  quota left and every capability the request needs. A dispatch confined to local models
  begins attempts on custom endpoints alone, whatever name it was given.
\<close>

theorem dispatch_stays_admitted:
  assumes "(p, model, account) \<in> set (routed (rn_trace (snd (dispatch d))))"
  shows "\<exists>m t a. chooseModel d = Inr m \<and> t \<in> set (vm_targets m) \<and> a \<in> set (sn_credentials (di_snapshot d))
    \<and> admissible (rankInput d m) t a \<and> p = tg_provider t \<and> model = tg_model t \<and> account = cr_id a
    \<and> (di_localOnly d \<longrightarrow> p = ''custom'')"
  using dispatch_routes_admitted [OF assms] .

definition sample_dispatch :: dispatch_input where
  "sample_dispatch = \<lparr>di_requestId = ''id'', di_requestedModel = ''home'', di_request = (sample_chat [])\<lparr>rq_model := ''home''\<rparr>,
     di_notes = [], di_localOnly = True,
     di_snapshot = buildSnapshot [(sample_account ''a'')\<lparr>cr_provider := ''custom''\<rparr>] [] []
       [\<lparr>vm_id = ''home'', vm_targets = [sample_target ''custom''], vm_strategy = Priority, vm_isAlias = False\<rparr>] DEFAULT_SETTINGS 0,
     di_started = 0, di_rand = 0, di_round = (\<lambda>x. x), di_load = Map.empty, di_recent = Map.empty,
     di_providers = [(''custom'', sample_descriptor)], di_adapters = [''custom''], di_world = sample_world\<rparr>"

text \<open>The head of the ranking is begun, unless the request is already cancelled or it is a probe.\<close>

lemma runCandidate_begins:
  assumes "\<not> pr_probe c"
  shows "route c \<in> set (routed (rn_trace (snd (runCandidate x c s))))"
proof -
  let ?P = "\<lambda>t. route c \<in> set (routed (rn_trace t))"
  have run: "wp (runAttempt x c now) (\<lambda>_. ?P) (\<lambda>_. ?P) t" if "?P t" for now t
    using routed_within [OF runAttempt_within [where s = t and x = x and c = c and now = now]] that
    by (simp add: wp_always)
  have begins: "wp (beginAttempt x c) (\<lambda>_. ?P) (\<lambda>_. ?P) t" for t
    by (auto simp: beginAttempt_def wp_rules Let_def route_def split: sum.split)
  have "wp (beginAttempt x c) (\<lambda>now. wp (runAttempt x c now) (\<lambda>_. ?P) (\<lambda>_. ?P)) (\<lambda>_. ?P) t" for t
    by (rule wp_mono [OF begins]) (erule run)
  then have "wp (tryCandidate x c) (\<lambda>_. ?P) (\<lambda>_. ?P) t" for t
    using assms by (simp add: tryCandidate_def wp_rules)
  then have tries: "?P (snd (tryCandidate x c t))" for t by (simp add: wp_always)
  have free: "routed (rn_trace (freeClaims i t)) = routed (rn_trace t)" for i t
    by (simp add: freeClaims_def split: option.split)
  obtain i t where "takeSlot x c s = (Inr i, t)" by (cases "adoptable x c s") (simp_all add: takeSlot_def)
  then have "snd (runCandidate x c s) = freeClaims i (snd (tryCandidate x c (t\<lparr>rn_probing := False\<rparr>)))"
    by (simp add: runCandidate_def andThen_def change_def andFinally_def case_prod_beta)
  then show ?thesis using tries by (simp add: free)
qed

lemma run_begins_first:
  assumes "rc_candidates x = c # cs" and "0 < maxAttempts x" and "\<not> pr_probe c"
    and "checkCancellation x (begun n x l) = (Inr (), s1)"
  shows "route c \<in> set (routed (rn_trace (snd (run x (begun n x l)))))"
proof -
  let ?P = "\<lambda>t. route c \<in> set (routed (rn_trace t))"
  obtain r2 s2 where s2: "runCandidate x c s1 = (r2, s2)" by fastforce
  have p2: "?P s2" using runCandidate_begins [OF assms(3), of x s1] s2 by simp
  have "rn_attempts s1 = 0" using checkCancellation_claims [OF assms(4)] by (simp add: begun_def)
  then have "rn_attempts s2 \<le> maxAttempts x" using runCandidate_tried [of c s1 x] s2 assms(2) by (auto simp: tried_def)
  from candidateLoop_order [OF this, of cs] have "?P (snd (candidateLoop x cs s2))" using p2 by auto
  then have loop: "?P (snd (candidateLoop x (rc_candidates x) (begun n x l)))"
    using assms s2 p2 by (auto simp: begun_def split: sum.split control.split)
  have "routed (rn_trace (snd (giveUp x s))) = routed (rn_trace s)" for s
    by (simp add: giveUp_def concluded_def yieldEvent_def andThen_def ask_def emit_def setLog_def change_def ret_def raise_def)
  with loop show ?thesis by (auto simp: run_def andFinally_def andThen_def case_prod_beta split: prod.splits sum.splits)
qed

theorem dispatch_stays_admitted_witness:
  "\<exists>m t a. chooseModel sample_dispatch = Inr m \<and> t \<in> set (vm_targets m) \<and> a \<in> set (sn_credentials (di_snapshot sample_dispatch))
    \<and> admissible (rankInput sample_dispatch m) t a \<and> ''custom'' = tg_provider t \<and> cr_id a = ''a''"
proof -
  let ?m = "\<lparr>vm_id = ''home'', vm_targets = [sample_target ''custom''], vm_strategy = Priority, vm_isAlias = False\<rparr>"
  let ?in = "rankInput sample_dispatch ?m"
  let ?x = "runInput sample_dispatch []"
  have m: "chooseModel sample_dispatch = Inr ?m"
    by (simp add: chooseModel_def sample_dispatch_def localOnlyModel_def resolveModel_def buildSnapshot_def sample_chat_def sample_target_def)
  have "map (\<lambda>p. (tg_provider (pr_target p), tg_model (pr_target p), cr_id (pr_credential p), pr_probe p)) (fst (eligible ?in))
      = [(''custom'', ''m'', ''a'', False)]"
    by code_simp
  then obtain p where p: "fst (eligible ?in) = [p]" "tg_provider (pr_target p) = ''custom''" "tg_model (pr_target p) = ''m''"
    "cr_id (pr_credential p) = ''a''" "\<not> pr_probe p" by auto
  from rank_candidates [of ?in] have "mset (rr_candidates (rank ?in)) = mset (score [p] ?in)" by (simp add: p(1))
  moreover obtain c where "score [p] ?in = [c]" "pair.truncate c = p"
    using score_truncate [of "[p]" ?in] by (auto simp: map_eq_Cons_conv)
  ultimately have c: "rr_candidates (rank ?in) = [c]" "route c = (''custom'', ''m'', ''a'')" "\<not> pr_probe c"
    using p by (auto simp: route_def pair.truncate_def)
  let ?x = "runInput sample_dispatch [c]"
  have calm: "\<exists>s'. checkCancellation (runInput sample_dispatch cs) s = (Inr (), s')" for cs s
    by (simp add: checkCancellation_def andThen_def ask_def ret_def runInput_def deadlineAt_def sample_dispatch_def buildSnapshot_def
        DEFAULT_SETTINGS_def sample_world_def)
  have "route c \<in> set (routed (rn_trace (snd (run ?x (begun n ?x l)))))" for n l
  proof -
    obtain s1 where "checkCancellation ?x (begun n ?x l) = (Inr (), s1)" using calm by blast
    then show ?thesis by (rule run_begins_first [rotated 3])
      (use c(3) in \<open>simp_all add: runInput_def maxAttempts_def sample_dispatch_def buildSnapshot_def DEFAULT_SETTINGS_def\<close>)
  qed
  then have "(''custom'', ''m'', ''a'') \<in> set (routed (rn_trace (snd (dispatch sample_dispatch))))"
    using calm [of "[]" "startState sample_dispatch"] calm [of "[]"]
    by (auto simp: dispatch_def Let_def andThen_def noteDegradations_def setLog_def change_def m dispatchModel_def c(1) c(2) [symmetric]
        split: prod.splits sum.splits) (metis Inl_Inr_False prod.inject)+
  from dispatch_stays_admitted [OF this] show ?thesis by metis
qed

end
