(* ===== verification/Dispatch_Load.thy ===== *)
theory Dispatch_Load
  imports Router_Types Coord_Memory
begin

section \<open>The load registry\<close>

text \<open>
  \<^verbatim>\<open>apps/gateway/src/dispatch/loadRegistry.ts\<close>: how many requests are in flight against
  each (credential, model) pair. The closure \<open>acquire\<close> returns is the index of a slot, which
  keeps what the closure captured and whether it has run. The renewal timer is the
  operation \<open>load_renew\<close>. The lemmas show that the local counts are the slots not yet
  released, whatever the order of calls and however often a release is called, and that the
  latency average stays within its samples.
\<close>

definition LOAD_PREFIX :: string where "LOAD_PREFIX = ''load:''"
definition SLOT_TTL_MS :: int where "SLOT_TTL_MS = 300000"
definition LOAD_MAX_RENEWED_MS :: int where "LOAD_MAX_RENEWED_MS = 86400000"
definition EWMA_ALPHA :: rat where "EWMA_ALPHA = 3 / 10"

record load_slot =
  sl_key :: string
  sl_provider :: "provider_id option"
  sl_name :: string
  sl_renewUntil :: instant
  sl_released :: bool

record load_registry =
  lg_local :: "string \<rightharpoonup> nat"
  lg_providers :: "string \<rightharpoonup> nat"
  lg_history :: "string \<rightharpoonup> recent_use"
  lg_remote :: "string \<rightharpoonup> nat"
  lg_slots :: "load_slot list"
  lg_coord :: mem_coord

definition createLoadRegistry :: "mem_coord \<Rightarrow> load_registry" where
  "createLoadRegistry c = \<lparr>lg_local = Map.empty, lg_providers = Map.empty, lg_history = Map.empty,
     lg_remote = Map.empty, lg_slots = [], lg_coord = c\<rparr>"

definition bump :: "(string \<rightharpoonup> nat) \<Rightarrow> string \<Rightarrow> (string \<rightharpoonup> nat)" where
  "bump m k = m(k \<mapsto> nullish (m k) 0 + 1)"

definition drop_one :: "(string \<rightharpoonup> nat) \<Rightarrow> string \<Rightarrow> (string \<rightharpoonup> nat)" where
  "drop_one m k = (if nullish (m k) 0 > 1 then m(k \<mapsto> nullish (m k) 0 - 1) else m(k := None))"

definition load_acquire ::
  "string \<Rightarrow> string \<Rightarrow> provider_id option \<Rightarrow> string \<Rightarrow> instant \<Rightarrow> load_registry \<Rightarrow> nat \<times> load_registry" where
  "load_acquire credentialId model provider holder clock l =
     (let key = healthKey credentialId model;
          l = l\<lparr>lg_local := bump (lg_local l) key\<rparr>;
          l = (case provider of None \<Rightarrow> l | Some p \<Rightarrow> l\<lparr>lg_providers := bump (lg_providers l) p\<rparr>);
          l = l\<lparr>lg_coord := (case gauge_acquire (LOAD_PREFIX @ key) SLOT_TTL_MS (Some holder) clock (lg_coord l) of
                Inl e \<Rightarrow> lg_coord l | Inr (n, c) \<Rightarrow> c)\<rparr>
      in (length (lg_slots l),
          l\<lparr>lg_slots := lg_slots l @ [\<lparr>sl_key = key, sl_provider = provider, sl_name = holder,
            sl_renewUntil = clock + LOAD_MAX_RENEWED_MS, sl_released = False\<rparr>]\<rparr>))"

definition foldSample :: "rat option \<Rightarrow> rat option \<Rightarrow> rat option" where
  "foldSample prior ttftMs =
     (case ttftMs of
        None \<Rightarrow> prior
      | Some t \<Rightarrow> (case prior of None \<Rightarrow> Some t | Some p \<Rightarrow> Some (p * (1 - EWMA_ALPHA) + t * EWMA_ALPHA)))"

definition load_release :: "nat \<Rightarrow> rat option \<Rightarrow> instant \<Rightarrow> load_registry \<Rightarrow> load_registry" where
  "load_release i ttftMs clock l =
     (if \<not> i < length (lg_slots l) \<or> sl_released (lg_slots l ! i) then l
      else
        let slot = lg_slots l ! i; key = sl_key slot;
            prior = (case lg_history l key of None \<Rightarrow> None | Some r \<Rightarrow> ru_ewmaTtftMs r);
            l = l\<lparr>lg_slots := (lg_slots l)[i := slot\<lparr>sl_released := True\<rparr>],
                  lg_history := (lg_history l)(key \<mapsto> \<lparr>ru_lastReleasedAt = clock, ru_ewmaTtftMs = foldSample prior ttftMs\<rparr>),
                  lg_local := drop_one (lg_local l) key\<rparr>;
            l = (case sl_provider slot of None \<Rightarrow> l | Some p \<Rightarrow> l\<lparr>lg_providers := drop_one (lg_providers l) p\<rparr>)
        in l\<lparr>lg_coord := (case gauge_release (LOAD_PREFIX @ key) (Some (sl_name slot)) clock (lg_coord l) of
               Inl e \<Rightarrow> lg_coord l | Inr c \<Rightarrow> c)\<rparr>)"

definition load_renew :: "nat \<Rightarrow> instant \<Rightarrow> load_registry \<Rightarrow> load_registry" where
  "load_renew i clock l =
     (if \<not> i < length (lg_slots l) \<or> sl_released (lg_slots l ! i) \<or> clock \<ge> sl_renewUntil (lg_slots l ! i) then l
      else l\<lparr>lg_coord := (case gauge_renew (LOAD_PREFIX @ sl_key (lg_slots l ! i)) (sl_name (lg_slots l ! i)) SLOT_TTL_MS clock (lg_coord l) of
             Inl e \<Rightarrow> lg_coord l | Inr c \<Rightarrow> c)\<rparr>)"

definition load_counts :: "load_registry \<Rightarrow> (string \<rightharpoonup> nat)" where
  "load_counts l = (\<lambda>key. case lg_remote l key of
     None \<Rightarrow> lg_local l key
   | Some n \<Rightarrow> if n > nullish (lg_local l key) 0 then Some n else lg_local l key)"

definition load_refresh :: "instant \<Rightarrow> load_registry \<Rightarrow> load_registry" where
  "load_refresh clock l =
     (let (held, c) = gauge_snapshot LOAD_PREFIX clock (lg_coord l);
          sample = foldl (\<lambda>m (key, n). m(drop (length LOAD_PREFIX) key \<mapsto> n)) Map.empty held
      in l\<lparr>lg_remote := sample, lg_coord := c\<rparr>)"

subsection \<open>Every way of calling it\<close>

datatype load_op =
    LAcquire string string "provider_id option" string instant
  | LRelease nat "rat option" instant
  | LRenew nat instant
  | LRefresh instant

fun load_step :: "load_registry \<Rightarrow> load_op \<Rightarrow> load_registry" where
  "load_step l (LAcquire cid m p h t) = snd (load_acquire cid m p h t l)"
| "load_step l (LRelease i ttft t) = load_release i ttft t l"
| "load_step l (LRenew i t) = load_renew i t l"
| "load_step l (LRefresh t) = load_refresh t l"

definition held_in :: "(load_slot \<Rightarrow> bool) \<Rightarrow> load_slot list \<Rightarrow> nat" where
  "held_in P slots = length (filter (\<lambda>s. \<not> sl_released s \<and> P s) slots)"

definition counts_held :: "(string \<rightharpoonup> nat) \<Rightarrow> (string \<Rightarrow> load_slot \<Rightarrow> bool) \<Rightarrow> load_slot list \<Rightarrow> bool" where
  "counts_held m P slots \<longleftrightarrow> (\<forall>k. m k = (if held_in (P k) slots = 0 then None else Some (held_in (P k) slots)))"

lemma held_in_snoc [simp]: "held_in P (slots @ [s]) = held_in P slots + (if \<not> sl_released s \<and> P s then 1 else 0)"
  by (simp add: held_in_def)

lemma held_in_release:
  assumes "i < length slots" and "\<not> sl_released (slots ! i)" and "\<And>s. P (s\<lparr>sl_released := True\<rparr>) = P s"
  shows "held_in P slots = held_in P (slots[i := (slots ! i)\<lparr>sl_released := True\<rparr>]) + (if P (slots ! i) then 1 else 0)"
  using assms
proof (induction slots arbitrary: i)
  case (Cons s slots)
  then show ?case by (cases i) (auto simp: held_in_def)
qed simp

lemma bump_held:
  assumes "counts_held m P slots" and "\<not> sl_released s" and "\<And>k'. P k' s \<longleftrightarrow> k' = k"
  shows "counts_held (bump m k) P (slots @ [s])"
  using assms by (auto simp: counts_held_def bump_def)

lemma same_held:
  "counts_held m P slots \<Longrightarrow> (\<And>k. \<not> P k s) \<Longrightarrow> counts_held m P (slots @ [s])"
  by (simp add: counts_held_def)

lemma drop_held:
  assumes "counts_held m P slots" and "i < length slots" and "\<not> sl_released (slots ! i)"
    and "\<And>k' s. P k' (s\<lparr>sl_released := True\<rparr>) = P k' s" and "\<And>k'. P k' (slots ! i) \<longleftrightarrow> k' = k"
  shows "counts_held (drop_one m k) P (slots[i := (slots ! i)\<lparr>sl_released := True\<rparr>])"
  unfolding counts_held_def
proof
  fix k'
  have "held_in (P k') slots = held_in (P k') (slots[i := (slots ! i)\<lparr>sl_released := True\<rparr>]) + (if k' = k then 1 else 0)"
    using held_in_release [OF assms(2,3), of "P k'"] assms(4,5) by simp
  moreover have "m k' = (if held_in (P k') slots = 0 then None else Some (held_in (P k') slots))"
    "m k = (if held_in (P k) slots = 0 then None else Some (held_in (P k) slots))"
    using assms(1) by (simp_all add: counts_held_def)
  ultimately show "drop_one m k k' = (if held_in (P k') (slots[i := (slots ! i)\<lparr>sl_released := True\<rparr>]) = 0 then None
      else Some (held_in (P k') (slots[i := (slots ! i)\<lparr>sl_released := True\<rparr>])))"
    by (auto simp: drop_one_def)
qed

lemma drop_other_held:
  assumes "counts_held m P slots" and "i < length slots" and "\<not> sl_released (slots ! i)"
    and "\<And>k' s. P k' (s\<lparr>sl_released := True\<rparr>) = P k' s" and "\<And>k'. \<not> P k' (slots ! i)"
  shows "counts_held m P (slots[i := (slots ! i)\<lparr>sl_released := True\<rparr>])"
  using assms(1) held_in_release [OF assms(2,3), of "P k" for k] assms(4,5) by (simp add: counts_held_def)

definition load_inv :: "load_registry \<Rightarrow> bool" where
  "load_inv l \<longleftrightarrow> counts_held (lg_local l) (\<lambda>k s. sl_key s = k) (lg_slots l)
     \<and> counts_held (lg_providers l) (\<lambda>p s. sl_provider s = Some p) (lg_slots l)"

lemma load_inv_acquire:
  assumes "load_inv l"
  shows "load_inv (snd (load_acquire cid m p h t l))"
proof -
  let ?slot = "\<lparr>sl_key = healthKey cid m, sl_provider = p, sl_name = h, sl_renewUntil = t + LOAD_MAX_RENEWED_MS, sl_released = False\<rparr>"
  have local: "counts_held (bump (lg_local l) (healthKey cid m)) (\<lambda>k s. sl_key s = k) (lg_slots l @ [?slot])"
    using assms by (intro bump_held) (auto simp: load_inv_def)
  have "counts_held (case p of None \<Rightarrow> lg_providers l | Some q \<Rightarrow> bump (lg_providers l) q) (\<lambda>q s. sl_provider s = Some q) (lg_slots l @ [?slot])"
    using assms by (cases p) (auto simp: load_inv_def intro: bump_held same_held)
  with local show ?thesis by (cases p) (simp_all add: load_inv_def load_acquire_def Let_def)
qed

lemma load_inv_release:
  assumes "load_inv l"
  shows "load_inv (load_release i ttft t l)"
proof (cases "i < length (lg_slots l) \<and> \<not> sl_released (lg_slots l ! i)")
  case True
  let ?slots = "(lg_slots l)[i := (lg_slots l ! i)\<lparr>sl_released := True\<rparr>]"
  have local: "counts_held (drop_one (lg_local l) (sl_key (lg_slots l ! i))) (\<lambda>k s. sl_key s = k) ?slots"
    using assms True by (intro drop_held) (auto simp: load_inv_def)
  have "counts_held (case sl_provider (lg_slots l ! i) of None \<Rightarrow> lg_providers l | Some q \<Rightarrow> drop_one (lg_providers l) q)
      (\<lambda>q s. sl_provider s = Some q) ?slots"
    using assms True by (cases "sl_provider (lg_slots l ! i)")
      (auto simp: load_inv_def intro: drop_held drop_other_held)
  with local True show ?thesis by (cases "sl_provider (lg_slots l ! i)") (simp_all add: load_inv_def load_release_def Let_def)
qed (use assms in \<open>simp add: load_release_def\<close>)

lemma load_inv_step: "load_inv l \<Longrightarrow> load_inv (load_step l op)"
proof (cases op)
  case (LRenew i t)
  moreover assume "load_inv l"
  ultimately show ?thesis by (simp add: load_inv_def load_renew_def)
next
  case (LRefresh t)
  moreover assume "load_inv l"
  ultimately show ?thesis by (simp add: load_inv_def load_refresh_def Let_def split_def)
qed (simp_all add: load_inv_acquire load_inv_release)

lemma load_inv_run: "load_inv l \<Longrightarrow> load_inv (foldl load_step l ops)"
  by (induction ops arbitrary: l) (simp_all add: load_inv_step)

lemma load_inv_init: "load_inv (createLoadRegistry c)"
  by (simp add: load_inv_def createLoadRegistry_def counts_held_def held_in_def)

text \<open>
  After any sequence of claims, releases, renewals and refreshes, a pair's local
  count is the number of slots claimed for it and not released, absent when there are none,
  and a provider's the same; releasing a slot a second time changes nothing; and the count
  ranking reads is the larger of the local one and the fleet's, so this process never
  under-reads itself.
\<close>

theorem load_counts_exact:
  fixes c :: mem_coord and ops :: "load_op list"
  defines "l \<equiv> foldl load_step (createLoadRegistry c) ops"
  shows "lg_local l key = (let n = held_in (\<lambda>s. sl_key s = key) (lg_slots l) in if n = 0 then None else Some n)
    \<and> lg_providers l p = (let n = held_in (\<lambda>s. sl_provider s = Some p) (lg_slots l) in if n = 0 then None else Some n)
    \<and> load_release i ttft t (load_release i ttft' t' l) = load_release i ttft' t' l
    \<and> nullish (load_counts l key) 0 = max (nullish (lg_local l key) 0) (nullish (lg_remote l key) 0)"
proof -
  have inv: "load_inv l" unfolding l_def by (rule load_inv_run [OF load_inv_init])
  have "load_release i ttft t (load_release i ttft' t' l) = load_release i ttft' t' l"
    by (auto simp: load_release_def Let_def split: option.splits)
  moreover have "nullish (load_counts l key) 0 = max (nullish (lg_local l key) 0) (nullish (lg_remote l key) 0)"
    by (auto simp: load_counts_def max_def split: option.splits)
  ultimately show ?thesis using inv by (simp add: load_inv_def counts_held_def Let_def)
qed

subsection \<open>The latency average\<close>

lemma foldSample_within:
  assumes "\<And>t. prior = Some t \<Longrightarrow> lo \<le> t \<and> t \<le> hi" and "\<And>t. sample = Some t \<Longrightarrow> lo \<le> t \<and> t \<le> hi"
    and "foldSample prior sample = Some v"
  shows "lo \<le> v \<and> v \<le> hi"
proof (cases "prior = None \<or> sample = None")
  case False
  then obtain p t where "prior = Some p" "sample = Some t" by auto
  with assms have "v = p * (7 / 10) + t * (3 / 10)" and "lo \<le> p" "p \<le> hi" "lo \<le> t" "t \<le> hi"
    by (auto simp: foldSample_def EWMA_ALPHA_def)
  then show ?thesis by simp
qed (use assms in \<open>auto simp: foldSample_def split: option.splits\<close>)

fun sampled_within :: "rat \<Rightarrow> rat \<Rightarrow> load_op \<Rightarrow> bool" where
  "sampled_within lo hi (LRelease i (Some t) clock) \<longleftrightarrow> lo \<le> t \<and> t \<le> hi"
| "sampled_within lo hi _ \<longleftrightarrow> True"

definition averages_within :: "rat \<Rightarrow> rat \<Rightarrow> load_registry \<Rightarrow> bool" where
  "averages_within lo hi l \<longleftrightarrow> (\<forall>k r v. lg_history l k = Some r \<longrightarrow> ru_ewmaTtftMs r = Some v \<longrightarrow> lo \<le> v \<and> v \<le> hi)"

lemma averages_step:
  assumes "averages_within lo hi l" and "sampled_within lo hi op"
  shows "averages_within lo hi (load_step l op)"
proof (cases op)
  case (LRelease i ttft t)
  show ?thesis
  proof (cases "i < length (lg_slots l) \<and> \<not> sl_released (lg_slots l ! i)")
    case True
    let ?prior = "case lg_history l (sl_key (lg_slots l ! i)) of None \<Rightarrow> None | Some r \<Rightarrow> ru_ewmaTtftMs r"
    have sample: "lo \<le> x \<and> x \<le> hi" if "ttft = Some x" for x using assms(2) that LRelease by simp
    have prior: "lo \<le> x \<and> x \<le> hi" if "?prior = Some x" for x
      using assms(1) that by (auto simp: averages_within_def split: option.splits)
    have hist: "lg_history (load_release i ttft t l) = (lg_history l)(sl_key (lg_slots l ! i) \<mapsto>
        \<lparr>ru_lastReleasedAt = t, ru_ewmaTtftMs = foldSample ?prior ttft\<rparr>)"
      using True by (cases "sl_provider (lg_slots l ! i)") (simp_all add: load_release_def Let_def)
    show ?thesis
      using assms(1) foldSample_within [OF prior sample] unfolding averages_within_def LRelease load_step.simps hist
      by auto
  qed (use assms LRelease in \<open>auto simp: load_release_def\<close>)
qed (use assms in \<open>auto simp: averages_within_def load_acquire_def load_renew_def load_refresh_def Let_def split_def split: option.splits\<close>)

lemma averages_run:
  "averages_within lo hi l \<Longrightarrow> list_all (sampled_within lo hi) ops \<Longrightarrow> averages_within lo hi (foldl load_step l ops)"
  by (induction ops arbitrary: l) (simp_all add: averages_step)

end
