(* ===== verification/Dispatch_Cache.thy ===== *)
theory Dispatch_Cache
  imports Router_Types
begin

section \<open>The routing snapshot cache\<close>

text \<open>
  \<^verbatim>\<open>apps/gateway/src/dispatch/snapshotCache.ts\<close>: the one snapshot a process routes from,
  patched by the changes its store emits and by those other processes publish
  (\<^verbatim>\<open>applyRemote\<close>, wired in \<^verbatim>\<open>app.ts\<close>), and rebuilt when a configuration change or a
  moved version makes it stale. A build reads five tables, one \<^verbatim>\<open>await\<close> each, while writes
  go on; it is installed only if neither the generation nor the version moved.

  \<open>cache_step\<close> interleaves any number of builds with what the store's driver lets happen.

  \<^item> SQLite, one process and its files: a local write is followed at once by the change it
    emits and leaves \<^verbatim>\<open>data_version\<close> as it is, a commit by another connection moves it, and
    \<^verbatim>\<open>version()\<close> reads it. A restore puts another database in place in one synchronous
    stretch, with a version of its own, and invalidates the cache only some awaits later;
    \<open>ks_restoring\<close> says that this is still to come.
  \<^item> Postgres, a cluster: every commit moves the counter, except one that touches nothing
    but measurements of account health; the change reaches this process's cache later,
    from its own repository (\<open>ks_due\<close>) or over the bus (\<open>ks_sent\<close>), in any order. \<^verbatim>\<open>version()\<close>
    answers the value fetched last (\<open>ks_seen\<close>) and starts a fetch if none is under way, which
    reads the counter at some later moment and returns at a later one still.

  Saving quota replaces every row of the credentials it names, as both drivers do. The source
  keeps at most one build in flight to save reads; more are allowed here.
\<close>

record tables =
  db_credentials :: "credential_view list"
  db_health :: "credential_health list"
  db_quota :: "quota_window list"
  db_models :: "virtual_model list"
  db_settings :: settings

datatype routing_change =
    HealthSaved "credential_health list"
  | QuotaSaved "quota_window list"
  | CredentialsChanged
  | ModelsChanged
  | SettingsChanged

record build =
  bd_generation :: nat
  bd_version :: nat
  bd_now :: instant
  bd_credentials :: "credential_view list option"
  bd_health :: "credential_health list option"
  bd_quota :: "quota_window list option"
  bd_models :: "virtual_model list option"
  bd_settings :: "settings option"

record snapshot_cache =
  sc_snapshot :: "snapshot option"
  sc_stale :: bool
  sc_version :: nat
  sc_generation :: nat

definition createCache :: "nat \<Rightarrow> snapshot_cache" where
  "createCache version = \<lparr>sc_snapshot = None, sc_stale = True, sc_version = version, sc_generation = 0\<rparr>"

definition applyChange :: "routing_change \<Rightarrow> snapshot_cache \<Rightarrow> snapshot_cache" where
  "applyChange change c =
     (let c = c\<lparr>sc_generation := sc_generation c + 1\<rparr> in
      case sc_snapshot c of
        None \<Rightarrow> c
      | Some s \<Rightarrow>
          if sc_stale c then c
          else case change of
              HealthSaved rows \<Rightarrow> c\<lparr>sc_snapshot := Some (s\<lparr>sn_health :=
                foldl (\<lambda>m h. m(healthKey (h_credentialId h) (h_model h) \<mapsto> h)) (sn_health s) rows\<rparr>)\<rparr>
            | QuotaSaved rows \<Rightarrow> c\<lparr>sc_snapshot := Some (s\<lparr>sn_quota :=
                (\<lambda>cid. let mine = filter (\<lambda>r. qw_credentialId r = cid) rows in if mine = [] then sn_quota s cid else Some mine)\<rparr>)\<rparr>
            | _ \<Rightarrow> c\<lparr>sc_stale := True\<rparr>)"

text \<open>What \<open>get\<close> answers at once, or that it has to build.\<close>

definition noticeVersion :: "nat \<Rightarrow> snapshot_cache \<Rightarrow> snapshot_cache" where
  "noticeVersion current c = (if current \<noteq> sc_version c then c\<lparr>sc_stale := True\<rparr> else c)"

definition cached :: "nat \<Rightarrow> snapshot_cache \<Rightarrow> snapshot option" where
  "cached current c = (let c = noticeVersion current c in if sc_stale c then None else sc_snapshot c)"

definition beginBuild :: "nat \<Rightarrow> instant \<Rightarrow> snapshot_cache \<Rightarrow> build" where
  "beginBuild current now c = \<lparr>bd_generation = sc_generation c, bd_version = current, bd_now = now,
     bd_credentials = None, bd_health = None, bd_quota = None, bd_models = None, bd_settings = None\<rparr>"

definition built :: "build \<Rightarrow> snapshot option" where
  "built b = (case (bd_credentials b, bd_health b, bd_quota b, bd_models b, bd_settings b) of
     (Some cs, Some hs, Some qs, Some ms, Some st) \<Rightarrow> Some (buildSnapshot cs hs qs ms st (bd_now b))
   | _ \<Rightarrow> None)"

text \<open>A finished build: installed, or dropped because something moved under it.\<close>

definition installBuild :: "nat \<Rightarrow> build \<Rightarrow> snapshot \<Rightarrow> snapshot_cache \<Rightarrow> snapshot_cache" where
  "installBuild completed b s c =
     (if sc_generation c \<noteq> bd_generation b \<or> completed \<noteq> bd_version b then c
      else c\<lparr>sc_snapshot := Some s, sc_version := completed, sc_stale := False\<rparr>)"

definition invalidate :: "nat \<Rightarrow> snapshot_cache \<Rightarrow> snapshot_cache" where
  "invalidate current c = c\<lparr>sc_generation := sc_generation c + 1, sc_snapshot := None, sc_stale := True, sc_version := current\<rparr>"

subsection \<open>The store and its commits\<close>

definition hkey :: "credential_health \<Rightarrow> string" where
  "hkey h = healthKey (h_credentialId h) (h_model h)"

definition unique_health :: "tables \<Rightarrow> bool" where
  "unique_health d \<longleftrightarrow> distinct (map hkey (db_health d))"

definition savedHealth :: "credential_health list \<Rightarrow> tables \<Rightarrow> tables \<Rightarrow> bool" where
  "savedHealth rows d d' \<longleftrightarrow> (\<exists>hs. d' = d\<lparr>db_health := hs\<rparr> \<and> distinct (map hkey rows)
     \<and> mset hs = mset (filter (\<lambda>h. hkey h \<notin> hkey ` set rows) (db_health d) @ rows))"

definition savedQuota :: "quota_window list \<Rightarrow> tables \<Rightarrow> tables \<Rightarrow> bool" where
  "savedQuota rows d d' \<longleftrightarrow> (\<exists>qs. d' = d\<lparr>db_quota := qs\<rparr>
     \<and> mset qs = mset (filter (\<lambda>q. qw_credentialId q \<notin> qw_credentialId ` set rows) (db_quota d) @ rows))"

text \<open>What a commit may do to the tables, by the change it is announced as.\<close>

definition committed :: "routing_change \<Rightarrow> tables \<Rightarrow> tables \<Rightarrow> bool" where
  "committed change d d' \<longleftrightarrow> (case change of
       HealthSaved rows \<Rightarrow> savedHealth rows d d'
     | QuotaSaved rows \<Rightarrow> savedQuota rows d d'
     | _ \<Rightarrow> unique_health d')"

text \<open>The trigger of \<^verbatim>\<open>002_health_measurements.sql\<close>: the columns of a health row routing decides on.\<close>

definition deciding :: "credential_health \<Rightarrow> string \<times> breaker_state \<times> instant option \<times> instant option" where
  "deciding h = (hkey h, h_breakerState h, h_rateLimitedUntil h, h_openedAt h)"

definition bumps :: "routing_change \<Rightarrow> tables \<Rightarrow> tables \<Rightarrow> bool" where
  "bumps change d d' \<longleftrightarrow> (case change of
       HealthSaved rows \<Rightarrow> deciding ` set (db_health d') \<noteq> deciding ` set (db_health d)
     | _ \<Rightarrow> True)"

datatype driver = Sqlite | Postgres

datatype fetch = NoFetch | Asked | Carrying nat

record cache_state =
  ks_tables :: tables
  ks_version :: nat
  ks_seen :: nat
  ks_fetch :: fetch
  ks_due :: "routing_change list"
  ks_sent :: "routing_change list"
  ks_restoring :: bool
  ks_cache :: snapshot_cache
  ks_builds :: "build list"

text \<open>\<^verbatim>\<open>routing.version()\<close>: what it answers and what it starts.\<close>

definition currentVersion :: "driver \<Rightarrow> cache_state \<Rightarrow> nat" where
  "currentVersion drv s = (case drv of Sqlite \<Rightarrow> ks_version s | Postgres \<Rightarrow> ks_seen s)"

definition versionCalled :: "driver \<Rightarrow> cache_state \<Rightarrow> cache_state" where
  "versionCalled drv s = (if drv = Postgres \<and> ks_fetch s = NoFetch then s\<lparr>ks_fetch := Asked\<rparr> else s)"

definition readTable :: "tables \<Rightarrow> build \<Rightarrow> build set" where
  "readTable d b = {b\<lparr>bd_credentials := Some (db_credentials d)\<rparr>, b\<lparr>bd_health := Some (db_health d)\<rparr>,
     b\<lparr>bd_quota := Some (db_quota d)\<rparr>, b\<lparr>bd_models := Some (db_models d)\<rparr>, b\<lparr>bd_settings := Some (db_settings d)\<rparr>}"

inductive cache_step :: "driver \<Rightarrow> cache_state \<Rightarrow> cache_state \<Rightarrow> bool" for drv :: driver where
  wrote: "drv = Sqlite \<Longrightarrow> committed change (ks_tables s) d' \<Longrightarrow>
    cache_step drv s (s\<lparr>ks_tables := d', ks_cache := applyChange change (ks_cache s)\<rparr>)"
| foreign: "drv = Sqlite \<Longrightarrow> unique_health d' \<Longrightarrow> ks_version s < v \<Longrightarrow>
    cache_step drv s (s\<lparr>ks_tables := d', ks_version := v\<rparr>)"
| swapped: "drv = Sqlite \<Longrightarrow> unique_health d' \<Longrightarrow>
    cache_step drv s (s\<lparr>ks_tables := d', ks_version := v, ks_restoring := True\<rparr>)"
| invalidated: "ks_restoring s \<Longrightarrow>
    cache_step drv s (s\<lparr>ks_cache := invalidate (currentVersion drv s) (ks_cache s), ks_restoring := False\<rparr>)"
| committedHere: "drv = Postgres \<Longrightarrow> committed change (ks_tables s) d' \<Longrightarrow> ks_version s \<le> v \<Longrightarrow>
    bumps change (ks_tables s) d' \<longrightarrow> ks_version s < v \<Longrightarrow>
    cache_step drv s (s\<lparr>ks_tables := d', ks_version := v, ks_due := ks_due s @ [change]\<rparr>)"
| emitted: "ks_due s = xs @ change # ys \<Longrightarrow>
    cache_step drv s (s\<lparr>ks_cache := applyChange change (ks_cache s), ks_due := xs @ ys\<rparr>)"
| committedElsewhere: "drv = Postgres \<Longrightarrow> committed change (ks_tables s) d' \<Longrightarrow> ks_version s \<le> v \<Longrightarrow>
    bumps change (ks_tables s) d' \<longrightarrow> ks_version s < v \<Longrightarrow>
    cache_step drv s (s\<lparr>ks_tables := d', ks_version := v, ks_sent := ks_sent s @ [change]\<rparr>)"
| delivered: "ks_sent s = xs @ change # ys \<Longrightarrow>
    cache_step drv s (s\<lparr>ks_cache := applyChange change (ks_cache s), ks_sent := xs @ ys\<rparr>)"
| lost: "ks_sent s = xs @ change # ys \<Longrightarrow> cache_step drv s (s\<lparr>ks_sent := xs @ ys\<rparr>)"
| fetchReads: "ks_fetch s = Asked \<Longrightarrow> cache_step drv s (s\<lparr>ks_fetch := Carrying (ks_version s)\<rparr>)"
| fetchReturns: "ks_fetch s = Carrying v \<Longrightarrow> cache_step drv s (s\<lparr>ks_seen := v, ks_fetch := NoFetch\<rparr>)"
| fetchFails: "cache_step drv s (s\<lparr>ks_fetch := NoFetch\<rparr>)"
| hit: "cached (currentVersion drv s) (ks_cache s) = Some snap \<Longrightarrow> cache_step drv s (versionCalled drv s)"
| asked: "cached (currentVersion drv s) (ks_cache s) = None \<Longrightarrow>
    c = noticeVersion (currentVersion drv s) (ks_cache s) \<Longrightarrow>
    cache_step drv s ((versionCalled drv s)\<lparr>ks_cache := c, ks_builds := ks_builds s @ [beginBuild (currentVersion drv s) now c]\<rparr>)"
| read: "ks_builds s = xs @ b # ys \<Longrightarrow> b' \<in> readTable (ks_tables s) b \<Longrightarrow>
    cache_step drv s (s\<lparr>ks_builds := xs @ b' # ys\<rparr>)"
| finished: "ks_builds s = xs @ b # ys \<Longrightarrow> built b = Some snap \<Longrightarrow>
    cache_step drv s ((versionCalled drv s)\<lparr>ks_cache := installBuild (currentVersion drv s) b snap (ks_cache s), ks_builds := xs @ ys\<rparr>)"

definition cache_start :: "tables \<Rightarrow> nat \<Rightarrow> cache_state" where
  "cache_start d v = \<lparr>ks_tables = d, ks_version = v, ks_seen = v, ks_fetch = NoFetch, ks_due = [], ks_sent = [],
     ks_restoring = False, ks_cache = createCache v, ks_builds = []\<rparr>"

definition cache_reachable :: "driver \<Rightarrow> cache_state \<Rightarrow> bool" where
  "cache_reachable drv s \<longleftrightarrow> (\<exists>d v. unique_health d \<and> (cache_step drv)\<^sup>*\<^sup>* (versionCalled drv (cache_start d v)) s)"

subsection \<open>Coherence\<close>

text \<open>A snapshot says what the tables say, quota rows in any order.\<close>

definition agrees :: "snapshot \<Rightarrow> tables \<Rightarrow> bool" where
  "agrees s d \<longleftrightarrow> sn_credentials s = db_credentials d \<and> sn_settings s = db_settings d
     \<and> sn_models s = foldl (\<lambda>m v. m(vm_id v \<mapsto> v)) Map.empty (db_models d)
     \<and> (\<forall>k h. sn_health s k = Some h \<longleftrightarrow> h \<in> set (db_health d) \<and> hkey h = k)
     \<and> (\<forall>cid. mset (nullish (sn_quota s cid) []) = mset (filter (\<lambda>q. qw_credentialId q = cid) (db_quota d)))"

definition parts_agree :: "build \<Rightarrow> tables \<Rightarrow> bool" where
  "parts_agree b d \<longleftrightarrow> bd_credentials b \<in> {None, Some (db_credentials d)} \<and> bd_health b \<in> {None, Some (db_health d)}
     \<and> bd_quota b \<in> {None, Some (db_quota d)} \<and> bd_models b \<in> {None, Some (db_models d)}
     \<and> bd_settings b \<in> {None, Some (db_settings d)}"

lemma health_index:
  assumes "distinct (map hkey rows)"
  shows "foldl (\<lambda>m h. m(healthKey (h_credentialId h) (h_model h) \<mapsto> h)) m rows k = Some h
    \<longleftrightarrow> h \<in> set rows \<and> hkey h = k \<or> k \<notin> hkey ` set rows \<and> m k = Some h"
  using assms
proof (induction rows arbitrary: m)
  case (Cons r rows)
  then show ?case by (auto simp: hkey_def [symmetric])
qed simp

lemma sn_quota_rows: "sn_quota (buildSnapshot cs hs rows ms st now) cid =
    (case filter (\<lambda>r. qw_credentialId r = cid) rows of [] \<Rightarrow> None | r # rs \<Rightarrow> Some (r # rs))"
  by (simp add: buildSnapshot_def groupQuota_lookup split: list.splits)

lemma built_agrees:
  assumes "built b = Some snap" and "parts_agree b d" and "unique_health d"
  shows "agrees snap d"
proof -
  from assms(1,2) have snap: "snap = buildSnapshot (db_credentials d) (db_health d) (db_quota d) (db_models d) (db_settings d) (bd_now b)"
    by (auto simp: built_def parts_agree_def split: option.splits)
  have quota: "mset (nullish (sn_quota snap cid) []) = mset (filter (\<lambda>q. qw_credentialId q = cid) (db_quota d))" for cid
    by (cases "filter (\<lambda>q. qw_credentialId q = cid) (db_quota d)")
      (simp_all add: snap sn_quota_rows Let_def)
  show ?thesis
    using quota health_index [of "db_health d" Map.empty] assms(3)
    by (simp add: agrees_def snap buildSnapshot_def unique_health_def)
qed

lemma savedHealth_unique: "savedHealth rows d d' \<Longrightarrow> unique_health d \<Longrightarrow> unique_health d'"
proof -
  assume "savedHealth rows d d'" "unique_health d"
  then obtain hs where hs: "db_health d' = hs" "distinct (map hkey rows)" "distinct (map hkey (db_health d))"
    "mset hs = mset (filter (\<lambda>h. hkey h \<notin> hkey ` set rows) (db_health d) @ rows)"
    by (auto simp: savedHealth_def unique_health_def)
  from hs(4) have "mset (map hkey hs) = mset (map hkey (filter (\<lambda>h. hkey h \<notin> hkey ` set rows) (db_health d) @ rows))"
    by (metis mset_map)
  moreover have "distinct (map hkey (filter (\<lambda>h. hkey h \<notin> hkey ` set rows) (db_health d) @ rows))"
    using hs(2,3) by (auto simp: distinct_map_filter)
  ultimately show "unique_health d'" unfolding unique_health_def hs(1) by (metis mset_eq_imp_distinct_iff)
qed

lemma health_patch_agrees:
  assumes "agrees s d" and "savedHealth rows d d'"
  shows "agrees (s\<lparr>sn_health := foldl (\<lambda>m h. m(healthKey (h_credentialId h) (h_model h) \<mapsto> h)) (sn_health s) rows\<rparr>) d'"
proof -
  from assms(2) obtain hs where d': "d' = d\<lparr>db_health := hs\<rparr>" and rows: "distinct (map hkey rows)"
    and hs: "set hs = set (filter (\<lambda>h. hkey h \<notin> hkey ` set rows) (db_health d) @ rows)"
    unfolding savedHealth_def using mset_eq_setD by blast
  show ?thesis using assms(1) by (auto simp: agrees_def d' health_index [OF rows] hs)
qed

lemma quota_patch_agrees:
  assumes "agrees s d" and "savedQuota rows d d'"
  shows "agrees (s\<lparr>sn_quota := (\<lambda>cid. let mine = filter (\<lambda>r. qw_credentialId r = cid) rows in
    if mine = [] then sn_quota s cid else Some mine)\<rparr>) d'"
proof -
  from assms(2) obtain qs where d': "d' = d\<lparr>db_quota := qs\<rparr>"
    and qs: "mset qs = mset (filter (\<lambda>q. qw_credentialId q \<notin> qw_credentialId ` set rows) (db_quota d) @ rows)"
    by (auto simp: savedQuota_def)
  have "mset (filter (\<lambda>q. qw_credentialId q = cid) qs) =
      (if filter (\<lambda>r. qw_credentialId r = cid) rows = [] then mset (filter (\<lambda>q. qw_credentialId q = cid) (db_quota d))
       else mset (filter (\<lambda>r. qw_credentialId r = cid) rows))" for cid
  proof -
    have "mset (filter (\<lambda>q. qw_credentialId q = cid) qs) = filter_mset (\<lambda>q. qw_credentialId q = cid) (mset qs)" by simp
    also have "\<dots> = mset (filter (\<lambda>q. qw_credentialId q = cid \<and> qw_credentialId q \<notin> qw_credentialId ` set rows) (db_quota d))
        + mset (filter (\<lambda>r. qw_credentialId r = cid) rows)"
      unfolding qs by (simp add: filter_filter_mset conj_commute)
    also have "filter (\<lambda>q. qw_credentialId q = cid \<and> qw_credentialId q \<notin> qw_credentialId ` set rows) (db_quota d)
        = (if cid \<in> qw_credentialId ` set rows then [] else filter (\<lambda>q. qw_credentialId q = cid) (db_quota d))"
      by (auto intro: filter_cong)
    finally show ?thesis by (auto simp: filter_empty_conv image_iff)
  qed
  then show ?thesis using assms(1) by (simp add: agrees_def d' Let_def)
qed

lemma applyChange_facts [simp]:
  "sc_generation (applyChange change c) = sc_generation c + 1" "sc_version (applyChange change c) = sc_version c"
  by (auto simp: applyChange_def Let_def split: option.splits routing_change.splits)

text \<open>A snapshot still fresh after a change was fresh before it, and was patched.\<close>

lemma applyChange_fresh:
  assumes "sc_snapshot (applyChange change c) = Some snap" and "\<not> sc_stale (applyChange change c)"
  shows "\<exists>old. sc_snapshot c = Some old \<and> \<not> sc_stale c \<and>
    (case change of
       HealthSaved rows \<Rightarrow> snap = old\<lparr>sn_health := foldl (\<lambda>m h. m(healthKey (h_credentialId h) (h_model h) \<mapsto> h)) (sn_health old) rows\<rparr>
     | QuotaSaved rows \<Rightarrow> snap = old\<lparr>sn_quota := (\<lambda>cid. let mine = filter (\<lambda>r. qw_credentialId r = cid) rows in
         if mine = [] then sn_quota old cid else Some mine)\<rparr>
     | _ \<Rightarrow> False)"
proof (cases "sc_snapshot c")
  case (Some old)
  show ?thesis
  proof (cases "sc_stale c")
    case False
    with assms Some show ?thesis by (cases change) (simp_all add: applyChange_def)
  qed (use assms Some in \<open>simp add: applyChange_def\<close>)
qed (use assms in \<open>simp add: applyChange_def\<close>)

subsection \<open>SQLite\<close>

text \<open>What holds of the cache against the tables at the current version.\<close>

definition in_step :: "cache_state \<Rightarrow> bool" where
  "in_step s \<longleftrightarrow> sc_version (ks_cache s) \<le> ks_version s
     \<and> (\<forall>snap. sc_snapshot (ks_cache s) = Some snap \<longrightarrow> \<not> sc_stale (ks_cache s)
          \<longrightarrow> sc_version (ks_cache s) = ks_version s \<longrightarrow> agrees snap (ks_tables s))
     \<and> (\<forall>b \<in> set (ks_builds s). bd_generation b = sc_generation (ks_cache s) \<longrightarrow> bd_version b \<le> ks_version s
          \<and> (bd_version b = ks_version s \<longrightarrow> parts_agree b (ks_tables s)))"

definition sqlite_inv :: "cache_state \<Rightarrow> bool" where
  "sqlite_inv s \<longleftrightarrow> unique_health (ks_tables s) \<and> ks_due s = [] \<and> ks_sent s = []
     \<and> (\<forall>b \<in> set (ks_builds s). bd_generation b \<le> sc_generation (ks_cache s))
     \<and> (\<not> ks_restoring s \<longrightarrow> in_step s)"

lemma committed_unique: "committed change d d' \<Longrightarrow> unique_health d \<Longrightarrow> unique_health d'"
  by (auto simp: committed_def savedQuota_def unique_health_def dest: savedHealth_unique split: routing_change.splits)

lemma in_step_wrote:
  assumes "in_step s" and c: "committed change (ks_tables s) d'" and "\<forall>b \<in> set (ks_builds s). bd_generation b \<le> sc_generation (ks_cache s)"
  shows "in_step (s\<lparr>ks_tables := d', ks_cache := applyChange change (ks_cache s)\<rparr>)"
proof -
  have "agrees snap d'" if fresh: "sc_snapshot (applyChange change (ks_cache s)) = Some snap"
    "\<not> sc_stale (applyChange change (ks_cache s))" "sc_version (ks_cache s) = ks_version s" for snap
    using applyChange_fresh [OF fresh(1,2)] assms(1) fresh(3) c health_patch_agrees quota_patch_agrees
    by (cases change) (auto simp: in_step_def committed_def)
  with assms show ?thesis by (fastforce simp: in_step_def)
qed

lemma in_step_asked:
  assumes "in_step s"
  shows "in_step (s\<lparr>ks_cache := noticeVersion (ks_version s) (ks_cache s),
    ks_builds := ks_builds s @ [beginBuild (ks_version s) now (noticeVersion (ks_version s) (ks_cache s))]\<rparr>)"
proof -
  let ?c = "noticeVersion (ks_version s) (ks_cache s)"
  have c: "sc_generation ?c = sc_generation (ks_cache s)" "sc_version ?c = sc_version (ks_cache s)"
    "sc_snapshot ?c = sc_snapshot (ks_cache s)" "\<not> sc_stale ?c \<Longrightarrow> \<not> sc_stale (ks_cache s)"
    by (simp_all add: noticeVersion_def split: if_splits)
  have "parts_agree (beginBuild v now ?c) d" for v d by (simp add: beginBuild_def parts_agree_def)
  moreover have "bd_generation (beginBuild v now ?c) = sc_generation (ks_cache s)" "bd_version (beginBuild v now ?c) = v" for v
    by (simp_all add: beginBuild_def c)
  ultimately show ?thesis using assms c(4) by (auto simp: in_step_def c(1,2,3))
qed

text \<open>Reading a table keeps what agrees.\<close>

lemma readTable_facts:
  assumes "b' \<in> readTable d b"
  shows "bd_generation b' = bd_generation b" "bd_version b' = bd_version b" "parts_agree b d \<Longrightarrow> parts_agree b' d"
proof -
  show "bd_generation b' = bd_generation b" "bd_version b' = bd_version b" using assms by (auto simp: readTable_def)
  show "parts_agree b d \<Longrightarrow> parts_agree b' d"
    using assms unfolding readTable_def insert_iff empty_iff by (elim disjE) (simp_all add: parts_agree_def)
qed

lemma in_step_read:
  assumes "in_step s" and "ks_builds s = xs @ b # ys" and b': "b' \<in> readTable (ks_tables s) b"
  shows "in_step (s\<lparr>ks_builds := xs @ b' # ys\<rparr>)"
  using assms(1,2) readTable_facts [OF b'] by (auto simp: in_step_def)

lemma in_step_finished:
  assumes "in_step s" and "unique_health (ks_tables s)" and "ks_builds s = xs @ b # ys" and "built b = Some snap"
  shows "in_step (s\<lparr>ks_cache := installBuild (ks_version s) b snap (ks_cache s), ks_builds := xs @ ys\<rparr>)"
proof (cases "sc_generation (ks_cache s) = bd_generation b \<and> ks_version s = bd_version b")
  case True
  then have "parts_agree b (ks_tables s)" using assms(1,3) by (simp add: in_step_def)
  then have "agrees snap (ks_tables s)" using built_agrees [OF assms(4) _ assms(2)] by simp
  then show ?thesis using True assms(1,3) by (auto simp: in_step_def installBuild_def)
next
  case False
  then have "installBuild (ks_version s) b snap (ks_cache s) = ks_cache s" by (auto simp: installBuild_def)
  with assms(1,3) show ?thesis by (auto simp: in_step_def)
qed

lemma installBuild_generation [simp]: "sc_generation (installBuild v b snap c) = sc_generation c"
  by (simp add: installBuild_def)

lemma noticeVersion_facts [simp]:
  "sc_generation (noticeVersion v c) = sc_generation c" "sc_version (noticeVersion v c) = sc_version c"
  "sc_snapshot (noticeVersion v c) = sc_snapshot c"
  by (simp_all add: noticeVersion_def)

lemma sqlite_calls [simp]: "versionCalled Sqlite s = s" "currentVersion Sqlite s = ks_version s"
  by (simp_all add: versionCalled_def currentVersion_def)

lemma sqlite_step:
  assumes "cache_step Sqlite s s'" and inv: "sqlite_inv s"
  shows "sqlite_inv s'"
  using assms(1)
proof cases
  case (wrote change d')
  with inv in_step_wrote [OF _ wrote(3)] committed_unique [OF wrote(3)] show ?thesis
    by (auto simp: sqlite_inv_def le_SucI in_step_def)
next
  case (foreign d' v)
  with inv show ?thesis by (fastforce simp: sqlite_inv_def in_step_def)
next
  case invalidated
  with inv show ?thesis by (fastforce simp: sqlite_inv_def in_step_def invalidate_def)
next
  case (asked c now)
  with inv in_step_asked [of s now] show ?thesis by (auto simp: sqlite_inv_def beginBuild_def)
next
  case (read xs b ys b')
  with inv in_step_read [OF _ read(2,3)] readTable_facts(1) [OF read(3)] show ?thesis by (auto simp: sqlite_inv_def)
next
  case (finished xs b ys snap)
  with inv in_step_finished [OF _ _ finished(2,3)] show ?thesis by (auto simp: sqlite_inv_def)
qed (use inv in \<open>auto simp: sqlite_inv_def in_step_def\<close>)

subsection \<open>Postgres\<close>

text \<open>The configuration of a snapshot, which no message can patch.\<close>

definition configured :: "snapshot \<Rightarrow> tables \<Rightarrow> bool" where
  "configured s d \<longleftrightarrow> sn_credentials s = db_credentials d \<and> sn_settings s = db_settings d
     \<and> sn_models s = foldl (\<lambda>m v. m(vm_id v \<mapsto> v)) Map.empty (db_models d)"

definition parts_configured :: "build \<Rightarrow> tables \<Rightarrow> bool" where
  "parts_configured b d \<longleftrightarrow> bd_credentials b \<in> {None, Some (db_credentials d)} \<and> bd_models b \<in> {None, Some (db_models d)}
     \<and> bd_settings b \<in> {None, Some (db_settings d)}"

definition postgres_inv :: "cache_state \<Rightarrow> bool" where
  "postgres_inv s \<longleftrightarrow> \<not> ks_restoring s \<and> sc_version (ks_cache s) \<le> ks_seen s \<and> ks_seen s \<le> ks_version s
     \<and> (\<forall>v. ks_fetch s = Carrying v \<longrightarrow> ks_seen s \<le> v \<and> v \<le> ks_version s)
     \<and> (\<forall>snap. sc_snapshot (ks_cache s) = Some snap \<longrightarrow> \<not> sc_stale (ks_cache s)
          \<longrightarrow> sc_version (ks_cache s) = ks_version s \<longrightarrow> configured snap (ks_tables s))
     \<and> (\<forall>b \<in> set (ks_builds s). bd_version b \<le> ks_seen s
          \<and> (bd_version b = ks_version s \<longrightarrow> parts_configured b (ks_tables s)))"

lemma built_configured: "built b = Some snap \<Longrightarrow> parts_configured b d \<Longrightarrow> configured snap d"
  by (auto simp: built_def parts_configured_def configured_def buildSnapshot_def split: option.splits)

lemma postgres_commit:
  assumes "postgres_inv s" and "committed change (ks_tables s) d'" and "ks_version s \<le> v" and "bumps change (ks_tables s) d' \<longrightarrow> ks_version s < v"
  shows "postgres_inv (s\<lparr>ks_tables := d', ks_version := v\<rparr>)"
proof (cases "ks_version s = v")
  case True
  with assms(4) obtain rows where "change = HealthSaved rows" by (cases change) (auto simp: bumps_def)
  with assms(2) obtain hs where "d' = (ks_tables s)\<lparr>db_health := hs\<rparr>" by (auto simp: committed_def savedHealth_def)
  with assms(1) True show ?thesis by (simp add: postgres_inv_def configured_def parts_configured_def)
next
  case False
  with assms(1,3) show ?thesis by (fastforce simp: postgres_inv_def)
qed

lemma postgres_patch:
  assumes "postgres_inv s"
  shows "postgres_inv (s\<lparr>ks_cache := applyChange change (ks_cache s)\<rparr>)"
proof -
  have "configured snap d" if "sc_snapshot (applyChange change (ks_cache s)) = Some snap" "\<not> sc_stale (applyChange change (ks_cache s))"
    "\<And>old. sc_snapshot (ks_cache s) = Some old \<Longrightarrow> \<not> sc_stale (ks_cache s) \<Longrightarrow> configured old d" for snap d
    using applyChange_fresh [OF that(1,2)] that(3) by (cases change) (auto simp: configured_def)
  with assms show ?thesis by (auto simp: postgres_inv_def)
qed

lemma readTable_configured: "b' \<in> readTable d b \<Longrightarrow> parts_configured b d \<Longrightarrow> parts_configured b' d"
  unfolding readTable_def insert_iff empty_iff by (elim disjE) (simp_all add: parts_configured_def)

lemma postgres_queues [simp]:
  "postgres_inv (s\<lparr>ks_due := xs\<rparr>) = postgres_inv s" "postgres_inv (s\<lparr>ks_sent := xs\<rparr>) = postgres_inv s"
  by (simp_all add: postgres_inv_def)

lemma postgres_called: "postgres_inv s \<Longrightarrow> postgres_inv (versionCalled Postgres s)"
  by (simp add: postgres_inv_def versionCalled_def)

lemma versionCalled_facts [simp]:
  "ks_tables (versionCalled drv s) = ks_tables s" "ks_version (versionCalled drv s) = ks_version s"
  "ks_seen (versionCalled drv s) = ks_seen s" "ks_cache (versionCalled drv s) = ks_cache s"
  "ks_builds (versionCalled drv s) = ks_builds s" "ks_restoring (versionCalled drv s) = ks_restoring s"
  "ks_due (versionCalled drv s) = ks_due s" "ks_sent (versionCalled drv s) = ks_sent s"
  by (simp_all add: versionCalled_def)

lemma postgres_step:
  assumes "cache_step Postgres s s'" and inv: "postgres_inv s"
  shows "postgres_inv s'"
  using assms(1)
proof cases
  case (committedHere change d' v)
  with postgres_commit [OF inv committedHere(3,4,5)] show ?thesis
    using postgres_queues(1) [where s = "s\<lparr>ks_tables := d', ks_version := v\<rparr>"] by simp
next
  case (committedElsewhere change d' v)
  with postgres_commit [OF inv committedElsewhere(3,4,5)] show ?thesis
    using postgres_queues(2) [where s = "s\<lparr>ks_tables := d', ks_version := v\<rparr>"] by simp
next
  case (emitted xs change ys)
  with postgres_patch [OF inv, of change] show ?thesis
    using postgres_queues(1) [where s = "s\<lparr>ks_cache := applyChange change (ks_cache s)\<rparr>"] by simp
next
  case (delivered xs change ys)
  with postgres_patch [OF inv, of change] show ?thesis
    using postgres_queues(2) [where s = "s\<lparr>ks_cache := applyChange change (ks_cache s)\<rparr>"] by simp
next
  case (fetchReturns v)
  with inv show ?thesis by (fastforce simp: postgres_inv_def)
next
  case hit
  with postgres_called [OF inv] show ?thesis by simp
next
  case (asked c now)
  have "parts_configured (beginBuild v now c) d" "bd_version (beginBuild v now c) = v" for v d
    by (simp_all add: beginBuild_def parts_configured_def)
  moreover have "\<not> sc_stale c \<Longrightarrow> \<not> sc_stale (ks_cache s)" by (simp add: asked(3) noticeVersion_def split: if_splits)
  ultimately show ?thesis using postgres_called [OF inv] unfolding asked(1)
    by (auto simp: postgres_inv_def asked(3) currentVersion_def)
next
  case (read xs b ys b')
  with inv readTable_facts(2) [OF read(3)] readTable_configured [OF read(3)] show ?thesis by (auto simp: postgres_inv_def)
next
  case (finished xs b ys snap)
  have b: "bd_version b = ks_version s \<Longrightarrow> configured snap (ks_tables s)"
    using inv finished(2) built_configured [OF finished(3)] by (simp add: postgres_inv_def)
  have "sc_version c \<le> ks_seen s" "\<And>sn. sc_snapshot c = Some sn \<Longrightarrow> \<not> sc_stale c \<Longrightarrow> sc_version c = ks_version s \<Longrightarrow> configured sn (ks_tables s)"
    if "c = installBuild (ks_seen s) b snap (ks_cache s)" for c
    using that inv b by (auto simp: installBuild_def postgres_inv_def split: if_splits)
  with postgres_called [OF inv] finished(2) show ?thesis
    unfolding finished(1) by (simp add: postgres_inv_def currentVersion_def)
qed (use inv in \<open>auto simp: postgres_inv_def\<close>)

subsection \<open>Both\<close>

lemma cache_inv_reachable:
  assumes "cache_reachable drv s"
  shows "drv = Sqlite \<Longrightarrow> sqlite_inv s" "drv = Postgres \<Longrightarrow> postgres_inv s"
proof -
  obtain d v where unique: "unique_health d" and steps: "(cache_step drv)\<^sup>*\<^sup>* (versionCalled drv (cache_start d v)) s"
    using assms by (auto simp: cache_reachable_def)
  show "sqlite_inv s" if "drv = Sqlite"
    using steps
  proof (induction rule: rtranclp_induct)
    case base
    show ?case using unique that by (simp add: sqlite_inv_def in_step_def cache_start_def createCache_def)
  next
    case (step s1 s2)
    with that show ?case using sqlite_step by blast
  qed
  show "postgres_inv s" if "drv = Postgres"
    using steps
  proof (induction rule: rtranclp_induct)
    case base
    show ?case by (simp add: postgres_inv_def cache_start_def createCache_def versionCalled_def)
  next
    case (step s1 s2)
    with that show ?case using postgres_step by blast
  qed
qed

text \<open>
  C6: a snapshot answered from the cache is the truth, as far as the store's driver lets it
  be. On SQLite, outside the moment between a restore's swap and its invalidation, what \<open>get\<close>
  returns without building agrees with the tables as they are, health, quota, models,
  credentials and settings alike, and so does a build at the moment it is accepted. On
  Postgres the same holds of credentials, models and settings whenever the version fetched
  last is still the store's; health and quota follow the messages (see
  \<open>late_remote_change_stays\<close>), and how far the version lags is \<open>read_behind_two_checks\<close>. In
  both, builds, writes, foreign commits, messages and fetches interleave in any way.
\<close>

theorem cached_snapshot_coherent:
  assumes "cache_reachable drv s"
    and "cached (currentVersion drv s) (ks_cache s) = Some snap
      \<or> (\<exists>b \<in> set (ks_builds s). built b = Some snap \<and> installBuild (currentVersion drv s) b snap (ks_cache s) \<noteq> ks_cache s)"
  shows "case drv of Sqlite \<Rightarrow> ks_restoring s \<or> agrees snap (ks_tables s)
    | Postgres \<Rightarrow> ks_seen s \<noteq> ks_version s \<or> configured snap (ks_tables s)"
proof (cases drv)
  case Sqlite
  note inv = cache_inv_reachable(1) [OF assms(1) Sqlite]
  from assms(2) have "agrees snap (ks_tables s)" if "\<not> ks_restoring s"
  proof
    assume "cached (currentVersion drv s) (ks_cache s) = Some snap"
    with inv that Sqlite show ?thesis
      by (auto simp: cached_def noticeVersion_def sqlite_inv_def in_step_def Let_def split: if_splits)
  next
    assume "\<exists>b \<in> set (ks_builds s). built b = Some snap \<and> installBuild (currentVersion drv s) b snap (ks_cache s) \<noteq> ks_cache s"
    then obtain b where b: "b \<in> set (ks_builds s)" "built b = Some snap"
      "installBuild (currentVersion drv s) b snap (ks_cache s) \<noteq> ks_cache s" by blast
    with inv that Sqlite built_agrees [OF b(2)] show ?thesis
      by (auto simp: sqlite_inv_def in_step_def installBuild_def split: if_splits)
  qed
  with Sqlite show ?thesis by auto
next
  case Postgres
  note inv = cache_inv_reachable(2) [OF assms(1) Postgres]
  from assms(2) have "configured snap (ks_tables s)" if "ks_seen s = ks_version s"
  proof
    assume "cached (currentVersion drv s) (ks_cache s) = Some snap"
    with inv that Postgres show ?thesis
      by (auto simp: cached_def noticeVersion_def postgres_inv_def currentVersion_def Let_def split: if_splits)
  next
    assume "\<exists>b \<in> set (ks_builds s). built b = Some snap \<and> installBuild (currentVersion drv s) b snap (ks_cache s) \<noteq> ks_cache s"
    then obtain b where b: "b \<in> set (ks_builds s)" "built b = Some snap"
      "installBuild (currentVersion drv s) b snap (ks_cache s) \<noteq> ks_cache s" by blast
    with inv that Postgres built_configured [OF b(2)] show ?thesis
      by (auto simp: postgres_inv_def currentVersion_def installBuild_def split: if_splits)
  qed
  with Postgres show ?thesis by auto
qed

text \<open>A build over one version of the tables, from its first read to its installation.\<close>

definition whole :: "tables \<Rightarrow> build \<Rightarrow> build" where
  "whole d b = b\<lparr>bd_credentials := Some (db_credentials d), bd_health := Some (db_health d), bd_quota := Some (db_quota d),
     bd_models := Some (db_models d), bd_settings := Some (db_settings d)\<rparr>"

definition snapshotOf :: "tables \<Rightarrow> instant \<Rightarrow> snapshot" where
  "snapshotOf d now = buildSnapshot (db_credentials d) (db_health d) (db_quota d) (db_models d) (db_settings d) now"

definition rebuilt :: "driver \<Rightarrow> cache_state \<Rightarrow> cache_state" where
  "rebuilt drv s = (versionCalled drv s)\<lparr>ks_cache := (ks_cache s)\<lparr>sc_snapshot := Some (snapshotOf (ks_tables s) 0),
     sc_version := currentVersion drv s, sc_stale := False\<rparr>, ks_builds := []\<rparr>"

lemma versionCalled_twice [simp]: "versionCalled drv (versionCalled drv s) = versionCalled drv s"
  by (simp add: versionCalled_def)

lemma rebuilt_steps:
  assumes "cached (currentVersion drv s) (ks_cache s) = None" and "ks_builds s = []"
  shows "(cache_step drv)\<^sup>*\<^sup>* s (rebuilt drv s)"
proof -
  let ?d = "ks_tables s" and ?v = "currentVersion drv s"
  let ?c = "noticeVersion ?v (ks_cache s)"
  let ?s = "\<lambda>b. (versionCalled drv s)\<lparr>ks_cache := ?c, ks_builds := [b]\<rparr>"
  let ?b0 = "beginBuild ?v 0 ?c" let ?b1 = "?b0\<lparr>bd_credentials := Some (db_credentials ?d)\<rparr>"
  let ?b2 = "?b1\<lparr>bd_health := Some (db_health ?d)\<rparr>" let ?b3 = "?b2\<lparr>bd_quota := Some (db_quota ?d)\<rparr>"
  let ?b4 = "?b3\<lparr>bd_models := Some (db_models ?d)\<rparr>" let ?w = "whole ?d ?b0"
  have ask: "cache_step drv s (?s ?b0)"
    using cache_step.asked [OF assms(1) refl, of 0] assms(2) by simp
  have rd: "cache_step drv (?s b) (?s b')" if "b' \<in> readTable ?d b" for b b'
    using cache_step.read [of "?s b" "[]" b "[]" b' drv] that by simp
  have r1: "cache_step drv (?s ?b0) (?s ?b1)" and r2: "cache_step drv (?s ?b1) (?s ?b2)" and r3: "cache_step drv (?s ?b2) (?s ?b3)"
    and r4: "cache_step drv (?s ?b3) (?s ?b4)" and r5: "cache_step drv (?s ?b4) (?s ?w)"
    by (rule rd, simp add: readTable_def whole_def)+
  have v: "currentVersion drv (?s b) = ?v" for b by (simp add: currentVersion_def split: driver.split)
  have "installBuild ?v ?w (snapshotOf ?d 0) ?c = (ks_cache s)\<lparr>sc_snapshot := Some (snapshotOf ?d 0), sc_version := ?v, sc_stale := False\<rparr>"
    by (simp add: installBuild_def whole_def beginBuild_def noticeVersion_def)
  moreover have "built ?w = Some (snapshotOf ?d 0)" by (simp add: built_def whole_def snapshotOf_def beginBuild_def)
  moreover have "versionCalled drv (?s b) = ?s b" for b by (simp add: versionCalled_def)
  ultimately have fin: "cache_step drv (?s ?w) (rebuilt drv s)"
    using cache_step.finished [of "?s ?w" "[]" ?w "[]" "snapshotOf ?d 0" drv] assms(2) by (simp add: v rebuilt_def)
  from ask r1 r2 r3 r4 r5 fin show ?thesis by (meson converse_rtranclp_into_rtranclp rtranclp.rtrancl_refl)
qed

lemma reachable_start: "unique_health d \<Longrightarrow> cache_reachable drv (versionCalled drv (cache_start d v))"
  by (auto simp: cache_reachable_def)

lemma reachable_step: "cache_reachable drv s \<Longrightarrow> cache_step drv s s' \<Longrightarrow> cache_reachable drv s'"
  unfolding cache_reachable_def by (meson rtranclp.rtrancl_into_rtrancl)

lemma reachable_rebuilt:
  assumes "cache_reachable drv s" and "cached (currentVersion drv s) (ks_cache s) = None" and "ks_builds s = []"
  shows "cache_reachable drv (rebuilt drv s)"
  using assms(1) rebuilt_steps [OF assms(2,3)] unfolding cache_reachable_def by (meson rtranclp_trans)

definition sample_tables :: tables where
  "sample_tables = \<lparr>db_credentials = [], db_health = [], db_quota = [], db_models = [], db_settings = DEFAULT_SETTINGS\<rparr>"

definition sample_cache :: "driver \<Rightarrow> cache_state" where
  "sample_cache drv = rebuilt drv (versionCalled drv (cache_start sample_tables 7))"

lemma sample_cache_reachable: "cache_reachable drv (sample_cache drv)"
  unfolding sample_cache_def
  by (intro reachable_rebuilt reachable_start)
    (simp_all add: unique_health_def sample_tables_def cache_start_def createCache_def cached_def noticeVersion_def)

lemma sample_cache_facts: "ks_version (sample_cache drv) = 7" "ks_seen (sample_cache drv) = 7" "ks_sent (sample_cache drv) = []"
  "ks_tables (sample_cache drv) = sample_tables"
  by (simp_all add: sample_cache_def rebuilt_def cache_start_def)

lemma sample_cache_hit: "cached (currentVersion drv (sample_cache drv)) (ks_cache (sample_cache drv)) = Some (snapshotOf sample_tables 0)"
  by (simp add: sample_cache_def rebuilt_def cached_def noticeVersion_def currentVersion_def cache_start_def split: driver.split)

theorem cached_snapshot_coherent_witness:
  "\<not> ks_restoring (sample_cache Sqlite) \<and> agrees (snapshotOf sample_tables 0) (ks_tables (sample_cache Sqlite))
    \<and> ks_seen (sample_cache Postgres) = ks_version (sample_cache Postgres)
    \<and> configured (snapshotOf sample_tables 0) (ks_tables (sample_cache Postgres))"
proof -
  have "\<not> ks_restoring (sample_cache Sqlite)" "ks_seen (sample_cache Postgres) = ks_version (sample_cache Postgres)"
    by (simp_all add: sample_cache_def rebuilt_def cache_start_def)
  with cached_snapshot_coherent [OF sample_cache_reachable disjI1 [OF sample_cache_hit], of Sqlite]
    cached_snapshot_coherent [OF sample_cache_reachable disjI1 [OF sample_cache_hit], of Postgres]
  show ?thesis by simp
qed

subsection \<open>How far behind\<close>

text \<open>
  The comment at Postgres's \<^verbatim>\<open>version()\<close> says a commit of another process is seen by the call
  after the one that raced it, one snapshot check late. A fetch already under way when
  the commit comes makes it two: the first check after the commit finds that fetch unanswered
  and starts none, the fetch comes back with the old counter, and the second check is
  answered from the old snapshot too.
\<close>

definition overtaken_fetch :: cache_state where
  "overtaken_fetch = (sample_cache Postgres)\<lparr>ks_fetch := Carrying 7,
     ks_tables := sample_tables\<lparr>db_settings := DEFAULT_SETTINGS\<lparr>st_maxAttempts := 9\<rparr>\<rparr>, ks_version := 8, ks_sent := [SettingsChanged]\<rparr>"

lemma overtaken_fetch_reachable: "cache_reachable Postgres overtaken_fetch"
proof -
  let ?s = "sample_cache Postgres"
  have "ks_fetch ?s = Asked" by (simp add: sample_cache_def rebuilt_def cache_start_def versionCalled_def)
  from reachable_step [OF sample_cache_reachable cache_step.fetchReads [OF this]]
  have "cache_reachable Postgres (?s\<lparr>ks_fetch := Carrying 7\<rparr>)"
    by (simp add: sample_cache_def rebuilt_def cache_start_def)
  moreover have "cache_step Postgres (?s\<lparr>ks_fetch := Carrying 7\<rparr>) overtaken_fetch"
    using cache_step.committedElsewhere [of Postgres SettingsChanged "?s\<lparr>ks_fetch := Carrying 7\<rparr>"
        "sample_tables\<lparr>db_settings := DEFAULT_SETTINGS\<lparr>st_maxAttempts := 9\<rparr>\<rparr>" 8]
    by (simp add: overtaken_fetch_def committed_def unique_health_def sample_cache_facts) (simp add: sample_tables_def)
  ultimately show ?thesis by (rule reachable_step)
qed

theorem read_behind_two_checks:
  "\<exists>s snap. cache_reachable Postgres s \<and> \<not> configured snap (ks_tables s)
     \<and> cached (currentVersion Postgres s) (ks_cache s) = Some snap
     \<and> (let s1 = versionCalled Postgres s; s2 = s1\<lparr>ks_seen := 7, ks_fetch := NoFetch\<rparr>
        in cache_step Postgres s s1 \<and> cache_step Postgres s1 s2 \<and> ks_tables s2 = ks_tables s
           \<and> cached (currentVersion Postgres s2) (ks_cache s2) = Some snap)"
proof -
  let ?s = overtaken_fetch and ?snap = "snapshotOf sample_tables 0"
  have hit: "cached (currentVersion Postgres ?s) (ks_cache ?s) = Some ?snap"
    using sample_cache_hit [of Postgres] by (simp add: overtaken_fetch_def currentVersion_def)
  have same: "versionCalled Postgres ?s = ?s" by (simp add: versionCalled_def overtaken_fetch_def)
  have fetched: "cache_step Postgres ?s (?s\<lparr>ks_seen := 7, ks_fetch := NoFetch\<rparr>)"
    by (rule cache_step.fetchReturns) (simp add: overtaken_fetch_def)
  have stale: "\<not> configured ?snap (ks_tables ?s)"
    by (simp add: configured_def snapshotOf_def buildSnapshot_def overtaken_fetch_def sample_tables_def DEFAULT_SETTINGS_def)
  have "ks_seen ?s = 7" by (simp add: overtaken_fetch_def sample_cache_def rebuilt_def cache_start_def)
  then have "cached (currentVersion Postgres (?s\<lparr>ks_seen := 7, ks_fetch := NoFetch\<rparr>)) (ks_cache ?s) = Some ?snap"
    using hit by (simp add: currentVersion_def)
  with overtaken_fetch_reachable stale hit fetched cache_step.hit [OF hit] show ?thesis
    by (intro exI [of _ ?s] exI [of _ ?snap]) (simp add: same Let_def)
qed

text \<open>
  A health row saved by another process is patched over whatever the cache holds when its
  message arrives. When this process saved the same row later and has rebuilt its snapshot
  since, the message puts the older row back, and nothing moves the version again: with no
  message outstanding, no fetch under way and the version seen current, the cache answers a
  breaker that the tables do not have.
\<close>

definition closedRow :: credential_health where
  "closedRow = \<lparr>h_credentialId = ''a'', h_model = ''m'', h_breakerState = Closed, h_consecutiveFailures = 0,
     h_openedAt = None, h_rateLimitedUntil = None\<rparr>"

definition openRow :: credential_health where
  "openRow = closedRow\<lparr>h_breakerState := Open, h_openedAt := Some 5\<rparr>"

definition health_run :: cache_state where
  "health_run = (let start = versionCalled Postgres (cache_start sample_tables 7);
       s = start\<lparr>ks_tables := sample_tables\<lparr>db_health := [openRow]\<rparr>, ks_version := 8, ks_sent := [HealthSaved [openRow]]\<rparr>;
       s = s\<lparr>ks_tables := sample_tables\<lparr>db_health := [closedRow]\<rparr>, ks_version := 9, ks_due := [HealthSaved [closedRow]]\<rparr>;
       s = s\<lparr>ks_cache := applyChange (HealthSaved [closedRow]) (ks_cache s), ks_due := []\<rparr>;
       s = s\<lparr>ks_fetch := Carrying 9\<rparr>;
       s = s\<lparr>ks_seen := 9, ks_fetch := NoFetch\<rparr>;
       s = rebuilt Postgres s;
       s = s\<lparr>ks_fetch := NoFetch\<rparr>
     in s\<lparr>ks_cache := applyChange (HealthSaved [openRow]) (ks_cache s), ks_sent := []\<rparr>)"

lemma health_run_reachable: "cache_reachable Postgres health_run"
proof -
  let ?s0 = "versionCalled Postgres (cache_start sample_tables 7)"
  let ?s1 = "?s0\<lparr>ks_tables := sample_tables\<lparr>db_health := [openRow]\<rparr>, ks_version := 8, ks_sent := [HealthSaved [openRow]]\<rparr>"
  let ?s2 = "?s1\<lparr>ks_tables := sample_tables\<lparr>db_health := [closedRow]\<rparr>, ks_version := 9, ks_due := [HealthSaved [closedRow]]\<rparr>"
  let ?s3 = "?s2\<lparr>ks_cache := applyChange (HealthSaved [closedRow]) (ks_cache ?s2), ks_due := []\<rparr>"
  let ?s4 = "?s3\<lparr>ks_fetch := Carrying 9\<rparr>" let ?s5 = "?s4\<lparr>ks_seen := 9, ks_fetch := NoFetch\<rparr>"
  let ?s6 = "rebuilt Postgres ?s5" let ?s7 = "?s6\<lparr>ks_fetch := NoFetch\<rparr>"
  have key: "hkey openRow = hkey closedRow" by (simp add: openRow_def hkey_def)
  have r0: "cache_reachable Postgres ?s0" by (rule reachable_start) (simp add: unique_health_def sample_tables_def)
  have "savedHealth [openRow] sample_tables (sample_tables\<lparr>db_health := [openRow]\<rparr>)"
    by (simp add: savedHealth_def sample_tables_def)
  then have r1: "cache_reachable Postgres ?s1"
    using cache_step.committedElsewhere [of Postgres "HealthSaved [openRow]" ?s0 "sample_tables\<lparr>db_health := [openRow]\<rparr>" 8]
    by (intro reachable_step [OF r0]) (simp add: cache_start_def committed_def)
  have "savedHealth [closedRow] (sample_tables\<lparr>db_health := [openRow]\<rparr>) (sample_tables\<lparr>db_health := [closedRow]\<rparr>)"
    by (simp add: savedHealth_def sample_tables_def key)
  then have r2: "cache_reachable Postgres ?s2"
    using cache_step.committedHere [of Postgres "HealthSaved [closedRow]" ?s1 "sample_tables\<lparr>db_health := [closedRow]\<rparr>" 9]
    by (intro reachable_step [OF r1]) (simp add: cache_start_def committed_def)
  have r3: "cache_reachable Postgres ?s3"
    using cache_step.emitted [of ?s2 "[]" "HealthSaved [closedRow]" "[]" Postgres] by (intro reachable_step [OF r2]) simp
  have r4: "cache_reachable Postgres ?s4"
    using cache_step.fetchReads [of ?s3 Postgres] by (intro reachable_step [OF r3]) (simp add: versionCalled_def cache_start_def)
  have r5: "cache_reachable Postgres ?s5"
    using cache_step.fetchReturns [of ?s4 9 Postgres] by (intro reachable_step [OF r4]) simp
  have r6: "cache_reachable Postgres ?s6"
    by (rule reachable_rebuilt [OF r5])
      (simp_all add: currentVersion_def cached_def noticeVersion_def cache_start_def createCache_def applyChange_def)
  have r7: "cache_reachable Postgres ?s7" by (rule reachable_step [OF r6 cache_step.fetchFails])
  have "cache_step Postgres ?s7 health_run"
    using cache_step.delivered [of ?s7 "[]" "HealthSaved [openRow]" "[]" Postgres]
    by (simp add: health_run_def Let_def rebuilt_def cache_start_def)
  with r7 show ?thesis by (rule reachable_step)
qed

theorem late_remote_change_stays:
  "\<exists>s snap. cache_reachable Postgres s \<and> ks_due s = [] \<and> ks_sent s = [] \<and> ks_fetch s = NoFetch \<and> ks_builds s = []
     \<and> ks_seen s = ks_version s \<and> cached (currentVersion Postgres s) (ks_cache s) = Some snap
     \<and> db_health (ks_tables s) = [closedRow] \<and> sn_health snap (hkey closedRow) = Some openRow"
proof -
  let ?snap = "(snapshotOf (sample_tables\<lparr>db_health := [closedRow]\<rparr>) 0)\<lparr>sn_health := [hkey closedRow \<mapsto> openRow]\<rparr>"
  have "cached (currentVersion Postgres health_run) (ks_cache health_run) = Some ?snap"
    by (simp add: health_run_def Let_def rebuilt_def cache_start_def createCache_def applyChange_def cached_def noticeVersion_def
        currentVersion_def snapshotOf_def buildSnapshot_def sample_tables_def openRow_def hkey_def)
  moreover have "ks_due health_run = []" "ks_sent health_run = []" "ks_fetch health_run = NoFetch" "ks_builds health_run = []"
    "ks_seen health_run = ks_version health_run" "db_health (ks_tables health_run) = [closedRow]"
    by (simp_all add: health_run_def Let_def rebuilt_def cache_start_def versionCalled_def)
  ultimately show ?thesis using health_run_reachable
    by (intro exI [of _ health_run] exI [of _ ?snap]) simp
qed

end
