(* ===== verification/Wire_Sse.thy ===== *)
theory Wire_Sse
  imports Ir_Request Ir_Errors "HOL-Library.Sublist"
begin

section \<open>Server-sent events\<close>

text \<open>
  \<^verbatim>\<open>packages/providers/src/sse.ts\<close>: the parser of an upstream's event stream, fed one
  decoded chunk at a time, with the two characters it holds back and the cap on a record;
  and the frame writer of \<^verbatim>\<open>apps/gateway/src/routes/proxy.ts\<close>. A chunk is the text its bytes
  decode to, so a character split across chunks is in the chunk that completes it. Offsets
  into the probed text are suffixes of it here.
\<close>

definition LF :: char where "LF = CHR 0x0A"
definition CR :: char where "CR = CHR 0x0D"

lemma LF_CR [simp]: "LF \<noteq> CR" "CR \<noteq> LF"
  by (simp_all add: LF_def CR_def)

record sse_message =
  sm_event :: string
  sm_data :: string

definition HOLDBACK :: nat where "HOLDBACK = 2"
definition MAX_RECORD_CHARS :: nat where "MAX_RECORD_CHARS = 10 * 1024 * 1024"

text \<open>The text after a separator whose first newline stands before \<open>rest\<close>, if one does.\<close>

fun separatorEnd :: "string \<Rightarrow> string option" where
  "separatorEnd [] = None"
| "separatorEnd (c # rest) =
     (if c = LF then Some rest
      else if c = CR then (case rest of d # rest' \<Rightarrow> if d = LF then Some rest' else None | [] \<Rightarrow> None)
      else None)"

text \<open>The first record that ends in a text and the text after it.\<close>

fun nextRecord :: "string \<Rightarrow> (string \<times> string) option" where
  "nextRecord [] = None"
| "nextRecord (c # rest) =
     (case (if c = LF then separatorEnd rest else None) of
        Some following \<Rightarrow> Some ([], following)
      | None \<Rightarrow> map_option (\<lambda>(r, following). (c # r, following)) (nextRecord rest))"

lemma separatorEnd_shorter: "separatorEnd s = Some r \<Longrightarrow> length r < length s"
  by (cases s) (auto split: if_splits list.splits)

lemma nextRecord_shorter: "nextRecord s = Some (r, t) \<Longrightarrow> length r + length t < length s"
  by (induction s arbitrary: r t) (auto split: if_splits option.splits dest: separatorEnd_shorter)

fun splitOn :: "char \<Rightarrow> string \<Rightarrow> string list" where
  "splitOn sep [] = [[]]"
| "splitOn sep (c # s) = (if c = sep then [] # splitOn sep s
     else case splitOn sep s of [] \<Rightarrow> [[c]] | l # ls \<Rightarrow> (c # l) # ls)"

definition parseLine :: "string \<times> string list \<Rightarrow> string \<Rightarrow> string \<times> string list" where
  "parseLine acc rawLine =
     (let line = (if rawLine \<noteq> [] \<and> last rawLine = CR then butlast rawLine else rawLine) in
      if line = [] \<or> hd line = CHR '':'' then acc
      else
        let field = takeWhile (\<lambda>c. c \<noteq> CHR '':'') line;
            rawValue = drop 1 (dropWhile (\<lambda>c. c \<noteq> CHR '':'') line);
            value = (case rawValue of c # cs \<Rightarrow> if c = CHR '' '' then cs else c # cs | [] \<Rightarrow> [])
        in if field = ''event'' then (value, snd acc)
           else if field = ''data'' then (fst acc, snd acc @ [value])
           else acc)"

definition parseRecord :: "string \<Rightarrow> sse_message option" where
  "parseRecord rec =
     (let (event, data) = foldl parseLine (''message'', []) (splitOn LF rec)
      in if data = [] then None else Some \<lparr>sm_event = event, sm_data = intercalate [LF] data\<rparr>)"

record sse_parser =
  sp_pending :: "string list"
  sp_pendingChars :: nat
  sp_tail :: string

definition newParser :: sse_parser where
  "newParser = \<lparr>sp_pending = [], sp_pendingChars = 0, sp_tail = []\<rparr>"

definition oversized :: gateway_error where
  "oversized = GatewayError UPSTREAM ''upstream SSE record exceeded 10485760 characters''
     (no_opts\<lparr>geo_gatewayAuthored := Some True\<rparr>)"

definition refuseIfOversized :: "nat \<Rightarrow> bool" where
  "refuseIfOversized chars = (\<not> chars \<le> MAX_RECORD_CHARS)"

text \<open>The records completed by a probe, then the rest of it; \<open>Inl\<close> when one is too large.\<close>

function drainProbe :: "sse_parser \<Rightarrow> string \<Rightarrow> sse_message list \<times> (gateway_error + sse_parser \<times> string)" where
  "drainProbe p probe =
     (case nextRecord probe of
        None \<Rightarrow> ([], Inr (p, probe))
      | Some (slice, rest) \<Rightarrow>
          if refuseIfOversized (sp_pendingChars p + length slice) then ([], Inl oversized)
          else
            let rec = concat (sp_pending p @ [slice]);
                (msgs, r) = drainProbe (p\<lparr>sp_pending := [], sp_pendingChars := 0\<rparr>) rest
            in (case parseRecord rec of None \<Rightarrow> msgs | Some m \<Rightarrow> m # msgs, r))"
  by pat_completeness auto
termination
  by (relation "measure (\<lambda>(p, probe). length probe)") (auto dest!: nextRecord_shorter)

declare drainProbe.simps [simp del]

text \<open>The rest of a probe: settled but for its last two characters.\<close>

definition holdBack :: "sse_parser \<Rightarrow> string \<Rightarrow> sse_parser" where
  "holdBack p rest =
     (let keep = min HOLDBACK (length rest);
          settled = take (length rest - keep) rest;
          p = (if length settled > 0
               then p\<lparr>sp_pending := sp_pending p @ [settled], sp_pendingChars := sp_pendingChars p + length settled\<rparr> else p)
      in p\<lparr>sp_tail := drop (length rest - keep) rest\<rparr>)"

definition feed :: "sse_parser \<Rightarrow> string \<Rightarrow> sse_message list \<times> (gateway_error + sse_parser)" where
  "feed p chunk =
     (case drainProbe p (sp_tail p @ chunk) of
        (msgs, Inl e) \<Rightarrow> (msgs, Inl e)
      | (msgs, Inr (p, rest)) \<Rightarrow>
          let p = holdBack p rest
          in if refuseIfOversized (sp_pendingChars p + length (sp_tail p)) then (msgs, Inl oversized) else (msgs, Inr p))"

fun feedAll :: "sse_parser \<Rightarrow> string list \<Rightarrow> sse_message list \<times> gateway_error option" where
  "feedAll p [] = (case parseRecord (concat (sp_pending p) @ sp_tail p) of None \<Rightarrow> [] | Some m \<Rightarrow> [m], None)"
| "feedAll p (chunk # chunks) =
     (case feed p chunk of
        (msgs, Inl e) \<Rightarrow> (msgs, Some e)
      | (msgs, Inr p) \<Rightarrow> let (later, e) = feedAll p chunks in (msgs @ later, e))"

definition parseSse :: "string list \<Rightarrow> sse_message list \<times> gateway_error option" where
  "parseSse chunks = feedAll newParser chunks"

text \<open>A frame as the gateway writes it.\<close>

definition writeFrame :: "sse_message \<Rightarrow> string" where
  "writeFrame m = ''event: '' @ sm_event m @ [LF] @ ''data: '' @ sm_data m @ [LF, LF]"

subsection \<open>What a whole text says\<close>

text \<open>The records of a text and what is left after the last separator.\<close>

function records :: "string \<Rightarrow> string list \<times> string" where
  "records s = (case nextRecord s of
     None \<Rightarrow> ([], s)
   | Some (r, rest) \<Rightarrow> let (rs, last) = records rest in (r # rs, last))"
  by pat_completeness auto
termination
  by (relation "measure length") (auto dest!: nextRecord_shorter)

declare records.simps [simp del]

definition wholeRecords :: "string \<Rightarrow> string list" where
  "wholeRecords s = fst (records s) @ [snd (records s)]"

definition messagesOf :: "string \<Rightarrow> sse_message list" where
  "messagesOf s = List.map_filter parseRecord (wholeRecords s)"

lemma records_None: "nextRecord s = None \<Longrightarrow> records s = ([], s)"
  by (simp add: records.simps)

lemma records_Some: "nextRecord s = Some (r, t) \<Longrightarrow> records s = (r # fst (records t), snd (records t))"
  by (subst records.simps) (simp add: case_prod_beta)

lemma separatorEnd_append: "separatorEnd s = Some r \<Longrightarrow> separatorEnd (s @ t) = Some (r @ t)"
  by (cases s) (auto split: if_splits list.splits)

lemma separatorEnd_decided: "separatorEnd s = None \<Longrightarrow> 2 \<le> length s \<Longrightarrow> separatorEnd (s @ t) = None"
  by (cases s rule: separatorEnd.cases) (auto split: if_splits list.splits)

lemma nextRecord_two: "nextRecord s = Some p \<Longrightarrow> 2 \<le> length s"
proof (induction s arbitrary: p)
  case (Cons c s)
  then show ?case by (cases s) (auto split: if_splits option.splits)
qed simp

lemma nextRecord_append: "nextRecord s = Some (r, rest) \<Longrightarrow> nextRecord (s @ t) = Some (r, rest @ t)"
proof (induction s arbitrary: r)
  case (Cons c s)
  show ?case
  proof (cases "if c = LF then separatorEnd s else None")
    case None
    then obtain a where a: "nextRecord s = Some (a, rest)" "r = c # a" using Cons.prems by auto
    have "(if c = LF then separatorEnd (s @ t) else None) = None"
      using None separatorEnd_decided [of s t] nextRecord_two [OF a(1)] by (auto split: if_splits)
    with Cons.IH [OF a(1)] a(2) show ?thesis by simp
  next
    case (Some f)
    with Cons.prems separatorEnd_append [of s f t] show ?thesis by (auto split: if_splits)
  qed
qed simp

lemma nextRecord_held:
  assumes "nextRecord (p @ t) = None" and "p = [] \<or> 2 \<le> length t"
  shows "nextRecord (p @ t @ w) = map_option (\<lambda>(a, b). (p @ a, b)) (nextRecord (t @ w))"
  using assms
proof (induction p)
  case Nil
  then show ?case by (simp add: option.map_ident_strong)
next
  case (Cons c p)
  have "(if c = LF then separatorEnd (p @ t) else None) = None" and rest: "nextRecord (p @ t) = None"
    using Cons.prems(1) by (auto split: option.splits)
  moreover have "2 \<le> length (p @ t)" using Cons.prems(2) by simp
  ultimately have "(if c = LF then separatorEnd (p @ t @ w) else None) = None"
    using separatorEnd_decided [of "p @ t" w] by (auto split: if_splits)
  with Cons.IH [OF rest] Cons.prems(2) show ?case by (simp add: option.map_comp comp_def case_prod_beta)
qed

lemma nextRecord_length:
  "nextRecord u = None \<Longrightarrow> nextRecord (u @ t) = Some (a, b) \<Longrightarrow> length u \<le> length a + 2"
proof (induction u arbitrary: a)
  case (Cons c u)
  show ?case
  proof (cases "if c = LF then separatorEnd (u @ t) else None")
    case (Some r)
    then have "separatorEnd u = None" "c = LF" using Cons.prems(1) by (auto split: if_splits option.splits)
    with Some separatorEnd_decided [of u t] have "length u < 2" by (cases "2 \<le> length u") auto
    then show ?thesis by simp
  next
    case None
    with Cons show ?thesis by (auto split: option.splits if_splits)
  qed
qed simp

lemma records_append: "records (s @ t) = (fst (records s) @ fst (records (snd (records s) @ t)), snd (records (snd (records s) @ t)))"
proof (induction s rule: records.induct)
  case (1 s)
  show ?case
  proof (cases "nextRecord s")
    case None
    then show ?thesis by (simp add: records_None [of s])
  next
    case (Some p)
    obtain r rest where p: "p = (r, rest)" by fastforce
    note here = records_Some [OF Some [unfolded p]]
    note there = records_Some [OF nextRecord_append [OF Some [unfolded p], of t]]
    note IH = 1 [OF Some p [symmetric]]
    show ?thesis unfolding here there IH fst_conv snd_conv by simp
  qed
qed

lemma records_rest: "nextRecord (snd (records s)) = None"
proof (induction s rule: records.induct)
  case (1 s)
  show ?case
  proof (cases "nextRecord s")
    case (Some p)
    obtain r rest where p: "p = (r, rest)" by fastforce
    from 1 [OF Some p [symmetric]] show ?thesis unfolding records_Some [OF Some [unfolded p]] snd_conv .
  qed (simp add: records_None [of s])
qed

lemma records_rest_le: "length (snd (records s)) \<le> length s"
proof (induction s rule: records.induct)
  case (1 s)
  show ?case
  proof (cases "nextRecord s")
    case (Some p)
    obtain r rest where p: "p = (r, rest)" by fastforce
    from 1 [OF Some p [symmetric]] nextRecord_shorter [OF Some [unfolded p]]
    show ?thesis unfolding records_Some [OF Some [unfolded p]] snd_conv by simp
  qed (simp add: records_None [of s])
qed

lemma rest_within:
  assumes "nextRecord u = None" and "\<forall>r \<in> set (wholeRecords (u @ t)). length r + 2 \<le> n"
  shows "length u \<le> n"
proof (cases "nextRecord (u @ t)")
  case None
  with assms(2) show ?thesis by (simp add: wholeRecords_def records_None [OF None])
next
  case (Some p)
  obtain a b where p: "p = (a, b)" by fastforce
  have "length a + 2 \<le> n" using assms(2) by (simp add: wholeRecords_def records_Some [OF Some [unfolded p]])
  with nextRecord_length [OF assms(1)] Some p show ?thesis by fastforce
qed

subsection \<open>Chunks do not matter\<close>

lemma map_filter_simps2 [simp]:
  "List.map_filter f [] = []"
  "List.map_filter f (a # as) = (case f a of None \<Rightarrow> [] | Some b \<Rightarrow> [b]) @ List.map_filter f as"
  "List.map_filter f (as @ bs) = List.map_filter f as @ List.map_filter f bs"
  by (simp_all add: List.map_filter_def split: option.split)

text \<open>What the parser holds is the part of the text that no separator has closed.\<close>

definition held :: "sse_parser \<Rightarrow> string" where
  "held p = concat (sp_pending p)"

definition sound :: "sse_parser \<Rightarrow> bool" where
  "sound p \<longleftrightarrow> sp_pendingChars p = length (held p) \<and> nextRecord (held p @ sp_tail p) = None
     \<and> (held p = [] \<or> length (sp_tail p) = 2)"

lemma drainProbe_records:
  assumes "nextRecord (held p @ probe) = map_option (\<lambda>(a, b). (held p @ a, b)) (nextRecord probe)"
    and "sp_pendingChars p = length (held p)"
    and "\<forall>r \<in> set (fst (records (held p @ probe))). length r \<le> MAX_RECORD_CHARS"
  shows "\<exists>p' rest. drainProbe p probe = (List.map_filter parseRecord (fst (records (held p @ probe))), Inr (p', rest))
    \<and> held p' @ rest = snd (records (held p @ probe)) \<and> sp_pendingChars p' = length (held p')
    \<and> (held p' = [] \<or> held p' = held p \<and> rest = probe)"
  using assms
proof (induction p probe rule: drainProbe.induct)
  case (1 p probe)
  show ?case
  proof (cases "nextRecord probe")
    case None
    with 1(2) have "nextRecord (held p @ probe) = None" by simp
    with None 1(3) show ?thesis by (simp add: drainProbe.simps [of p probe] records_None [of "held p @ probe"])
  next
    case (Some q)
    obtain a b where q: "q = (a, b)" by fastforce
    have whole: "nextRecord (held p @ probe) = Some (held p @ a, b)" using 1(2) Some q by simp
    note recs = records_Some [OF whole]
    have fits: "\<not> refuseIfOversized (sp_pendingChars p + length a)"
      using 1(3,4) recs by (simp add: refuseIfOversized_def)
    let ?p = "p\<lparr>sp_pending := [], sp_pendingChars := 0\<rparr>"
    have empty: "held ?p = []" by (simp add: held_def)
    have "\<exists>p' rest. drainProbe ?p b = (List.map_filter parseRecord (fst (records (held ?p @ b))), Inr (p', rest))
        \<and> held p' @ rest = snd (records (held ?p @ b)) \<and> sp_pendingChars p' = length (held p') \<and> (held p' = [] \<or> held p' = held ?p \<and> rest = b)"
      by (rule 1(1) [OF Some q [symmetric] fits refl])
        (use 1(4) recs in \<open>simp_all add: empty option.map_ident_strong\<close>)
    then obtain p' rest where ih: "drainProbe ?p b = (List.map_filter parseRecord (fst (records b)), Inr (p', rest))"
      "held p' @ rest = snd (records b)" "sp_pendingChars p' = length (held p')" "held p' = []"
      by (auto simp: empty)
    have drained: "drainProbe p probe = (List.map_filter parseRecord (fst (records (held p @ probe))), Inr (p', rest))"
      using Some q fits ih(1) recs
      by (simp add: drainProbe.simps [of p probe] held_def split: option.split)
    from drained ih(2-4) recs show ?thesis by simp
  qed
qed

lemma feed_records:
  assumes "sound p" and "\<forall>r \<in> set (wholeRecords ((held p @ sp_tail p @ chunk) @ future)). length r + 2 \<le> MAX_RECORD_CHARS"
  shows "\<exists>p'. feed p chunk = (List.map_filter parseRecord (fst (records (held p @ sp_tail p @ chunk))), Inr p')
    \<and> sound p' \<and> held p' @ sp_tail p' = snd (records (held p @ sp_tail p @ chunk))"
proof -
  let ?text = "held p @ sp_tail p @ chunk"
  let ?last = "snd (records ?text)"
  note p = assms(1) [unfolded sound_def]
  have split: "nextRecord ?text = map_option (\<lambda>(a, b). (held p @ a, b)) (nextRecord (sp_tail p @ chunk))"
    by (rule nextRecord_held) (use p in auto)
  have small: "\<forall>r \<in> set (fst (records ?text)). length r \<le> MAX_RECORD_CHARS"
    using assms(2) unfolding wholeRecords_def records_append [of ?text future] by (auto dest!: bspec)
  from drainProbe_records [OF split _ small] p obtain p1 rest where
    d: "drainProbe p (sp_tail p @ chunk) = (List.map_filter parseRecord (fst (records ?text)), Inr (p1, rest))"
    and last: "held p1 @ rest = ?last" and chars: "sp_pendingChars p1 = length (held p1)" and rest: "held p1 = [] \<or> held p1 = held p \<and> rest = sp_tail p @ chunk"
    by blast
  have whole: "nextRecord (held p1 @ rest) = None" unfolding last by (rule records_rest)
  let ?p2 = "holdBack p1 rest"
  have held: "held ?p2 = held p1 @ take (length rest - 2) rest" "sp_tail ?p2 = drop (length rest - 2) rest"
    "sp_pendingChars ?p2 = length (held ?p2)"
    using chars by (auto simp: holdBack_def Let_def held_def HOLDBACK_def min_def)
  have total: "held ?p2 @ sp_tail ?p2 = ?last" by (simp add: held(1,2) last)
  have "held p1 = [] \<or> 2 \<le> length rest" using rest p by auto
  then have "held ?p2 = [] \<or> length (sp_tail ?p2) = 2" by (auto simp: held)
  moreover have "length (held ?p2) + length (sp_tail ?p2) \<le> MAX_RECORD_CHARS"
  proof -
    have "\<forall>r \<in> set (wholeRecords (?last @ future)). length r + 2 \<le> MAX_RECORD_CHARS"
      using assms(2) unfolding wholeRecords_def records_append [of ?text future] by auto
    from rest_within [OF records_rest this] show ?thesis by (simp flip: total)
  qed
  ultimately show ?thesis using d held(3) total records_rest [of ?text]
    by (intro exI [of _ ?p2]) (simp add: feed_def Let_def refuseIfOversized_def sound_def)
qed

lemma feedAll_messages:
  assumes "sound p" and "\<forall>r \<in> set (wholeRecords (held p @ sp_tail p @ concat chunks)). length r + 2 \<le> MAX_RECORD_CHARS"
  shows "feedAll p chunks = (messagesOf (held p @ sp_tail p @ concat chunks), None)"
  using assms
proof (induction chunks arbitrary: p)
  case Nil
  then have "records (held p @ sp_tail p) = ([], held p @ sp_tail p)" by (simp add: sound_def records_None)
  then show ?case by (simp add: messagesOf_def wholeRecords_def held_def List.map_filter_def split: option.split)
next
  case (Cons chunk chunks)
  let ?text = "held p @ sp_tail p @ chunk"
  have bound: "\<forall>r \<in> set (wholeRecords (?text @ concat chunks)). length r + 2 \<le> MAX_RECORD_CHARS"
    using Cons.prems(2) by simp
  from feed_records [OF Cons.prems(1) bound] obtain p' where
    p': "feed p chunk = (List.map_filter parseRecord (fst (records ?text)), Inr p')" "sound p'"
      "held p' @ sp_tail p' = snd (records ?text)" by blast
  have whole: "wholeRecords (?text @ concat chunks) = fst (records ?text) @ wholeRecords (snd (records ?text) @ concat chunks)"
    unfolding wholeRecords_def records_append [of ?text "concat chunks"] by simp
  have "feedAll p' chunks = (messagesOf (snd (records ?text) @ concat chunks), None)"
    using Cons.IH [OF p'(2)] bound whole p'(3) by (simp flip: append_assoc)
  then show ?case using p'(1) whole by (simp add: messagesOf_def)
qed

text \<open>
  C30: how an upstream's bytes are cut into chunks does not matter. As long as every record is
  at least two characters short of the cap, the parser yields the messages of the whole text,
  in order and each once, whatever the chunks, and refuses nothing. Within two characters of
  the cap the cut does matter: see \<open>record_at_cap_cut\<close>.
\<close>

theorem parseSse_chunking:
  assumes "\<forall>r \<in> set (wholeRecords (concat chunks)). length r + 2 \<le> MAX_RECORD_CHARS"
  shows "parseSse chunks = (messagesOf (concat chunks), None)"
  using feedAll_messages [of newParser chunks] assms
  by (simp add: parseSse_def newParser_def sound_def held_def)

definition sample_chunks :: "string list" where
  "sample_chunks = [''event: a'', [LF] @ ''data: 1'' @ [LF], [CR], [LF] @ ''data'', '': 2'']"

theorem parseSse_chunking_witness:
  "parseSse sample_chunks = ([\<lparr>sm_event = ''a'', sm_data = ''1''\<rparr>, \<lparr>sm_event = ''message'', sm_data = ''2''\<rparr>], None)"
proof -
  have "wholeRecords (concat sample_chunks) = [''event: a'' @ [LF] @ ''data: 1'', ''data: 2'']" by code_simp
  then have "\<forall>r \<in> set (wholeRecords (concat sample_chunks)). length r + 2 \<le> MAX_RECORD_CHARS" by (simp add: MAX_RECORD_CHARS_def)
  from parseSse_chunking [OF this] have "parseSse sample_chunks = (messagesOf (concat sample_chunks), None)" .
  moreover have "messagesOf (concat sample_chunks) = [\<lparr>sm_event = ''a'', sm_data = ''1''\<rparr>, \<lparr>sm_event = ''message'', sm_data = ''2''\<rparr>]"
    by code_simp
  ultimately show ?thesis by simp
qed

subsection \<open>The gateway's own frames\<close>

definition lineSafe :: "string \<Rightarrow> bool" where
  "lineSafe s \<longleftrightarrow> LF \<notin> set s \<and> CR \<notin> set s"

definition frameBody :: "sse_message \<Rightarrow> string" where
  "frameBody m = ''event: '' @ sm_event m @ [LF] @ ''data: '' @ sm_data m"

lemma nextRecord_line: "LF \<notin> set l \<Longrightarrow> nextRecord (l @ t) = map_option (\<lambda>(a, b). (l @ a, b)) (nextRecord t)"
  by (induction l) (auto simp: option.map_comp comp_def case_prod_unfold option.map_ident_strong)

lemma splitOn_line: "LF \<notin> set l \<Longrightarrow> splitOn LF (l @ LF # t) = l # splitOn LF t" "LF \<notin> set l \<Longrightarrow> splitOn LF l = [l]"
  by (induction l) auto

lemma frame_chars [simp]: "LF \<notin> set ''event: ''" "LF \<notin> set ''data: ''" "CHR ''d'' \<noteq> LF" "CHR ''d'' \<noteq> CR"
  by (simp_all add: LF_def CR_def)

text \<open>
  A record of exactly the cap passes when its separator arrives with it and is refused when
  the network cuts between the two newlines: the characters held back then count the first of
  them.
\<close>

theorem record_at_cap_cut:
  assumes "LF \<notin> set r" and "length r = MAX_RECORD_CHARS"
  shows "parseSse [r @ [LF, LF]] = (case parseRecord r of None \<Rightarrow> [] | Some m \<Rightarrow> [m], None)
    \<and> parseSse [r @ [LF], [LF]] = ([], Some oversized)"
proof
  have blank: "parseRecord [] = None" by (simp add: parseRecord_def parseLine_def)
  have whole: "nextRecord (r @ [LF, LF]) = Some (r, [])" and part: "nextRecord (r @ [LF]) = None"
    using nextRecord_line [OF assms(1), of "[LF, LF]"] nextRecord_line [OF assms(1), of "[LF]"] by simp_all
  show "parseSse [r @ [LF, LF]] = (case parseRecord r of None \<Rightarrow> [] | Some m \<Rightarrow> [m], None)"
    using whole assms(2) blank
    by (simp add: parseSse_def feed_def newParser_def drainProbe.simps holdBack_def refuseIfOversized_def Let_def split: option.split)
  show "parseSse [r @ [LF], [LF]] = ([], Some oversized)"
    using part assms(2)
    by (simp add: parseSse_def feed_def newParser_def drainProbe.simps holdBack_def refuseIfOversized_def Let_def HOLDBACK_def
        MAX_RECORD_CHARS_def)
qed

theorem record_at_cap_cut_witness:
  "parseSse [replicate MAX_RECORD_CHARS (CHR ''x'') @ [LF], [LF]] = ([], Some oversized)"
  by (rule record_at_cap_cut [THEN conjunct2]) (simp_all add: LF_def)

lemma nextRecord_frame:
  assumes "lineSafe (sm_event m)" and "lineSafe (sm_data m)"
  shows "nextRecord (writeFrame m @ rest) = Some (frameBody m, rest)"
proof -
  let ?e = "''event: '' @ sm_event m" and ?d = "''data: '' @ sm_data m"
  have e: "LF \<notin> set ?e" and d: "LF \<notin> set ?d" using assms by (auto simp: lineSafe_def LF_def)
  have "writeFrame m @ rest = ?e @ LF # ?d @ LF # LF # rest" by (simp add: writeFrame_def)
  moreover have "nextRecord (?d @ LF # LF # rest) = Some (?d, rest)" unfolding nextRecord_line [OF d] by simp
  then have "nextRecord (LF # ?d @ LF # LF # rest) = Some (LF # ?d, rest)" by simp
  ultimately show ?thesis using nextRecord_line [OF e, of "LF # ?d @ LF # LF # rest"] by (simp add: frameBody_def)
qed

lemma parseRecord_frame:
  assumes "lineSafe (sm_event m)" and "lineSafe (sm_data m)"
  shows "parseRecord (frameBody m) = Some m"
proof -
  let ?e = "''event: '' @ sm_event m" and ?d = "''data: '' @ sm_data m"
  have e: "LF \<notin> set ?e" "CR \<notin> set ?e" and d: "LF \<notin> set ?d" "CR \<notin> set ?d" using assms by (auto simp: lineSafe_def LF_def CR_def)
  have "splitOn LF (frameBody m) = [?e, ?d]"
    using splitOn_line(1) [OF e(1), of ?d] splitOn_line(2) [OF d(1)] by (simp add: frameBody_def)
  moreover have "last l \<noteq> CR" if "CR \<notin> set l" "l \<noteq> []" for l using that last_in_set by metis
  then have "parseLine acc ?e = (sm_event m, snd acc)" "parseLine acc ?d = (fst acc, snd acc @ [sm_data m])" for acc
    using e(2) d(2) by (simp_all add: parseLine_def)
  ultimately show ?thesis by (simp add: parseRecord_def)
qed

lemma wholeRecords_frames:
  assumes "\<forall>m \<in> set ms. lineSafe (sm_event m) \<and> lineSafe (sm_data m)"
  shows "wholeRecords (concat (map writeFrame ms)) = map frameBody ms @ [[]]"
  using assms
proof (induction ms)
  case Nil
  show ?case by (simp add: wholeRecords_def records_None [of "[]"])
next
  case (Cons m ms)
  have "nextRecord (writeFrame m @ concat (map writeFrame ms)) = Some (frameBody m, concat (map writeFrame ms))"
    using nextRecord_frame Cons.prems by simp
  from records_Some [OF this] Cons show ?case by (simp add: wholeRecords_def)
qed

text \<open>
  What the gateway writes is read back. Frames whose event and data hold no line
  break, as every JSON document is, survive writing, any cutting of the bytes into chunks,
  and parsing: the messages are the frames, in order, and nothing else.
\<close>

theorem frames_roundtrip:
  assumes "concat chunks = concat (map writeFrame ms)"
    and "\<forall>m \<in> set ms. lineSafe (sm_event m) \<and> lineSafe (sm_data m) \<and> length (frameBody m) + 2 \<le> MAX_RECORD_CHARS"
  shows "parseSse chunks = (ms, None)"
proof -
  have safe: "\<forall>m \<in> set ms. lineSafe (sm_event m) \<and> lineSafe (sm_data m)" using assms(2) by blast
  have "\<forall>r \<in> set (wholeRecords (concat chunks)). length r + 2 \<le> MAX_RECORD_CHARS"
    using assms by (auto simp: wholeRecords_frames [OF safe] MAX_RECORD_CHARS_def)
  from feedAll_messages [of newParser chunks] this
  have "parseSse chunks = (messagesOf (concat chunks), None)" by (simp add: parseSse_def newParser_def sound_def held_def)
  moreover have "List.map_filter parseRecord (map frameBody ms) = ms"
    using safe by (induction ms) (simp_all add: parseRecord_frame)
  moreover have "parseRecord [] = None" by (simp add: parseRecord_def parseLine_def)
  ultimately show ?thesis unfolding messagesOf_def assms(1) wholeRecords_frames [OF safe] by simp
qed

theorem frames_roundtrip_witness:
  "parseSse [''event: a'' @ [LF] @ ''data: {}'' @ [LF], [LF] @ ''event: b'' @ [LF] @ ''data: 1'', [LF, LF]]
     = ([\<lparr>sm_event = ''a'', sm_data = ''{}''\<rparr>, \<lparr>sm_event = ''b'', sm_data = ''1''\<rparr>], None)"
  by (rule frames_roundtrip) (simp_all add: writeFrame_def lineSafe_def frameBody_def LF_def CR_def MAX_RECORD_CHARS_def)

end
