(* ===== verification/Wire_Anthropic.thy ===== *)
theory Wire_Anthropic
  imports Wire_Sse Ir_Stream Dispatch_Price
begin

section \<open>The Anthropic wire, both ways\<close>

text \<open>
  \<^verbatim>\<open>apps/gateway/src/egress/anthropic.ts\<close>, which turns the canonical events into the frames
  an Anthropic-shaped client reads, and \<^verbatim>\<open>packages/providers/src/anthropic/decode.ts\<close>, which
  reads an Anthropic upstream's messages into canonical events. \<^verbatim>\<open>JSON.parse\<close> is the
  parameter \<open>parse\<close>; the tool cloak is the map back from wire names.

  A decoder field that is absent or null takes the source's default. The payload types the
  decoder declares are not checked by it; here an index or a token count that is not a number
  counts as absent, and any other value where a string is declared is its \<^verbatim>\<open>String(...)\<close>.
\<close>

fun digitsOf :: "nat \<Rightarrow> string" where
  "digitsOf n = (if n < 10 then [char_of (48 + n)] else digitsOf (n div 10) @ [char_of (48 + n mod 10)])"

declare digitsOf.simps [simp del]

definition jint :: "int \<Rightarrow> json" where
  "jint n = JNum (of_int n) (if n < 0 then ''-'' @ digitsOf (nat (- n)) else digitsOf (nat n))"

subsection \<open>Egress\<close>

fun STOP_REASON_OUT :: "stop_reason \<Rightarrow> string" where
  "STOP_REASON_OUT EndTurn = ''end_turn''"
| "STOP_REASON_OUT MaxTokens = ''max_tokens''"
| "STOP_REASON_OUT StopSequence = ''stop_sequence''"
| "STOP_REASON_OUT ToolUse = ''tool_use''"
| "STOP_REASON_OUT ContentFilter = ''refusal''"
| "STOP_REASON_OUT PauseTurn = ''pause_turn''"

fun ERROR_TYPE_OUT :: "error_code \<Rightarrow> string" where
  "ERROR_TYPE_OUT AUTH = ''authentication_error''"
| "ERROR_TYPE_OUT RATE_LIMIT = ''rate_limit_error''"
| "ERROR_TYPE_OUT QUOTA_EXHAUSTED = ''rate_limit_error''"
| "ERROR_TYPE_OUT OVERLOADED = ''overloaded_error''"
| "ERROR_TYPE_OUT BAD_REQUEST = ''invalid_request_error''"
| "ERROR_TYPE_OUT CONFLICT = ''invalid_request_error''"
| "ERROR_TYPE_OUT CONTENT_FILTER = ''invalid_request_error''"
| "ERROR_TYPE_OUT CAPABILITY_MISMATCH = ''invalid_request_error''"
| "ERROR_TYPE_OUT FINGERPRINT_REFUSED = ''invalid_request_error''"
| "ERROR_TYPE_OUT MODEL_UNAVAILABLE = ''not_found_error''"
| "ERROR_TYPE_OUT UPSTREAM = ''api_error''"
| "ERROR_TYPE_OUT TIMEOUT = ''api_error''"
| "ERROR_TYPE_OUT NETWORK = ''api_error''"
| "ERROR_TYPE_OUT NO_CANDIDATES = ''overloaded_error''"
| "ERROR_TYPE_OUT ALL_CANDIDATES_FAILED = ''api_error''"
| "ERROR_TYPE_OUT INTERNAL = ''api_error''"

definition frame :: "string \<Rightarrow> json \<Rightarrow> sse_message" where
  "frame event data = \<lparr>sm_event = event, sm_data = stringify data\<rparr>"

record egress_state =
  eg_suppressed :: "int list"
  eg_outIndex :: "(int \<times> int) list"
  eg_next :: int

definition egressStart :: egress_state where
  "egressStart = \<lparr>eg_suppressed = [], eg_outIndex = [], eg_next = 0\<rparr>"

definition safeguardFields :: "(string \<times> members) list option \<Rightarrow> members" where
  "safeguardFields vendor =
     (case vendor of
        None \<Rightarrow> []
      | Some vs \<Rightarrow> (case map_of vs ''anthropic'' of
          None \<Rightarrow> []
        | Some metadata \<Rightarrow> (case map_of metadata ''safeguard_results'' of
            None \<Rightarrow> [] | Some v \<Rightarrow> [(''safeguard_results'', v)])))"

definition usageObject :: "usage \<Rightarrow> json" where
  "usageObject u = JObj [(''input_tokens'', jint (us_inputTokens u)), (''output_tokens'', jint (us_outputTokens u)),
     (''cache_read_input_tokens'', jint (us_cacheReadTokens u)), (''cache_creation_input_tokens'', jint (us_cacheWriteTokens u))]"

fun startBlock :: "content_block_start \<Rightarrow> json" where
  "startBlock StartText = JObj [(''type'', JStr ''text''), (''text'', JStr '''')]"
| "startBlock (StartThinking signed) = JObj [(''type'', JStr ''thinking''), (''thinking'', JStr '''')]"
| "startBlock (StartNative p blockType data) = JObj (AList.update ''type'' (JStr blockType) data)"
| "startBlock (StartToolUse i name) = JObj [(''type'', JStr ''tool_use''), (''id'', JStr i), (''name'', JStr name), (''input'', JObj [])]"

fun deltaObject :: "delta \<Rightarrow> json" where
  "deltaObject (DText t) = JObj [(''type'', JStr ''text_delta''), (''text'', JStr t)]"
| "deltaObject (DThinking t) = JObj [(''type'', JStr ''thinking_delta''), (''thinking'', JStr t)]"
| "deltaObject (DSignature s) = JObj [(''type'', JStr ''signature_delta''), (''signature'', JStr s)]"
| "deltaObject (DNative p deltaType fk data) = JObj (spread [(''type'', JStr deltaType)] data)"
| "deltaObject (DToolJson j) = JObj [(''type'', JStr ''input_json_delta''), (''partial_json'', JStr j)]"
| "deltaObject (DNativeJson p j) = JObj [(''type'', JStr ''input_json_delta''), (''partial_json'', JStr j)]"

definition outIndexOf :: "egress_state \<Rightarrow> int \<Rightarrow> int" where
  "outIndexOf g i = nullish (map_of (eg_outIndex g) i) i"

fun egressEvent :: "string \<Rightarrow> egress_state \<Rightarrow> stream_event \<Rightarrow> (string \<times> json) list \<times> egress_state" where
  "egressEvent rid g (Start i model) =
     ([(''message_start'', JObj [(''type'', JStr ''message_start''), (''message'', JObj [
         (''id'', JStr rid), (''type'', JStr ''message''), (''role'', JStr ''assistant''), (''model'', JStr model),
         (''content'', JArr []), (''stop_reason'', JNull), (''stop_sequence'', JNull), (''usage'', usageObject no_usage)])])], g)"
| "egressEvent rid g (BlockStart i b) =
     (if (case b of StartThinking signed \<Rightarrow> signed \<noteq> Some True | _ \<Rightarrow> False)
      then ([], g\<lparr>eg_suppressed := i # eg_suppressed g\<rparr>)
      else ([(''content_block_start'', JObj [(''type'', JStr ''content_block_start''), (''index'', jint (eg_next g)),
               (''content_block'', startBlock b)])],
            g\<lparr>eg_outIndex := AList.update i (eg_next g) (eg_outIndex g), eg_next := eg_next g + 1\<rparr>))"
| "egressEvent rid g (BlockDelta i d) =
     (if i \<in> set (eg_suppressed g) then ([], g)
      else ([(''content_block_delta'', JObj [(''type'', JStr ''content_block_delta''), (''index'', jint (outIndexOf g i)),
               (''delta'', deltaObject d)])], g))"
| "egressEvent rid g (BlockEnd i) =
     (if i \<in> set (eg_suppressed g) then ([], g)
      else ([(''content_block_stop'', JObj [(''type'', JStr ''content_block_stop''), (''index'', jint (outIndexOf g i))])], g))"
| "egressEvent rid g (End reason u vendor) =
     ([(''message_delta'', JObj [(''type'', JStr ''message_delta''),
         (''delta'', JObj ([(''stop_reason'', JStr (STOP_REASON_OUT reason)), (''stop_sequence'', JNull)] @ safeguardFields vendor)),
         (''usage'', usageObject u)]),
       (''message_stop'', JObj [(''type'', JStr ''message_stop'')])], g)"
| "egressEvent rid g (Err code message retryable) =
     ([(''error'', JObj [(''type'', JStr ''error''),
         (''error'', JObj [(''type'', JStr (ERROR_TYPE_OUT code)), (''message'', JStr message)])])], g)"

fun egressAll :: "string \<Rightarrow> egress_state \<Rightarrow> stream_event list \<Rightarrow> (string \<times> json) list" where
  "egressAll rid g [] = []"
| "egressAll rid g (e # es) = (let (frames, g) = egressEvent rid g e in frames @ egressAll rid g es)"

definition anthropicStream :: "stream_event list \<Rightarrow> string \<Rightarrow> sse_message list" where
  "anthropicStream events requestId = map (\<lambda>(event, data). frame event data) (egressAll requestId egressStart events)"

subsection \<open>Decoding\<close>

fun jsString :: "json \<Rightarrow> string" where
  "jsString JNull = ''null''"
| "jsString (JBool b) = (if b then ''true'' else ''false'')"
| "jsString (JNum n spelling) = spelling"
| "jsString (JStr s) = s"
| "jsString (JArr xs) = intercalate '','' (map (\<lambda>x. if x = JNull then [] else jsString x) xs)"
| "jsString (JObj ms) = ''[object Object]''"

text \<open>Reading a member, of anything: \<^verbatim>\<open>undefined\<close> is \<open>None\<close>.\<close>

fun member :: "string \<Rightarrow> json option \<Rightarrow> json option" where
  "member k (Some (JObj ms)) = map_of ms k"
| "member k _ = None"

definition coalesce :: "json option \<Rightarrow> json option" where
  "coalesce v = (if v = Some JNull then None else v)"

definition strOr :: "string \<Rightarrow> json option \<Rightarrow> string" where
  "strOr d v = (case coalesce v of None \<Rightarrow> d | Some j \<Rightarrow> jsString j)"

definition numberOf :: "json option \<Rightarrow> int option" where
  "numberOf v = (case v of Some (JNum n spelling) \<Rightarrow> Some \<lfloor>n\<rfloor> | _ \<Rightarrow> None)"

definition intOr :: "int \<Rightarrow> json option \<Rightarrow> int" where
  "intOr d v = nullish (numberOf v) d"

fun STOP_REASON_IN :: "string \<Rightarrow> stop_reason option" where
  "STOP_REASON_IN s = map_of [(''end_turn'', EndTurn), (''max_tokens'', MaxTokens), (''stop_sequence'', StopSequence),
     (''tool_use'', ToolUse), (''refusal'', ContentFilter), (''pause_turn'', PauseTurn)] s"

definition KNOWN_EVENTS :: "string list" where
  "KNOWN_EVENTS = [''message_start'', ''content_block_start'', ''content_block_delta'', ''content_block_stop'',
     ''message_delta'', ''message_stop'', ''error'', ''ping'']"

definition KNOWN_DELTAS :: "string list" where
  "KNOWN_DELTAS = [''text_delta'', ''thinking_delta'', ''signature_delta'', ''input_json_delta'', ''citations_delta'', ''compaction_delta'']"

fun ERROR_TYPE_IN :: "string \<Rightarrow> error_code option" where
  "ERROR_TYPE_IN s = map_of [(''overloaded_error'', OVERLOADED), (''rate_limit_error'', RATE_LIMIT),
     (''authentication_error'', AUTH), (''permission_error'', AUTH), (''invalid_request_error'', BAD_REQUEST),
     (''api_error'', UPSTREAM)] s"

definition ANTHROPIC_NATIVE_BLOCK_TYPES :: "string list" where
  "ANTHROPIC_NATIVE_BLOCK_TYPES = [''server_tool_use'', ''web_search_tool_result'', ''web_fetch_tool_result'',
     ''code_execution_tool_result'', ''bash_code_execution_tool_result'', ''text_editor_code_execution_tool_result'',
     ''mcp_tool_use'', ''mcp_tool_result'', ''tool_search_tool_result'', ''tool_reference'', ''advisor_tool_result'',
     ''advisor_result'', ''advisor_redacted_result'', ''container_upload'', ''compaction'', ''search_result'', ''document'',
     ''mid_conv_system'', ''tool_addition'', ''tool_removal'', ''fallback'', ''redacted_thinking'']"

definition FINGERPRINT_PHRASES :: "string list" where
  "FINGERPRINT_PHRASES = [''out of extra usage'', ''draw from extra usage'']"

definition isFingerprintMessage :: "string \<Rightarrow> bool" where
  "isFingerprintMessage message = list_ex (js_includes (toLowerCase message)) FINGERPRINT_PHRASES"

definition isFingerprintRefusal :: "string \<Rightarrow> string \<Rightarrow> bool" where
  "isFingerprintRefusal type message = (type = ''invalid_request_error'' \<and> isFingerprintMessage message)"

record decode_state =
  an_inputTokens :: int
  an_cacheReadTokens :: int
  an_cacheWriteTokens :: int
  an_cacheWrite5mTokens :: "int option"
  an_cacheWrite1hTokens :: "int option"
  an_outputTokens :: int
  an_stopReason :: stop_reason
  an_terminal :: bool
  an_safeguard :: "json option"
  an_native :: "int list"

definition decodeStart :: decode_state where
  "decodeStart = \<lparr>an_inputTokens = 0, an_cacheReadTokens = 0, an_cacheWriteTokens = 0, an_cacheWrite5mTokens = None,
     an_cacheWrite1hTokens = None, an_outputTokens = 0, an_stopReason = EndTurn, an_terminal = False, an_safeguard = None, an_native = []\<rparr>"

definition jsonObject :: "(string \<Rightarrow> json option) \<Rightarrow> string \<Rightarrow> json option" where
  "jsonObject parse data = (case parse data of
     Some (JObj ms) \<Rightarrow> Some (JObj ms) | Some (JArr xs) \<Rightarrow> Some (JObj []) | _ \<Rightarrow> None)"

definition protocolError :: "string \<Rightarrow> stream_event" where
  "protocolError message = Err UPSTREAM message False"

definition quoted :: "string \<Rightarrow> string" where
  "quoted s = ''\"'' @ s @ ''\"''"

definition strOf :: "json option \<Rightarrow> string" where
  "strOf v = (case v of None \<Rightarrow> ''undefined'' | Some j \<Rightarrow> jsString j)"

text \<open>How a message leaves the loop: on to the next, \<^verbatim>\<open>return\<close>, or a thrown \<^verbatim>\<open>TypeError\<close>.\<close>

datatype decode_flow = GoOn | Stop | Throws

type_synonym decoded = "stream_event list \<times> decode_state \<times> decode_flow"

definition decodeMessageStart :: "decode_state \<Rightarrow> json \<Rightarrow> decoded" where
  "decodeMessageStart st d =
     (let m = coalesce (member ''message'' (Some d)); u = member ''usage'' m; split = member ''cache_creation'' u in
      ([Start (strOr [] (member ''id'' m)) (strOr [] (member ''model'' m))],
       st\<lparr>an_inputTokens := intOr 0 (member ''input_tokens'' u),
          an_cacheReadTokens := intOr 0 (member ''cache_read_input_tokens'' u),
          an_cacheWriteTokens := intOr 0 (member ''cache_creation_input_tokens'' u),
          an_cacheWrite5mTokens := numberOf (member ''ephemeral_5m_input_tokens'' split),
          an_cacheWrite1hTokens := numberOf (member ''ephemeral_1h_input_tokens'' split)\<rparr>, GoOn))"

definition decodeBlockStart :: "(string \<rightharpoonup> string) \<Rightarrow> decode_state \<Rightarrow> json \<Rightarrow> decoded" where
  "decodeBlockStart fromWire st d =
     (let cb = coalesce (member ''content_block'' (Some d)); index = intOr 0 (member ''index'' (Some d)); ty = member ''type'' cb in
      case ty of
        Some (JStr t) \<Rightarrow>
          if t = ''text'' then ([BlockStart index StartText], st, GoOn)
          else if t = ''thinking'' then ([BlockStart index (StartThinking (Some True))], st, GoOn)
          else if t = ''tool_use'' then
            (let name = strOf (member ''name'' cb)
             in ([BlockStart index (StartToolUse (strOf (member ''id'' cb)) (nullish (fromWire name) name))], st, GoOn))
          else if t \<in> set ANTHROPIC_NATIVE_BLOCK_TYPES then
            ([BlockStart index (StartNative ''anthropic'' t (case cb of Some (JObj ms) \<Rightarrow> filter (\<lambda>(k, v). k \<noteq> ''type'') ms | _ \<Rightarrow> []))],
             st\<lparr>an_native := List.insert index (an_native st)\<rparr>, GoOn)
          else ([protocolError (''unrecognized Anthropic content block type '' @ quoted t)], st, Stop)
      | _ \<Rightarrow> ([protocolError (''unrecognized Anthropic content block type '' @ quoted (strOf ty))], st, Stop))"

definition present :: "string \<Rightarrow> json option \<Rightarrow> members" where
  "present k v = (case v of None \<Rightarrow> [] | Some j \<Rightarrow> [(k, j)])"

definition decodeBlockDelta :: "decode_state \<Rightarrow> json \<Rightarrow> decoded" where
  "decodeBlockDelta st d =
     (let delta = coalesce (member ''delta'' (Some d)); index = intOr 0 (member ''index'' (Some d)); ty = member ''type'' delta in
      case ty of
        Some (JStr t) \<Rightarrow>
          if t = ''text_delta'' then ([BlockDelta index (DText (strOr [] (member ''text'' delta)))], st, GoOn)
          else if t = ''thinking_delta'' then ([BlockDelta index (DThinking (strOr [] (member ''thinking'' delta)))], st, GoOn)
          else if t = ''signature_delta'' \<and> strOr [] (member ''signature'' delta) \<noteq> [] then
            ([BlockDelta index (DSignature (strOr [] (member ''signature'' delta)))], st, GoOn)
          else if t = ''input_json_delta'' then
            ([BlockDelta index (if index \<in> set (an_native st) then DNativeJson ''anthropic'' (strOr [] (member ''partial_json'' delta))
                else DToolJson (strOr [] (member ''partial_json'' delta)))], st, GoOn)
          else if t = ''citations_delta'' then
            ([BlockDelta index (DNative ''anthropic'' t (Some Citation) (present ''citation'' (member ''citation'' delta)))], st, GoOn)
          else if t = ''compaction_delta'' then
            ([BlockDelta index (DNative ''anthropic'' t (Some Merge) (present ''content'' (member ''content'' delta)
                @ present ''encrypted_content'' (member ''encrypted_content'' delta)))], st, GoOn)
          else if t \<notin> set KNOWN_DELTAS then ([protocolError (''unrecognized Anthropic content block delta '' @ quoted t)], st, Stop)
          else ([], st, GoOn)
      | _ \<Rightarrow> ([protocolError (''unrecognized Anthropic content block delta '' @ quoted (strOf ty))], st, Stop))"

definition decodeBlockStop :: "decode_state \<Rightarrow> json \<Rightarrow> decoded" where
  "decodeBlockStop st d =
     (let index = intOr 0 (member ''index'' (Some d))
      in ([BlockEnd index], st\<lparr>an_native := removeAll index (an_native st)\<rparr>, GoOn))"

definition decodeMessageDelta :: "decode_state \<Rightarrow> json \<Rightarrow> decoded" where
  "decodeMessageDelta st d =
     (let delta = member ''delta'' (Some d); u = member ''usage'' (Some d) in
      if delta = Some JNull then ([], st, Throws)
      else
        let own = member ''safeguard_results'' delta;
            verdict = (case own of None \<Rightarrow> member ''safeguard_results'' (Some d) | Some v \<Rightarrow> Some v);
            st = (case verdict of None \<Rightarrow> st | Some v \<Rightarrow> st\<lparr>an_safeguard := Some v\<rparr>);
            counted = (\<lambda>st. st\<lparr>an_inputTokens := intOr (an_inputTokens st) (member ''input_tokens'' u),
              an_outputTokens := intOr (an_outputTokens st) (member ''output_tokens'' u)\<rparr>)
        in case member ''stop_reason'' delta of
            Some (JStr reason) \<Rightarrow> (case STOP_REASON_IN reason of
                None \<Rightarrow> ([protocolError (''unrecognized Anthropic stop reason '' @ quoted reason)], st, Stop)
              | Some mapped \<Rightarrow> ([], counted (st\<lparr>an_stopReason := mapped\<rparr>), GoOn))
          | _ \<Rightarrow> ([], counted st, GoOn))"

definition decodeMessageStop :: "decode_state \<Rightarrow> json \<Rightarrow> decoded" where
  "decodeMessageStop st d =
     (let st = (case member ''safeguard_results'' (Some d) of None \<Rightarrow> st | Some v \<Rightarrow> st\<lparr>an_safeguard := Some v\<rparr>)
      in ([End (an_stopReason st)
             \<lparr>us_inputTokens = an_inputTokens st, us_outputTokens = an_outputTokens st, us_cacheReadTokens = an_cacheReadTokens st,
              us_cacheWriteTokens = an_cacheWriteTokens st, us_cacheWrite5mTokens = an_cacheWrite5mTokens st,
              us_cacheWrite1hTokens = an_cacheWrite1hTokens st\<rparr>
             (map_option (\<lambda>v. [(''anthropic'', [(''safeguard_results'', v)])]) (an_safeguard st))],
          st\<lparr>an_terminal := True\<rparr>, GoOn))"

definition decodeError :: "decode_state \<Rightarrow> json \<Rightarrow> decoded" where
  "decodeError st d =
     (let e = member ''error'' (Some d); ty = strOf (member ''type'' e); message = strOr ''upstream error'' (member ''message'' e);
          code = (if isFingerprintRefusal ty message then FINGERPRINT_REFUSED else nullish (ERROR_TYPE_IN ty) UPSTREAM)
      in ([Err code message (RETRYABLE code)], st\<lparr>an_terminal := True\<rparr>, GoOn))"

definition decodeMessage :: "(string \<Rightarrow> json option) \<Rightarrow> (string \<rightharpoonup> string) \<Rightarrow> decode_state \<Rightarrow> sse_message \<Rightarrow> decoded" where
  "decodeMessage parse fromWire st msg =
     (case jsonObject parse (sm_data msg) of
        None \<Rightarrow> ([], st, GoOn)
      | Some d \<Rightarrow>
          let event = sm_event msg in
          if event \<notin> set KNOWN_EVENTS then ([protocolError (''unrecognized Anthropic stream event '' @ quoted event)], st, Stop)
          else if event = ''message_start'' then decodeMessageStart st d
          else if event = ''content_block_start'' then decodeBlockStart fromWire st d
          else if event = ''content_block_delta'' then decodeBlockDelta st d
          else if event = ''content_block_stop'' then decodeBlockStop st d
          else if event = ''message_delta'' then decodeMessageDelta st d
          else if event = ''message_stop'' then decodeMessageStop st d
          else if event = ''error'' then decodeError st d
          else ([], st, GoOn))"

text \<open>The decoder: its events, and whether it threw instead of ending.\<close>

fun decodeAll :: "(string \<Rightarrow> json option) \<Rightarrow> (string \<rightharpoonup> string) \<Rightarrow> decode_state \<Rightarrow> sse_message list \<Rightarrow> stream_event list \<times> bool" where
  "decodeAll parse fromWire st [] =
     (if an_terminal st then [] else [Err UPSTREAM ''upstream stream ended before message_stop'' (RETRYABLE UPSTREAM)], False)"
| "decodeAll parse fromWire st (m # ms) =
     (case decodeMessage parse fromWire st m of
        (es, st', GoOn) \<Rightarrow> (case decodeAll parse fromWire st' ms of (es', b) \<Rightarrow> (es @ es', b))
      | (es, st', Stop) \<Rightarrow> (es, False)
      | (es, st', Throws) \<Rightarrow> (es, True))"

definition decodeAnthropic :: "(string \<Rightarrow> json option) \<Rightarrow> (string \<rightharpoonup> string) \<Rightarrow> sse_message list \<Rightarrow> stream_event list \<times> bool" where
  "decodeAnthropic parse fromWire msgs = decodeAll parse fromWire decodeStart msgs"

subsection \<open>A decoder never ends in silence\<close>

definition speaks :: "decode_state \<Rightarrow> decoded \<Rightarrow> bool" where
  "speaks st r \<longleftrightarrow> (case r of (es, st', flow) \<Rightarrow> (flow = Stop \<longrightarrow> list_ex is_err es)
     \<and> (an_terminal st' \<longrightarrow> an_terminal st \<or> list_ex (\<lambda>e. is_end e \<or> is_err e) es))"

lemma speaks_on: "an_terminal st' = an_terminal st \<Longrightarrow> speaks st (es, st', GoOn)"
  by (simp add: speaks_def)

lemma speaks_stop: "an_terminal st' = an_terminal st \<Longrightarrow> speaks st ([protocolError t], st', Stop)"
  by (simp add: speaks_def protocolError_def)

lemma speaks_if: "speaks st a \<Longrightarrow> speaks st b \<Longrightarrow> speaks st (if c then a else b)"
  by simp

lemma speaks_parts:
  "speaks st (decodeMessageStart st d)" "speaks st (decodeBlockStop st d)" "speaks st (decodeMessageStop st d)"
  "speaks st (decodeError st d)"
  by (simp_all add: speaks_def decodeMessageStart_def decodeBlockStop_def decodeMessageStop_def decodeError_def Let_def)

lemma speaks_blockStart: "speaks st (decodeBlockStart fromWire st d)"
  unfolding decodeBlockStart_def Let_def
  by (split option.split, split json.split) (intro conjI allI impI speaks_if speaks_on speaks_stop; simp)

lemma speaks_blockDelta: "speaks st (decodeBlockDelta st d)"
  unfolding decodeBlockDelta_def Let_def
  by (split option.split, split json.split) (intro conjI allI impI speaks_if speaks_on speaks_stop; simp)

lemma speaks_messageDelta: "speaks st (decodeMessageDelta st d)"
  unfolding decodeMessageDelta_def Let_def
  by (rule speaks_if, simp add: speaks_def)
    (auto intro!: speaks_on speaks_stop split: option.split json.split simp del: STOP_REASON_IN.simps)

lemma speaks_message: "speaks st (decodeMessage parse fromWire st m)"
proof (cases "jsonObject parse (sm_data m)")
  case None
  then show ?thesis by (simp add: decodeMessage_def speaks_def)
next
  case (Some d)
  show ?thesis unfolding decodeMessage_def Let_def Some option.case
    by (intro speaks_if speaks_parts speaks_blockStart speaks_blockDelta speaks_messageDelta speaks_on speaks_stop refl)
qed

lemma decodeMessage_terminal:
  assumes "decodeMessage parse fromWire st m = (es, st', flow)"
  shows "flow = Stop \<Longrightarrow> \<exists>e \<in> set es. is_err e" "an_terminal st' \<Longrightarrow> an_terminal st \<or> (\<exists>e \<in> set es. is_end e \<or> is_err e)"
  using speaks_message [of st parse fromWire m] assms by (simp_all add: speaks_def list_ex_iff)

text \<open>
  C31: an Anthropic decoder that returns has said how the stream ended. Whatever messages
  an upstream sends, malformed, unknown or cut short, the events contain an \<^verbatim>\<open>end\<close> or an
  \<^verbatim>\<open>error\<close>, so dispatch never mistakes silence for success.
\<close>

theorem decodeAnthropic_terminal:
  assumes "decodeAnthropic parse fromWire msgs = (es, False)"
  shows "\<exists>e \<in> set es. is_end e \<or> is_err e"
proof -
  have "an_terminal st \<or> (\<exists>e \<in> set es. is_end e \<or> is_err e)" if "decodeAll parse fromWire st msgs = (es, False)" for st es
    using that
  proof (induction msgs arbitrary: st es)
    case Nil
    then show ?case by (auto split: if_splits)
  next
    case (Cons m msgs)
    obtain fs st' flow where m: "decodeMessage parse fromWire st m = (fs, st', flow)" by (metis prod_cases3)
    show ?case
    proof (cases flow)
      case GoOn
      obtain gs b where "decodeAll parse fromWire st' msgs = (gs, b)" by fastforce
      with Cons m GoOn decodeMessage_terminal(2) [OF m] show ?thesis by fastforce
    next
      case Stop
      with Cons.prems m decodeMessage_terminal(1) [OF m] show ?thesis by auto
    next
      case Throws
      with Cons.prems m show ?thesis by simp
    qed
  qed
  from this [OF assms [unfolded decodeAnthropic_def]] show ?thesis by (simp add: decodeStart_def)
qed

theorem decodeAnthropic_terminal_witness:
  "\<exists>e \<in> set (fst (decodeAnthropic (\<lambda>_. None) Map.empty [\<lparr>sm_event = ''ping'', sm_data = ''{''\<rparr>])). is_end e \<or> is_err e"
  using decodeAnthropic_terminal [of "\<lambda>_. None" Map.empty "[\<lparr>sm_event = ''ping'', sm_data = ''{''\<rparr>]"]
  by (auto simp: decodeAnthropic_def decodeMessage_def jsonObject_def decodeStart_def)

end
