(* ===== verification/Wire_Roundtrip.thy ===== *)
theory Wire_Roundtrip
  imports Wire_Anthropic
begin

section \<open>What an Anthropic client reads back\<close>

text \<open>
  The frames the gateway sends, decoded by the gateway's own reading of the protocol, are
  the events they were made from. This is what lets one gateway stand behind another, and
  what a client that follows the protocol reconstructs.
\<close>

text \<open>
  Events as an Anthropic upstream produces them: blocks numbered from zero in the order they
  open, reasoning signed, native blocks of types the protocol knows, deltas on blocks already
  open. \<open>native\<close> holds the open native blocks.
\<close>

fun plainStart :: "content_block_start \<Rightarrow> bool" where
  "plainStart StartText = True"
| "plainStart (StartThinking signed) = (signed = Some True)"
| "plainStart (StartToolUse i name) = True"
| "plainStart (StartNative p t data) = (p = ''anthropic'' \<and> t \<in> set ANTHROPIC_NATIVE_BLOCK_TYPES \<and> ''type'' \<notin> fst ` set data)"

fun isNative :: "content_block_start \<Rightarrow> bool" where
  "isNative (StartNative p t data) = True"
| "isNative b = False"

fun plainDelta :: "bool \<Rightarrow> delta \<Rightarrow> bool" where
  "plainDelta native (DText t) = True"
| "plainDelta native (DThinking t) = True"
| "plainDelta native (DSignature s) = (s \<noteq> [])"
| "plainDelta native (DToolJson j) = (\<not> native)"
| "plainDelta native (DNativeJson p j) = (native \<and> p = ''anthropic'')"
| "plainDelta native (DNative p t fk data) = (p = ''anthropic'' \<and> t = ''citations_delta'' \<and> fk = Some Citation
     \<and> (case data of [(k, v)] \<Rightarrow> k = ''citation'' | _ \<Rightarrow> False))"

fun plain :: "int \<Rightarrow> int list \<Rightarrow> stream_event list \<Rightarrow> bool" where
  "plain n native [] = True"
| "plain n native (BlockStart i b # es) = (i = n \<and> plainStart b \<and> plain (n + 1) (if isNative b then List.insert i native else native) es)"
| "plain n native (BlockDelta i d # es) = (0 \<le> i \<and> i < n \<and> plainDelta (i \<in> set native) d \<and> plain n native es)"
| "plain n native (BlockEnd i # es) = (0 \<le> i \<and> i < n \<and> plain n (removeAll i native) es)"
| "plain n native (e # es) = False"

lemma jint_read [simp]: "numberOf (Some (jint n)) = Some n" "intOr d (Some (jint n)) = n"
  by (simp_all add: numberOf_def jint_def intOr_def)

lemma coalesce_simps [simp]: "coalesce (Some (JObj ms)) = Some (JObj ms)" "coalesce (Some (JStr s)) = Some (JStr s)"
  by (simp_all add: coalesce_def)

lemma strOr_JStr [simp]: "strOr d (Some (JStr s)) = s"
  by (simp add: strOr_def)

definition reads :: "(string \<Rightarrow> json option) \<Rightarrow> json \<Rightarrow> bool" where
  "reads parse j \<longleftrightarrow> parse (stringify j) = Some j"

lemma decode_known:
  assumes "reads parse (JObj ms)"
  shows "decodeMessage parse fw st (frame ''message_start'' (JObj ms)) = decodeMessageStart st (JObj ms)"
    "decodeMessage parse fw st (frame ''content_block_start'' (JObj ms)) = decodeBlockStart fw st (JObj ms)"
    "decodeMessage parse fw st (frame ''content_block_delta'' (JObj ms)) = decodeBlockDelta st (JObj ms)"
    "decodeMessage parse fw st (frame ''content_block_stop'' (JObj ms)) = decodeBlockStop st (JObj ms)"
    "decodeMessage parse fw st (frame ''message_delta'' (JObj ms)) = decodeMessageDelta st (JObj ms)"
    "decodeMessage parse fw st (frame ''message_stop'' (JObj ms)) = decodeMessageStop st (JObj ms)"
  using assms by (simp_all add: decodeMessage_def frame_def reads_def jsonObject_def KNOWN_EVENTS_def)

text \<open>Each part of the protocol, read back.\<close>

lemma native_types: "''text'' \<notin> set ANTHROPIC_NATIVE_BLOCK_TYPES" "''thinking'' \<notin> set ANTHROPIC_NATIVE_BLOCK_TYPES"
  "''tool_use'' \<notin> set ANTHROPIC_NATIVE_BLOCK_TYPES"
  by (simp_all add: ANTHROPIC_NATIVE_BLOCK_TYPES_def)

lemma blockStart_read:
  assumes "plainStart b"
  shows "decodeBlockStart Map.empty st (JObj [(''type'', JStr ''content_block_start''), (''index'', jint i), (''content_block'', startBlock b)])
    = ([BlockStart i b], if isNative b then st\<lparr>an_native := List.insert i (an_native st)\<rparr> else st, GoOn)"
proof (cases b)
  case (StartNative p t data)
  with assms have p: "p = ''anthropic''" and t: "t \<in> set ANTHROPIC_NATIVE_BLOCK_TYPES" and fresh: "''type'' \<notin> fst ` set data"
    by simp_all
  have other: "t \<noteq> ''text''" "t \<noteq> ''thinking''" "t \<noteq> ''tool_use''"
    using t native_types by auto
  have kept: "filter (\<lambda>(k, v). k \<noteq> ''type'') data = data"
    using fresh by (induction data) auto
  have put: "AList.update ''type'' (JStr t) data = data @ [(''type'', JStr t)]"
    using fresh by (induction data) auto
  have "map_of data ''type'' = None"
    using fresh by (simp add: map_of_eq_None_iff)
  then show ?thesis
    unfolding StartNative p startBlock.simps put by (simp add: decodeBlockStart_def Let_def other t kept map_add_def map_of_append)
qed (use assms in \<open>simp_all add: decodeBlockStart_def Let_def strOf_def\<close>)

lemma blockDelta_read:
  assumes "plainDelta (i \<in> set (an_native st)) d"
  shows "decodeBlockDelta st (JObj [(''type'', JStr ''content_block_delta''), (''index'', jint i), (''delta'', deltaObject d)])
    = ([BlockDelta i d], st, GoOn)"
  using assms by (cases d) (auto simp: decodeBlockDelta_def Let_def spread_def present_def split: list.splits)

lemma blockStop_read:
  "decodeBlockStop st (JObj [(''type'', JStr ''content_block_stop''), (''index'', jint i)])
    = ([BlockEnd i], st\<lparr>an_native := removeAll i (an_native st)\<rparr>, GoOn)"
  by (simp add: decodeBlockStop_def Let_def)

text \<open>The verdict that survives the wire: a safeguard result under the vendor's own name.\<close>

definition keptVendor :: "(string \<times> members) list option \<Rightarrow> (string \<times> members) list option" where
  "keptVendor v = map_option (\<lambda>x. [(''anthropic'', [(''safeguard_results'', x)])]) (map_of (safeguardFields v) ''safeguard_results'')"

text \<open>The usage that survives it: the cache counts travel only with \<^verbatim>\<open>message_start\<close>.\<close>

definition keptUsage :: "usage \<Rightarrow> usage" where
  "keptUsage u = no_usage\<lparr>us_inputTokens := us_inputTokens u, us_outputTokens := us_outputTokens u\<rparr>"

lemma stopReason_read: "STOP_REASON_IN (STOP_REASON_OUT r) = Some r"
  by (cases r) simp_all

definition counted :: "usage \<Rightarrow> stop_reason \<Rightarrow> (string \<times> members) list option \<Rightarrow> decode_state \<Rightarrow> decode_state" where
  "counted u r v st = st\<lparr>an_inputTokens := us_inputTokens u, an_outputTokens := us_outputTokens u, an_stopReason := r,
     an_safeguard := (case map_of (safeguardFields v) ''safeguard_results'' of None \<Rightarrow> an_safeguard st | Some x \<Rightarrow> Some x)\<rparr>"

lemma messageDelta_read:
  "decodeMessageDelta st (JObj [(''type'', JStr ''message_delta''),
         (''delta'', JObj ((''stop_reason'', JStr (STOP_REASON_OUT r)) # (''stop_sequence'', JNull) # safeguardFields v)),
         (''usage'', usageObject u)]) = ([], counted u r v st, GoOn)"
  by (simp add: decodeMessageDelta_def Let_def stopReason_read usageObject_def counted_def del: STOP_REASON_IN.simps split: option.split)

definition fresh :: "decode_state \<Rightarrow> bool" where
  "fresh st \<longleftrightarrow> an_cacheReadTokens st = 0 \<and> an_cacheWriteTokens st = 0 \<and> an_cacheWrite5mTokens st = None
     \<and> an_cacheWrite1hTokens st = None \<and> an_safeguard st = None"

definition agree :: "egress_state \<Rightarrow> int \<Rightarrow> bool" where
  "agree g n \<longleftrightarrow> eg_suppressed g = [] \<and> eg_next g = n \<and> (\<forall>i. 0 \<le> i \<and> i < n \<longrightarrow> outIndexOf g i = i)"

lemma agree_next: "agree g n \<Longrightarrow> agree (g\<lparr>eg_outIndex := AList.update n n (eg_outIndex g), eg_next := n + 1\<rparr>) (n + 1)"
  by (auto simp: agree_def outIndexOf_def update_conv)

abbreviation wired :: "(string \<times> json) list \<Rightarrow> sse_message list" where
  "wired \<equiv> map (\<lambda>(event, data). frame event data)"

lemma end_read:
  assumes "fresh st" and reads: "\<forall>(ev, j) \<in> set (egressAll rid g [End r u v]). reads parse j"
  shows "decodeAll parse Map.empty st (wired (egressAll rid g [End r u v])) = ([End r (keptUsage u) (keptVendor v)], False)"
  using assms
  by (simp add: decode_known messageDelta_read)
    (auto simp: decodeMessageStop_def Let_def counted_def fresh_def keptUsage_def keptVendor_def no_usage_def split: option.split)

lemma body_read:
  assumes "plain n (an_native st) body" "agree g n" "fresh st"
    and "\<forall>(ev, j) \<in> set (egressAll rid g (body @ [End r u v])). reads parse j"
  shows "decodeAll parse Map.empty st (wired (egressAll rid g (body @ [End r u v]))) = (body @ [End r (keptUsage u) (keptVendor v)], False)"
  using assms
proof (induction body arbitrary: n g st)
  case Nil
  then show ?case using end_read by simp
next
  case (Cons e es)
  show ?case
  proof (cases e)
    case (BlockStart i b)
    let ?g = "g\<lparr>eg_outIndex := AList.update i (eg_next g) (eg_outIndex g), eg_next := eg_next g + 1\<rparr>"
    let ?st = "if isNative b then st\<lparr>an_native := List.insert i (an_native st)\<rparr> else st"
    have step: "i = n" "plainStart b" "plain (n + 1) (an_native ?st) es" "fresh ?st" "eg_next g = n"
      using Cons.prems BlockStart by (auto simp: fresh_def agree_def split: if_splits)
    have g: "agree ?g (n + 1)" using agree_next [OF Cons.prems(2)] step by simp
    have out: "egressEvent rid g e = ([(''content_block_start'', JObj [(''type'', JStr ''content_block_start''),
        (''index'', jint n), (''content_block'', startBlock b)])], ?g)"
      using step unfolding BlockStart by (cases b) auto
    have reads: "\<forall>(ev, j) \<in> set (egressAll rid ?g (es @ [End r u v])). reads parse j"
      and "reads parse (JObj [(''type'', JStr ''content_block_start''), (''index'', jint n), (''content_block'', startBlock b)])"
      using Cons.prems(4) out by simp_all
    then show ?thesis
      using Cons.IH [OF step(3) g step(4) reads]
      by (cases "isNative b") (simp_all add: out decode_known blockStart_read [OF step(2)] step(1), simp_all add: BlockStart step(1))
  next
    case (BlockDelta i d)
    have step: "outIndexOf g i = i" "plainDelta (i \<in> set (an_native st)) d" "plain n (an_native st) es" "i \<notin> set (eg_suppressed g)"
      using Cons.prems BlockDelta by (auto simp: agree_def)
    then show ?thesis using Cons.IH [OF step(3) Cons.prems(2,3)] Cons.prems(4) BlockDelta
      by (simp add: decode_known blockDelta_read)
  next
    case (BlockEnd i)
    let ?st = "st\<lparr>an_native := removeAll i (an_native st)\<rparr>"
    have step: "outIndexOf g i = i" "plain n (an_native ?st) es" "i \<notin> set (eg_suppressed g)" "fresh ?st"
      using Cons.prems BlockEnd by (auto simp: agree_def fresh_def)
    then show ?thesis using Cons.IH [OF step(2) Cons.prems(2) step(4)] Cons.prems(4) BlockEnd
      by (simp add: decode_known blockStop_read)
  qed (use Cons.prems in simp_all)
qed

text \<open>
  C28: what the gateway streams to an Anthropic client of a plain response reads back as what
  it was told. Plain is a body of block starts, deltas and block ends alone whose blocks are
  numbered 0, 1, and so on as they start, whose reasoning is signed (egress holds back an unsigned
  reasoning block and renumbers those after it), whose native blocks are Anthropic's own, with
  text, tool calls and citations, whose deltas are for blocks that have started (tool JSON
  outside native blocks, native JSON inside them, signatures nonempty) and none of them a
  compaction's. Such a
  response decodes to the very same events, the request's own id in the
  place of the upstream's; of the usage the input and output counts survive, and of the
  vendor data the safeguard verdict. The hypothesis on \<open>parse\<close> is that \<^verbatim>\<open>JSON.parse\<close> reads
  back the payloads \<^verbatim>\<open>JSON.stringify\<close> wrote.
\<close>

theorem anthropic_wire_roundtrip:
  assumes "plain 0 [] body"
    and "\<forall>(ev, j) \<in> set (egressAll rid egressStart (Start i m # body @ [End r u v])). reads parse j"
  shows "decodeAnthropic parse Map.empty (anthropicStream (Start i m # body @ [End r u v]) rid)
    = (Start rid m # body @ [End r (keptUsage u) (keptVendor v)], False)"
proof -
  have "agree egressStart 0" by (simp add: agree_def egressStart_def)
  moreover have "fresh decodeStart" by (simp add: fresh_def decodeStart_def)
  moreover have "an_native decodeStart = []" by (simp add: decodeStart_def)
  moreover have "decodeMessageStart decodeStart (JObj [(''type'', JStr ''message_start''), (''message'', JObj [
         (''id'', JStr rid), (''type'', JStr ''message''), (''role'', JStr ''assistant''), (''model'', JStr m),
         (''content'', JArr []), (''stop_reason'', JNull), (''stop_sequence'', JNull), (''usage'', usageObject no_usage)])])
      = ([Start rid m], decodeStart, GoOn)"
    by (simp add: decodeMessageStart_def Let_def usageObject_def decodeStart_def no_usage_def numberOf_def)
  ultimately show ?thesis
    using assms body_read [of 0 decodeStart body egressStart rid r u v parse]
    by (simp add: decodeAnthropic_def anthropicStream_def decode_known)
qed

text \<open>A reader for one stream: it knows the payloads that stream carries.\<close>

definition read_payload :: "(string \<times> json) list \<Rightarrow> string \<Rightarrow> json option" where
  "read_payload frames s = map_of (map (\<lambda>(ev, j). (stringify j, j)) frames) s"

lemma read_payload_reads:
  assumes "distinct (map (\<lambda>(ev, j). length (stringify j)) frames)"
  shows "\<forall>(ev, j) \<in> set frames. reads (read_payload frames) j"
proof -
  have "distinct (map length (map (\<lambda>(ev, j). stringify j) frames))"
    using assms by (simp add: comp_def case_prod_unfold)
  then have "distinct (map fst (map (\<lambda>(ev, j). (stringify j, j)) frames))"
    by (simp add: distinct_map comp_def case_prod_unfold inj_on_def)
  then show ?thesis
    by (force simp: reads_def read_payload_def intro!: map_of_is_SomeI)
qed

theorem anthropic_wire_roundtrip_witness:
  "let body = [BlockStart 0 StartText, BlockDelta 0 (DText ''hello''), BlockEnd 0];
       events = Start ''up'' ''opus'' # body @ [End EndTurn (no_usage\<lparr>us_outputTokens := 1\<rparr>) None];
       parse = read_payload (egressAll ''req'' egressStart events)
   in decodeAnthropic parse Map.empty (anthropicStream events ''req'')
     = (Start ''req'' ''opus'' # body @ [End EndTurn (no_usage\<lparr>us_outputTokens := 1\<rparr>) None], False)"
proof -
  let ?body = "[BlockStart 0 StartText, BlockDelta 0 (DText ''hello''), BlockEnd 0]"
  let ?events = "Start ''up'' ''opus'' # ?body @ [End EndTurn (no_usage\<lparr>us_outputTokens := 1\<rparr>) None]"
  let ?parse = "read_payload (egressAll ''req'' egressStart ?events)"
  have body: "plain 0 [] ?body" by code_simp
  have "distinct (map (\<lambda>(ev, j). length (stringify j)) (egressAll ''req'' egressStart ?events))" by code_simp
  note reads = read_payload_reads [OF this]
  have kept: "keptUsage (no_usage\<lparr>us_outputTokens := 1\<rparr>) = no_usage\<lparr>us_outputTokens := 1\<rparr>" "keptVendor None = None"
    by (simp_all add: keptUsage_def no_usage_def keptVendor_def safeguardFields_def)
  show ?thesis
    using anthropic_wire_roundtrip [OF body reads] unfolding Let_def kept .
qed

end
