(* ===== verification/Wire_Cloak.thy ===== *)
theory Wire_Cloak
  imports Ir_Request
begin

section \<open>The tool-name cloak\<close>

text \<open>
  \<^verbatim>\<open>packages/providers/src/anthropic/cloak.ts\<close>: client tool names are renamed on their way
  to Anthropic and restored in the reply. The 64-bit hash of a name (\<^verbatim>\<open>Bun.hash.xxHash64\<close>)
  is the parameter \<open>hash\<close>.
\<close>

definition between :: "nat \<Rightarrow> nat \<Rightarrow> char \<Rightarrow> bool" where
  "between a b c \<longleftrightarrow> a \<le> of_char c \<and> of_char c \<le> b"

definition isUpper :: "char \<Rightarrow> bool" where "isUpper c \<longleftrightarrow> between 65 90 c"
definition isLower :: "char \<Rightarrow> bool" where "isLower c \<longleftrightarrow> between 97 122 c"
definition isDigit :: "char \<Rightarrow> bool" where "isDigit c \<longleftrightarrow> between 48 57 c"

definition isAlnum :: "char \<Rightarrow> bool" where
  "isAlnum c \<longleftrightarrow> isUpper c \<or> isLower c \<or> isDigit c"

definition toUpper :: "char \<Rightarrow> char" where
  "toUpper c = (if isLower c then char_of (of_char c - 32 :: nat) else c)"

fun capitalise :: "string \<Rightarrow> string" where
  "capitalise [] = []"
| "capitalise (c # cs) = toUpper c # cs"

definition ALREADY_CLOAKED :: "string \<Rightarrow> bool" where
  "ALREADY_CLOAKED name \<longleftrightarrow> (case name of [] \<Rightarrow> False | c # cs \<Rightarrow> isUpper c \<and> list_all isAlnum cs)"

definition MCP_PREFIX :: string where "MCP_PREFIX = ''mcp__''"

definition isExempt :: "string \<Rightarrow> bool" where
  "isExempt name \<longleftrightarrow> ALREADY_CLOAKED name \<or> take (length MCP_PREFIX) name = MCP_PREFIX"

definition MAX_ALIAS :: nat where "MAX_ALIAS = 128"
definition SUFFIX_LENGTH :: nat where "SUFFIX_LENGTH = 6"

text \<open>\<^verbatim>\<open>name.split(/[^A-Za-z0-9]+/)\<close>: a run of other characters separates once.\<close>

function splitAlnum :: "string \<Rightarrow> string list" where
  "splitAlnum [] = [[]]"
| "splitAlnum (c # cs) =
     (if isAlnum c then (case splitAlnum cs of [] \<Rightarrow> [[c]] | w # ws \<Rightarrow> (c # w) # ws)
      else [] # splitAlnum (dropWhile (\<lambda>d. \<not> isAlnum d) cs))"
  by pat_completeness auto

termination by (relation "measure length") (auto intro: le_less_trans [OF length_dropWhile_le])

definition aliasFor :: "string \<Rightarrow> string \<times> bool" where
  "aliasFor name =
     (let joined = concat (map capitalise (filter (\<lambda>s. 0 < length s) (splitAlnum name))) in
      if joined = [] then (''Tool'', True)
      else if MAX_ALIAS < length joined then (take (MAX_ALIAS - SUFFIX_LENGTH) joined, True)
      else (joined, False))"

subsection \<open>The names of a request\<close>

definition addName :: "string list \<times> string list \<Rightarrow> string \<Rightarrow> string list \<times> string list" where
  "addName acc name = (case acc of (renamable, reserved) \<Rightarrow>
     if isExempt name then (renamable, if name \<in> set reserved then reserved else reserved @ [name])
     else (if name \<in> set renamable then renamable else renamable @ [name], reserved))"

fun toolUseName :: "content_block \<Rightarrow> string list" where
  "toolUseName (ToolUseBlock b) = [tu_name b]"
| "toolUseName _ = []"

fun portableName :: "tool_def \<Rightarrow> string list" where
  "portableName (PortableTool t) = [ct_name t]"
| "portableName (ProviderTool t) = []"

fun providerName :: "tool_def \<Rightarrow> string list" where
  "providerName (PortableTool t) = []"
| "providerName (ProviderTool t) = (if pt_name t \<noteq> [] then [pt_name t] else [])"

definition clientNames :: "chat_request \<Rightarrow> string list" where
  "clientNames r =
     concat (map portableName (nullish (rq_tools r) []))
     @ concat (map (\<lambda>m. concat (map toolUseName (msg_content m))) (rq_messages r))
     @ (case rq_toolChoice r of Some (ChoiceTool name) \<Rightarrow> [name] | _ \<Rightarrow> [])"

definition clientToolNames :: "chat_request \<Rightarrow> string list \<times> string list" where
  "clientToolNames r = foldl addName ([], []) (clientNames r)"

subsection \<open>Suffixes\<close>

function toHex :: "int \<Rightarrow> string" where
  "toHex n = (if n < 16 then [hexDigit (nat n)] else toHex (n div 16) @ [hexDigit (nat (n mod 16))])"
  by pat_completeness auto

termination by (relation "measure nat") auto

declare toHex.simps [simp del]

definition padStart :: "nat \<Rightarrow> char \<Rightarrow> string \<Rightarrow> string" where
  "padStart n c s = replicate (n - length s) c @ s"

definition suffixFor :: "(string \<Rightarrow> int) \<Rightarrow> string \<Rightarrow> string" where
  "suffixFor hash name = capitalise (padStart SUFFIX_LENGTH (CHR ''0'') (toHex (hash name mod 16777216)))"

subsection \<open>The cloak\<close>

record tool_cloak =
  tc_toWire :: "(string \<times> string) list"
  tc_fromWire :: "(string \<times> string) list"

definition claim :: "(string \<rightharpoonup> nat) \<Rightarrow> string \<Rightarrow> (string \<rightharpoonup> nat)" where
  "claim claims name = claims(name \<mapsto> nullish (claims name) 0 + 1)"

definition claimsOf :: "chat_request \<Rightarrow> (string \<rightharpoonup> nat)" where
  "claimsOf r =
     (let (renamable, reserved) = clientToolNames r;
          claims = foldl claim Map.empty (concat (map providerName (nullish (rq_tools r) [])));
          claims = foldl claim claims reserved
      in foldl (\<lambda>claims name. claim claims (fst (aliasFor name))) claims renamable)"

definition aliasOf :: "(string \<Rightarrow> int) \<Rightarrow> (string \<rightharpoonup> nat) \<Rightarrow> string \<Rightarrow> string" where
  "aliasOf hash claims name = (case aliasFor name of (base, forced) \<Rightarrow>
     if forced \<or> nullish (claims base) 0 > 1 then base @ suffixFor hash name else base)"

definition addAlias :: "(string \<Rightarrow> int) \<Rightarrow> (string \<rightharpoonup> nat) \<Rightarrow> tool_cloak \<Rightarrow> string \<Rightarrow> tool_cloak" where
  "addAlias hash claims c name =
     (let alias = aliasOf hash claims name
      in \<lparr>tc_toWire = AList.update name alias (tc_toWire c), tc_fromWire = AList.update alias name (tc_fromWire c)\<rparr>)"

definition buildToolCloak :: "(string \<Rightarrow> int) \<Rightarrow> chat_request \<Rightarrow> tool_cloak option" where
  "buildToolCloak hash r =
     (let cloak = foldl (addAlias hash (claimsOf r)) \<lparr>tc_toWire = [], tc_fromWire = []\<rparr> (fst (clientToolNames r))
      in if tc_toWire cloak = [] then None else Some cloak)"

definition cloakName :: "tool_cloak option \<Rightarrow> string \<Rightarrow> string" where
  "cloakName cloak name = (case cloak of None \<Rightarrow> name | Some c \<Rightarrow> nullish (map_of (tc_toWire c) name) name)"

definition uncloakName :: "tool_cloak option \<Rightarrow> string \<Rightarrow> string" where
  "uncloakName cloak name = (case cloak of None \<Rightarrow> name | Some c \<Rightarrow> nullish (map_of (tc_fromWire c) name) name)"

subsection \<open>Names\<close>

lemma clientToolNames_parts:
  "set (fst (clientToolNames r)) = {n \<in> set (clientNames r). \<not> isExempt n}"
  "set (snd (clientToolNames r)) = {n \<in> set (clientNames r). isExempt n}"
  "distinct (fst (clientToolNames r))" "distinct (snd (clientToolNames r))"
proof -
  have "set (fst (foldl addName acc ns)) = set (fst acc) \<union> {n \<in> set ns. \<not> isExempt n}
      \<and> set (snd (foldl addName acc ns)) = set (snd acc) \<union> {n \<in> set ns. isExempt n}
      \<and> (distinct (fst acc) \<longrightarrow> distinct (fst (foldl addName acc ns)))
      \<and> (distinct (snd acc) \<longrightarrow> distinct (snd (foldl addName acc ns)))" for acc ns
  proof (induction ns arbitrary: acc)
    case (Cons n ns)
    show ?case using Cons.IH [of "addName acc n"] by (cases acc) (auto simp: addName_def)
  qed simp
  from this [of "([], [])" "clientNames r"] show
    "set (fst (clientToolNames r)) = {n \<in> set (clientNames r). \<not> isExempt n}"
    "set (snd (clientToolNames r)) = {n \<in> set (clientNames r). isExempt n}"
    "distinct (fst (clientToolNames r))" "distinct (snd (clientToolNames r))"
    by (simp_all add: clientToolNames_def)
qed

abbreviation renamable :: "chat_request \<Rightarrow> string list" where "renamable r \<equiv> fst (clientToolNames r)"
abbreviation reserved :: "chat_request \<Rightarrow> string list" where "reserved r \<equiv> snd (clientToolNames r)"
abbreviation base :: "string \<Rightarrow> string" where "base n \<equiv> fst (aliasFor n)"

definition providerNames :: "chat_request \<Rightarrow> string list" where
  "providerNames r = concat (map providerName (nullish (rq_tools r) []))"

text \<open>A claim is the number of times a spelling was claimed.\<close>

lemma claims_count: "nullish (foldl claim m ns x) 0 = nullish (m x) 0 + count_list ns x"
  by (induction ns arbitrary: m) (auto simp: claim_def)

lemma claimsOf_count:
  "nullish (claimsOf r x) 0 = count_list (providerNames r @ reserved r @ map base (renamable r)) x"
proof -
  have "foldl (\<lambda>c n. claim c (base n)) m ns = foldl claim m (map base ns)" for m ns
    by (induction ns arbitrary: m) simp_all
  then show ?thesis
    by (simp add: claimsOf_def Let_def case_prod_beta claims_count providerNames_def)
qed

lemma count_list_two:
  assumes "a \<in> set xs" "b \<in> set xs" "a \<noteq> b" "f a = f b"
  shows "1 < count_list (map f xs) (f a)"
proof -
  obtain ys zs where xs: "xs = ys @ a # zs" using split_list [OF assms(1)] by blast
  then have "b \<in> set ys \<or> b \<in> set zs" using assms by auto
  then have "0 < count_list (map f ys) (f a) + count_list (map f zs) (f a)"
    using assms(4) by (auto simp: count_list_0_iff neq0_conv [symmetric] simp del: neq0_conv)
  then show ?thesis by (simp add: xs)
qed

lemma count_list_member: "x \<in> set xs \<Longrightarrow> 0 < count_list xs x"
  by (metis count_notin count_list_0_iff gr0I)

text \<open>An alias left bare is claimed by nothing else.\<close>

lemma bare_unclaimed:
  assumes "n \<in> set (renamable r)" "aliasOf hash (claimsOf r) n = base n" "suffixFor hash n \<noteq> []"
  shows "base n \<notin> set (reserved r) \<union> set (providerNames r)" and "\<And>m. m \<in> set (renamable r) \<Longrightarrow> base m = base n \<Longrightarrow> m = n"
proof -
  have one: "count_list (providerNames r @ reserved r @ map base (renamable r)) (base n) \<le> 1"
    using assms(2,3) by (auto simp: aliasOf_def case_prod_beta claimsOf_count split: if_splits)
  have "0 < count_list (map base (renamable r)) (base n)" using assms(1) by (intro count_list_member) simp
  with one show "base n \<notin> set (reserved r) \<union> set (providerNames r)"
    using count_list_member [of "base n" "reserved r"] count_list_member [of "base n" "providerNames r"] by auto
  show "m = n" if "m \<in> set (renamable r)" "base m = base n" for m
    using count_list_two [of n "renamable r" m base] that assms(1) one by (cases "m = n") auto
qed

subsection \<open>The tables\<close>

abbreviation wireName :: "(string \<Rightarrow> int) \<Rightarrow> chat_request \<Rightarrow> string \<Rightarrow> string" where
  "wireName hash r \<equiv> aliasOf hash (claimsOf r)"

lemma toWire_table:
  "map_of (tc_toWire (foldl (addAlias hash claims) c ns)) =
     (\<lambda>n. if n \<in> set ns then Some (aliasOf hash claims n) else map_of (tc_toWire c) n)"
  by (induction ns arbitrary: c) (auto simp: addAlias_def Let_def)

lemma fromWire_untouched:
  "a \<notin> aliasOf hash claims ` set ns \<Longrightarrow> map_of (tc_fromWire (foldl (addAlias hash claims) c ns)) a = map_of (tc_fromWire c) a"
  by (induction ns arbitrary: c) (auto simp: addAlias_def Let_def)

lemma fromWire_table:
  assumes "inj_on (aliasOf hash claims) (set ns)" "n \<in> set ns"
  shows "map_of (tc_fromWire (foldl (addAlias hash claims) c ns)) (aliasOf hash claims n) = Some n"
  using assms
proof (induction ns arbitrary: c)
  case (Cons m ns)
  show ?case
  proof (cases "n \<in> set ns")
    case True
    then show ?thesis using Cons by simp
  next
    case False
    then have "n = m" using Cons.prems by simp
    moreover have "aliasOf hash claims m \<notin> aliasOf hash claims ` set ns"
      using Cons.prems False \<open>n = m\<close> by (auto simp: inj_on_def)
    ultimately show ?thesis by (simp add: fromWire_untouched) (simp add: addAlias_def Let_def)
  qed
qed simp

lemma toWire_keys: "fst ` set (tc_toWire (foldl (addAlias hash claims) c ns)) = fst ` set (tc_toWire c) \<union> set ns"
  by (induction ns arbitrary: c) (auto simp: addAlias_def Let_def AList_update_keys)

lemma cloakName_alias:
  "cloakName (buildToolCloak hash r) n = (if n \<in> set (renamable r) then wireName hash r n else n)"
proof (cases "renamable r = []")
  case True
  then show ?thesis by (simp add: cloakName_def buildToolCloak_def)
next
  case False
  then have "tc_toWire (foldl (addAlias hash (claimsOf r)) \<lparr>tc_toWire = [], tc_fromWire = []\<rparr> (renamable r)) \<noteq> []"
    using toWire_keys [of hash "claimsOf r" "\<lparr>tc_toWire = [], tc_fromWire = []\<rparr>" "renamable r"] by auto
  then show ?thesis by (simp add: cloakName_def buildToolCloak_def Let_def toWire_table)
qed

lemma uncloakName_other:
  "a \<notin> wireName hash r ` set (renamable r) \<Longrightarrow> uncloakName (buildToolCloak hash r) a = a"
  by (simp add: uncloakName_def buildToolCloak_def Let_def fromWire_untouched)

lemma uncloakName_alias:
  assumes "inj_on (wireName hash r) (set (renamable r))" "n \<in> set (renamable r)"
  shows "uncloakName (buildToolCloak hash r) (wireName hash r n) = n"
proof -
  have "tc_toWire (foldl (addAlias hash (claimsOf r)) \<lparr>tc_toWire = [], tc_fromWire = []\<rparr> (renamable r)) \<noteq> []"
    using toWire_keys [of hash "claimsOf r" "\<lparr>tc_toWire = [], tc_fromWire = []\<rparr>" "renamable r"] assms(2) by auto
  then show ?thesis using fromWire_table [OF assms] by (simp add: uncloakName_def buildToolCloak_def Let_def)
qed

subsection \<open>Suffixes have six characters\<close>

lemma int_div_less: "n < 16 * k \<Longrightarrow> n div 16 < (k :: int)"
  by presburger

lemma length_toHex: "n < 16 ^ Suc k \<Longrightarrow> length (toHex n) \<le> Suc k"
proof (induction k arbitrary: n)
  case 0
  then show ?case by (simp add: toHex.simps)
next
  case (Suc k)
  show ?case using Suc.IH [of "n div 16"] Suc.prems by (subst toHex.simps) (simp add: int_div_less)
qed

lemma length_capitalise [simp]: "length (capitalise s) = length s"
  by (cases s) simp_all

lemma length_suffixFor [simp]: "length (suffixFor hash n) = SUFFIX_LENGTH"
  using length_toHex [of "hash n mod 16777216" 5] by (simp add: suffixFor_def padStart_def SUFFIX_LENGTH_def)

lemma suffixFor_nonempty: "suffixFor hash n \<noteq> []"
  using length_suffixFor [of hash n] by (auto simp: SUFFIX_LENGTH_def simp del: length_suffixFor)

text \<open>
  The residual cases the module leaves open: two names that share a base and draw one suffix,
  and a suffixed alias that is a name someone else has on the wire.
\<close>

definition noResidual :: "(string \<Rightarrow> int) \<Rightarrow> chat_request \<Rightarrow> bool" where
  "noResidual hash r \<longleftrightarrow>
     (\<forall>a \<in> set (renamable r).
        (\<forall>b \<in> set (renamable r). a \<noteq> b \<and> base a = base b \<longrightarrow> suffixFor hash a \<noteq> suffixFor hash b)
        \<and> (wireName hash r a \<noteq> base a \<longrightarrow>
             base a @ suffixFor hash a \<notin> set (reserved r @ providerNames r) \<union> base ` set (renamable r)))"

lemma wireName_cases: "wireName hash r n = base n \<or> wireName hash r n = base n @ suffixFor hash n"
  by (auto simp: aliasOf_def case_prod_beta)

lemma wireName_inj:
  assumes "noResidual hash r" shows "inj_on (wireName hash r) (set (renamable r))"
proof (rule inj_onI)
  fix a b assume a: "a \<in> set (renamable r)" and b: "b \<in> set (renamable r)" and same: "wireName hash r a = wireName hash r b"
  have suffixed: "base a = base b \<Longrightarrow> suffixFor hash a = suffixFor hash b \<Longrightarrow> a = b"
    "wireName hash r a \<noteq> base a \<Longrightarrow> base a @ suffixFor hash a \<noteq> base b"
    "wireName hash r b \<noteq> base b \<Longrightarrow> base b @ suffixFor hash b \<noteq> base a"
    using assms a b by (auto simp: noResidual_def)
  consider "wireName hash r a = base a" "wireName hash r b = base b"
    | "wireName hash r a = base a" "wireName hash r b \<noteq> base b"
    | "wireName hash r a \<noteq> base a" "wireName hash r b = base b"
    | "wireName hash r a \<noteq> base a" "wireName hash r b \<noteq> base b" by blast
  then show "a = b"
  proof cases
    case 1
    have "base a = base b" using 1 same by metis
    then show ?thesis by (rule bare_unclaimed(2) [OF b 1(2) suffixFor_nonempty a])
  next
    case 2
    have "wireName hash r b = base b @ suffixFor hash b" using 2 wireName_cases by blast
    then show ?thesis using suffixed(3) [OF 2(2)] 2(1) same by metis
  next
    case 3
    have "wireName hash r a = base a @ suffixFor hash a" using 3 wireName_cases by blast
    then show ?thesis using suffixed(2) [OF 3(1)] 3(2) same by metis
  next
    case 4
    then have "base a @ suffixFor hash a = base b @ suffixFor hash b"
      using wireName_cases same by metis
    then have "base a = base b \<and> suffixFor hash a = suffixFor hash b" by simp
    then show ?thesis using suffixed(1) by blast
  qed
qed

lemma wireName_avoids:
  assumes "noResidual hash r" "n \<in> set (renamable r)"
  shows "wireName hash r n \<notin> set (reserved r @ providerNames r)"
  using assms bare_unclaimed(1) [OF assms(2) _ suffixFor_nonempty] wireName_cases [of hash r n]
  by (cases "wireName hash r n = base n") (auto simp: noResidual_def)

text \<open>
  C17: the cloak is undone exactly. Outside the residual cases the module names, every tool
  name of the client comes back from the wire as the client spelt it, no two of them share a
  wire name, and the provider's own names are never taken for a client's.
\<close>

theorem cloak_roundtrip:
  assumes "noResidual hash r"
  shows "(\<forall>n \<in> set (clientNames r). uncloakName (buildToolCloak hash r) (cloakName (buildToolCloak hash r) n) = n)
    \<and> inj_on (cloakName (buildToolCloak hash r)) (set (clientNames r))
    \<and> (\<forall>p \<in> set (providerNames r). uncloakName (buildToolCloak hash r) p = p)"
proof -
  let ?c = "buildToolCloak hash r"
  have all: "set (clientNames r) = set (renamable r) \<union> set (reserved r)"
    using clientToolNames_parts(1,2) [of r] by auto
  have kept: "uncloakName ?c a = a" if "a \<in> set (reserved r @ providerNames r)" for a
    using uncloakName_other [of a hash r] wireName_avoids [OF assms] that by blast
  have returns: "uncloakName ?c (cloakName ?c n) = n" if "n \<in> set (clientNames r)" for n
    using that kept [of n] uncloakName_alias [OF wireName_inj [OF assms], of n] by (auto simp: all cloakName_alias)
  then have "inj_on (cloakName ?c) (set (clientNames r))" by (metis inj_onI)
  with returns kept show ?thesis by simp
qed

subsection \<open>The shape of an alias\<close>

lemma toUpper_alnum: "isAlnum c \<Longrightarrow> isAlnum (toUpper c)"
  by (auto simp: toUpper_def isAlnum_def isUpper_def isLower_def isDigit_def between_def)

lemma capitalise_alnum: "list_all isAlnum s \<Longrightarrow> list_all isAlnum (capitalise s)"
  by (cases s) (auto simp: toUpper_alnum)

lemma splitAlnum_alnum: "w \<in> set (splitAlnum s) \<Longrightarrow> list_all isAlnum w"
  by (induction s arbitrary: w rule: splitAlnum.induct) (auto split: if_splits list.splits)

lemma aliasFor_shape:
  "base n \<noteq> []" "list_all isAlnum (base n)" "length (base n) \<le> MAX_ALIAS"
  "snd (aliasFor n) \<Longrightarrow> length (base n) \<le> MAX_ALIAS - SUFFIX_LENGTH"
proof -
  have joined: "list_all isAlnum (concat (map capitalise (filter (\<lambda>s. 0 < length s) (splitAlnum n))))"
    using splitAlnum_alnum capitalise_alnum by (fastforce simp: list_all_iff)
  have tool: "list_all isAlnum ''Tool''" by code_simp
  have taken: "list_all P (take k xs)" if "list_all P xs" for P k and xs :: string
    using that by (auto simp: list_all_iff dest: in_set_takeD)
  show "base n \<noteq> []" "list_all isAlnum (base n)" "length (base n) \<le> MAX_ALIAS"
    "snd (aliasFor n) \<Longrightarrow> length (base n) \<le> MAX_ALIAS - SUFFIX_LENGTH"
    unfolding aliasFor_def Let_def using joined tool taken [OF joined]
    by (auto simp del: concat_eq_Nil_conv simp: MAX_ALIAS_def SUFFIX_LENGTH_def)
qed

lemma hexDigit_alnum: "d < 16 \<Longrightarrow> isAlnum (hexDigit d)"
  by (auto simp: hexDigit_def isAlnum_def isUpper_def isLower_def isDigit_def between_def)

lemma toHex_alnum: "list_all isAlnum (toHex n)"
proof (induction n rule: toHex.induct)
  case (1 n)
  have "nat (n mod 16) < 16" "n < 16 \<Longrightarrow> nat n < 16" by auto
  with 1 show ?case by (subst toHex.simps) (simp add: hexDigit_alnum)
qed

lemma suffixFor_alnum: "list_all isAlnum (suffixFor hash n)"
proof -
  have "isAlnum (CHR ''0'')" by code_simp
  then have "list_all isAlnum (padStart SUFFIX_LENGTH (CHR ''0'') (toHex (hash n mod 16777216)))"
    using toHex_alnum by (auto simp: padStart_def list_all_iff)
  then show ?thesis unfolding suffixFor_def by (rule capitalise_alnum)
qed

text \<open>
  An alias is a name the wire accepts, in every case but one. It is nonempty and made of
  letters and digits only, and no longer than the wire's limit unless its base is contested and
  already within a suffix of that limit. (It need not begin with a letter: \<^verbatim>\<open>2fast\<close> is its own
  alias.)
\<close>

theorem alias_wire_grammar:
  "aliasOf hash claims n \<noteq> [] \<and> list_all isAlnum (aliasOf hash claims n)
    \<and> (length (aliasOf hash claims n) \<le> MAX_ALIAS
        \<or> MAX_ALIAS - SUFFIX_LENGTH < length (fst (aliasFor n)) \<and> 1 < nullish (claims (fst (aliasFor n))) 0)"
  using aliasFor_shape [of n] suffixFor_alnum [of hash n]
  by (auto simp: aliasOf_def case_prod_beta MAX_ALIAS_def SUFFIX_LENGTH_def not_less)

text \<open>
  The excepted case breaks the wire's limit. Two names that share a base of more than
  122 characters are both given the suffix without being shortened, so both aliases pass the
  128 characters that the module says every alias must keep to.
\<close>

theorem contested_alias_too_long:
  assumes "m \<in> set (clientNames r)" "n \<in> set (clientNames r)" "\<not> isExempt m" "\<not> isExempt n" "m \<noteq> n"
    and "fst (aliasFor m) = fst (aliasFor n)" and "MAX_ALIAS - SUFFIX_LENGTH < length (fst (aliasFor n))"
  shows "MAX_ALIAS < length (cloakName (buildToolCloak hash r) n)"
proof -
  have n: "n \<in> set (renamable r)" and m: "m \<in> set (renamable r)" using assms clientToolNames_parts(1) by auto
  have "1 < count_list (map base (renamable r)) (base n)" using count_list_two [OF n m] assms(5,6) by metis
  then have "1 < nullish (claimsOf r (base n)) 0" by (simp add: claimsOf_count)
  then have "wireName hash r n = base n @ suffixFor hash n" by (simp add: aliasOf_def case_prod_beta)
  then show ?thesis using n assms(7) by (simp add: cloakName_alias MAX_ALIAS_def SUFFIX_LENGTH_def)
qed

definition tools_request :: "string list \<Rightarrow> chat_request" where
  "tools_request names = \<lparr>rq_model = ''opus'', rq_system = None, rq_messages = [],
     rq_tools = Some (map (\<lambda>n. PortableTool \<lparr>ct_name = n, ct_description = None, ct_inputSchema = JObj [],
       ct_cacheControl = None, ct_options = None\<rparr>) names),
     rq_toolChoice = None, rq_maxTokens = None, rq_temperature = None, rq_stopSequences = None, rq_stream = True,
     rq_reasoning = None, rq_vendor = None, rq_providerHeaders = None, rq_betas = None, rq_conversationId = None\<rparr>"

lemma splitAlnum_run: "list_all isAlnum w \<Longrightarrow> splitAlnum s = u # us \<Longrightarrow> splitAlnum (w @ s) = (w @ u) # us"
  by (induction w) auto

lemma aliasFor_two:
  assumes "list_all isAlnum w" "w \<noteq> []" "\<not> isAlnum c" "isAlnum d" "length w < MAX_ALIAS"
  shows "aliasFor (w @ [c, d]) = (capitalise w @ [toUpper d], False)"
proof -
  have "splitAlnum [c, d] = [[], [d]]" using assms by simp
  then have "splitAlnum (w @ [c, d]) = [w, [d]]" using splitAlnum_run [OF assms(1)] by simp
  then show ?thesis using assms by (simp add: aliasFor_def Let_def)
qed

theorem contested_alias_too_long_witness:
  "let n = replicate 122 CHR ''a'' @ ''_b''; m = replicate 122 CHR ''a'' @ ''-b''
   in length n \<le> 128 \<and> 128 < length (cloakName (buildToolCloak (int \<circ> length) (tools_request [m, n])) n)"
proof -
  let ?n = "replicate 122 CHR ''a'' @ ''_b''" and ?m = "replicate 122 CHR ''a'' @ ''-b''"
  have a: "isAlnum (CHR ''a'')" "isAlnum (CHR ''b'')" "\<not> isAlnum (CHR ''-'')" "\<not> isAlnum (CHR ''_'')" by code_simp+
  have "aliasFor ?m = aliasFor ?n" "122 < length (fst (aliasFor ?n))"
    using a by (simp_all add: aliasFor_two list_all_iff MAX_ALIAS_def)
  then have "fst (aliasFor ?m) = fst (aliasFor ?n) \<and> 122 < length (fst (aliasFor ?n))" by simp
  moreover have "\<not> isExempt ?m" "\<not> isExempt ?n" "?m \<noteq> ?n" by code_simp+
  moreover have "?m \<in> set (clientNames (tools_request [?m, ?n]))" "?n \<in> set (clientNames (tools_request [?m, ?n]))"
    by (simp_all add: clientNames_def tools_request_def)
  ultimately show ?thesis
    using contested_alias_too_long [of ?m "tools_request [?m, ?n]" ?n "int \<circ> length"] by (simp add: Let_def MAX_ALIAS_def SUFFIX_LENGTH_def)
qed

theorem cloak_roundtrip_witness:
  "let r = tools_request [''read_file'', ''ReadFile'', ''read-file2'']; c = buildToolCloak (int \<circ> length) r
   in uncloakName c (cloakName c ''read_file'') = ''read_file'' \<and> cloakName c ''read_file'' \<noteq> cloakName c ''ReadFile''"
proof -
  let ?r = "tools_request [''read_file'', ''ReadFile'', ''read-file2'']"
  have "noResidual (int \<circ> length) ?r" by code_simp
  moreover have "''read_file'' \<in> set (clientNames ?r)" "''ReadFile'' \<in> set (clientNames ?r)" by code_simp+
  ultimately show ?thesis using cloak_roundtrip [of "int \<circ> length" ?r] by (auto simp: Let_def inj_on_def)
qed

end
