(* ===== verification/Stream_Ring.thy ===== *)
theory Stream_Ring
  imports Ir_Request
begin

section \<open>Bounded replay of a topic\<close>

text \<open>
  \<^verbatim>\<open>apps/gateway/src/stream/ring.ts\<close>: the frames a topic keeps so that a subscriber coming
  back can be given what it missed, or told that it cannot be. A payload that
  \<^verbatim>\<open>JSON.stringify\<close> rejects or skips counts as no bytes.
\<close>

datatype payload = Undefined | Unserialisable | Payload json

type_synonym ring_frame = "int \<times> payload"

datatype ring_slice = Frames "ring_frame list" | Gap int

record ring_limits =
  rl_frames :: nat
  rl_bytes :: nat

record ring_entry =
  re_seq :: int
  re_payload :: payload
  re_bytes :: nat

record topic_state =
  ts_entries :: "ring_entry list"
  ts_bytes :: int
  ts_seq :: int

type_synonym ring = "string \<rightharpoonup> topic_state"

fun sizeOf :: "payload \<Rightarrow> nat" where
  "sizeOf (Payload j) = length (stringify j)"
| "sizeOf Undefined = 0"
| "sizeOf Unserialisable = 0"

definition DEFAULT_RING_LIMITS :: ring_limits where
  "DEFAULT_RING_LIMITS = \<lparr>rl_frames = 500, rl_bytes = 2 * 1024 * 1024\<rparr>"

definition stateFor :: "ring \<Rightarrow> string \<Rightarrow> topic_state" where
  "stateFor r topic = nullish (r topic) \<lparr>ts_entries = [], ts_bytes = 0, ts_seq = 0\<rparr>"

text \<open>The eviction loop of \<^verbatim>\<open>push\<close>.\<close>

fun evict :: "ring_limits \<Rightarrow> ring_entry list \<Rightarrow> int \<Rightarrow> ring_entry list \<times> int" where
  "evict limits [] b = ([], b)"
| "evict limits (e # es) b =
     (if length (e # es) > rl_frames limits \<or> b > int (rl_bytes limits) \<and> length (e # es) > 1
      then evict limits es (b - int (re_bytes e)) else (e # es, b))"

definition ring_push :: "ring_limits \<Rightarrow> ring \<Rightarrow> string \<Rightarrow> payload \<Rightarrow> int option \<Rightarrow> int \<times> ring" where
  "ring_push limits r topic payload seq =
     (let state = stateFor r topic in
      if (case seq of Some n \<Rightarrow> n \<le> ts_seq state | None \<Rightarrow> False) then (ts_seq state, r(topic \<mapsto> state))
      else
        let n = nullish seq (ts_seq state + 1);
            bytes = sizeOf payload;
            (entries, total) = evict limits (ts_entries state @ [\<lparr>re_seq = n, re_payload = payload, re_bytes = bytes\<rparr>])
              (ts_bytes state + int bytes)
        in (n, r(topic \<mapsto> \<lparr>ts_entries = entries, ts_bytes = total, ts_seq = n\<rparr>)))"

definition ring_since :: "ring \<Rightarrow> string \<Rightarrow> int \<Rightarrow> ring_slice" where
  "ring_since r topic sinceSeq =
     (case r topic of
        None \<Rightarrow> if sinceSeq = 0 then Frames [] else Gap 0
      | Some state \<Rightarrow>
          if sinceSeq > ts_seq state then Gap (ts_seq state)
          else if sinceSeq = ts_seq state then Frames []
          else (case ts_entries state of
              [] \<Rightarrow> Gap (ts_seq state)
            | oldest # rest \<Rightarrow>
                if re_seq oldest > sinceSeq + 1 then Gap (ts_seq state)
                else Frames (map (\<lambda>e. (re_seq e, re_payload e)) (filter (\<lambda>e. re_seq e > sinceSeq) (oldest # rest)))))"

definition ring_head :: "ring \<Rightarrow> string \<Rightarrow> int" where
  "ring_head r topic = (case r topic of None \<Rightarrow> 0 | Some state \<Rightarrow> ts_seq state)"

definition ring_reset :: "ring \<Rightarrow> string \<Rightarrow> ring" where
  "ring_reset r topic = (case r topic of
     None \<Rightarrow> r | Some state \<Rightarrow> r(topic \<mapsto> state\<lparr>ts_entries := [], ts_bytes := 0\<rparr>))"

definition ring_drop :: "ring \<Rightarrow> string \<Rightarrow> ring" where
  "ring_drop r topic = r(topic := None)"

subsection \<open>What was published\<close>

text \<open>
  The specification: everything published on a topic since it was last dropped, numbered as
  it was accepted. It forgets nothing.
\<close>

datatype ring_op = Push string payload "int option" | Reset string | DropTopic string

definition ring_step :: "ring_limits \<Rightarrow> ring \<Rightarrow> ring_op \<Rightarrow> ring" where
  "ring_step limits r op = (case op of
     Push topic p seq \<Rightarrow> snd (ring_push limits r topic p seq)
   | Reset topic \<Rightarrow> ring_reset r topic
   | DropTopic topic \<Rightarrow> ring_drop r topic)"

definition ring_run :: "ring_limits \<Rightarrow> ring_op list \<Rightarrow> ring" where
  "ring_run limits ops = foldl (ring_step limits) Map.empty ops"

definition headOf :: "ring_frame list \<Rightarrow> int" where
  "headOf fs = (if fs = [] then 0 else fst (last fs))"

definition publish :: "string \<Rightarrow> ring_frame list \<Rightarrow> ring_op \<Rightarrow> ring_frame list" where
  "publish topic fs op = (case op of
     Push t p seq \<Rightarrow> if t \<noteq> topic then fs else (case seq of
         None \<Rightarrow> fs @ [(headOf fs + 1, p)]
       | Some n \<Rightarrow> if n \<le> headOf fs then fs else fs @ [(n, p)])
   | Reset t \<Rightarrow> fs
   | DropTopic t \<Rightarrow> if t = topic then [] else fs)"

definition published :: "string \<Rightarrow> ring_op list \<Rightarrow> ring_frame list" where
  "published topic ops = foldl (publish topic) [] ops"

definition weigh :: "ring_frame list \<Rightarrow> int" where
  "weigh fs = sum_list (map (\<lambda>(n, p). int (sizeOf p)) fs)"

subsection \<open>The ring holds a suffix of it\<close>

definition entryOf :: "ring_frame \<Rightarrow> ring_entry" where
  "entryOf f = \<lparr>re_seq = fst f, re_payload = snd f, re_bytes = sizeOf (snd f)\<rparr>"

text \<open>Frames that do not fit both caps.\<close>

definition overfull :: "ring_limits \<Rightarrow> ring_frame list \<Rightarrow> bool" where
  "overfull limits fs \<longleftrightarrow> length fs > rl_frames limits \<or> weigh fs > int (rl_bytes limits) \<and> length fs > 1"

text \<open>
  What is kept is a suffix of what was published; where frames were evicted since the last
  reset, the suffix with the last evicted frame put back is over a cap. \<open>base\<close> is where the
  last reset cut the history.
\<close>

definition keeps :: "ring_limits \<Rightarrow> ring_frame list \<Rightarrow> nat \<Rightarrow> topic_state \<Rightarrow> bool" where
  "keeps limits fs base s \<longleftrightarrow> ts_seq s = headOf fs \<and> base \<le> length fs
     \<and> (\<exists>k. base \<le> k \<and> k \<le> length fs \<and> ts_entries s = map entryOf (drop k fs) \<and> ts_bytes s = weigh (drop k fs)
         \<and> \<not> overfull limits (drop k fs) \<and> (base < k \<longrightarrow> overfull limits (drop (k - 1) fs)))"

lemma weigh_simps [simp]: "weigh [] = 0" "weigh (f # fs) = int (sizeOf (snd f)) + weigh fs" "weigh (fs @ gs) = weigh fs + weigh gs"
  by (simp_all add: weigh_def case_prod_beta)

lemma weigh_nonneg: "0 \<le> weigh fs"
  by (induction fs) simp_all

lemma headOf_simps [simp]: "headOf [] = 0" "headOf (fs @ [f]) = fst f"
  by (simp_all add: headOf_def)

lemma entryOf_simps [simp]: "re_seq (entryOf f) = fst f" "re_payload (entryOf f) = snd f" "re_bytes (entryOf f) = sizeOf (snd f)"
  by (simp_all add: entryOf_def)

lemma overfull_append: "overfull limits fs \<Longrightarrow> overfull limits (fs @ gs)"
  using weigh_nonneg [of gs] by (auto simp: overfull_def)

lemma evict_drops:
  "\<exists>k \<le> length fs. evict limits (map entryOf fs) (weigh fs) = (map entryOf (drop k fs), weigh (drop k fs))
     \<and> \<not> overfull limits (drop k fs) \<and> (0 < k \<longrightarrow> overfull limits (drop (k - 1) fs))"
proof (induction fs)
  case Nil
  show ?case by (simp add: overfull_def)
next
  case (Cons f fs)
  show ?case
  proof (cases "overfull limits (f # fs)")
    case True
    obtain k where k: "k \<le> length fs" "evict limits (map entryOf fs) (weigh fs) = (map entryOf (drop k fs), weigh (drop k fs))"
      "\<not> overfull limits (drop k fs)" "0 < k \<longrightarrow> overfull limits (drop (k - 1) fs)" using Cons.IH by blast
    have "evict limits (map entryOf (f # fs)) (weigh (f # fs)) = evict limits (map entryOf fs) (weigh fs)"
      using True by (simp add: overfull_def)
    moreover have "overfull limits (drop k (f # fs))" using True k(4) by (cases k) simp_all
    ultimately show ?thesis using k by (intro exI [of _ "Suc k"]) simp
  next
    case False
    then show ?thesis by (intro exI [of _ 0]) (auto simp: overfull_def)
  qed
qed

lemma keeps_push:
  assumes "keeps limits fs base s"
  shows "keeps limits (fs @ [f]) base (let (es, b) = evict limits (ts_entries s @ [entryOf f]) (ts_bytes s + int (sizeOf (snd f)))
      in \<lparr>ts_entries = es, ts_bytes = b, ts_seq = fst f\<rparr>)"
proof -
  obtain k where k: "base \<le> k" "k \<le> length fs" "ts_entries s = map entryOf (drop k fs)" "ts_bytes s = weigh (drop k fs)"
    "base < k \<longrightarrow> overfull limits (drop (k - 1) fs)" using assms by (auto simp: keeps_def)
  have "ts_entries s @ [entryOf f] = map entryOf (drop k fs @ [f])" "ts_bytes s + int (sizeOf (snd f)) = weigh (drop k fs @ [f])"
    using k by simp_all
  then obtain j where j: "j \<le> length (drop k fs @ [f])" "evict limits (ts_entries s @ [entryOf f]) (ts_bytes s + int (sizeOf (snd f)))
      = (map entryOf (drop j (drop k fs @ [f])), weigh (drop j (drop k fs @ [f])))"
    "\<not> overfull limits (drop j (drop k fs @ [f]))" "0 < j \<longrightarrow> overfull limits (drop (j - 1) (drop k fs @ [f]))"
    using evict_drops [of "drop k fs @ [f]" limits] by metis
  have all: "drop i (drop k fs @ [f]) = drop (k + i) (fs @ [f])" for i
    using k(2) by (simp add: drop_append add.commute)
  have over: "overfull limits (drop (k + j - 1) (fs @ [f]))" if "base < k + j"
  proof (cases "j = 0")
    case True
    with that k have "overfull limits (drop (k - 1) fs @ [f])" by (simp add: overfull_append)
    then show ?thesis using True k(2) by (simp add: drop_append)
  next
    case False
    then show ?thesis using j(4) all [of "j - 1"] by simp
  qed
  note j = j [unfolded all]
  have "k + j \<le> length (fs @ [f])" using j(1) k(2) by simp
  then show ?thesis
    unfolding keeps_def using j(2,3) k(1,2) over
    by (intro conjI exI [of _ "k + j"]) (simp_all del: drop_append drop_drop)
qed

text \<open>The history with the position of the last reset.\<close>

definition cutStep :: "string \<Rightarrow> ring_frame list \<times> nat \<Rightarrow> ring_op \<Rightarrow> ring_frame list \<times> nat" where
  "cutStep topic acc op = (publish topic (fst acc) op, case op of
     Push t p seq \<Rightarrow> snd acc
   | Reset t \<Rightarrow> if t = topic then length (fst acc) else snd acc
   | DropTopic t \<Rightarrow> if t = topic then 0 else snd acc)"

definition cutOf :: "string \<Rightarrow> ring_op list \<Rightarrow> nat" where
  "cutOf topic ops = snd (foldl (cutStep topic) ([], 0) ops)"

lemma fst_cutStep: "fst (foldl (cutStep topic) acc ops) = foldl (publish topic) (fst acc) ops"
  by (induction ops arbitrary: acc) (simp_all add: cutStep_def)

lemma cutOf_no_reset: "Reset topic \<notin> set ops \<Longrightarrow> cutOf topic ops = 0"
  by (induction ops rule: rev_induct) (auto simp: cutOf_def cutStep_def split: ring_op.splits)

lemma run_snoc: "ring_run limits (ops @ [op]) = ring_step limits (ring_run limits ops) op"
  "published topic (ops @ [op]) = publish topic (published topic ops) op"
  "cutOf topic (ops @ [op]) = snd (cutStep topic (published topic ops, cutOf topic ops) op)"
  using fst_cutStep [of topic "([], 0)" ops]
  by (simp_all add: ring_run_def published_def cutOf_def cutStep_def split: ring_op.split)

definition tracks :: "ring_limits \<Rightarrow> ring_frame list \<Rightarrow> nat \<Rightarrow> topic_state option \<Rightarrow> bool" where
  "tracks limits fs base s = (case s of None \<Rightarrow> fs = [] \<and> base = 0 | Some s \<Rightarrow> keeps limits fs base s)"

lemma keeps_new: "keeps limits [] 0 \<lparr>ts_entries = [], ts_bytes = 0, ts_seq = 0\<rparr>"
  by (simp add: keeps_def overfull_def)

lemma tracks_stateFor: "tracks limits fs base (r topic) \<Longrightarrow> keeps limits fs base (stateFor r topic)"
  by (auto simp: tracks_def stateFor_def keeps_new split: option.splits)

lemma tracks_push:
  assumes "tracks limits fs base (r topic)"
  shows "tracks limits (publish topic fs (Push topic p seq)) base (snd (ring_push limits r topic p seq) topic)"
proof -
  note keeps = tracks_stateFor [where r = r and topic = topic, OF assms]
  then have head: "ts_seq (stateFor r topic) = headOf fs" by (simp add: keeps_def)
  show ?thesis
  proof (cases "case seq of Some n \<Rightarrow> n \<le> headOf fs | None \<Rightarrow> False")
    case True
    then show ?thesis using keeps head by (auto simp: ring_push_def Let_def tracks_def publish_def split: option.splits)
  next
    case False
    then have "publish topic fs (Push topic p seq) = fs @ [(nullish seq (headOf fs + 1), p)]"
      by (auto simp: publish_def split: option.splits)
    then show ?thesis
      using False keeps_push [OF keeps, of "(nullish seq (headOf fs + 1), p)"] head
      by (cases seq) (simp_all add: ring_push_def Let_def tracks_def case_prod_beta entryOf_def)
  qed
qed

lemma ring_tracks: "tracks limits (published topic ops) (cutOf topic ops) (ring_run limits ops topic)"
proof (induction ops rule: rev_induct)
  case Nil
  show ?case by (simp add: tracks_def published_def cutOf_def ring_run_def)
next
  case (snoc op ops)
  show ?case
  proof (cases op)
    case (Push t p seq)
    show ?thesis
    proof (cases "t = topic")
      case True
      then show ?thesis using tracks_push [where r = "ring_run limits ops" and topic = topic, OF snoc.IH, of p seq] Push by (simp add: run_snoc ring_step_def cutStep_def)
    next
      case False
      then show ?thesis using snoc.IH Push
        by (simp add: run_snoc ring_step_def cutStep_def publish_def ring_push_def Let_def case_prod_beta)
    qed
  next
    case (Reset t)
    show ?thesis
    proof (cases "t = topic")
      case True
      have "tracks limits fs (length fs) (Some (s\<lparr>ts_entries := [], ts_bytes := 0\<rparr>))" if "keeps limits fs base s" for fs base s
        using that by (auto simp: tracks_def keeps_def overfull_def)
      with True show ?thesis using snoc.IH Reset
        by (auto simp: run_snoc ring_step_def cutStep_def publish_def ring_reset_def tracks_def split: option.splits)
    next
      case False
      then show ?thesis using snoc.IH Reset
        by (simp add: run_snoc ring_step_def cutStep_def publish_def ring_reset_def split: option.splits)
    qed
  next
    case (DropTopic t)
    then show ?thesis using snoc.IH
      by (simp add: run_snoc ring_step_def cutStep_def publish_def ring_drop_def tracks_def split: option.splits)
  qed
qed

lemma published_ascending: "sorted_wrt (<) (map fst (published topic ops)) \<and> (\<forall>f \<in> set (published topic ops). 0 < fst f \<and> fst f \<le> headOf (published topic ops))"
proof (induction ops rule: rev_induct)
  case Nil
  show ?case by (simp add: published_def)
next
  case (snoc op ops)
  have "0 \<le> headOf (published topic ops)"
    using snoc.IH by (cases "published topic ops" rule: rev_cases) auto
  with snoc.IH show ?case
    by (auto simp: run_snoc publish_def sorted_wrt_append split: ring_op.splits option.splits)
qed

subsection \<open>Replay\<close>

definition missed :: "ring_frame list \<Rightarrow> int \<Rightarrow> ring_frame list" where
  "missed fs sinceSeq = filter (\<lambda>f. sinceSeq < fst f) fs"

lemma missed_drop:
  assumes "sorted_wrt (<) (map fst fs)" "k < length fs" "fst (fs ! k) \<le> s + 1"
  shows "missed (drop k fs) s = missed fs s"
proof -
  have "fst f \<le> s" if taken: "f \<in> set (take k fs)" for f
  proof -
    obtain i where "i < length (take k fs)" "f = take k fs ! i" using taken by (metis in_set_conv_nth)
    then have i: "i < k" "f = fs ! i" by simp_all
    then have "fst (fs ! i) < fst (fs ! k)" using assms(1,2) by (auto simp: sorted_wrt_iff_nth_less)
    then show ?thesis using i assms(3) by simp
  qed
  then have "missed (take k fs) s = []" by (force simp: missed_def filter_empty_conv)
  then show ?thesis
    using append_take_drop_id [of k fs] by (metis append_Nil filter_append missed_def)
qed

lemma since_slice:
  assumes "keeps limits fs base s" "sorted_wrt (<) (map fst fs)" "\<forall>f \<in> set fs. fst f \<le> headOf fs" "r topic = Some s"
  shows "case ring_since r topic n of Frames gs \<Rightarrow> gs = missed fs n | Gap h \<Rightarrow> h = headOf fs \<and> n \<noteq> headOf fs"
proof -
  obtain k where k: "k \<le> length fs" "ts_entries s = map entryOf (drop k fs)" "ts_seq s = headOf fs"
    using assms(1) by (auto simp: keeps_def)
  have same: "map (\<lambda>e. (re_seq e, re_payload e)) (filter (\<lambda>e. re_seq e > n) (map entryOf gs)) = missed gs n" for gs
    by (induction gs) (simp_all add: missed_def)
  consider "n > headOf fs" | "n = headOf fs" | "n < headOf fs" "k = length fs" | "n < headOf fs" "k < length fs"
    using k(1) by linarith
  then show ?thesis
  proof cases
    case 2
    then have "missed fs n = []" using assms(3) by (auto simp: missed_def filter_empty_conv)
    then show ?thesis using 2 k assms(4) by (simp add: ring_since_def)
  next
    case 4
    then have "drop k fs = fs ! k # drop (Suc k) fs" by (simp add: Cons_nth_drop_Suc)
    then show ?thesis using 4 k assms(4) same [of "drop k fs"] missed_drop [OF assms(2), of k n]
      by (simp add: ring_since_def)
  qed (use k assms(4) in \<open>simp_all add: ring_since_def\<close>)
qed

lemma ring_replay_exact_lemma:
  "case ring_since (ring_run limits ops) topic n of
     Frames fs \<Rightarrow> fs = missed (published topic ops) n
   | Gap h \<Rightarrow> h = headOf (published topic ops) \<and> n \<noteq> h"
proof (cases "ring_run limits ops topic")
  case None
  then have "published topic ops = []" using ring_tracks [of limits topic ops] by (simp add: tracks_def)
  then show ?thesis using None by (simp add: ring_since_def missed_def)
next
  case (Some s)
  then have "keeps limits (published topic ops) (cutOf topic ops) s"
    using ring_tracks [of limits topic ops] by (simp add: tracks_def)
  then show ?thesis
    using since_slice [where r = "ring_run limits ops" and topic = topic, OF _ _ _ Some, of limits "published topic ops" _ n] published_ascending [of topic ops]
    by (auto split: ring_slice.splits)
qed

text \<open>
  What a subscriber that last saw \<open>n\<close> should be answered, from the history alone: nothing
  when it saw the head; every frame after the one it saw, when the longest stretch of newest
  frames since the last reset that fits both caps reaches back to the number it needs next; and
  else a gap.
\<close>

fun newest :: "ring_limits \<Rightarrow> ring_frame list \<Rightarrow> ring_frame list" where
  "newest limits [] = []"
| "newest limits (f # fs) = (if overfull limits (f # fs) then newest limits fs else f # fs)"

definition replay :: "ring_limits \<Rightarrow> ring_frame list \<Rightarrow> nat \<Rightarrow> int \<Rightarrow> ring_slice" where
  "replay limits fs base n =
     (if n = headOf fs then Frames []
      else case newest limits (drop base fs) of
          [] \<Rightarrow> Gap (headOf fs)
        | oldest # _ \<Rightarrow> if n < headOf fs \<and> fst oldest \<le> n + 1 then Frames (missed fs n) else Gap (headOf fs))"

lemma overfull_prepend: "overfull limits fs \<Longrightarrow> overfull limits (gs @ fs)"
  using weigh_nonneg [of gs] by (auto simp: overfull_def)

lemma newest_drop: "base \<le> k \<Longrightarrow> \<not> overfull limits (drop k fs) \<Longrightarrow> base < k \<longrightarrow> overfull limits (drop (k - 1) fs)
    \<Longrightarrow> k \<le> length fs \<Longrightarrow> newest limits (drop base fs) = drop k fs"
proof (induction "k - base" arbitrary: base)
  case 0
  then show ?case by (cases "drop k fs") simp_all
next
  case (Suc m)
  then have less: "base < k" by simp
  then have "drop base fs = take (k - 1 - base) (drop base fs) @ drop (k - 1) fs"
    using append_take_drop_id [of "k - 1 - base" "drop base fs"] by simp
  then have over: "overfull limits (drop base fs)" using Suc.prems(3) less overfull_prepend by metis
  have "drop base fs = fs ! base # drop (Suc base) fs" using less Suc.prems(4) by (simp add: Cons_nth_drop_Suc)
  then have "newest limits (drop base fs) = newest limits (drop (Suc base) fs)" using over by simp
  also have "\<dots> = drop k fs" using Suc by (intro Suc.hyps(1)) simp_all
  finally show ?case .
qed

lemma since_replay:
  assumes "keeps limits fs base s" "sorted_wrt (<) (map fst fs)" "r topic = Some s"
  shows "ring_since r topic n = replay limits fs base n"
proof -
  obtain k where k: "base \<le> k" "k \<le> length fs" "ts_entries s = map entryOf (drop k fs)" "ts_seq s = headOf fs"
    "\<not> overfull limits (drop k fs)" "base < k \<longrightarrow> overfull limits (drop (k - 1) fs)"
    using assms(1) by (auto simp: keeps_def)
  have same: "map (\<lambda>e. (re_seq e, re_payload e)) (filter (\<lambda>e. re_seq e > n) (map entryOf gs)) = missed gs n" for gs
    by (induction gs) (simp_all add: missed_def)
  have kept: "newest limits (drop base fs) = drop k fs" using newest_drop k by blast
  show ?thesis
  proof (cases "k = length fs")
    case True
    then show ?thesis using k(3,4) kept assms(3) by (simp add: ring_since_def replay_def)
  next
    case False
    then have d: "drop k fs = fs ! k # drop (Suc k) fs" "k < length fs" using k(2) by (simp_all add: Cons_nth_drop_Suc)
    then show ?thesis using k(3,4) kept assms(3) same [of "drop k fs"] missed_drop [OF assms(2), of k n]
      by (simp add: ring_since_def replay_def)
  qed
qed

lemma ring_replay_lemma: "ring_since (ring_run limits ops) topic n = replay limits (published topic ops) (cutOf topic ops) n"
proof (cases "ring_run limits ops topic")
  case None
  then have "published topic ops = []" using ring_tracks [of limits topic ops] by (simp add: tracks_def)
  then show ?thesis using None by (simp add: ring_since_def replay_def)
next
  case (Some s)
  then have "keeps limits (published topic ops) (cutOf topic ops) s"
    using ring_tracks [of limits topic ops] by (simp add: tracks_def)
  then show ?thesis using since_replay [where r = "ring_run limits ops" and topic = topic, OF _ _ Some] published_ascending [of topic ops] by blast
qed

text \<open>
  C18: the ring answers exactly as the full history would. Over any sequence of pushes, resets
  and drops, with numbers issued here or elsewhere, a subscriber is handed every frame
  published on the topic after the last one it saw, in order, if it saw the head or if the
  newest frames since the last reset that fit both caps begin no later than the number it
  needs next; and otherwise, in no other case, it is told a gap and the topic's head. The frames
  are those that reached this process: numbers a push skipped are not missed (see
  \<open>ring_replays_over_hole\<close>).
\<close>

theorem ring_replay_exact:
  "ring_since (ring_run limits ops) topic n = replay limits (published topic ops) (cutOf topic ops) n"
  by (rule ring_replay_lemma)

text \<open>On a topic numbered without holes, the frame after \<open>n\<close> stands at position \<open>n\<close>.\<close>

definition contiguous :: "ring_frame list \<Rightarrow> bool" where
  "contiguous fs \<longleftrightarrow> map fst fs = map int [1..<Suc (length fs)]"

lemma contiguous_nth: "contiguous fs \<Longrightarrow> i < length fs \<Longrightarrow> fst (fs ! i) = int i + 1"
  unfolding contiguous_def by (metis nth_map length_map nth_upt plus_1_eq_Suc of_nat_Suc diff_Suc_1 length_upt add.commute add_less_cancel_left)

lemma contiguous_head: "contiguous fs \<Longrightarrow> headOf fs = int (length fs)"
  by (cases fs rule: rev_cases) (auto simp: contiguous_def)

lemma contiguous_missed:
  assumes "contiguous fs" "n \<le> length fs"
  shows "missed fs (int n) = drop n fs"
proof -
  have "fst f \<le> int n" if f: "f \<in> set (take n fs)" for f
  proof -
    obtain i where "i < length (take n fs)" "f = take n fs ! i" using f by (metis in_set_conv_nth)
    then show ?thesis using contiguous_nth [OF assms(1), of i] assms(2) by simp
  qed
  then have "missed (take n fs) (int n) = []" by (force simp: missed_def filter_empty_conv)
  moreover have "int n < fst f" if f: "f \<in> set (drop n fs)" for f
  proof -
    obtain i where "i < length (drop n fs)" "f = drop n fs ! i" using f by (metis in_set_conv_nth)
    then show ?thesis using contiguous_nth [OF assms(1), of "n + i"] assms(2) by simp
  qed
  then have "missed (drop n fs) (int n) = drop n fs" by (force simp: missed_def filter_id_conv)
  ultimately show ?thesis using append_take_drop_id [of n fs] by (metis append_Nil filter_append missed_def)
qed

text \<open>
  A subscriber that missed little is always served. On a topic numbered without holes
  and not reset, if the frames missed fit both caps the answer is those frames, never a gap.
\<close>

theorem ring_serves_recent:
  assumes "contiguous (published topic ops)" and "Reset topic \<notin> set ops" and "n \<le> length (published topic ops)"
    and "length (published topic ops) - n \<le> rl_frames limits"
    and "weigh (drop n (published topic ops)) \<le> int (rl_bytes limits)"
  shows "ring_since (ring_run limits ops) topic (int n) = Frames (drop n (published topic ops))"
proof (cases "ring_run limits ops topic")
  case None
  then have "published topic ops = []" using ring_tracks [of limits topic ops] by (simp add: tracks_def)
  then show ?thesis using None assms(3) by (simp add: ring_since_def)
next
  case (Some s)
  let ?fs = "published topic ops"
  have "keeps limits ?fs 0 s"
    using ring_tracks [of limits topic ops] cutOf_no_reset [OF assms(2)] Some by (simp add: tracks_def)
  then obtain k where k: "k \<le> length ?fs" "ts_entries s = map entryOf (drop k ?fs)" "ts_seq s = headOf ?fs"
    "0 < k \<longrightarrow> overfull limits (drop (k - 1) ?fs)" by (auto simp: keeps_def)
  have "k \<le> n"
  proof (rule ccontr)
    assume "\<not> k \<le> n"
    moreover from this have "drop n ?fs = drop n (take (k - 1) ?fs) @ drop (k - 1) ?fs"
      using k(1) by (metis append_take_drop_id drop_append drop_drop length_take min.absorb2 diff_le_self le_trans not_le
          Suc_diff_1 less_Suc_eq_le diff_is_0_eq drop_0 gr_implies_not0 neq0_conv)
    ultimately have "overfull limits (drop (k - 1) ?fs)" "weigh (drop (k - 1) ?fs) \<le> weigh (drop n ?fs)"
      using k(4) weigh_nonneg by simp_all
    then show False using assms(4,5) \<open>\<not> k \<le> n\<close> by (auto simp: overfull_def)
  qed
  show ?thesis
  proof (cases "n = length ?fs")
    case True
    then show ?thesis using Some k(3) contiguous_head [OF assms(1)] by (simp add: ring_since_def)
  next
    case False
    then have "drop k ?fs = ?fs ! k # drop (Suc k) ?fs" using \<open>k \<le> n\<close> assms(3) by (simp add: Cons_nth_drop_Suc)
    then have "ring_since (ring_run limits ops) topic (int n) \<noteq> Gap (headOf ?fs)"
      using Some k False assms(3) \<open>k \<le> n\<close> contiguous_head [OF assms(1)] contiguous_nth [OF assms(1), of k]
      by (simp add: ring_since_def)
    then show ?thesis
      using ring_replay_exact_lemma [where limits = limits and ops = ops and topic = topic and n = "int n"] contiguous_missed [OF assms(1,3)]
      by (auto split: ring_slice.splits)
  qed
qed

text \<open>
  A hole in the fleet's numbers is replayed over. When frames numbered between the
  head and \<open>n\<close> never reached this process, a subscriber that saw the head is handed frame
  \<open>n\<close> as if nothing lay between, where the module promises frames missed or a gap.
\<close>

theorem ring_replays_over_hole:
  assumes "1 < n" and "2 \<le> rl_frames limits" and "sizeOf p + sizeOf q \<le> rl_bytes limits"
  shows "ring_since (ring_run limits [Push topic p None, Push topic q (Some n)]) topic 1 = Frames [(n, q)]"
  using assms by (simp add: ring_run_def ring_step_def ring_push_def ring_since_def Let_def stateFor_def)

theorem ring_replays_over_hole_witness:
  "ring_since (ring_run DEFAULT_RING_LIMITS [Push ''t'' Undefined None, Push ''t'' Undefined (Some 9)]) ''t'' 1 = Frames [(9, Undefined)]"
  by (rule ring_replays_over_hole) (simp_all add: DEFAULT_RING_LIMITS_def)

theorem ring_serves_recent_witness:
  "ring_since (ring_run \<lparr>rl_frames = 1, rl_bytes = 9\<rparr> [Push ''t'' Undefined None, Push ''t'' Unserialisable None]) ''t'' 1
    = Frames [(2, Unserialisable)]"
proof -
  let ?ops = "[Push ''t'' Undefined None, Push ''t'' Unserialisable None]"
  have "published ''t'' ?ops = [(1, Undefined), (2, Unserialisable)]"
    by (simp add: published_def publish_def headOf_def)
  then show ?thesis
    using ring_serves_recent [where topic = "''t''" and ops = ?ops and n = 1 and limits = "\<lparr>rl_frames = 1, rl_bytes = 9\<rparr>"] by (simp add: contiguous_def)
qed

end
