(* ===== verification/Stream_Coalesce.thy ===== *)
theory Stream_Coalesce
  imports Stream_Ring
begin

section \<open>Folding bursts of invalidations\<close>

text \<open>
  \<^verbatim>\<open>apps/gateway/src/stream/coalescer.ts\<close>: a burst of emits on one topic becomes a leading
  frame and a trailing one. A trailing emit is deferred by \<^verbatim>\<open>setTimeout\<close>, which runs its
  callback no earlier than the delay and never after it was cancelled; \<open>pd_due\<close> is the
  instant it may run from. What the sink was given is returned with the new state.
\<close>

record pending =
  pd_payload :: payload
  pd_due :: instant

record coalescer_deps =
  cd_floors :: "(string \<times> int) list"
  cd_defaultFloorMs :: int

record coalescer =
  co_lastSent :: "string \<rightharpoonup> instant"
  co_pending :: "(string \<times> pending) list"

type_synonym sunk = "string \<times> payload \<times> instant"

definition createCoalescer :: coalescer where
  "createCoalescer = \<lparr>co_lastSent = Map.empty, co_pending = []\<rparr>"

definition floorFor :: "coalescer_deps \<Rightarrow> string \<Rightarrow> int" where
  "floorFor d topic = nullish (map_of (cd_floors d) topic) (cd_defaultFloorMs d)"

definition co_send :: "string \<Rightarrow> payload \<Rightarrow> instant \<Rightarrow> coalescer \<Rightarrow> sunk list \<times> coalescer" where
  "co_send topic payload now c = ([(topic, payload, now)], c\<lparr>co_lastSent := (co_lastSent c)(topic \<mapsto> now)\<rparr>)"

definition co_fire :: "string \<Rightarrow> instant \<Rightarrow> coalescer \<Rightarrow> sunk list \<times> coalescer" where
  "co_fire topic now c = (case map_of (co_pending c) topic of
     None \<Rightarrow> ([], c)
   | Some item \<Rightarrow> co_send topic (pd_payload item) now (c\<lparr>co_pending := AList.delete topic (co_pending c)\<rparr>))"

definition co_emit :: "coalescer_deps \<Rightarrow> string \<Rightarrow> payload \<Rightarrow> instant \<Rightarrow> coalescer \<Rightarrow> sunk list \<times> coalescer" where
  "co_emit d topic payload now c =
     (case map_of (co_pending c) topic of
        Some waiting \<Rightarrow> ([], c\<lparr>co_pending := AList.update topic (waiting\<lparr>pd_payload := payload\<rparr>) (co_pending c)\<rparr>)
      | None \<Rightarrow> (case co_lastSent c topic of
            None \<Rightarrow> co_send topic payload now c
          | Some previous \<Rightarrow>
              let elapsed = now - previous in
              if elapsed \<ge> floorFor d topic then co_send topic payload now c
              else ([], c\<lparr>co_pending := AList.update topic
                     \<lparr>pd_payload = payload, pd_due = now + (floorFor d topic - elapsed)\<rparr> (co_pending c)\<rparr>)))"

fun co_flushAll :: "(string \<times> pending) list \<Rightarrow> instant \<Rightarrow> coalescer \<Rightarrow> sunk list \<times> coalescer" where
  "co_flushAll [] now c = ([], c)"
| "co_flushAll ((topic, item) # items) now c =
     (let (out, c) = co_send topic (pd_payload item) now (c\<lparr>co_pending := AList.delete topic (co_pending c)\<rparr>);
          (out', c) = co_flushAll items now c
      in (out @ out', c))"

definition co_flush :: "instant \<Rightarrow> coalescer \<Rightarrow> sunk list \<times> coalescer" where
  "co_flush now c = co_flushAll (co_pending c) now c"

definition co_stop :: "coalescer \<Rightarrow> coalescer" where
  "co_stop c = c\<lparr>co_pending := [], co_lastSent := Map.empty\<rparr>"

subsection \<open>Its life\<close>

text \<open>
  \<open>cs_wanted\<close> remembers the last payload emitted on a topic and when; only \<^verbatim>\<open>stop\<close> forgets it.
\<close>

record co_state =
  cs_coalescer :: coalescer
  cs_now :: instant
  cs_sunk :: "sunk list"
  cs_wanted :: "string \<rightharpoonup> payload \<times> instant"

definition took :: "co_state \<Rightarrow> instant \<Rightarrow> sunk list \<times> coalescer \<Rightarrow> co_state" where
  "took s now r = s\<lparr>cs_coalescer := snd r, cs_now := now, cs_sunk := cs_sunk s @ fst r\<rparr>"

definition co_begin :: "instant \<Rightarrow> co_state" where
  "co_begin now = \<lparr>cs_coalescer = createCoalescer, cs_now = now, cs_sunk = [], cs_wanted = Map.empty\<rparr>"

inductive live_step :: "coalescer_deps \<Rightarrow> co_state \<Rightarrow> co_state \<Rightarrow> bool" for d where
  emitted: "cs_now s \<le> now \<Longrightarrow>
     live_step d s ((took s now (co_emit d topic p now (cs_coalescer s)))\<lparr>cs_wanted := (cs_wanted s)(topic \<mapsto> (p, now))\<rparr>)"
| fired: "cs_now s \<le> now \<Longrightarrow> map_of (co_pending (cs_coalescer s)) topic = Some item \<Longrightarrow> pd_due item \<le> now \<Longrightarrow>
     live_step d s (took s now (co_fire topic now (cs_coalescer s)))"

inductive co_step :: "coalescer_deps \<Rightarrow> co_state \<Rightarrow> co_state \<Rightarrow> bool" for d where
  live: "live_step d s s' \<Longrightarrow> co_step d s s'"
| flushed: "cs_now s \<le> now \<Longrightarrow> co_step d s (took s now (co_flush now (cs_coalescer s)))"
| stopped: "co_step d s (s\<lparr>cs_coalescer := co_stop (cs_coalescer s), cs_wanted := Map.empty\<rparr>)"

subsection \<open>The floor\<close>

definition spaced :: "coalescer_deps \<Rightarrow> sunk list \<Rightarrow> bool" where
  "spaced d out \<longleftrightarrow> sorted_wrt (\<lambda>(t, p, i) (t', p', i'). t = t' \<longrightarrow> i + floorFor d t \<le> i') out"

definition paced :: "coalescer_deps \<Rightarrow> co_state \<Rightarrow> bool" where
  "paced d s \<longleftrightarrow> spaced d (cs_sunk s)
     \<and> (\<forall>(t, p, i) \<in> set (cs_sunk s). \<exists>l. co_lastSent (cs_coalescer s) t = Some l \<and> i \<le> l)
     \<and> (\<forall>t item. map_of (co_pending (cs_coalescer s)) t = Some item \<longrightarrow>
          (\<exists>l. co_lastSent (cs_coalescer s) t = Some l \<and> pd_due item = l + floorFor d t))"

lemma spaced_snoc: "spaced d (out @ [(t, p, now)]) \<longleftrightarrow> spaced d out \<and> (\<forall>(t', p', i) \<in> set out. t' = t \<longrightarrow> i + floorFor d t \<le> now)"
  by (auto simp: spaced_def sorted_wrt_append)

lemma paced_send:
  assumes "paced d s" "cs_coalescer s = c" "\<forall>l. co_lastSent c t = Some l \<longrightarrow> l + floorFor d t \<le> now" "0 \<le> floorFor d t"
    and "map_of pend t = None" "\<And>t'. t' \<noteq> t \<Longrightarrow> map_of pend t' = map_of (co_pending c) t'"
  shows "paced d (took s now (co_send t p now (c\<lparr>co_pending := pend\<rparr>)))"
proof -
  have "\<forall>(t', p', i) \<in> set (cs_sunk s). t' = t \<longrightarrow> i + floorFor d t \<le> now"
    using assms(1-3) by (fastforce simp: paced_def)
  moreover from this assms(4) have "\<forall>(t', p', i) \<in> set (cs_sunk s). t' = t \<longrightarrow> i \<le> now" by fastforce
  moreover have "map_of pend t' = Some item \<Longrightarrow> t' \<noteq> t \<and> map_of (co_pending c) t' = Some item" for t' item
    using assms(5,6) by (metis option.distinct(1))
  ultimately show ?thesis
    using assms(1,2) by (auto simp: paced_def took_def co_send_def spaced_snoc)
qed

lemma paced_live:
  assumes "paced d s" "live_step d s s'" "\<And>t. 0 \<le> floorFor d t"
  shows "paced d s'"
  using assms(2)
proof cases
  case (emitted now topic p)
  let ?c = "cs_coalescer s"
  have "paced d (took s now (co_emit d topic p now ?c))"
  proof (cases "map_of (co_pending ?c) topic")
    case (Some waiting)
    then show ?thesis using assms(1) by (auto simp: co_emit_def paced_def took_def)
  next
    case None
    show ?thesis
    proof (cases "\<forall>l. co_lastSent ?c topic = Some l \<longrightarrow> l + floorFor d topic \<le> now")
      case True
      then have "co_emit d topic p now ?c = co_send topic p now (?c\<lparr>co_pending := co_pending ?c\<rparr>)"
        using None by (auto simp: co_emit_def Let_def algebra_simps split: option.splits)
      then show ?thesis using paced_send [OF assms(1) refl True assms(3) None] by simp
    next
      case False
      then obtain l where "co_lastSent ?c topic = Some l" "\<not> l + floorFor d topic \<le> now" by auto
      then show ?thesis using assms(1) None by (auto simp: co_emit_def Let_def paced_def took_def)
    qed
  qed
  then show ?thesis unfolding emitted by (simp add: paced_def)
next
  case (fired now topic item)
  obtain l where "co_lastSent (cs_coalescer s) topic = Some l" "pd_due item = l + floorFor d topic"
    using assms(1) fired(3) unfolding paced_def by blast
  then show ?thesis
    using paced_send [OF assms(1) refl _ assms(3), of topic now "AList.delete topic (co_pending (cs_coalescer s))" "pd_payload item"] fired
    by (simp add: co_fire_def delete_conv')
qed

text \<open>
  C25: a subscriber is never told of a topic twice within its floor. However emits and
  timers interleave, any two frames of one topic that reach the sink are at least the topic's
  floor apart.
\<close>

theorem coalescer_paces:
  assumes "\<And>t. 0 \<le> floorFor d t" and "(live_step d)\<^sup>*\<^sup>* (co_begin start) s"
  shows "sorted_wrt (\<lambda>(t, p, i) (t', p', i'). t = t' \<longrightarrow> i + floorFor d t \<le> i') (cs_sunk s)"
proof -
  from assms(2) have "paced d s"
  proof (induction rule: rtranclp_induct)
    case base
    show ?case by (simp add: paced_def co_begin_def createCoalescer_def spaced_def)
  next
    case (step s s')
    then show ?case using paced_live assms(1) by blast
  qed
  then show ?thesis by (simp add: paced_def spaced_def)
qed

subsection \<open>The last change\<close>

text \<open>Frames of one topic, latest first.\<close>

definition lastOf :: "string \<Rightarrow> sunk list \<Rightarrow> payload option" where
  "lastOf t out = map_option (fst \<circ> snd) (find (\<lambda>f. fst f = t) (rev out))"

lemma lastOf_simps [simp]: "lastOf t [] = None" "lastOf t (out @ [(t', p, i)]) = (if t' = t then Some p else lastOf t out)"
  by (simp_all add: lastOf_def)

definition kept :: "coalescer_deps \<Rightarrow> co_state \<Rightarrow> bool" where
  "kept d s \<longleftrightarrow> (\<forall>t l. co_lastSent (cs_coalescer s) t = Some l \<longrightarrow> l \<le> cs_now s)
     \<and> distinct (map fst (co_pending (cs_coalescer s)))
     \<and> (\<forall>t. map_of (co_pending (cs_coalescer s)) t \<noteq> None \<longrightarrow> cs_wanted s t \<noteq> None)
     \<and> (\<forall>t p asked. cs_wanted s t = Some (p, asked) \<longrightarrow> asked \<le> cs_now s \<and>
          (map_of (co_pending (cs_coalescer s)) t = None \<longrightarrow> lastOf t (cs_sunk s) = Some p)
          \<and> (\<forall>item. map_of (co_pending (cs_coalescer s)) t = Some item \<longrightarrow>
                pd_payload item = p \<and> pd_due item \<le> asked + floorFor d t))"

lemma kept_parts:
  assumes "kept d s" "cs_now s \<le> now"
  shows "co_lastSent (cs_coalescer s) t = Some l \<Longrightarrow> l \<le> now"
    and "distinct (map fst (co_pending (cs_coalescer s)))"
    and "map_of (co_pending (cs_coalescer s)) t = Some item \<Longrightarrow> \<exists>p asked. cs_wanted s t = Some (p, asked)"
    and "cs_wanted s t = Some (p, asked) \<Longrightarrow> asked \<le> now"
    and "cs_wanted s t = Some (p, asked) \<Longrightarrow> map_of (co_pending (cs_coalescer s)) t = None \<Longrightarrow> lastOf t (cs_sunk s) = Some p"
    and "cs_wanted s t = Some (p, asked) \<Longrightarrow> map_of (co_pending (cs_coalescer s)) t = Some item \<Longrightarrow>
      pd_payload item = p \<and> pd_due item \<le> asked + floorFor d t"
  using assms unfolding kept_def by (fastforce simp del: map_of_eq_Some_iff)+

lemma keptI:
  assumes "\<And>t l. co_lastSent (cs_coalescer s) t = Some l \<Longrightarrow> l \<le> cs_now s"
    and "distinct (map fst (co_pending (cs_coalescer s)))"
    and "\<And>t item. map_of (co_pending (cs_coalescer s)) t = Some item \<Longrightarrow> \<exists>p asked. cs_wanted s t = Some (p, asked)"
    and "\<And>t p asked. cs_wanted s t = Some (p, asked) \<Longrightarrow> asked \<le> cs_now s"
    and "\<And>t p asked. cs_wanted s t = Some (p, asked) \<Longrightarrow> map_of (co_pending (cs_coalescer s)) t = None \<Longrightarrow> lastOf t (cs_sunk s) = Some p"
    and "\<And>t p asked item. cs_wanted s t = Some (p, asked) \<Longrightarrow> map_of (co_pending (cs_coalescer s)) t = Some item \<Longrightarrow>
      pd_payload item = p \<and> pd_due item \<le> asked + floorFor d t"
  shows "kept d s"
  using assms unfolding kept_def by (auto simp del: map_of_eq_Some_iff)

lemma kept_send:
  assumes "kept d s" "cs_now s \<le> now" "map_of (co_pending (cs_coalescer s)) t = Some item"
  shows "kept d (took s now (co_send t (pd_payload item) now
    ((cs_coalescer s)\<lparr>co_pending := AList.delete t (co_pending (cs_coalescer s))\<rparr>)))"
proof -
  note parts = kept_parts [OF assms(1,2)]
  obtain asked where w: "cs_wanted s t = Some (pd_payload item, asked)" using parts(3) [OF assms(3)] parts(6) [OF _ assms(3)] by blast
  show ?thesis
    by (rule keptI) (use parts w in \<open>auto simp: took_def co_send_def delete_conv' distinct_delete simp del: map_of_eq_Some_iff split: if_splits\<close>)
qed

lemma kept_emit:
  assumes "kept d s" "cs_now s \<le> now"
  shows "kept d ((took s now (co_emit d t p now (cs_coalescer s)))\<lparr>cs_wanted := (cs_wanted s)(t \<mapsto> (p, now))\<rparr>)"
proof -
  note parts = kept_parts [OF assms]
  let ?c = "cs_coalescer s"
  show ?thesis
  proof (cases "map_of (co_pending ?c) t")
    case (Some waiting)
    have "pd_due waiting \<le> now + floorFor d t" using parts(3,4,6) Some by fastforce
    then show ?thesis
      by (intro keptI) (use parts Some in \<open>auto simp: co_emit_def took_def distinct_update simp del: map_of_eq_Some_iff split: if_splits\<close>)
  next
    case None
    show ?thesis
      by (intro keptI) (use parts None in \<open>auto simp: co_emit_def Let_def took_def co_send_def distinct_update
          simp del: map_of_eq_Some_iff split: if_splits option.splits\<close>)
  qed
qed

lemma kept_flushAll:
  assumes "kept d s" "cs_now s \<le> now" "items = co_pending (cs_coalescer s)"
  shows "kept d (took s now (co_flushAll items now (cs_coalescer s)))"
  using assms
proof (induction items arbitrary: s)
  case Nil
  then show ?case by (intro keptI) (use kept_parts [OF Nil.prems(1,2)] in \<open>auto simp: took_def\<close>)
next
  case (Cons i items)
  obtain t item where i: "i = (t, item)" by (cases i)
  let ?r = "co_send t (pd_payload item) now ((cs_coalescer s)\<lparr>co_pending := AList.delete t (co_pending (cs_coalescer s))\<rparr>)"
  have pend: "co_pending (cs_coalescer s) = (t, item) # items" using Cons.prems(3) i by simp
  have "distinct (map fst (co_pending (cs_coalescer s)))" using kept_parts(2) [OF Cons.prems(1,2)] .
  then have "AList.delete t items = items" using pend by simp
  then have "items = co_pending (cs_coalescer (took s now ?r))" using pend by (simp add: took_def co_send_def)
  moreover have "kept d (took s now ?r)" using kept_send [OF Cons.prems(1,2), of t item] pend by simp
  moreover have "took s now (co_flushAll (i # items) now (cs_coalescer s))
      = took (took s now ?r) now (co_flushAll items now (cs_coalescer (took s now ?r)))"
    by (simp add: i took_def Let_def case_prod_beta)
  ultimately show ?case using Cons.IH [of "took s now ?r"] by (simp add: took_def)
qed

lemma kept_step: "co_step d s s' \<Longrightarrow> kept d s \<Longrightarrow> kept d s'"
proof (induction rule: co_step.induct)
  case (live s s')
  then show ?case by (auto elim!: live_step.cases intro: kept_emit simp: co_fire_def kept_send simp del: map_of_eq_Some_iff)
next
  case (flushed s now)
  then show ?case by (simp add: co_flush_def kept_flushAll)
next
  case (stopped s)
  then show ?case by (intro keptI) (auto simp: co_stop_def)
qed

text \<open>
  The last change is never lost. Whatever sequence of emits, timers, flushes and stops
  a coalescer goes through, the payload last emitted on a topic since the last stop either is
  the last frame the sink was given for it, or is what the armed timer will send, due no later
  than one floor after it was emitted.
\<close>

theorem coalescer_keeps_last:
  assumes "(co_step d)\<^sup>*\<^sup>* (co_begin start) s" and "cs_wanted s t = Some (p, asked)"
  shows "case map_of (co_pending (cs_coalescer s)) t of
      None \<Rightarrow> lastOf t (cs_sunk s) = Some p
    | Some item \<Rightarrow> pd_payload item = p \<and> pd_due item \<le> asked + floorFor d t"
proof -
  have "kept d (co_begin start)" by (rule keptI) (simp_all add: co_begin_def createCoalescer_def)
  with assms(1) have "kept d s" by (induction rule: rtranclp_induct) (auto intro: kept_step)
  from kept_parts [OF this order_refl] assms(2) show ?thesis by (auto simp del: map_of_eq_Some_iff split: option.split)
qed

definition sample_floors :: coalescer_deps where
  "sample_floors = \<lparr>cd_floors = [(''res:usage'', 1000)], cd_defaultFloorMs = 1000\<rparr>"

definition sample_burst :: co_state where
  "sample_burst = (let s = co_begin 0;
       s = (took s 0 (co_emit sample_floors ''res:usage'' Undefined 0 (cs_coalescer s)))\<lparr>cs_wanted := [''res:usage'' \<mapsto> (Undefined, 0)]\<rparr>
     in (took s 400 (co_emit sample_floors ''res:usage'' (Payload JNull) 400 (cs_coalescer s)))
          \<lparr>cs_wanted := [''res:usage'' \<mapsto> (Payload JNull, 400)]\<rparr>)"

lemma sample_burst_lives: "(live_step sample_floors)\<^sup>*\<^sup>* (co_begin 0) sample_burst"
proof -
  let ?s = "(took (co_begin 0) 0 (co_emit sample_floors ''res:usage'' Undefined 0 (cs_coalescer (co_begin 0))))
    \<lparr>cs_wanted := (cs_wanted (co_begin 0))(''res:usage'' \<mapsto> (Undefined, 0))\<rparr>"
  have "live_step sample_floors (co_begin 0) ?s" by (rule live_step.emitted) (simp add: co_begin_def)
  moreover have "live_step sample_floors ?s ((took ?s 400 (co_emit sample_floors ''res:usage'' (Payload JNull) 400 (cs_coalescer ?s)))
    \<lparr>cs_wanted := (cs_wanted ?s)(''res:usage'' \<mapsto> (Payload JNull, 400))\<rparr>)"
    by (rule live_step.emitted) (simp add: took_def)
  ultimately show ?thesis by (simp add: sample_burst_def Let_def co_begin_def)
qed

theorem coalescer_paces_witness:
  "sorted_wrt (\<lambda>(t, p, i) (t', p', i'). t = t' \<longrightarrow> i + floorFor sample_floors t \<le> i') (cs_sunk sample_burst)"
  by (rule coalescer_paces [OF _ sample_burst_lives]) (simp add: floorFor_def sample_floors_def)

theorem coalescer_keeps_last_witness:
  "map_of (co_pending (cs_coalescer sample_burst)) ''res:usage'' = Some \<lparr>pd_payload = Payload JNull, pd_due = 1000\<rparr>
    \<and> pd_due \<lparr>pd_payload = Payload JNull, pd_due = 1000\<rparr> \<le> 400 + floorFor sample_floors ''res:usage''"
proof -
  have "(co_step sample_floors)\<^sup>*\<^sup>* (co_begin 0) sample_burst"
    using sample_burst_lives by (induction rule: rtranclp_induct) (auto intro: rtranclp.rtrancl_into_rtrancl co_step.live)
  moreover have "cs_wanted sample_burst ''res:usage'' = Some (Payload JNull, 400)"
    by (simp add: sample_burst_def Let_def)
  moreover have "map_of (co_pending (cs_coalescer sample_burst)) ''res:usage'' = Some \<lparr>pd_payload = Payload JNull, pd_due = 1000\<rparr>"
    by (simp add: sample_burst_def Let_def took_def co_begin_def createCoalescer_def co_emit_def co_send_def sample_floors_def floorFor_def)
  ultimately show ?thesis using coalescer_keeps_last [of sample_floors 0 sample_burst "''res:usage''"] by fastforce
qed

end
