(* ===== verification/Gate_Latch.thy ===== *)
theory Gate_Latch
  imports Gateway_Prelude
begin

section \<open>The admission gate\<close>

text \<open>
  \<^verbatim>\<open>apps/gateway/src/quiesce.ts\<close>: the latch that refuses client traffic while the database is
  replaced. A request admitted holds a release numbered by \<open>lt_issued\<close>, unspent while it is in
  \<open>lt_held\<close>; a call of \<^verbatim>\<open>close\<close> is numbered by \<open>lt_closes\<close> and waits on a promise,
  resolved once it is in \<open>lt_resolved\<close>, or on its deadline.
\<close>

datatype closer = Waiting | Closed bool int

record latch =
  lt_admitting :: bool
  lt_inFlight :: int
  lt_onIdle :: "nat option"
  lt_issued :: nat
  lt_held :: "nat set"
  lt_closes :: nat
  lt_resolved :: "nat set"
  lt_closers :: "nat \<rightharpoonup> closer"

definition createQuiesceLatch :: latch where
  "createQuiesceLatch = \<lparr>lt_admitting = True, lt_inFlight = 0, lt_onIdle = None, lt_issued = 0, lt_held = {},
     lt_closes = 0, lt_resolved = {}, lt_closers = Map.empty\<rparr>"

definition latch_settle :: "latch \<Rightarrow> latch" where
  "latch_settle l =
     (if lt_inFlight l > 0 then l
      else case lt_onIdle l of
          None \<Rightarrow> l
        | Some c \<Rightarrow> l\<lparr>lt_onIdle := None, lt_resolved := insert c (lt_resolved l)\<rparr>)"

definition latch_enter :: "latch \<Rightarrow> nat option \<times> latch" where
  "latch_enter l =
     (if \<not> lt_admitting l then (None, l)
      else (Some (lt_issued l), l\<lparr>lt_inFlight := lt_inFlight l + 1, lt_issued := lt_issued l + 1,
              lt_held := insert (lt_issued l) (lt_held l)\<rparr>))"

definition latch_release :: "nat \<Rightarrow> latch \<Rightarrow> latch" where
  "latch_release t l =
     (if t \<notin> lt_held l then l
      else latch_settle (l\<lparr>lt_held := lt_held l - {t}, lt_inFlight := lt_inFlight l - 1\<rparr>))"

definition latch_isClosed :: "latch \<Rightarrow> bool" where
  "latch_isClosed l \<longleftrightarrow> \<not> lt_admitting l"

definition latch_open :: "latch \<Rightarrow> latch" where
  "latch_open l = l\<lparr>lt_admitting := True\<rparr>"

text \<open>\<^verbatim>\<open>close\<close> up to its wait, and from its wait on.\<close>

definition latch_close :: "latch \<Rightarrow> latch" where
  "latch_close l =
     (let c = lt_closes l; l = l\<lparr>lt_admitting := False, lt_closes := c + 1\<rparr> in
      if lt_inFlight l = 0 then l\<lparr>lt_closers := (lt_closers l)(c \<mapsto> Closed True 0)\<rparr>
      else l\<lparr>lt_onIdle := Some c, lt_closers := (lt_closers l)(c \<mapsto> Waiting)\<rparr>)"

definition latch_wake :: "nat \<Rightarrow> latch \<Rightarrow> latch" where
  "latch_wake c l = l\<lparr>lt_onIdle := None, lt_closers := (lt_closers l)(c \<mapsto> Closed (lt_inFlight l = 0) (lt_inFlight l))\<rparr>"

lemmas latch_defs = latch_settle_def latch_enter_def latch_release_def latch_open_def latch_close_def latch_wake_def

subsection \<open>Its steps\<close>

inductive latch_step :: "latch \<Rightarrow> latch \<Rightarrow> bool" where
  entered: "latch_step l (snd (latch_enter l))"
| released: "t < lt_issued l \<Longrightarrow> latch_step l (latch_release t l)"
| opened: "latch_step l (latch_open l)"
| closing: "latch_step l (latch_close l)"
| woken: "lt_closers l c = Some Waiting \<Longrightarrow> c \<in> lt_resolved l \<Longrightarrow> latch_step l (latch_wake c l)"
| expired: "lt_closers l c = Some Waiting \<Longrightarrow> latch_step l (latch_wake c l)"

text \<open>Steps between a close and the next open.\<close>

inductive shut_step :: "latch \<Rightarrow> latch \<Rightarrow> bool" where
  "latch_step l l' \<Longrightarrow> lt_admitting l' \<longrightarrow> lt_admitting l \<Longrightarrow> shut_step l l'"

text \<open>Steps in which no close begins while another waits.\<close>

inductive calm_step :: "latch \<Rightarrow> latch \<Rightarrow> bool" where
  "latch_step l l' \<Longrightarrow> lt_closes l' = lt_closes l \<or> (\<forall>c. lt_closers l c \<noteq> Some Waiting) \<Longrightarrow> calm_step l l'"

subsection \<open>What it counts\<close>

definition counts :: "latch \<Rightarrow> bool" where
  "counts l \<longleftrightarrow> finite (lt_held l) \<and> lt_inFlight l = int (card (lt_held l)) \<and> (\<forall>t \<in> lt_held l. t < lt_issued l)"

lemma settle_counts [simp]: "counts (latch_settle l) \<longleftrightarrow> counts l"
  by (auto simp: counts_def latch_settle_def split: option.split)

lemma counts_step: "latch_step l l' \<Longrightarrow> counts l \<Longrightarrow> counts l'"
proof (induction rule: latch_step.induct)
  case (entered l)
  then show ?case by (auto simp: counts_def latch_enter_def)
next
  case (released t l)
  show ?case
  proof (cases "t \<in> lt_held l")
    case True
    with released have "0 < card (lt_held l)" by (auto simp: counts_def card_gt_0_iff)
    with True released show ?thesis by (auto simp: latch_release_def) (auto simp: counts_def)
  qed (use released in \<open>simp add: latch_release_def\<close>)
qed (auto simp: counts_def latch_open_def latch_close_def latch_wake_def Let_def)

lemma counts_reachable: "latch_step\<^sup>*\<^sup>* createQuiesceLatch l \<Longrightarrow> counts l"
proof (induction rule: rtranclp_induct)
  case base
  show ?case by (simp add: counts_def createQuiesceLatch_def)
qed (rule counts_step)

subsection \<open>A drained close is quiet\<close>

lemma shut_stays: "shut_step l l' \<Longrightarrow> \<not> lt_admitting l \<Longrightarrow> \<not> lt_admitting l' \<and> lt_held l' \<subseteq> lt_held l"
  by (erule shut_step.cases, erule latch_step.cases)
    (auto simp: latch_defs Let_def split: option.splits if_splits)

definition quiet :: "nat \<Rightarrow> latch \<Rightarrow> bool" where
  "quiet c l \<longleftrightarrow> \<not> lt_admitting l \<and> counts l \<and> (\<forall>n. lt_closers l c = Some (Closed True n) \<longrightarrow> lt_held l = {})"

lemma closers_step:
  assumes "latch_step l l'" "c < lt_closes l" "lt_closers l' c = Some (Closed True n)"
  shows "lt_closers l c = Some (Closed True n) \<or> lt_inFlight l = 0 \<and> lt_held l' = lt_held l"
  using assms by cases (auto simp: latch_defs Let_def split: option.splits if_splits)

text \<open>
  C21: a drained close means quiet until the gate is opened. When a call of \<^verbatim>\<open>close\<close> has
  reported that everything drained, no admitted request is still in flight and none is
  admitted, at the report and at every later moment before the next \<^verbatim>\<open>open\<close>.
\<close>

theorem quiesce_drained_is_quiet:
  assumes "latch_step\<^sup>*\<^sup>* createQuiesceLatch l" and "shut_step\<^sup>*\<^sup>* (latch_close l) l'"
    and "lt_closers l' (lt_closes l) = Some (Closed True n)"
  shows "lt_held l' = {} \<and> lt_inFlight l' = 0 \<and> latch_enter l' = (None, l')"
proof -
  have counts: "counts l" using assms(1) by (rule counts_reachable)
  from assms(2) have "quiet (lt_closes l) l' \<and> lt_closes l < lt_closes l'"
  proof (induction rule: rtranclp_induct)
    case base
    have "counts (latch_close l)" using counts by (rule counts_step [OF latch_step.closing])
    then show ?case using counts by (auto simp: quiet_def latch_close_def Let_def counts_def)
  next
    case (step a b)
    then have "latch_step a b" by (auto elim: shut_step.cases)
    moreover have "\<not> lt_admitting b" "lt_held b \<subseteq> lt_held a" using shut_stays step by (auto simp: quiet_def)
    moreover have "lt_closes a \<le> lt_closes b" using \<open>latch_step a b\<close>
      by cases (auto simp: latch_defs Let_def split: option.splits if_splits)
    moreover have "counts b" using counts_step [OF \<open>latch_step a b\<close>] step.IH by (simp add: quiet_def)
    moreover have "lt_held b = {}" if "lt_closers b (lt_closes l) = Some (Closed True n)" for n
    proof -
      have "lt_held a = {}"
        using closers_step [OF \<open>latch_step a b\<close> _ that] step.IH by (auto simp: quiet_def counts_def)
      then show ?thesis using \<open>lt_held b \<subseteq> lt_held a\<close> by simp
    qed
    ultimately show ?case using step.IH by (simp add: quiet_def)
  qed
  then show ?thesis using assms(3) by (auto simp: quiet_def counts_def latch_enter_def)
qed

subsection \<open>A close is woken\<close>

definition wakeful :: "latch \<Rightarrow> bool" where
  "wakeful l \<longleftrightarrow> (\<forall>c. lt_closers l c = Some Waiting \<longrightarrow> c < lt_closes l \<and> (c \<in> lt_resolved l \<or> lt_onIdle l = Some c \<and> lt_inFlight l > 0))
     \<and> (\<forall>c d. lt_closers l c = Some Waiting \<longrightarrow> lt_closers l d = Some Waiting \<longrightarrow> c = d)"

lemma wakeful_step:
  assumes "calm_step l l'" "wakeful l" "counts l"
  shows "wakeful l'"
proof -
  from assms(1) have step: "latch_step l l'" and calm: "lt_closes l' = lt_closes l \<or> (\<forall>c. lt_closers l c \<noteq> Some Waiting)"
    by (auto elim: calm_step.cases)
  have only: "lt_closers l d \<noteq> Some Waiting" if "lt_closers l c = Some Waiting" "d \<noteq> c" for c d
    using assms(2) that by (auto simp: wakeful_def)
  from step show ?thesis
  proof cases
    case closing
    then have none: "\<forall>c. lt_closers l c \<noteq> Some Waiting" using calm by (simp add: latch_close_def Let_def split: if_splits)
    have "0 \<le> lt_inFlight l" using assms(3) by (simp add: counts_def)
    with none show ?thesis unfolding closing by (simp add: wakeful_def latch_close_def Let_def)
  next
    case (woken c)
    then show ?thesis using only [of c] by (simp add: wakeful_def latch_wake_def)
  next
    case (expired c)
    then show ?thesis using only [of c] by (simp add: wakeful_def latch_wake_def)
  next
    case (released t)
    then show ?thesis using assms(2)
      by (cases "lt_onIdle l") (auto simp: wakeful_def latch_release_def latch_settle_def)
  qed (use assms(2) in \<open>auto simp: wakeful_def latch_enter_def latch_open_def\<close>)
qed

text \<open>
  A waiting close is woken by the last release. While closes do not overlap, once
  nothing admitted is in flight the promise of a waiting close is resolved; it never has to
  wait for its deadline.
\<close>

theorem quiesce_close_is_woken:
  assumes "calm_step\<^sup>*\<^sup>* createQuiesceLatch l" and "lt_closers l c = Some Waiting" and "lt_held l = {}"
  shows "c \<in> lt_resolved l"
proof -
  from assms(1) have "wakeful l \<and> counts l"
  proof (induction rule: rtranclp_induct)
    case base
    show ?case by (simp add: wakeful_def counts_def createQuiesceLatch_def)
  next
    case (step a b)
    then show ?case using wakeful_step counts_step by (blast elim: calm_step.cases)
  qed
  then show ?thesis using assms(2,3) by (auto simp: wakeful_def counts_def)
qed

definition forgotten :: "nat \<Rightarrow> latch \<Rightarrow> bool" where
  "forgotten c l \<longleftrightarrow> c < lt_closes l \<and> c \<notin> lt_resolved l \<and> lt_onIdle l \<noteq> Some c"

lemma forgotten_step: "latch_step l l' \<Longrightarrow> forgotten c l \<Longrightarrow> forgotten c l'"
  by (erule latch_step.cases) (auto simp: forgotten_def latch_defs Let_def split: option.splits if_splits)

text \<open>
  An overlapped close is forgotten. When a second close begins while a first one waits,
  the last release resolves the second alone. The first is not resolved then, and nothing that
  can still happen resolves it: it sleeps to its deadline on a gate that has long drained.
\<close>

theorem overlapped_close_is_forgotten:
  assumes "lt_closers l c = Some Waiting" "c < lt_closes l" "c \<notin> lt_resolved l" "0 < lt_inFlight l"
    and "latch_step\<^sup>*\<^sup>* (latch_close l) l'"
  shows "c \<notin> lt_resolved l'"
proof -
  have "forgotten c (latch_close l)" using assms(2-4) by (simp add: forgotten_def latch_close_def Let_def)
  with assms(5) have "forgotten c l'" by (induction rule: rtranclp_induct) (auto intro: forgotten_step)
  then show ?thesis by (simp add: forgotten_def)
qed

definition sample_latch :: latch where
  "sample_latch = latch_close (snd (latch_enter createQuiesceLatch))"

theorem overlapped_close_is_forgotten_witness:
  "let l = latch_release 0 (latch_close sample_latch)
   in lt_held l = {} \<and> lt_closers l 0 = Some Waiting \<and> 0 \<notin> lt_resolved l"
proof -
  let ?l = "latch_release 0 (latch_close sample_latch)"
  have s: "lt_closers sample_latch 0 = Some Waiting" "0 < lt_closes sample_latch" "0 \<notin> lt_resolved sample_latch" "0 < lt_inFlight sample_latch"
    by (simp_all add: sample_latch_def latch_defs createQuiesceLatch_def Let_def)
  have "latch_step\<^sup>*\<^sup>* (latch_close sample_latch) ?l"
    by (intro r_into_rtranclp latch_step.released) (simp add: sample_latch_def latch_defs createQuiesceLatch_def Let_def)
  from overlapped_close_is_forgotten [OF s this] have "0 \<notin> lt_resolved ?l" .
  moreover have "lt_held ?l = {}" "lt_closers ?l 0 = Some Waiting"
    by (simp_all add: sample_latch_def latch_defs createQuiesceLatch_def Let_def)
  ultimately show ?thesis by (simp add: Let_def)
qed

theorem quiesce_close_is_woken_witness:
  "lt_closers (latch_release 0 sample_latch) 0 = Some Waiting \<and> 0 \<in> lt_resolved (latch_release 0 sample_latch)"
proof -
  have "calm_step\<^sup>*\<^sup>* createQuiesceLatch (latch_release 0 sample_latch)"
  proof (rule rtranclp_trans)
    let ?e = "snd (latch_enter createQuiesceLatch)"
    have "calm_step createQuiesceLatch ?e"
      by (intro calm_step.intros latch_step.entered) (simp add: latch_enter_def)
    moreover have "calm_step ?e sample_latch" unfolding sample_latch_def
      by (intro calm_step.intros latch_step.closing) (simp add: latch_enter_def createQuiesceLatch_def)
    ultimately show "calm_step\<^sup>*\<^sup>* createQuiesceLatch sample_latch" by (rule converse_rtranclp_into_rtranclp [OF _ r_into_rtranclp])
    show "calm_step\<^sup>*\<^sup>* sample_latch (latch_release 0 sample_latch)"
      by (intro r_into_rtranclp calm_step.intros latch_step.released)
        (simp_all add: sample_latch_def latch_defs createQuiesceLatch_def Let_def)
  qed
  moreover have "lt_closers (latch_release 0 sample_latch) 0 = Some Waiting" "lt_held (latch_release 0 sample_latch) = {}"
    by (simp_all add: sample_latch_def latch_defs createQuiesceLatch_def Let_def)
  ultimately show ?thesis using quiesce_close_is_woken by blast
qed

theorem quiesce_drained_is_quiet_witness:
  "lt_held (latch_close createQuiesceLatch) = {} \<and> latch_enter (latch_close createQuiesceLatch) = (None, latch_close createQuiesceLatch)"
  using quiesce_drained_is_quiet [of createQuiesceLatch "latch_close createQuiesceLatch" 0]
  by (simp add: latch_close_def createQuiesceLatch_def Let_def)

end
