(* ===== verification/Gate_Swap.thy ===== *)
theory Gate_Swap
  imports Gate_Latch
begin

section \<open>Replacing the database behind the gate\<close>

text \<open>
  \<^verbatim>\<open>swap\<close> of \<^verbatim>\<open>apps/gateway/src/routes/database.ts\<close> around \<^verbatim>\<open>restoreSnapshot\<close>,
  \<^verbatim>\<open>importSnapshot\<close> and \<^verbatim>\<open>swapIn\<close> of \<^verbatim>\<open>packages/control/src/database.ts\<close>, with the
  single-flight guard \<^verbatim>\<open>withExclusive\<close>. Each call is a number; between the awaits of one call
  the others, the clients and the other holders of the guard take their steps. Closing the
  store, renaming the file and opening it again run without an \<^verbatim>\<open>await\<close> between them (the body
  of SQLite's \<^verbatim>\<open>reopen\<close> is synchronous), so they are one step; only a \<^verbatim>\<open>reopen\<close> that throws
  suspends the call with the store shut, before it is tried once more. What the store
  and the file system answer is the choice of the step. \<open>ga_broken\<close> says that the file on disk
  was left half-replaced.
\<close>

datatype failure = OrdinaryFailure | SwapFailed

datatype phase =
    Quiescing nat
  | Preparing
  | Reopening
  | Finishing
  | Succeeded
  | Rejected failure
  | Answered

datatype holder = SwapCall nat | OtherOperation

record swap_call =
  sw_closedHere :: bool
  sw_phase :: phase

record gate =
  ga_latch :: latch
  ga_swaps :: "nat \<rightharpoonup> swap_call"
  ga_calls :: nat
  ga_exclusive :: "holder option"
  ga_storeOpen :: bool
  ga_broken :: bool

definition gate_start :: gate where
  "gate_start = \<lparr>ga_latch = createQuiesceLatch, ga_swaps = Map.empty, ga_calls = 0, ga_exclusive = None,
     ga_storeOpen = True, ga_broken = False\<rparr>"

definition phaseOf :: "gate \<Rightarrow> nat \<Rightarrow> phase" where
  "phaseOf g n = (case ga_swaps g n of None \<Rightarrow> Answered | Some s \<Rightarrow> sw_phase s)"

definition toPhase :: "nat \<Rightarrow> phase \<Rightarrow> gate \<Rightarrow> gate" where
  "toPhase n p g = g\<lparr>ga_swaps := (ga_swaps g)(n := map_option (sw_phase_update (\<lambda>_. p)) (ga_swaps g n))\<rparr>"

text \<open>The call arrives: the flag is read and the gate closed in one synchronous step.\<close>

definition beginSwap :: "gate \<Rightarrow> gate" where
  "beginSwap g = g\<lparr>ga_latch := latch_close (ga_latch g),
     ga_swaps := (ga_swaps g)(ga_calls g \<mapsto>
       \<lparr>sw_closedHere = \<not> latch_isClosed (ga_latch g), sw_phase = Quiescing (lt_closes (ga_latch g))\<rparr>),
     ga_calls := ga_calls g + 1\<rparr>"

text \<open>
  \<^verbatim>\<open>operation()\<close>: a snapshot that is not there is refused before the guard is asked, anything
  when the guard is taken.
\<close>

definition callOperation :: "nat \<Rightarrow> bool \<Rightarrow> gate \<Rightarrow> gate" where
  "callOperation n missing g =
     (if missing \<or> ga_exclusive g \<noteq> None then toPhase n (Rejected OrdinaryFailure) g
      else (toPhase n Preparing g)\<lparr>ga_exclusive := Some (SwapCall n)\<rparr>)"

definition prepareFails :: "nat \<Rightarrow> gate \<Rightarrow> gate" where
  "prepareFails n g = (toPhase n (Rejected OrdinaryFailure) g)\<lparr>ga_exclusive := None\<rparr>"

definition replaceStore :: "nat \<Rightarrow> gate \<Rightarrow> gate" where
  "replaceStore n g = (toPhase n Finishing g)\<lparr>ga_storeOpen := True, ga_broken := False\<rparr>"

definition reopenFails :: "nat \<Rightarrow> gate \<Rightarrow> gate" where
  "reopenFails n g = (toPhase n Reopening g)\<lparr>ga_storeOpen := False\<rparr>"

definition replaceFails :: "nat \<Rightarrow> bool \<Rightarrow> gate \<Rightarrow> gate" where
  "replaceFails n reopened g = (toPhase n (Rejected SwapFailed) g)\<lparr>ga_storeOpen := reopened, ga_broken := True, ga_exclusive := None\<rparr>"

definition finishOperation :: "nat \<Rightarrow> bool \<Rightarrow> gate \<Rightarrow> gate" where
  "finishOperation n ok g = (toPhase n (if ok then Succeeded else Rejected OrdinaryFailure) g)\<lparr>ga_exclusive := None\<rparr>"

text \<open>The answer: a success opens, a failed swap does not, any other failure opens what it shut.\<close>

definition answerSwap :: "nat \<Rightarrow> gate \<Rightarrow> gate" where
  "answerSwap n g =
     (case ga_swaps g n of
        None \<Rightarrow> g
      | Some s \<Rightarrow>
          let opens = (case sw_phase s of
              Succeeded \<Rightarrow> True
            | Rejected SwapFailed \<Rightarrow> False
            | _ \<Rightarrow> sw_closedHere s)
          in (toPhase n Answered g)\<lparr>ga_latch := if opens then latch_open (ga_latch g) else ga_latch g\<rparr>)"

subsection \<open>Its steps\<close>

inductive gate_step :: "gate \<Rightarrow> gate \<Rightarrow> bool" where
  request: "gate_step g (g\<lparr>ga_latch := snd (latch_enter (ga_latch g))\<rparr>)"
| response: "t < lt_issued (ga_latch g) \<Longrightarrow> gate_step g (g\<lparr>ga_latch := latch_release t (ga_latch g)\<rparr>)"
| drained: "lt_closers (ga_latch g) c = Some Waiting \<Longrightarrow> c \<in> lt_resolved (ga_latch g) \<Longrightarrow>
     gate_step g (g\<lparr>ga_latch := latch_wake c (ga_latch g)\<rparr>)"
| deadline: "lt_closers (ga_latch g) c = Some Waiting \<Longrightarrow> gate_step g (g\<lparr>ga_latch := latch_wake c (ga_latch g)\<rparr>)"
| called: "gate_step g (beginSwap g)"
| operation: "phaseOf g n = Quiescing c \<Longrightarrow> lt_closers (ga_latch g) c = Some (Closed b k) \<Longrightarrow> gate_step g (callOperation n missing g)"
| unprepared: "phaseOf g n = Preparing \<Longrightarrow> gate_step g (prepareFails n g)"
| replaced: "phaseOf g n = Preparing \<Longrightarrow> gate_step g (replaceStore n g)"
| notReopened: "phaseOf g n = Preparing \<Longrightarrow> gate_step g (reopenFails n g)"
| swapFailed: "phaseOf g n = Preparing \<or> phaseOf g n = Reopening \<Longrightarrow> gate_step g (replaceFails n reopened g)"
| finished: "phaseOf g n = Finishing \<Longrightarrow> gate_step g (finishOperation n ok g)"
| answered: "phaseOf g n = Succeeded \<or> phaseOf g n = Rejected f \<Longrightarrow> gate_step g (answerSwap n g)"
| guardTaken: "ga_exclusive g = None \<Longrightarrow> gate_step g (g\<lparr>ga_exclusive := Some OtherOperation\<rparr>)"
| guardFreed: "ga_exclusive g = Some OtherOperation \<Longrightarrow> gate_step g (g\<lparr>ga_exclusive := None\<rparr>)"

text \<open>The same, when a call begins only after the last one was answered.\<close>

inductive serial_step :: "gate \<Rightarrow> gate \<Rightarrow> bool" where
  "gate_step g g' \<Longrightarrow> ga_calls g' = ga_calls g \<or> (\<forall>n. phaseOf g n = Answered) \<Longrightarrow> serial_step g g'"

lemmas swap_defs = beginSwap_def callOperation_def prepareFails_def replaceStore_def reopenFails_def replaceFails_def
  finishOperation_def answerSwap_def

lemma toPhase_simps [simp]:
  "ga_latch (toPhase n p g) = ga_latch g" "ga_calls (toPhase n p g) = ga_calls g" "ga_exclusive (toPhase n p g) = ga_exclusive g"
  "ga_storeOpen (toPhase n p g) = ga_storeOpen g" "ga_broken (toPhase n p g) = ga_broken g"
  "phaseOf (toPhase n p g) m = (if m = n \<and> ga_swaps g n \<noteq> None then p else phaseOf g m)"
  by (auto simp: toPhase_def phaseOf_def split: option.split)

lemma phaseOf_updates [simp]:
  "phaseOf (g\<lparr>ga_latch := l\<rparr>) n = phaseOf g n" "phaseOf (g\<lparr>ga_exclusive := h\<rparr>) n = phaseOf g n"
  "phaseOf (g\<lparr>ga_storeOpen := b\<rparr>) n = phaseOf g n" "phaseOf (g\<lparr>ga_broken := b\<rparr>) n = phaseOf g n"
  by (simp_all add: phaseOf_def)

definition closedHereOf :: "gate \<Rightarrow> nat \<Rightarrow> bool" where
  "closedHereOf g n = (case ga_swaps g n of None \<Rightarrow> False | Some s \<Rightarrow> sw_closedHere s)"

lemma closedHere_simps [simp]:
  "closedHereOf (toPhase n p g) m = closedHereOf g m"
  "closedHereOf (g\<lparr>ga_latch := l\<rparr>) n = closedHereOf g n" "closedHereOf (g\<lparr>ga_exclusive := h\<rparr>) n = closedHereOf g n"
  "closedHereOf (g\<lparr>ga_storeOpen := b\<rparr>) n = closedHereOf g n" "closedHereOf (g\<lparr>ga_broken := b\<rparr>) n = closedHereOf g n"
  by (auto simp: toPhase_def closedHereOf_def split: option.split)

lemma latch_admitting [simp]:
  "lt_admitting (snd (latch_enter l)) = lt_admitting l" "lt_admitting (latch_release t l) = lt_admitting l"
  "lt_admitting (latch_wake c l) = lt_admitting l" "\<not> lt_admitting (latch_close l)" "lt_admitting (latch_open l)"
  by (auto simp: latch_defs Let_def split: option.split)

lemma known: "phaseOf g n \<noteq> Answered \<Longrightarrow> ga_swaps g n \<noteq> None"
  by (auto simp: phaseOf_def split: option.splits)

subsection \<open>One call at a time\<close>

definition guarded :: "gate \<Rightarrow> bool" where
  "guarded g \<longleftrightarrow>
     (\<forall>n m. phaseOf g n \<noteq> Answered \<longrightarrow> phaseOf g m \<noteq> Answered \<longrightarrow> n = m)
     \<and> (\<forall>n. phaseOf g n \<noteq> Answered \<longrightarrow> \<not> lt_admitting (ga_latch g) \<and> n < ga_calls g
           \<and> (ga_broken g \<longrightarrow> phaseOf g n = Rejected SwapFailed \<or> \<not> closedHereOf g n)
           \<and> (phaseOf g n = Finishing \<or> phaseOf g n = Succeeded \<longrightarrow> \<not> ga_broken g))
     \<and> (ga_broken g \<longrightarrow> \<not> lt_admitting (ga_latch g))
     \<and> (\<not> ga_storeOpen g \<longrightarrow> ga_broken g \<or> (\<exists>n. phaseOf g n = Reopening))"

text \<open>A step of one call keeps the invariant if it keeps that call's part of it.\<close>

lemma guarded_move:
  assumes "guarded g" "phaseOf g n \<noteq> Answered"
    and "ga_latch g' = ga_latch g" "ga_calls g' = ga_calls g"
    and "\<And>m. phaseOf g' m = (if m = n then p else phaseOf g m)" "\<And>m. closedHereOf g' m = closedHereOf g m"
    and "ga_broken g' \<longrightarrow> p = Rejected SwapFailed \<or> \<not> closedHereOf g n" "p = Finishing \<or> p = Succeeded \<longrightarrow> \<not> ga_broken g'"
    and "\<not> ga_storeOpen g' \<longrightarrow> ga_broken g' \<or> p = Reopening"
  shows "guarded g'"
proof -
  have "\<not> lt_admitting (ga_latch g)" "n < ga_calls g" using assms(1,2) by (auto simp: guarded_def)
  moreover have "m = n" if "phaseOf g m \<noteq> Answered" for m using assms(1,2) that by (auto simp: guarded_def)
  ultimately show ?thesis using assms(3-9) unfolding guarded_def by (auto split: if_splits)
qed

lemma guarded_mine:
  assumes "guarded g" "phaseOf g n \<noteq> Answered"
  shows "\<not> lt_admitting (ga_latch g)" "phaseOf g n \<noteq> Rejected SwapFailed \<Longrightarrow> ga_broken g \<Longrightarrow> \<not> closedHereOf g n"
    "\<not> ga_storeOpen g \<Longrightarrow> ga_broken g \<or> phaseOf g n = Reopening" "\<And>m. phaseOf g m \<noteq> Answered \<Longrightarrow> m = n"
    "phaseOf g n = Finishing \<or> phaseOf g n = Succeeded \<Longrightarrow> \<not> ga_broken g" "ga_swaps g n \<noteq> None"
proof -
  show only: "m = n" if "phaseOf g m \<noteq> Answered" for m using assms that unfolding guarded_def by blast
  show "ga_broken g \<or> phaseOf g n = Reopening" if shut: "\<not> ga_storeOpen g"
  proof -
    consider "ga_broken g" | m where "phaseOf g m = Reopening" using assms(1) shut unfolding guarded_def by blast
    then show ?thesis
    proof cases
      case 2
      then have "m = n" by (intro only) simp
      then show ?thesis using 2 by simp
    qed simp
  qed
  show "\<not> lt_admitting (ga_latch g)" "phaseOf g n \<noteq> Rejected SwapFailed \<Longrightarrow> ga_broken g \<Longrightarrow> \<not> closedHereOf g n"
    "phaseOf g n = Finishing \<or> phaseOf g n = Succeeded \<Longrightarrow> \<not> ga_broken g" "ga_swaps g n \<noteq> None"
    using assms known [of g n] unfolding guarded_def by blast+
qed

lemma guarded_same:
  assumes "guarded g" "ga_swaps g' = ga_swaps g" "lt_admitting (ga_latch g') = lt_admitting (ga_latch g)" "ga_calls g' = ga_calls g"
    "ga_broken g' = ga_broken g" "ga_storeOpen g' = ga_storeOpen g"
  shows "guarded g'"
  using assms by (simp add: guarded_def phaseOf_def closedHereOf_def)

lemma guarded_step:
  assumes "serial_step g g'" "guarded g"
  shows "guarded g'"
proof -
  from assms(1) have step: "gate_step g g'" and serial: "ga_calls g' = ga_calls g \<or> (\<forall>n. phaseOf g n = Answered)"
    by (auto elim: serial_step.cases)
  from step show ?thesis
  proof cases
    case called
    then have none: "phaseOf g n = Answered" for n using serial by (simp add: beginSwap_def)
    have "phaseOf g' m = (if m = ga_calls g then Quiescing (lt_closes (ga_latch g)) else Answered)" for m
      using none by (simp add: called beginSwap_def phaseOf_def)
    moreover have "closedHereOf g' (ga_calls g) \<longleftrightarrow> lt_admitting (ga_latch g)"
      by (simp add: called beginSwap_def closedHereOf_def latch_isClosed_def)
    ultimately show ?thesis using assms(2) none by (auto simp: guarded_def called beginSwap_def)
  next
    case (operation n c b k missing)
    then have "phaseOf g n \<noteq> Answered" "phaseOf g n \<noteq> Rejected SwapFailed" by auto
    note mine = guarded_mine [OF assms(2) this(1)]
    from operation this mine show ?thesis
      by (intro guarded_move [OF assms(2), of n g' "if missing \<or> ga_exclusive g \<noteq> None then Rejected OrdinaryFailure else Preparing"]) (auto simp: callOperation_def)
  next
    case (unprepared n)
    then have "phaseOf g n \<noteq> Answered" "phaseOf g n \<noteq> Rejected SwapFailed" by auto
    note mine = guarded_mine [OF assms(2) this(1)]
    from unprepared this mine show ?thesis
      by (intro guarded_move [OF assms(2), of n g' "Rejected OrdinaryFailure"]) (auto simp: prepareFails_def)
  next
    case (replaced n)
    then have "phaseOf g n \<noteq> Answered" "phaseOf g n \<noteq> Rejected SwapFailed" by auto
    note mine = guarded_mine [OF assms(2) this(1)]
    from replaced this mine show ?thesis
      by (intro guarded_move [OF assms(2), of n g' Finishing]) (auto simp: replaceStore_def)
  next
    case (notReopened n)
    then have "phaseOf g n \<noteq> Answered" "phaseOf g n \<noteq> Rejected SwapFailed" by auto
    note mine = guarded_mine [OF assms(2) this(1)]
    from notReopened this mine show ?thesis
      by (intro guarded_move [OF assms(2), of n g' Reopening]) (auto simp: reopenFails_def)
  next
    case (swapFailed n reopened)
    then have "phaseOf g n \<noteq> Answered" "phaseOf g n \<noteq> Rejected SwapFailed" by auto
    note mine = guarded_mine [OF assms(2) this(1)]
    from swapFailed this mine show ?thesis
      by (intro guarded_move [OF assms(2), of n g' "Rejected SwapFailed"]) (auto simp: replaceFails_def)
  next
    case (finished n ok)
    then have "phaseOf g n \<noteq> Answered" "phaseOf g n \<noteq> Rejected SwapFailed" by auto
    note mine = guarded_mine [OF assms(2) this(1)]
    from finished this mine show ?thesis
      by (intro guarded_move [OF assms(2), of n g' "if ok then Succeeded else Rejected OrdinaryFailure"]) (auto simp: finishOperation_def)
  next
    case (answered n f)
    then have active: "phaseOf g n \<noteq> Answered" by auto
    note mine = guarded_mine [OF assms(2) this]
    obtain s where s: "ga_swaps g n = Some s" "sw_phase s = phaseOf g n" "closedHereOf g n = sw_closedHere s"
      using mine(6) by (auto simp: phaseOf_def closedHereOf_def)
    have "phaseOf g' m = Answered" for m
      using mine(4) s(1) by (auto simp: answered answerSwap_def Let_def)
    moreover have "ga_broken g \<Longrightarrow> \<not> lt_admitting (ga_latch g')"
      using mine s answered by (auto simp: answerSwap_def Let_def split: phase.splits failure.splits)
    moreover have "\<not> ga_storeOpen g \<Longrightarrow> ga_broken g" using mine(3) answered by auto
    ultimately show ?thesis unfolding guarded_def by (simp add: answered answerSwap_def s Let_def)
  qed (use assms(2) in \<open>auto intro: guarded_same\<close>)
qed

text \<open>
  C19: one replacement at a time is never seen by a client. While calls do not overlap, no
  request is admitted from the moment a call shut the gate until it is answered, none as long
  as the store is closed, and none after a failed swap left the file half-replaced, until a
  later replacement succeeds.
\<close>

theorem serial_swap_is_unseen:
  assumes "serial_step\<^sup>*\<^sup>* gate_start g" and "\<not> ga_storeOpen g \<or> ga_broken g \<or> phaseOf g n \<noteq> Answered"
  shows "latch_enter (ga_latch g) = (None, ga_latch g)"
proof -
  have "guarded gate_start" by (simp add: guarded_def gate_start_def phaseOf_def)
  with assms(1) have "guarded g" by (induction rule: rtranclp_induct) (auto intro: guarded_step)
  then have "\<not> lt_admitting (ga_latch g)" using assms(2) unfolding guarded_def by force
  then show ?thesis by (simp add: latch_enter_def)
qed

text \<open>
  A request is in flight; a restore of a snapshot that is gone waits for it, and a real one
  overtakes it: the release wakes the second, which is writing its undo snapshot when the
  first wakes, is refused and, having been the one that shut the gate, opens it. A second
  request enters.
\<close>

definition overtaken :: gate where
  "overtaken =
     (let g = gate_start\<lparr>ga_latch := snd (latch_enter (ga_latch gate_start))\<rparr>;
          g = beginSwap (beginSwap g);
          g = g\<lparr>ga_latch := latch_release 0 (ga_latch g)\<rparr>;
          g = g\<lparr>ga_latch := latch_wake 1 (ga_latch g)\<rparr>;
          g = callOperation 1 False g;
          g = g\<lparr>ga_latch := latch_wake 0 (ga_latch g)\<rparr>;
          g = answerSwap 0 (callOperation 0 True g)
      in g\<lparr>ga_latch := snd (latch_enter (ga_latch g))\<rparr>)"

lemma overtaken_reached: "gate_step\<^sup>*\<^sup>* gate_start overtaken"
proof -
  let ?g1 = "gate_start\<lparr>ga_latch := snd (latch_enter (ga_latch gate_start))\<rparr>"
  let ?g2 = "beginSwap ?g1" let ?g3 = "beginSwap ?g2"
  let ?g4 = "?g3\<lparr>ga_latch := latch_release 0 (ga_latch ?g3)\<rparr>"
  let ?g5 = "?g4\<lparr>ga_latch := latch_wake 1 (ga_latch ?g4)\<rparr>"
  let ?g6 = "callOperation 1 False ?g5"
  let ?g7 = "?g6\<lparr>ga_latch := latch_wake 0 (ga_latch ?g6)\<rparr>"
  let ?g8 = "callOperation 0 True ?g7" let ?g9 = "answerSwap 0 ?g8"
  have s1: "gate_step gate_start ?g1" by (rule gate_step.request)
  have s2: "gate_step ?g1 ?g2" and s3: "gate_step ?g2 ?g3" by (rule gate_step.called)+
  have s4: "gate_step ?g3 ?g4" by (rule gate_step.response) code_simp
  have s5: "gate_step ?g4 ?g5" by (rule gate_step.drained; code_simp)
  have s6: "gate_step ?g5 ?g6" by (rule gate_step.operation [where c = 1 and b = True and k = 0]; code_simp)
  have s7: "gate_step ?g6 ?g7" by (rule gate_step.deadline) code_simp
  have s8: "gate_step ?g7 ?g8" by (rule gate_step.operation [where c = 0 and b = True and k = 0]; code_simp)
  have s9: "gate_step ?g8 ?g9" by (rule gate_step.answered [where f = OrdinaryFailure]) code_simp
  have s10: "gate_step ?g9 overtaken" unfolding overtaken_def Let_def by (rule gate_step.request)
  show ?thesis
    by (intro rtranclp.rtrancl_into_rtrancl [of gate_step, OF _ s10] rtranclp.rtrancl_into_rtrancl [of gate_step, OF _ s9]
        rtranclp.rtrancl_into_rtrancl [of gate_step, OF _ s8] rtranclp.rtrancl_into_rtrancl [of gate_step, OF _ s7]
        rtranclp.rtrancl_into_rtrancl [of gate_step, OF _ s6] rtranclp.rtrancl_into_rtrancl [of gate_step, OF _ s5]
        rtranclp.rtrancl_into_rtrancl [of gate_step, OF _ s4] rtranclp.rtrancl_into_rtrancl [of gate_step, OF _ s3]
        rtranclp.rtrancl_into_rtrancl [of gate_step, OF _ s2] r_into_rtranclp [of gate_step, OF s1])
qed

text \<open>
  C20: overlapping replacements are seen. From a fresh gateway, with two calls of which the
  first is refused, a state is reached in which the second is about to replace the database
  and a client request has been let in; the file is replaced with that request in flight,
  and when its replacement fails instead the gate stays open over the half-replaced file.
\<close>

theorem overlapping_swaps_admit:
  "\<exists>g. gate_step\<^sup>*\<^sup>* gate_start g \<and> phaseOf g 1 = Preparing \<and> lt_held (ga_latch g) = {1}
     \<and> gate_step g (replaceStore 1 g) \<and> lt_held (ga_latch (replaceStore 1 g)) = {1}
     \<and> gate_step g (replaceFails 1 False g)
     \<and> (let g' = answerSwap 1 (replaceFails 1 False g)
        in gate_step (replaceFails 1 False g) g' \<and> ga_broken g' \<and> \<not> ga_storeOpen g' \<and> fst (latch_enter (ga_latch g')) \<noteq> None)"
proof (intro exI [of _ overtaken] conjI overtaken_reached)
  show preparing: "phaseOf overtaken 1 = Preparing" by code_simp
  then show "gate_step overtaken (replaceStore 1 overtaken)" "gate_step overtaken (replaceFails 1 False overtaken)"
    by (auto intro: gate_step.replaced gate_step.swapFailed)
  show held: "lt_held (ga_latch overtaken) = {1}" by code_simp
  then show "lt_held (ga_latch (replaceStore 1 overtaken)) = {1}" by (simp add: replaceStore_def)
  let ?f = "replaceFails 1 False overtaken" let ?g = "answerSwap 1 ?f"
  have "phaseOf ?f 1 = Rejected SwapFailed" by code_simp
  then have "gate_step ?f ?g" by (rule gate_step.answered [OF disjI2])
  moreover have "ga_broken ?g" "\<not> ga_storeOpen ?g" "lt_admitting (ga_latch ?g)" by code_simp+
  ultimately show "let g' = ?g in gate_step ?f g' \<and> ga_broken g' \<and> \<not> ga_storeOpen g' \<and> fst (latch_enter (ga_latch g')) \<noteq> None"
    by (simp add: Let_def latch_enter_def)
qed

theorem serial_swap_is_unseen_witness:
  "let g = reopenFails 0 (callOperation 0 False (beginSwap gate_start)) in latch_enter (ga_latch g) = (None, ga_latch g)"
proof -
  let ?g1 = "beginSwap gate_start" let ?g2 = "callOperation 0 False ?g1" let ?g3 = "reopenFails 0 ?g2"
  have s1: "serial_step gate_start ?g1" by (intro serial_step.intros gate_step.called) (simp add: gate_start_def phaseOf_def)
  have s2: "serial_step ?g1 ?g2"
    by (intro serial_step.intros gate_step.operation [where c = 0 and b = True and k = 0] disjI1; code_simp)
  have s3: "serial_step ?g2 ?g3" by (intro serial_step.intros gate_step.notReopened disjI1; code_simp)
  have "serial_step\<^sup>*\<^sup>* gate_start ?g3"
    by (rule rtranclp.rtrancl_into_rtrancl [of serial_step, OF rtranclp.rtrancl_into_rtrancl [of serial_step, OF r_into_rtranclp [of serial_step, OF s1] s2] s3])
  moreover have "\<not> ga_storeOpen ?g3" by (simp add: reopenFails_def)
  ultimately show ?thesis using serial_swap_is_unseen [of ?g3 0] by (simp add: Let_def)
qed

end
