(* ===== verification/Smart_Segments.thy ===== *)
theory Smart_Segments
  imports Wire_Sse "HOL-Library.Sublist"
begin

section \<open>What is judged before a request leaves the machine\<close>

text \<open>
  \<^verbatim>\<open>apps/gateway/src/smartRouter/extract.ts\<close>: every text of a request an external provider
  would be sent, cut into segments. Structured values are JSON, so \<^verbatim>\<open>serialise\<close> is
  \<open>stringify\<close> and its fallbacks for absent and unserialisable values are not reached. A
  cut avoids the middle of a surrogate pair: \<open>slices\<close> is over any code unit, with the test
  for a first half as its argument, and what it promises is proved for any such test
  (\<open>slices_whole\<close>); on the 8-bit code units of this model's strings no unit passes the test.
\<close>

definition SEGMENT_CHARS :: nat where "SEGMENT_CHARS = 8000"

definition JOIN :: string where "JOIN = [LF, LF]"

definition joinNonEmpty :: "string list \<Rightarrow> string \<Rightarrow> string" where
  "joinNonEmpty parts separator = intercalate separator (filter (\<lambda>part. part \<noteq> []) parts)"

definition serialise :: "json \<Rightarrow> string" where
  "serialise input = stringify input"

definition citedText :: "text_block \<Rightarrow> string" where
  "citedText block =
     (let citations = (if nullish (tb_citations block) [] \<noteq> [] then serialise (JArr (nullish (tb_citations block) [])) else [])
      in joinNonEmpty [tb_text block, citations] [LF])"

definition OPAQUE_KEYS :: "string list" where
  "OPAQUE_KEYS = [''signature'', ''encrypted_content'', ''encrypted_index'', ''id'', ''tool_use_id'', ''type'',
     ''cache_control'', ''media_type'']"

definition BASE64_FLOOR :: nat where "BASE64_FLOOR = 1000"

definition BASE64 :: "string \<Rightarrow> bool" where
  "BASE64 s \<longleftrightarrow> s \<noteq> [] \<and> list_all (\<lambda>c. let n = (of_char c :: nat) in
     65 \<le> n \<and> n \<le> 90 \<or> 97 \<le> n \<and> n \<le> 122 \<or> 48 \<le> n \<and> n \<le> 57 \<or> n \<in> {43, 47, 61, 13, 10}) s"

definition isBase64Payload :: "string \<Rightarrow> bool" where
  "isBase64Payload s \<longleftrightarrow> length s > BASE64_FLOOR \<and> BASE64 s"

text \<open>A JSON value is a tree, so the set of objects already seen is not needed.\<close>

fun nativeStrings :: "json \<Rightarrow> string list" where
  "nativeStrings (JStr s) = (if s \<noteq> [] \<and> \<not> isBase64Payload s then [s] else [])"
| "nativeStrings (JArr xs) = concat (map nativeStrings xs)"
| "nativeStrings (JObj ms) =
     (let base64Source = (map_of ms ''type'' = Some (JStr ''base64''))
      in concat (map (\<lambda>(key, item). if key \<in> set OPAQUE_KEYS \<or> base64Source \<and> key = ''data'' then [] else nativeStrings item) ms))"
| "nativeStrings v = []"

definition nativeText :: "provider_native_block \<Rightarrow> string" where
  "nativeText block =
     (let out = nativeStrings (pn_data block)
      in if out = [] then [] else ''['' @ pn_blockType block @ '']'' @ [LF] @ intercalate [LF] out)"

fun blockText :: "content_block \<Rightarrow> string" where
  "blockText (TextBlock b) = citedText b"
| "blockText (ThinkingBlock b) = th_text b"
| "blockText (ToolUseBlock b) =
     (let args = serialise (tu_input b)
      in if args = [] then ''tool call '' @ tu_name b else ''tool call '' @ tu_name b @ '': '' @ args)"
| "blockText (ToolResultBlock b) = joinNonEmpty (tr_content b # map nativeText (nullish (tr_native b) [])) [LF]"
| "blockText (ProviderNativeBlock b) = nativeText b"
| "blockText (ImageBlock b) = []"

fun systemText :: "content_block \<Rightarrow> string" where
  "systemText (TextBlock b) = citedText b"
| "systemText (ProviderNativeBlock b) = nativeText b"
| "systemText _ = []"

definition systemUnit :: "content_block list option \<Rightarrow> string" where
  "systemUnit system = joinNonEmpty (map systemText (nullish system [])) JOIN"

fun toolText :: "tool_def \<Rightarrow> string" where
  "toolText (ProviderTool t) = joinNonEmpty [pt_name t, serialise (pt_wire t)] [LF]"
| "toolText (PortableTool t) =
     joinNonEmpty [ct_name t, nullish (ct_description t) [], serialise (ct_inputSchema t),
       (case ct_options t of None \<Rightarrow> [] | Some v \<Rightarrow> serialise v)] [LF]"

definition toolsUnit :: "tool_def list option \<Rightarrow> (string \<times> json) list option \<Rightarrow> string" where
  "toolsUnit tools vendor =
     (let bag = (if nullish vendor [] \<noteq> [] then serialise (JObj (nullish vendor [])) else [])
      in joinNonEmpty (map toolText (nullish tools []) @ [bag]) JOIN)"

fun roleName :: "role \<Rightarrow> string" where
  "roleName User = ''user''"
| "roleName Assistant = ''assistant''"
| "roleName System = ''system''"

definition messageUnit :: "message \<Rightarrow> string" where
  "messageUnit m =
     (let body = joinNonEmpty (map blockText (msg_content m)) [LF]
      in if body = [] then [] else ''['' @ roleName (msg_role m) @ '']'' @ [LF] @ body)"

subsection \<open>Cutting and packing\<close>

text \<open>The end of the slice that begins at the start of what is left.\<close>

definition sliceEnd :: "('a \<Rightarrow> bool) \<Rightarrow> 'a list \<Rightarrow> nat" where
  "sliceEnd isHigh rest =
     (let end = min SEGMENT_CHARS (length rest)
      in if end < length rest \<and> isHigh (rest ! (end - 1)) then end - 1 else end)"

lemma sliceEnd_bounds:
  assumes "rest \<noteq> []"
  shows "0 < sliceEnd isHigh rest" "sliceEnd isHigh rest \<le> length rest" "sliceEnd isHigh rest \<le> SEGMENT_CHARS"
  using assms by (auto simp: sliceEnd_def Let_def SEGMENT_CHARS_def)

function slices :: "('a \<Rightarrow> bool) \<Rightarrow> 'a list \<Rightarrow> 'a list list" where
  "slices isHigh rest =
     (if rest = [] then []
      else take (sliceEnd isHigh rest) rest # slices isHigh (drop (sliceEnd isHigh rest) rest))"
  by pat_completeness auto
termination by (relation "measure (\<lambda>(isHigh, rest). length rest)") (auto intro!: diff_less sliceEnd_bounds(1))

declare slices.simps [simp del]

text \<open>The first half of a surrogate pair, by its code, and as the test of a unit of a string.\<close>

definition isHighSurrogate :: "nat \<Rightarrow> bool" where
  "isHighSurrogate code \<longleftrightarrow> code \<ge> 55296 \<and> code \<le> 56319"

definition highUnit :: "char \<Rightarrow> bool" where
  "highUnit c = isHighSurrogate (of_char c)"

lemma not_highUnit: "\<not> highUnit c"
proof -
  have "(of_char c :: nat) < 256" by simp
  then show ?thesis unfolding highUnit_def isHighSurrogate_def by linarith
qed

definition packStep :: "string list \<times> string \<Rightarrow> string \<Rightarrow> string list \<times> string" where
  "packStep acc unit = (case acc of (out, opened) \<Rightarrow>
     if opened = [] then (out, unit)
     else if length opened + length JOIN + length unit \<le> SEGMENT_CHARS then (out, opened @ JOIN @ unit)
     else (out @ [opened], unit))"

definition pack :: "string list \<Rightarrow> string list" where
  "pack units =
     (let (out, opened) = foldl packStep ([], []) (concat (map (slices highUnit) units))
      in if opened \<noteq> [] then out @ [opened] else out)"

definition messageUnits :: "chat_request \<Rightarrow> string list" where
  "messageUnits r = filter (\<lambda>unit. unit \<noteq> []) (map messageUnit (rq_messages r))"

definition segments :: "chat_request \<Rightarrow> string list" where
  "segments r =
     slices highUnit (systemUnit (rq_system r)) @ slices highUnit (toolsUnit (rq_tools r) (rq_vendor r))
     @ pack (messageUnits r)"

subsection \<open>Nothing is lost\<close>

lemma slices_props:
  "concat (slices isHigh rest) = rest \<and> (\<forall>s \<in> set (slices isHigh rest). 0 < length s \<and> length s \<le> SEGMENT_CHARS)"
proof (induction rest rule: length_induct)
  case (1 rest)
  show ?case
  proof (cases "rest = []")
    case True
    then show ?thesis by (simp add: slices.simps)
  next
    case False
    note b = sliceEnd_bounds [OF False, of isHigh]
    have "length (drop (sliceEnd isHigh rest) rest) < length rest" using b(1) False by simp
    from 1 [rule_format, OF this] show ?thesis
      using b False by (subst (1 2) slices.simps) (auto simp: min_def)
  qed
qed

text \<open>No slice but the last ends in the first half of a pair, where every first half is followed by another unit than a first half.\<close>

lemma slices_whole:
  assumes "\<forall>i. Suc i < length rest \<longrightarrow> isHigh (rest ! Suc i) \<longrightarrow> \<not> isHigh (rest ! i)"
  shows "\<forall>s \<in> set (butlast (slices isHigh rest)). \<not> isHigh (last s)"
  using assms
proof (induction rest rule: length_induct)
  case (1 rest)
  show ?case
  proof (cases "rest = []")
    case True
    then show ?thesis by (simp add: slices.simps)
  next
    case False
    let ?e = "sliceEnd isHigh rest"
    note b = sliceEnd_bounds [OF False, of isHigh]
    have shorter: "length (drop ?e rest) < length rest" using b(1) False by simp
    have pairs: "\<forall>i. Suc i < length (drop ?e rest) \<longrightarrow> isHigh (drop ?e rest ! Suc i) \<longrightarrow> \<not> isHigh (drop ?e rest ! i)"
      using 1(2) by auto
    have IH: "\<forall>s \<in> set (butlast (slices isHigh (drop ?e rest))). \<not> isHigh (last s)"
      using 1(1) shorter pairs by blast
    have cut: "\<not> isHigh (last (take ?e rest))" if "drop ?e rest \<noteq> []"
    proof -
      have le: "?e < length rest" using that by simp
      have last: "last (take ?e rest) = rest ! (?e - 1)" using b(1,2) False by (simp add: last_conv_nth)
      show ?thesis
      proof (cases "isHigh (rest ! (min SEGMENT_CHARS (length rest) - 1)) \<and> min SEGMENT_CHARS (length rest) < length rest")
        case True
        then have e: "?e = SEGMENT_CHARS - 1" "SEGMENT_CHARS < length rest" "isHigh (rest ! Suc (SEGMENT_CHARS - 2))"
          by (auto simp: sliceEnd_def Let_def SEGMENT_CHARS_def)
        then have "\<not> isHigh (rest ! (SEGMENT_CHARS - 2))" using 1(2) by (simp add: SEGMENT_CHARS_def)
        then show ?thesis unfolding last by (simp add: e(1) SEGMENT_CHARS_def)
      next
        case False
        then have "?e = min SEGMENT_CHARS (length rest)" by (auto simp: sliceEnd_def Let_def)
        then show ?thesis using False le unfolding last by auto
      qed
    qed
    show ?thesis
    proof (cases "drop ?e rest = []")
      case True
      then have "slices isHigh rest = [take ?e rest]" using False by (simp add: slices.simps)
      then show ?thesis by simp
    next
      case nonempty: False
      then have "slices isHigh (drop ?e rest) \<noteq> []" by (simp add: slices.simps)
      then show ?thesis using IH cut [OF nonempty] False by (subst slices.simps) simp
    qed
  qed
qed


subsection \<open>Packing\<close>

lemma intercalate_snoc: "g \<noteq> [] \<Longrightarrow> intercalate sep (g @ [u]) = intercalate sep g @ sep @ u"
  by (induction g rule: intercalate.induct [of _ sep]) simp_all

definition packed :: "string list \<Rightarrow> string list \<times> string \<Rightarrow> bool" where
  "packed units acc \<longleftrightarrow> (\<exists>gs g. fst acc = map (intercalate JOIN) gs \<and> snd acc = intercalate JOIN g \<and> concat gs @ g = units
     \<and> (g = [] \<longleftrightarrow> snd acc = []) \<and> length (snd acc) \<le> SEGMENT_CHARS
     \<and> (\<forall>s \<in> set (fst acc). 0 < length s \<and> length s \<le> SEGMENT_CHARS))"

lemma packed_step:
  assumes "packed units acc" and u: "u \<noteq> []" "length u \<le> SEGMENT_CHARS"
  shows "packed (units @ [u]) (packStep acc u)"
proof -
  obtain gs g where g: "fst acc = map (intercalate JOIN) gs" "snd acc = intercalate JOIN g" "concat gs @ g = units"
    "g = [] \<longleftrightarrow> snd acc = []" "length (snd acc) \<le> SEGMENT_CHARS"
    "\<forall>s \<in> set (fst acc). 0 < length s \<and> length s \<le> SEGMENT_CHARS" using assms(1) by (auto simp: packed_def)
  obtain out opened where acc: "acc = (out, opened)" by fastforce
  consider "opened = []" | "opened \<noteq> []" "length opened + length JOIN + length u \<le> SEGMENT_CHARS"
    | "opened \<noteq> []" "\<not> length opened + length JOIN + length u \<le> SEGMENT_CHARS" by blast
  then show ?thesis
  proof cases
    case 1
    then show ?thesis using g u
      by (auto simp: acc packed_def packStep_def intro!: exI [of _ gs] exI [of _ "[u]"])
  next
    case 2
    then have "g \<noteq> []" using g(4) acc by simp
    then show ?thesis using 2 g u
      by (auto simp: acc packed_def packStep_def intercalate_snoc intro!: exI [of _ gs] exI [of _ "g @ [u]"])
  next
    case 3
    then show ?thesis using g u
      by (auto simp: acc packed_def packStep_def intro!: exI [of _ "gs @ [g]"] exI [of _ "[u]"])
  qed
qed

lemma packed_all:
  assumes "\<forall>u \<in> set units. 0 < length u \<and> length u \<le> SEGMENT_CHARS"
  shows "packed units (foldl packStep ([], []) units)"
  using assms
proof (induction units rule: rev_induct)
  case Nil
  show ?case by (auto simp: packed_def intro!: exI [of _ "[]"])
next
  case (snoc u units)
  then show ?case using packed_step [of units _ u] by simp
qed

definition pieces :: "string list \<Rightarrow> string list" where
  "pieces units = concat (map (slices highUnit) units)"

lemma pieces_bounded: "\<forall>u \<in> set (pieces units). 0 < length u \<and> length u \<le> SEGMENT_CHARS"
  using slices_props [of highUnit] by (auto simp: pieces_def)

lemma pack_parts:
  "\<exists>gs. pack units = map (intercalate JOIN) gs \<and> concat gs = pieces units
     \<and> (\<forall>s \<in> set (pack units). 0 < length s \<and> length s \<le> SEGMENT_CHARS)"
proof -
  obtain out opened where f: "foldl packStep ([], []) (pieces units) = (out, opened)" by fastforce
  obtain gs g where "out = map (intercalate JOIN) gs" "opened = intercalate JOIN g" "concat gs @ g = pieces units"
    "g = [] \<longleftrightarrow> opened = []" "length opened \<le> SEGMENT_CHARS" "\<forall>s \<in> set out. 0 < length s \<and> length s \<le> SEGMENT_CHARS"
    using packed_all [OF pieces_bounded [of units]] f by (auto simp: packed_def)
  then show ?thesis
    using f by (auto simp: pack_def pieces_def [symmetric] intro!: exI [of _ "if opened = [] then gs else gs @ [g]"])
qed

lemma packStep_grows: "Sublist.prefix (fst acc) (fst (foldl packStep acc units))"
proof (induction units arbitrary: acc)
  case (Cons u units)
  have "Sublist.prefix (fst acc) (fst (packStep acc u))" by (auto simp: packStep_def split: prod.splits)
  then show ?case using Cons [of "packStep acc u"] by simp
qed simp

lemma pack_stable: "Sublist.prefix (butlast (pack units)) (pack (units @ later))"
proof -
  obtain out opened where f: "foldl packStep ([], []) (pieces units) = (out, opened)" by fastforce
  have "Sublist.prefix (butlast (pack units)) out"
    using f by (auto simp: pack_def pieces_def [symmetric] Let_def prefix_def butlast_conv_take) (metis append_take_drop_id)
  moreover have "Sublist.prefix out (fst (foldl packStep ([], []) (pieces (units @ later))))"
    using packStep_grows [of "(out, opened)" "pieces later"] f by (simp add: pieces_def)
  moreover have "Sublist.prefix (fst (foldl packStep ([], []) (pieces us))) (pack us)" for us
    by (auto simp: pack_def pieces_def [symmetric] split: prod.splits)
  ultimately show ?thesis by (meson prefix_order.trans)
qed

subsection \<open>Every text is in a segment\<close>

text \<open>
  The texts a request carries, said without the code's joining and cutting: of a native
  payload, the string leaves under no opaque key that are not encoded data; of a block, its
  own texts; of a tool, its name, description, schema and options or wire.
\<close>

fun leaf :: "string \<Rightarrow> json \<Rightarrow> bool" where
  "leaf t (JStr s) \<longleftrightarrow> s = t \<and> t \<noteq> [] \<and> \<not> isBase64Payload t"
| "leaf t (JArr xs) \<longleftrightarrow> (\<exists>x \<in> set xs. leaf t x)"
| "leaf t (JObj ms) \<longleftrightarrow> (\<exists>(k, x) \<in> set ms. k \<notin> set OPAQUE_KEYS
      \<and> \<not> (map_of ms ''type'' = Some (JStr ''base64'') \<and> k = ''data'') \<and> leaf t x)"
| "leaf t v \<longleftrightarrow> False"

fun textIn :: "string \<Rightarrow> content_block \<Rightarrow> bool" where
  "textIn t (TextBlock b) \<longleftrightarrow> t = tb_text b \<or> (\<exists>cs. tb_citations b = Some cs \<and> cs \<noteq> [] \<and> t = stringify (JArr cs))"
| "textIn t (ThinkingBlock b) \<longleftrightarrow> t = th_text b"
| "textIn t (ToolUseBlock b) \<longleftrightarrow> t = tu_name b \<or> t = stringify (tu_input b)"
| "textIn t (ToolResultBlock b) \<longleftrightarrow> t = tr_content b \<or> (\<exists>ns. tr_native b = Some ns \<and> (\<exists>n \<in> set ns. leaf t (pn_data n)))"
| "textIn t (ProviderNativeBlock b) \<longleftrightarrow> leaf t (pn_data b)"
| "textIn t (ImageBlock b) \<longleftrightarrow> False"

fun systemTextIn :: "string \<Rightarrow> content_block \<Rightarrow> bool" where
  "systemTextIn t (TextBlock b) \<longleftrightarrow> textIn t (TextBlock b)"
| "systemTextIn t (ProviderNativeBlock b) \<longleftrightarrow> textIn t (ProviderNativeBlock b)"
| "systemTextIn t _ \<longleftrightarrow> False"

fun toolTextIn :: "string \<Rightarrow> tool_def \<Rightarrow> bool" where
  "toolTextIn t (ProviderTool d) \<longleftrightarrow> t = pt_name d \<or> t = stringify (pt_wire d)"
| "toolTextIn t (PortableTool d) \<longleftrightarrow> t = ct_name d \<or> ct_description d = Some t \<or> t = stringify (ct_inputSchema d)
     \<or> (\<exists>v. ct_options d = Some v \<and> t = stringify v)"

lemma sublist_within:
  "sublist t x \<Longrightarrow> sublist t (xs @ x)" "sublist t x \<Longrightarrow> sublist t (x @ ys)" "sublist t x \<Longrightarrow> sublist t (c # x)"
  "sublist t x \<Longrightarrow> sublist x y \<Longrightarrow> sublist t y"
  unfolding sublist_def by (metis append.assoc append_Cons)+

lemma sublist_intercalate: "x \<in> set xs \<Longrightarrow> sublist x (intercalate sep xs)"
  by (induction sep xs rule: intercalate.induct) (auto intro: sublist_within)

lemma sublist_joined: "x \<in> set xs \<Longrightarrow> sublist x (joinNonEmpty xs sep)"
  by (cases "x = []") (auto simp: joinNonEmpty_def intro: sublist_intercalate)

lemma sublist_concat: "x \<in> set xs \<Longrightarrow> sublist x (concat xs)"
  by (induction xs) (auto intro: sublist_within)

lemma sublist_joined_trans: "sublist t x \<Longrightarrow> x \<in> set xs \<Longrightarrow> sublist t (joinNonEmpty xs sep)"
  using sublist_joined sublist_within(4) by blast

lemma leaf_native: "leaf t v \<Longrightarrow> t \<in> set (nativeStrings v)"
proof (induction v rule: nativeStrings.induct)
  case (3 ms)
  then show ?case by (fastforce simp: Let_def)
qed auto

lemma leaf_nativeText: "leaf t (pn_data b) \<Longrightarrow> sublist t (nativeText b)"
  using leaf_native [of t "pn_data b"] sublist_intercalate [of t "nativeStrings (pn_data b)" "[LF]"]
  by (auto simp: nativeText_def Let_def intro: sublist_within)

lemma textIn_blockText: "textIn t b \<Longrightarrow> sublist t (blockText b)"
proof (induction t b rule: textIn.induct)
  case (1 t b)
  then show ?case by (auto simp: citedText_def serialise_def Let_def intro!: sublist_joined)
next
  case (3 t b)
  then have "sublist t (tu_name b) \<or> sublist t (stringify (tu_input b))" by auto
  moreover have "sublist t (''tool call '' @ tu_name b @ ys)" if "sublist t (tu_name b)" for ys
    by (intro sublist_within(1,2) that)
  moreover have "sublist t (''tool call '' @ tu_name b @ '': '' @ stringify (tu_input b))" if "sublist t (stringify (tu_input b))"
    by (intro sublist_within(1) that)
  moreover have "sublist t (stringify (tu_input b)) \<Longrightarrow> stringify (tu_input b) = [] \<Longrightarrow> t = []" by simp
  ultimately show ?case by (auto simp: Let_def serialise_def simp del: append_Cons append_Nil) (metis append_Nil2)
next
  case (4 t b)
  let ?parts = "tr_content b # map nativeText (nullish (tr_native b) [])"
  have "\<exists>x \<in> set ?parts. sublist t x" using 4 leaf_nativeText by fastforce
  then show ?case by (simp only: blockText.simps) (blast intro: sublist_joined_trans)
next
  case (5 t b)
  then show ?case using leaf_nativeText by simp
qed auto

lemma systemTextIn_unit: "systemTextIn t b \<Longrightarrow> b \<in> set (nullish (rq_system r) []) \<Longrightarrow> sublist t (systemUnit (rq_system r))"
proof -
  assume t: "systemTextIn t b" and b: "b \<in> set (nullish (rq_system r) [])"
  have "sublist t (systemText b)" using t textIn_blockText [of t b] by (cases b) simp_all
  then show ?thesis unfolding systemUnit_def using b by (intro sublist_joined_trans [of t "systemText b"]) simp_all
qed

lemma toolTextIn_unit: "toolTextIn t d \<Longrightarrow> d \<in> set (nullish (rq_tools r) []) \<Longrightarrow> sublist t (toolsUnit (rq_tools r) (rq_vendor r))"
proof -
  assume t: "toolTextIn t d" and d: "d \<in> set (nullish (rq_tools r) [])"
  have "sublist t (toolText d)" using t
    by (cases d) (auto simp: serialise_def intro!: sublist_joined)
  then show ?thesis unfolding toolsUnit_def Let_def using d by (intro sublist_joined_trans [of t "toolText d"]) simp_all
qed

lemma bag_unit: "rq_vendor r = Some bag \<Longrightarrow> bag \<noteq> [] \<Longrightarrow> sublist (stringify (JObj bag)) (toolsUnit (rq_tools r) (rq_vendor r))"
  unfolding toolsUnit_def Let_def by (auto simp: serialise_def intro: sublist_joined)

lemma textIn_messages:
  assumes "textIn t b" and "b \<in> set (msg_content m)" and "m \<in> set ms"
  shows "sublist t (concat (map messageUnit ms))"
proof -
  have body: "sublist t (joinNonEmpty (map blockText (msg_content m)) [LF])"
    using textIn_blockText [OF assms(1)] assms(2) by (auto intro: sublist_joined_trans)
  have "sublist t (messageUnit m)"
  proof (cases "joinNonEmpty (map blockText (msg_content m)) [LF] = []")
    case True
    with body show ?thesis by (simp add: messageUnit_def)
  next
    case False
    have "sublist t (xs @ joinNonEmpty (map blockText (msg_content m)) [LF])" for xs
      using body by (rule sublist_within)
    from this [of "''['' @ roleName (msg_role m) @ '']'' @ [LF]"] False show ?thesis by (simp add: messageUnit_def Let_def)
  qed
  moreover have "sublist (messageUnit m) (concat (map messageUnit ms))" using assms(3) by (auto intro: sublist_concat)
  ultimately show ?thesis by (rule sublist_within)
qed

text \<open>
  C14: no text is sent unjudged. Every text of the system prompt, every name, description,
  schema and wire of a tool, the bag of pass-through fields, and every text of a message,
  tool calls, tool results, citations and the strings of native blocks included, is found
  whole when the segments are put together again, which gives the system text, the tools
  and the messages in order; images, the payload of the opaque keys and encoded data are not
  texts. No segment is empty or longer than a classifier call takes; and appending messages
  changes no segment but the last.
\<close>

theorem segments_complete:
  "(\<exists>sys tools packs. segments r = sys @ tools @ map (intercalate JOIN) packs
      \<and> concat sys = systemUnit (rq_system r) \<and> concat tools = toolsUnit (rq_tools r) (rq_vendor r)
      \<and> concat (concat packs) = concat (map messageUnit (rq_messages r))
      \<and> (\<forall>t. (\<exists>b \<in> set (nullish (rq_system r) []). systemTextIn t b) \<longrightarrow> sublist t (concat sys))
      \<and> (\<forall>t. (\<exists>d \<in> set (nullish (rq_tools r) []). toolTextIn t d)
            \<or> (\<exists>bag. rq_vendor r = Some bag \<and> bag \<noteq> [] \<and> t = stringify (JObj bag)) \<longrightarrow> sublist t (concat tools))
      \<and> (\<forall>t. (\<exists>m \<in> set (rq_messages r). \<exists>b \<in> set (msg_content m). textIn t b) \<longrightarrow> sublist t (concat (concat packs))))
    \<and> list_all (\<lambda>s. 0 < length s \<and> length s \<le> SEGMENT_CHARS) (segments r)
    \<and> Sublist.prefix (butlast (segments r)) (segments (r\<lparr>rq_messages := rq_messages r @ later\<rparr>))"
proof -
  let ?u = "messageUnits r"
  note cut = slices_props [of highUnit]
  obtain gs where gs: "pack ?u = map (intercalate JOIN) gs" "concat gs = pieces ?u" using pack_parts by blast
  have pieces: "concat (pieces us) = concat us" for us
  proof -
    have whole: "concat (slices highUnit u) = u" for u :: string using cut by blast
    show ?thesis unfolding pieces_def by (induction us) (simp_all add: whole)
  qed
  have blank: "concat (filter (\<lambda>unit. unit \<noteq> []) us) = concat us" for us :: "string list" by (induction us) simp_all
  let ?whole = "\<lambda>r. \<exists>sys tools packs. segments r = sys @ tools @ map (intercalate JOIN) packs
      \<and> concat sys = systemUnit (rq_system r) \<and> concat tools = toolsUnit (rq_tools r) (rq_vendor r)
      \<and> concat (concat packs) = concat (map messageUnit (rq_messages r))
      \<and> (\<forall>t. (\<exists>b \<in> set (nullish (rq_system r) []). systemTextIn t b) \<longrightarrow> sublist t (concat sys))
      \<and> (\<forall>t. (\<exists>d \<in> set (nullish (rq_tools r) []). toolTextIn t d)
            \<or> (\<exists>bag. rq_vendor r = Some bag \<and> bag \<noteq> [] \<and> t = stringify (JObj bag)) \<longrightarrow> sublist t (concat tools))
      \<and> (\<forall>t. (\<exists>m \<in> set (rq_messages r). \<exists>b \<in> set (msg_content m). textIn t b) \<longrightarrow> sublist t (concat (concat packs)))"
  have messages: "concat (concat gs) = concat (map messageUnit (rq_messages r))"
    using gs(2) by (simp add: pieces messageUnits_def blank)
  have whole: "concat (slices highUnit u) = u" for u using cut by blast
  have texts: "systemTextIn t b \<Longrightarrow> b \<in> set (nullish (rq_system r) []) \<Longrightarrow> sublist t (systemUnit (rq_system r))"
    "toolTextIn t d \<Longrightarrow> d \<in> set (nullish (rq_tools r) []) \<Longrightarrow> sublist t (toolsUnit (rq_tools r) (rq_vendor r))"
    "rq_vendor r = Some bag \<Longrightarrow> bag \<noteq> [] \<Longrightarrow> sublist (stringify (JObj bag)) (toolsUnit (rq_tools r) (rq_vendor r))"
    "textIn t b \<Longrightarrow> b \<in> set (msg_content m) \<Longrightarrow> m \<in> set (rq_messages r) \<Longrightarrow> sublist t (concat (map messageUnit (rq_messages r)))"
    for t b d bag m
    by (rule systemTextIn_unit toolTextIn_unit bag_unit textIn_messages; assumption)+
  have "?whole r"
    unfolding segments_def gs(1)
    by (rule exI [of _ "slices highUnit (systemUnit (rq_system r))"], rule exI [of _ "slices highUnit (toolsUnit (rq_tools r) (rq_vendor r))"],
        rule exI [of _ gs])
      (unfold messages whole, use texts in blast)
  moreover have "list_all (\<lambda>s. 0 < length s \<and> length s \<le> SEGMENT_CHARS) (segments r)"
    using cut pack_parts [of ?u] unfolding list_all_iff by (auto simp: segments_def)
  moreover have "Sublist.prefix (butlast (segments r)) (segments (r\<lparr>rq_messages := rq_messages r @ later\<rparr>))"
  proof -
    have units: "messageUnits (r\<lparr>rq_messages := rq_messages r @ later\<rparr>) = ?u @ filter (\<lambda>unit. unit \<noteq> []) (map messageUnit later)"
      by (simp add: messageUnits_def)
    have front: "Sublist.prefix (butlast xs) (xs @ ys)" for xs ys :: "string list"
      by (metis prefixI prefix_order.trans append_butlast_last_id butlast.simps(1) prefix_prefix self_append_conv2)
    show ?thesis
    proof (cases "pack ?u = []")
      case True
      have "Sublist.prefix (butlast (xs @ ys)) (xs @ ys @ zs)" for xs ys zs :: "string list"
        using front [of "xs @ ys" zs] by (simp only: append_assoc)
      then show ?thesis using True unfolding segments_def units by simp
    next
      case False
      then show ?thesis using pack_stable [of ?u] unfolding segments_def units by (simp add: butlast_append)
    qed
  qed
  ultimately show ?thesis by blast
qed

definition sample_sent :: chat_request where
  "sample_sent = \<lparr>rq_model = ''m'', rq_system = None, rq_messages = [\<lparr>msg_role = User, msg_content =
       [ToolResultBlock \<lparr>tr_toolUseId = ''tu'', tr_content = ''secret'', tr_images = None, tr_files = None,
          tr_native = None, tr_isError = None, tr_cacheControl = None\<rparr>]\<rparr>],
     rq_tools = Some [PortableTool \<lparr>ct_name = ''ls'', ct_description = None, ct_inputSchema = JObj [], ct_cacheControl = None, ct_options = None\<rparr>],
     rq_toolChoice = None, rq_maxTokens = None, rq_temperature = None, rq_stopSequences = None, rq_stream = True,
     rq_reasoning = None, rq_vendor = None, rq_providerHeaders = None, rq_betas = None, rq_conversationId = None\<rparr>"

theorem segments_complete_witness:
  "\<exists>sys tools packs. segments sample_sent = sys @ tools @ map (intercalate JOIN) packs \<and> sublist ''ls'' (concat tools)
     \<and> sublist ''secret'' (concat (concat packs))"
proof -
  obtain sys tools packs where *: "segments sample_sent = sys @ tools @ map (intercalate JOIN) packs"
    "\<And>t. \<exists>d \<in> set (nullish (rq_tools sample_sent) []). toolTextIn t d \<Longrightarrow> sublist t (concat tools)"
    "\<And>t. \<exists>m \<in> set (rq_messages sample_sent). \<exists>b \<in> set (msg_content m). textIn t b \<Longrightarrow> sublist t (concat (concat packs))"
    using segments_complete [of sample_sent "[]"] by blast
  from *(2) [of "''ls''"] *(3) [of "''secret''"] *(1) show ?thesis by (auto simp: sample_sent_def)
qed

end
