(* ===== verification/Guard_Text.thy ===== *)
theory Guard_Text
  imports Store_Types Ir_Stream Dispatch_Price Wire_Anthropic
begin

section \<open>What a classifier is shown, and what is read from it\<close>

text \<open>
  \<^verbatim>\<open>apps/gateway/src/guardrail/extract.ts\<close> and \<^verbatim>\<open>classifier.ts\<close>. The horizontal ellipsis of
  the truncation marker stands here as the character 133, which it is in the Windows code
  page; only its length matters.
\<close>

definition SYSTEM_CAP :: nat where "SYSTEM_CAP = 8000"
definition HUMAN_CAP :: nat where "HUMAN_CAP = 16000"
definition TOOL_RESULTS_CAP :: nat where "TOOL_RESULTS_CAP = 16000"

definition TRUNCATION_MARKER :: string where
  "TRUNCATION_MARKER = [LF, CHR ''['', CHR 0x85] @ '' truncated '' @ [CHR 0x85, CHR '']'', LF]"

record judged_text =
  jt_system :: string
  jt_human :: "string list"
  jt_toolResults :: "string list"
  jt_truncated :: bool

text \<open>
  \<^verbatim>\<open>slice\<close> clamps a negative bound from the end: with a cap under the marker's length the
  head is cut from the end of the text, as the source would. No caller passes one.
\<close>

definition sliceTo :: "int \<Rightarrow> string \<Rightarrow> string" where
  "sliceTo n s = take (nat (if n < 0 then int (length s) + n else n)) s"

definition sliceLast :: "int \<Rightarrow> string \<Rightarrow> string" where
  "sliceLast n s = drop (nat (if n > 0 then int (length s) - n else - n)) s"

definition capText :: "string \<Rightarrow> nat \<Rightarrow> string \<times> bool" where
  "capText text cap =
     (if length text \<le> cap then (text, False)
      else
        let room = int cap - int (length TRUNCATION_MARKER); head = - ((- room) div 2); tail = room - head
        in (sliceTo head text @ TRUNCATION_MARKER @ (if tail = 0 then [] else sliceLast tail text), True))"

fun capFrom :: "nat \<Rightarrow> string list \<Rightarrow> string list \<times> bool" where
  "capFrom room [] = ([], False)"
| "capFrom room (text # texts) =
     (if length text > room \<and> room \<le> length TRUNCATION_MARKER then ([], True)
      else
        let capped = capText text room; (kept, truncated) = capFrom (room - length (fst capped)) texts
        in (fst capped # kept, snd capped \<or> truncated))"

definition capNewestFirst :: "string list \<Rightarrow> nat \<Rightarrow> string list \<times> bool" where
  "capNewestFirst texts cap = capFrom cap texts"

fun textBlocks :: "content_block list \<Rightarrow> string list" where
  "textBlocks [] = []"
| "textBlocks (TextBlock b # bs) = tb_text b # textBlocks bs"
| "textBlocks (_ # bs) = textBlocks bs"

definition textOf :: "content_block list \<Rightarrow> string" where
  "textOf blocks = intercalate [LF, LF] (textBlocks blocks)"

fun isToolResult :: "content_block \<Rightarrow> bool" where
  "isToolResult (ToolResultBlock b) = True"
| "isToolResult _ = False"

fun isText :: "content_block \<Rightarrow> bool" where
  "isText (TextBlock b) = True"
| "isText _ = False"

definition humanWrote :: "message \<Rightarrow> bool" where
  "humanWrote m \<longleftrightarrow> msg_role m = User \<and> \<not> list_ex isToolResult (msg_content m) \<and> list_ex isText (msg_content m)"

text \<open>The walk backwards over the messages: the texts found, newest first, and what follows the oldest of them.\<close>

fun walkHuman :: "nat \<Rightarrow> message list \<Rightarrow> message list \<Rightarrow> string list \<times> message list" where
  "walkHuman 0 rest seen = ([], seen)"
| "walkHuman (Suc k) [] seen = ([], seen)"
| "walkHuman (Suc k) (m # rest) seen =
     (if humanWrote m
      then (case walkHuman k rest (m # seen) of (found, window) \<Rightarrow>
              (textOf (msg_content m) # found, if found = [] then seen else window))
      else walkHuman (Suc k) rest (m # seen))"

definition windowOf :: "rat \<Rightarrow> nat" where
  "windowOf turns = (if of_int \<lfloor>turns\<rfloor> \<noteq> turns \<or> turns < 1 then 1 else nat \<lfloor>min turns GUARDRAIL_HISTORY_TURNS_MAX\<rfloor>)"

fun resultTexts :: "content_block list \<Rightarrow> string list" where
  "resultTexts [] = []"
| "resultTexts (ToolResultBlock b # bs) = tr_content b # resultTexts bs"
| "resultTexts (_ # bs) = resultTexts bs"

definition returned :: "message list \<Rightarrow> string list" where
  "returned ms = concat (map (\<lambda>m. if msg_role m = User then rev (resultTexts (msg_content m)) else []) (rev ms))"

definition judgedText :: "chat_request \<Rightarrow> rat \<Rightarrow> judged_text" where
  "judgedText r turns =
     (let system = capText (textOf (nullish (rq_system r) [])) SYSTEM_CAP;
          (found, window) = walkHuman (windowOf turns) (rev (rq_messages r)) [];
          human = capNewestFirst found HUMAN_CAP;
          results = capNewestFirst (returned (if found = [] then rq_messages r else window)) TOOL_RESULTS_CAP
      in \<lparr>jt_system = fst system, jt_human = rev (fst human), jt_toolResults = rev (fst results),
          jt_truncated = snd system \<or> snd human \<or> snd results\<rparr>)"

subsection \<open>The request\<close>

definition SECTIONS :: "string list" where
  "SECTIONS = [''policy'', ''system_prompt'', ''earlier_messages'', ''message'', ''tool_results'', ''result'', ''request'']"

definition tagSkip :: "char \<Rightarrow> bool" where
  "tagSkip c \<longleftrightarrow> isJsSpace c \<or> c = CHR ''/''"

text \<open>The lookahead of the expression: blanks and slashes, then a section's name in any case.\<close>

definition opensSection :: "string list \<Rightarrow> string \<Rightarrow> bool" where
  "opensSection sections s \<longleftrightarrow> list_ex (\<lambda>name. prefix name (toLowerCase (dropWhile tagSkip s))) sections"

fun fenceFor :: "string list \<Rightarrow> string \<Rightarrow> string" where
  "fenceFor sections [] = []"
| "fenceFor sections (c # s) =
     (if c = CHR ''<'' \<and> opensSection sections s then c # CHR 0x5C # fenceFor sections s else c # fenceFor sections s)"

definition fence :: "string \<Rightarrow> string" where
  "fence text = fenceFor SECTIONS text"

definition sectionOf :: "string \<Rightarrow> string \<Rightarrow> string" where
  "sectionOf name text = ''<'' @ name @ ''>'' @ [LF] @ fence text @ [LF] @ ''</'' @ name @ ''>''"

definition numbered :: "string \<Rightarrow> nat \<Rightarrow> string \<Rightarrow> string" where
  "numbered name i text = ''<'' @ name @ '' n='' @ quoted (digitsOf (i + 1)) @ ''>'' @ [LF] @ fence text @ [LF] @ ''</'' @ name @ ''>''"

definition group :: "string \<Rightarrow> string \<Rightarrow> string list \<Rightarrow> string list" where
  "group name item texts = (if texts = [] then []
     else [intercalate [LF] ([''<'' @ name @ ''>''] @ map (\<lambda>(i, t). numbered item i t) (enumerate 0 texts) @ [''</'' @ name @ ''>''])])"

definition classifierBody :: "string \<Rightarrow> judged_text \<Rightarrow> string" where
  "classifierBody policy judged =
     (let earlier = butlast (jt_human judged); latest = (if jt_human judged = [] then [] else last (jt_human judged))
      in intercalate [LF, LF] ([sectionOf ''policy'' policy, sectionOf ''system_prompt'' (jt_system judged)]
           @ group ''earlier_messages'' ''message'' earlier
           @ group ''tool_results'' ''result'' (jt_toolResults judged)
           @ [sectionOf ''request'' latest]))"

definition CLASSIFIER_MAX_TOKENS :: nat where "CLASSIFIER_MAX_TOKENS = 1024"

text \<open>The instruction is fixed text, passed as it is.\<close>

definition classifierRequest :: "string \<Rightarrow> string \<Rightarrow> string \<Rightarrow> judged_text \<Rightarrow> chat_request" where
  "classifierRequest instruction model policy judged =
     (let block = (\<lambda>t. TextBlock \<lparr>tb_text = t, tb_cacheControl = None, tb_citations = None\<rparr>)
      in \<lparr>rq_model = model, rq_system = Some [block instruction],
          rq_messages = [\<lparr>msg_role = User, msg_content = [block (classifierBody policy judged)]\<rparr>],
          rq_tools = None, rq_toolChoice = None, rq_maxTokens = Some CLASSIFIER_MAX_TOKENS, rq_temperature = None,
          rq_stopSequences = None, rq_stream = False, rq_reasoning = None, rq_vendor = None, rq_providerHeaders = None,
          rq_betas = None, rq_conversationId = None\<rparr>)"

subsection \<open>The answer\<close>

datatype policy_verdict = Allow | Deny

fun FINISHED :: "stop_reason \<Rightarrow> bool" where
  "FINISHED EndTurn = True"
| "FINISHED StopSequence = True"
| "FINISHED MaxTokens = False"
| "FINISHED ToolUse = False"
| "FINISHED ContentFilter = False"
| "FINISHED PauseTurn = False"

definition upperChar :: "char \<Rightarrow> char" where
  "upperChar c = (let n = (of_char c :: nat) in
     if 97 \<le> n \<and> n \<le> 122 \<or> 224 \<le> n \<and> n \<le> 254 \<and> n \<noteq> 247 then char_of (n - 32) else c)"

definition dropStop :: "string \<Rightarrow> string" where
  "dropStop s = (if s \<noteq> [] \<and> last s = CHR ''.'' then butlast s else s)"

definition readWord :: "collected_response \<Rightarrow> string option" where
  "readWord response =
     (if \<not> FINISHED (cr_stopReason response) then None
      else Some (map upperChar (dropStop (js_trim (concat (textBlocks (cr_content response)))))))"

definition parseVerdict :: "collected_response \<Rightarrow> policy_verdict option" where
  "parseVerdict response = (case readWord response of
     None \<Rightarrow> None
   | Some w \<Rightarrow> if w = ''ALLOW'' then Some Allow else if w = ''DENY'' then Some Deny else None)"

subsection \<open>Bounds\<close>

lemma marker_length: "length TRUNCATION_MARKER = 17"
  by (simp add: TRUNCATION_MARKER_def)

lemma capText_length:
  assumes "length TRUNCATION_MARKER \<le> cap"
  shows "length (fst (capText text cap)) \<le> cap"
proof (cases "length text \<le> cap")
  case False
  let ?room = "int cap - 17"
  let ?head = "- ((- ?room) div 2)"
  have "0 \<le> ?head" "?head \<le> ?room" using assms unfolding marker_length by presburger+
  then have "int (length (sliceTo ?head text)) \<le> ?head" "int (length (sliceLast (?room - ?head) text)) \<le> ?room - ?head \<or> ?room - ?head = 0"
    by (auto simp: sliceTo_def sliceLast_def)
  then show ?thesis using False \<open>?head \<le> ?room\<close> by (auto simp: capText_def Let_def marker_length)
qed (simp add: capText_def)

lemma capFrom_total: "sum_list (map length (fst (capFrom room texts))) \<le> room"
proof (induction room texts rule: capFrom.induct)
  case (2 room t ts)
  show ?case
  proof (cases "length t > room \<and> room \<le> length TRUNCATION_MARKER")
    case False
    then have "length t \<le> room \<or> length TRUNCATION_MARKER \<le> room" by auto
    then have "length (fst (capText t room)) \<le> room" using capText_length [of room t] by (cases "length t \<le> room") (auto simp: capText_def)
    then show ?thesis using 2 [OF False refl] False by (simp add: Let_def case_prod_beta)
  qed simp
qed simp

lemma capFrom_length: "length (fst (capFrom room texts)) \<le> length texts"
  by (induction room texts rule: capFrom.induct) (auto simp: Let_def case_prod_beta)

lemma walkHuman_length: "length (fst (walkHuman k ms seen)) \<le> k"
  by (induction k ms seen rule: walkHuman.induct) (auto split: prod.splits)

text \<open>
  What a classifier is sent is bounded, whatever the client sends. The system text keeps
  to its cap, the human messages and the tool results each to a cap of their own in total, and
  no more messages are judged than the setting allows.
\<close>

theorem judgedText_bounded:
  "length (jt_system (judgedText r turns)) \<le> SYSTEM_CAP
    \<and> sum_list (map length (jt_human (judgedText r turns))) \<le> HUMAN_CAP
    \<and> sum_list (map length (jt_toolResults (judgedText r turns))) \<le> TOOL_RESULTS_CAP
    \<and> length (jt_human (judgedText r turns)) \<le> windowOf turns \<and> windowOf turns \<le> 10"
proof -
  obtain found window where walk: "walkHuman (windowOf turns) (rev (rq_messages r)) [] = (found, window)" by fastforce
  have "length (fst (capFrom HUMAN_CAP found)) \<le> windowOf turns"
    using walkHuman_length [of "windowOf turns" "rev (rq_messages r)" "[]"] capFrom_length [of HUMAN_CAP found] walk by simp
  moreover have "windowOf turns \<le> 10" proof -
    have "nat \<lfloor>min turns 10\<rfloor> \<le> nat \<lfloor>10 :: rat\<rfloor>" by (intro nat_mono floor_mono) simp
    then show ?thesis by (simp add: windowOf_def GUARDRAIL_HISTORY_TURNS_MAX_def)
  qed
  ultimately show ?thesis
    using capText_length [of SYSTEM_CAP] capFrom_total
    by (simp add: judgedText_def Let_def walk capNewestFirst_def rev_map [symmetric] marker_length SYSTEM_CAP_def)
qed

text \<open>
  When everything fits, nothing is changed and nothing is flagged.
\<close>

lemma capFrom_fits: "sum_list (map length texts) \<le> room \<Longrightarrow> capFrom room texts = (texts, False)"
  by (induction texts arbitrary: room) (auto simp: capText_def Let_def)

subsection \<open>The fence\<close>

text \<open>The places where a reader sees a section begin or end.\<close>

fun tags :: "string list \<Rightarrow> string \<Rightarrow> nat" where
  "tags sections [] = 0"
| "tags sections (c # s) = (if c = CHR ''<'' \<and> opensSection sections s then 1 else 0) + tags sections s"

definition plainNames :: "string list \<Rightarrow> bool" where
  "plainNames sections \<longleftrightarrow> (\<forall>n \<in> set sections. n \<noteq> [] \<and> (\<forall>c \<in> set n. c \<noteq> CHR ''<'' \<and> c \<noteq> CHR 0x5C \<and> \<not> tagSkip c))"

text \<open>A name is matched before a character it does not hold, or not at all.\<close>

lemma prefix_stops: "c \<notin> set n \<Longrightarrow> prefix n (xs @ c # ys) \<longleftrightarrow> prefix n xs"
proof (induction n arbitrary: xs)
  case (Cons a n)
  then show ?case by (cases xs) auto
qed simp

lemma lowerChar_fixed: "tagSkip c \<or> c = CHR ''<'' \<or> c = CHR 0x5C \<Longrightarrow> lowerChar c = c"
  by (auto simp: tagSkip_def isJsSpace_def lowerChar_def Let_def)

definition glued :: "string \<Rightarrow> bool" where
  "glued b \<longleftrightarrow> (case b of [] \<Rightarrow> True | c # _ \<Rightarrow> tagSkip c \<or> c = CHR ''<'')
     \<and> (case dropWhile tagSkip b of [] \<Rightarrow> True | c # _ \<Rightarrow> c = CHR ''<'')"

lemma no_match:
  assumes "plainNames sections" "case dropWhile tagSkip b of [] \<Rightarrow> True | c # _ \<Rightarrow> c = CHR ''<'' \<or> c = CHR 0x5C"
  shows "\<not> opensSection sections b"
proof (cases "dropWhile tagSkip b")
  case Nil
  show ?thesis using assms(1) unfolding opensSection_def Nil by (auto simp: list_ex_iff toLowerCase_def plainNames_def)
next
  case (Cons c r)
  then have c: "c = CHR ''<'' \<or> c = CHR 0x5C" using assms(2) by simp
  have "\<not> prefix n (c # map lowerChar r)" if "n \<in> set sections" for n
    using prefix_stops [of c n "[]"] c assms(1) that by (auto simp: plainNames_def)
  then show ?thesis using Cons c by (simp add: opensSection_def list_ex_iff toLowerCase_def lowerChar_fixed)
qed

lemma opens_glued:
  assumes "plainNames sections" "glued b"
  shows "opensSection sections (s @ b) = opensSection sections s"
proof (cases "\<forall>c \<in> set s. tagSkip c")
  case True
  then have d: "dropWhile tagSkip (s @ b) = dropWhile tagSkip b" "dropWhile tagSkip s = []" by simp_all
  have "case dropWhile tagSkip b of [] \<Rightarrow> True | c # _ \<Rightarrow> c = CHR ''<'' \<or> c = CHR 0x5C"
    using assms(2) unfolding glued_def by (cases "dropWhile tagSkip b") (simp_all del: dropWhile_eq_Nil_conv)
  then have "\<not> opensSection sections (s @ b)" by (intro no_match [OF assms(1)]) (unfold d(1))
  moreover have "\<not> opensSection sections s" by (rule no_match [OF assms(1)]) (unfold d(2), simp)
  ultimately show ?thesis by simp
next
  case False
  then have dw: "dropWhile tagSkip (s @ b) = dropWhile tagSkip s @ b" by (auto simp: dropWhile_append)
  show ?thesis
  proof (cases b)
    case (Cons c b')
    then have c: "tagSkip c \<or> c = CHR ''<''" using assms(2) by (simp add: glued_def)
    have "prefix n (toLowerCase (dropWhile tagSkip s) @ c # toLowerCase b') \<longleftrightarrow> prefix n (toLowerCase (dropWhile tagSkip s))"
      if "n \<in> set sections" for n
      using c assms(1) that by (intro prefix_stops) (auto simp: plainNames_def)
    moreover have "lowerChar c = c" using c by (auto intro: lowerChar_fixed)
    ultimately show ?thesis by (simp add: opensSection_def Cons dw [unfolded Cons] list_ex_iff toLowerCase_def)
  qed simp
qed

lemma glued_lt: "glued (CHR ''<'' # r)"
  by (simp add: glued_def tagSkip_def isJsSpace_def)

lemma opens_fence:
  assumes "plainNames sections"
  shows "opensSection sections (fenceFor sections s) = opensSection sections s"
proof (cases "CHR ''<'' \<in> set s")
  case True
  then obtain p r where s: "s = p @ CHR ''<'' # r" "CHR ''<'' \<notin> set p" by (meson split_list_first)
  have "\<exists>r'. fenceFor sections (p @ CHR ''<'' # r) = p @ CHR ''<'' # r'"
    using s(2) by (induction p) auto
  then show ?thesis using opens_glued [OF assms glued_lt] s(1) by metis
next
  case False
  then have "fenceFor sections s = s" by (induction s) auto
  then show ?thesis by simp
qed

lemma tags_fence: "plainNames sections \<Longrightarrow> tags sections (fenceFor sections s) = 0"
proof (induction s)
  case (Cons c s)
  have "\<not> opensSection sections (CHR 0x5C # fenceFor sections s)"
    using Cons.prems by (intro no_match) (auto simp: tagSkip_def isJsSpace_def)
  then show ?case using Cons opens_fence by simp
qed simp

text \<open>Text that contributes \<open>k\<close> tags whatever follows it.\<close>

definition counted :: "string \<Rightarrow> nat \<Rightarrow> bool" where
  "counted p k \<longleftrightarrow> (\<forall>b. tags SECTIONS (p @ b) = k + tags SECTIONS b)"

lemma tags_glued: "plainNames sections \<Longrightarrow> glued b \<Longrightarrow> tags sections (a @ b) = tags sections a + tags sections b"
  by (induction a) (auto simp: opens_glued)

lemma counted_tags: "counted p k \<Longrightarrow> tags SECTIONS p = k"
  unfolding counted_def by (metis add.right_neutral append_Nil2 tags.simps(1))

lemma counted_append: "counted p k \<Longrightarrow> counted q l \<Longrightarrow> counted (p @ q) (k + l)"
  by (simp add: counted_def)

lemma counted_plain: "CHR ''<'' \<notin> set p \<Longrightarrow> counted p 0"
  by (induction p) (auto simp: counted_def)

lemma counted_intercalate:
  "list_all2 counted ps ks \<Longrightarrow> CHR ''<'' \<notin> set sep \<Longrightarrow> counted (intercalate sep ps) (sum_list ks)"
proof (induction sep ps arbitrary: ks rule: intercalate.induct)
  case (1 sep)
  then show ?case by (simp add: counted_def)
next
  case (2 sep x)
  then show ?case by (auto simp: list_all2_Cons1)
next
  case (3 sep x y ys)
  then obtain k ks' where ks: "ks = k # ks'" "counted x k" "list_all2 counted (y # ys) ks'" by (auto simp: list_all2_Cons1)
  then show ?case
    using counted_append [OF ks(2) counted_append [OF counted_plain [OF 3(3)] 3(1) [OF ks(3) 3(3)]]] by simp
qed

lemma sections_plain: "plainNames SECTIONS"
  by (simp add: plainNames_def SECTIONS_def tagSkip_def isJsSpace_def)

lemma counted_tag:
  assumes "name \<in> set SECTIONS" "list_all tagSkip lead"
  shows "counted (CHR ''<'' # lead @ name) 1"
proof -
  have name: "toLowerCase name = name" "CHR ''<'' \<notin> set name" "name \<noteq> []" "\<not> tagSkip (hd name)" "CHR ''<'' \<notin> set lead"
    using assms by (auto simp: plainNames_def list_all_iff tagSkip_def isJsSpace_def SECTIONS_def toLowerCase_def lowerChar_def)
  have "opensSection SECTIONS (lead @ name @ b)" for b
  proof -
    have "dropWhile tagSkip (lead @ name @ b) = name @ b"
      using assms(2) name(3,4) by (cases name) (auto simp: list_all_iff)
    then show ?thesis using assms(1) name(1)
      by (auto simp: opensSection_def list_ex_iff toLowerCase_def intro!: bexI [of _ name])
  qed
  moreover have "tags SECTIONS ((lead @ name) @ b) = tags SECTIONS b" for b
    using counted_plain [of "lead @ name"] name(2,5) by (simp add: counted_def)
  ultimately show ?thesis by (simp add: counted_def)
qed

lemma counted_fenced:
  assumes "name \<in> set SECTIONS"
  shows "counted (fence text @ [LF] @ ''</'' @ name) 1"
proof -
  have close: "counted (''</'' @ name) 1" using counted_tag [OF assms, of "''/''"] by (simp add: tagSkip_def)
  have "glued (LF # CHR ''<'' # r)" for r by (simp add: glued_def LF_def tagSkip_def isJsSpace_def)
  then show ?thesis
    using close tags_glued [OF sections_plain] tags_fence [OF sections_plain]
    by (simp add: counted_def fence_def) (simp add: LF_def)
qed

lemma counted_section:
  assumes "name \<in> set SECTIONS" "CHR ''<'' \<notin> set attr"
  shows "counted (''<'' @ name @ attr @ ''>'' @ [LF] @ fence t @ [LF] @ ''</'' @ name @ ''>'') 2"
proof -
  have open_tag: "counted (''<'' @ name) 1" using counted_tag [OF assms(1), of "[]"] by simp
  have attr: "counted (attr @ ''>'' @ [LF]) 0" using assms(2) by (intro counted_plain) (simp add: LF_def)
  have bracket: "counted ''>'' 0" by (intro counted_plain) simp
  show ?thesis
    using counted_append [OF open_tag counted_append [OF attr counted_append [OF counted_fenced [OF assms(1)] bracket]]]
    by (simp add: numeral_2_eq_2)
qed

lemma digits_plain: "CHR ''<'' \<notin> set (digitsOf n)"
proof (induction n rule: digitsOf.induct)
  case (1 n)
  have "CHR ''<'' \<noteq> char_of (48 + d)" if "d < 10" for d :: nat
  proof
    assume "CHR ''<'' = char_of (48 + d)"
    then have "(of_char (CHR ''<'') :: nat) = of_char (char_of (48 + d) :: char)" by (rule arg_cong)
    with that show False by simp
  qed
  with 1 show ?case by (subst digitsOf.simps) auto
qed

lemma counted_numbered: "name \<in> set SECTIONS \<Longrightarrow> counted (numbered name i t) 2"
  using counted_section [of name "'' n='' @ quoted (digitsOf (i + 1))" t] digits_plain by (simp add: numbered_def quoted_def)

lemma counted_group:
  assumes "name \<in> set SECTIONS" "item \<in> set SECTIONS"
  shows "list_all2 counted (group name item texts) (if texts = [] then [] else [2 + 2 * length texts])"
proof (cases "texts = []")
  case False
  have bracket: "counted ''>'' 0" by (intro counted_plain) simp
  have op: "counted (''<'' @ name @ ''>'') 1" and cl: "counted (''</'' @ name @ ''>'') 1"
    using counted_append [OF counted_tag [OF assms(1), of "[]"] bracket] counted_append [OF counted_tag [OF assms(1), of "''/''"] bracket]
    by (simp_all add: tagSkip_def)
  have "list_all2 counted (map (\<lambda>(i, t). numbered item i t) (enumerate n texts)) (replicate (length texts) 2)" for n
    using counted_numbered [OF assms(2)] by (induction texts arbitrary: n) auto
  then have "list_all2 counted ([''<'' @ name @ ''>''] @ map (\<lambda>(i, t). numbered item i t) (enumerate 0 texts) @ [''</'' @ name @ ''>''])
      ([1] @ replicate (length texts) 2 @ [1])"
    using op cl by (intro list_all2_appendI) auto
  from counted_intercalate [OF this, of "[LF]"] show ?thesis using False
    by (simp add: group_def LF_def sum_list_replicate mult.commute del: enumerate_simps)
qed (simp add: group_def)

text \<open>
  C22: nothing a client or an operator writes opens or closes a section. In the text a
  classifier is sent, a reader who takes any spelling of a section's tag for a boundary
  sees exactly those the gateway wrote: one pair for each section present and one for each
  numbered message and result.
\<close>

theorem classifier_sections_unforgeable:
  "tags SECTIONS (classifierBody policy judged) =
     6 + (let n = length (butlast (jt_human judged)) in if n = 0 then 0 else 2 + 2 * n)
       + (let n = length (jt_toolResults judged) in if n = 0 then 0 else 2 + 2 * n)"
proof -
  let ?e = "butlast (jt_human judged)"
  let ?r = "jt_toolResults judged"
  have names: "''policy'' \<in> set SECTIONS" "''system_prompt'' \<in> set SECTIONS" "''request'' \<in> set SECTIONS"
    "''earlier_messages'' \<in> set SECTIONS" "''message'' \<in> set SECTIONS" "''tool_results'' \<in> set SECTIONS" "''result'' \<in> set SECTIONS"
    by (simp_all add: SECTIONS_def)
  have one: "counted (sectionOf name t) 2" if "name \<in> set SECTIONS" for name t
    using counted_section [OF that, of "[]" t] by (simp add: sectionOf_def)
  have "list_all2 counted ([sectionOf ''policy'' policy, sectionOf ''system_prompt'' (jt_system judged)]
         @ group ''earlier_messages'' ''message'' ?e @ group ''tool_results'' ''result'' ?r
         @ [sectionOf ''request'' (if jt_human judged = [] then [] else last (jt_human judged))])
      ([2, 2] @ (if ?e = [] then [] else [2 + 2 * length ?e]) @ (if ?r = [] then [] else [2 + 2 * length ?r]) @ [2])"
    by (intro list_all2_appendI counted_group names) (simp_all add: one names)
  from counted_intercalate [OF this, of "[LF, LF]"] have "tags SECTIONS (classifierBody policy judged)
      = sum_list ([2, 2] @ (if ?e = [] then [] else [2 + 2 * length ?e]) @ (if ?r = [] then [] else [2 + 2 * length ?r]) @ [2])"
    by (intro counted_tags) (simp add: classifierBody_def Let_def LF_def)
  then show ?thesis by (auto simp: Let_def simp del: length_butlast)
qed

end
