(* ===== verification/Guard_Cache.thy ===== *)
theory Guard_Cache
  imports Ir_Request
begin

section \<open>Remembered verdicts\<close>

text \<open>
  \<^verbatim>\<open>apps/gateway/src/guardrail/cache.ts\<close> and \<^verbatim>\<open>smartRouter/cache.ts\<close>: a bounded cache of
  verdicts in recency order, and the keys verdicts are kept under. The digest
  (\<^verbatim>\<open>Bun.CryptoHasher.hash("sha256", ...)\<close>) is the parameter \<open>sha\<close>.
\<close>

definition VERDICT_TTL_MS :: int where "VERDICT_TTL_MS = 3600000"
definition VERDICT_CACHE_MAX :: nat where "VERDICT_CACHE_MAX = 10000"

record 'v cache_entry =
  ce_verdict :: 'v
  ce_expiresAt :: instant

record 'v verdict_cache =
  vc_entries :: "(string \<times> 'v cache_entry) list"
  vc_max :: nat
  vc_ttlMs :: int

definition newVerdictCache :: "nat option \<Rightarrow> int option \<Rightarrow> 'v verdict_cache" where
  "newVerdictCache most ttlMs = \<lparr>vc_entries = [], vc_max = nullish most VERDICT_CACHE_MAX, vc_ttlMs = nullish ttlMs VERDICT_TTL_MS\<rparr>"

definition cache_get :: "string \<Rightarrow> instant \<Rightarrow> 'v verdict_cache \<Rightarrow> 'v option \<times> 'v verdict_cache" where
  "cache_get key now c =
     (case map_of (vc_entries c) key of
        None \<Rightarrow> (None, c)
      | Some entry \<Rightarrow>
          if ce_expiresAt entry \<le> now then (None, c\<lparr>vc_entries := AList.delete key (vc_entries c)\<rparr>)
          else (Some (ce_verdict entry), c\<lparr>vc_entries := AList.delete key (vc_entries c) @ [(key, entry)]\<rparr>))"

fun evictOldest :: "nat \<Rightarrow> (string \<times> 'v cache_entry) list \<Rightarrow> (string \<times> 'v cache_entry) list" where
  "evictOldest m [] = []"
| "evictOldest m (e # es) = (if length (e # es) > m then evictOldest m es else e # es)"

definition cache_set :: "string \<Rightarrow> 'v \<Rightarrow> instant \<Rightarrow> 'v verdict_cache \<Rightarrow> 'v verdict_cache" where
  "cache_set key verdict now c =
     c\<lparr>vc_entries := evictOldest (vc_max c)
        (AList.delete key (vc_entries c) @ [(key, \<lparr>ce_verdict = verdict, ce_expiresAt = now + vc_ttlMs c\<rparr>)])\<rparr>"

lemma evictOldest_drop: "evictOldest m es = drop (length es - m) es"
  by (induction es) (auto simp: Suc_diff_le)

subsection \<open>A hit is the last verdict\<close>

datatype 'v cache_op = Get string instant | Set string 'v instant

definition cache_step :: "'v verdict_cache \<Rightarrow> 'v cache_op \<Rightarrow> 'v verdict_cache" where
  "cache_step c op = (case op of Get key now \<Rightarrow> snd (cache_get key now c) | Set key v now \<Rightarrow> cache_set key v now c)"

definition cache_run :: "nat \<Rightarrow> int \<Rightarrow> 'v cache_op list \<Rightarrow> 'v verdict_cache" where
  "cache_run m ttl ops = foldl cache_step (newVerdictCache (Some m) (Some ttl)) ops"

text \<open>The specification: the verdict last set under a key, and when.\<close>

definition lastSet :: "string \<Rightarrow> 'v cache_op list \<Rightarrow> ('v \<times> instant) option" where
  "lastSet key ops = foldl (\<lambda>acc op. case op of Get k now \<Rightarrow> acc | Set k v now \<Rightarrow> if k = key then Some (v, now) else acc) None ops"

definition remembers :: "nat \<Rightarrow> int \<Rightarrow> 'v cache_op list \<Rightarrow> 'v verdict_cache \<Rightarrow> bool" where
  "remembers m ttl ops c \<longleftrightarrow> vc_max c = m \<and> vc_ttlMs c = ttl \<and> length (vc_entries c) \<le> m
     \<and> distinct (map fst (vc_entries c))
     \<and> (\<forall>(key, e) \<in> set (vc_entries c). \<exists>t. lastSet key ops = Some (ce_verdict e, t) \<and> ce_expiresAt e = t + ttl)"

lemma lastSet_snoc: "lastSet key (ops @ [op]) = (case op of Get k now \<Rightarrow> lastSet key ops | Set k v now \<Rightarrow> if k = key then Some (v, now) else lastSet key ops)"
  by (cases op) (simp_all add: lastSet_def)

lemma delete_filter: "AList.delete k es = filter (\<lambda>(k', e). k \<noteq> k') es"
  by (simp add: AList.delete_eq)

lemma remembers_step:
  assumes "remembers m ttl ops c"
  shows "remembers m ttl (ops @ [op]) (cache_step c op)"
proof (cases op)
  case (Get key now)
  show ?thesis
  proof (cases "map_of (vc_entries c) key")
    case None
    then show ?thesis using assms by (simp add: Get cache_step_def cache_get_def remembers_def lastSet_snoc)
  next
    case (Some e)
    have len: "length (AList.delete key (vc_entries c)) < length (vc_entries c)"
      using length_filter_less [OF map_of_SomeD [OF Some], of "\<lambda>(k', e). key \<noteq> k'"] by (simp add: delete_filter)
    have "(key, e) \<in> set (vc_entries c)" using Some by (rule map_of_SomeD)
    then show ?thesis using assms len
      by (auto simp: Get cache_step_def cache_get_def Some remembers_def lastSet_snoc delete_filter distinct_map_filter)
  qed
next
  case (Set key v now)
  let ?es = "AList.delete key (vc_entries c) @ [(key, \<lparr>ce_verdict = v, ce_expiresAt = now + ttl\<rparr>)]"
  have "distinct (map fst ?es)" using assms by (auto simp: remembers_def delete_filter distinct_map_filter)
  then have "distinct (drop (length ?es - m) (map fst ?es))" by (rule distinct_drop)
  then have "distinct (map fst (evictOldest m ?es))" by (simp only: evictOldest_drop drop_map)
  moreover have "\<exists>t. lastSet k (ops @ [op]) = Some (ce_verdict e, t) \<and> ce_expiresAt e = t + ttl"
    if "(k, e) \<in> set (evictOldest m ?es)" for k e
  proof -
    have "(k, e) \<in> set ?es" using that by (auto simp: evictOldest_drop dest: in_set_dropD)
    then show ?thesis using assms by (auto simp: Set lastSet_snoc remembers_def delete_filter)
  qed
  ultimately show ?thesis using assms
    by (auto simp: Set cache_step_def cache_set_def remembers_def evictOldest_drop)
qed

text \<open>
  A remembered verdict is the last one given. After any use, the cache holds no more
  than its bound, and a hit under a key is the verdict last set there, less than its
  lifetime ago.
\<close>

theorem verdict_cache_sound:
  "length (vc_entries (cache_run m ttl ops)) \<le> m
    \<and> (case fst (cache_get key now (cache_run m ttl ops)) of
         None \<Rightarrow> True
       | Some v \<Rightarrow> (\<exists>t. lastSet key ops = Some (v, t) \<and> now < t + ttl))"
proof -
  have "remembers m ttl ops (cache_run m ttl ops)"
  proof (induction ops rule: rev_induct)
    case Nil
    show ?case by (simp add: cache_run_def remembers_def newVerdictCache_def)
  next
    case (snoc op ops)
    then show ?case using remembers_step by (simp add: cache_run_def)
  qed
  then show ?thesis
    by (fastforce simp: remembers_def cache_get_def dest: map_of_SomeD split: option.splits)
qed

subsection \<open>The text that is hashed\<close>

record key_parts =
  kp_apiKeyId :: string
  kp_policy :: string
  kp_model :: string
  kp_system :: string
  kp_human :: "string list"
  kp_toolResults :: "string list"

definition keyText :: "key_parts \<Rightarrow> string" where
  "keyText p = stringify (JArr [JStr (kp_apiKeyId p), JStr (kp_policy p), JStr (kp_model p), JStr (kp_system p),
     JArr (map JStr (kp_human p)), JArr (map JStr (kp_toolResults p))])"

definition verdictKey :: "(string \<Rightarrow> string) \<Rightarrow> key_parts \<Rightarrow> string" where
  "verdictKey sha p = sha (keyText p)"

definition segmentText :: "string \<Rightarrow> string \<Rightarrow> string \<Rightarrow> string" where
  "segmentText classifierModel policy segment = stringify (JArr [JStr classifierModel, JStr policy, JStr segment])"

definition segmentKey :: "(string \<Rightarrow> string) \<Rightarrow> string \<Rightarrow> string \<Rightarrow> string \<Rightarrow> string" where
  "segmentKey sha classifierModel policy segment = sha (segmentText classifierModel policy segment)"

text \<open>One escaped character, read back.\<close>

definition unhex :: "char \<Rightarrow> nat" where
  "unhex c = (let n = (of_char c :: nat) in if n < 58 then n - 48 else n - 87)"

fun unescape :: "string \<Rightarrow> (char \<times> string) option" where
  "unescape [] = None"
| "unescape (c # s) =
     (if c \<noteq> CHR 0x5C then Some (c, s)
      else case s of
          [] \<Rightarrow> None
        | d # s' \<Rightarrow>
            if d = CHR ''b'' then Some (CHR 0x08, s') else if d = CHR ''t'' then Some (CHR 0x09, s')
            else if d = CHR ''n'' then Some (CHR 0x0A, s') else if d = CHR ''f'' then Some (CHR 0x0C, s')
            else if d = CHR ''r'' then Some (CHR 0x0D, s')
            else if d = CHR ''u'' then (case s' of
                a # b # h # l # r \<Rightarrow> Some (char_of (16 * unhex h + unhex l), r) | _ \<Rightarrow> None)
            else Some (d, s'))"

lemma unhex_hexDigit: "n < 16 \<Longrightarrow> unhex (hexDigit n) = n"
  by (auto simp: unhex_def hexDigit_def Let_def)

lemma quote_char: "char_of (34 :: nat) = CHR 0x22" "char_of (92 :: nat) = CHR 0x5C"
  by code_simp+

lemma quoteJson_text: "quoteJson s = CHR 0x22 # concat (map escapeChar s) @ [CHR 0x22]"
  by (simp add: quoteJson_def quote_char)

lemma escapeChar_special:
  assumes "(of_char c :: nat) \<in> {34, 92, 8, 9, 10, 12, 13}"
  shows "unescape (escapeChar c @ s) = Some (c, s)"
proof -
  have all: "\<forall>n \<in> set [34, 92, 8, 9, 10, 12, 13 :: nat]. \<exists>d. escapeChar (char_of n) = [CHR 0x5C, d]
      \<and> unescape [CHR 0x5C, d] = Some (char_of n, [])"
    by (simp add: escapeChar_def quote_char; code_simp)
  have "(of_char c :: nat) \<in> set [34, 92, 8, 9, 10, 12, 13]" using assms by simp
  from bspec [OF all this] obtain d where "escapeChar c = [CHR 0x5C, d]" "unescape [CHR 0x5C, d] = Some (c, [])" by auto
  then show ?thesis by (auto split: if_splits)
qed

lemma unescape_escapeChar: "unescape (escapeChar c @ s) = Some (c, s)"
proof -
  let ?n = "of_char c :: nat"
  consider "?n \<in> {34, 92, 8, 9, 10, 12, 13}" | "?n \<notin> {34, 92, 8, 9, 10, 12, 13}" "?n < 32" | "?n \<notin> {34, 92}" "\<not> ?n < 32" by fastforce
  then show ?thesis
  proof cases
    case 1
    then show ?thesis by (rule escapeChar_special)
  next
    case 2
    have digits: "unhex (hexDigit (?n div 16)) = ?n div 16" "unhex (hexDigit (?n mod 16)) = ?n mod 16"
      using 2(2) by (intro unhex_hexDigit; simp)+
    have "escapeChar c = [CHR 0x5C, CHR ''u'', CHR ''0'', CHR ''0'', hexDigit (?n div 16), hexDigit (?n mod 16)]"
      using 2 by (simp add: escapeChar_def Let_def quote_char)
    then show ?thesis by (simp add: digits)
  next
    case 3
    then have "c \<noteq> CHR 0x5C" by auto
    moreover have "escapeChar c = [c]" using 3 by (auto simp: escapeChar_def Let_def)
    ultimately show ?thesis by (simp only: append_Cons append_Nil unescape.simps if_True simp_thms)
  qed
qed

lemma escapeChar_quote:
  assumes "escapeChar c @ r = CHR 0x22 # r'"
  shows False
proof -
  have "unescape (CHR 0x22 # r') = Some (c, r)" using unescape_escapeChar [of c r] by (simp only: assms)
  then have c: "c = CHR 0x22" by simp
  show False using assms by (simp add: c escapeChar_def quote_char)
qed

lemma escape_prefix_free:
  "concat (map escapeChar s) @ CHR 0x22 # r = concat (map escapeChar s') @ CHR 0x22 # r' \<Longrightarrow> s = s' \<and> r = r'"
proof (induction s arbitrary: s')
  case Nil
  show ?case
  proof (cases s')
    case (Cons c t)
    then have "escapeChar c @ (concat (map escapeChar t) @ CHR 0x22 # r') = CHR 0x22 # r" using Nil.prems by simp
    then show ?thesis by (rule escapeChar_quote [THEN FalseE])
  qed (use Nil.prems in simp)
next
  case (Cons c s)
  show ?case
  proof (cases s')
    case Nil
    then have "escapeChar c @ (concat (map escapeChar s) @ CHR 0x22 # r) = CHR 0x22 # r'" using Cons.prems by simp
    then show ?thesis by (rule escapeChar_quote [THEN FalseE])
  next
    case (Cons c' t)
    let ?a = "concat (map escapeChar s) @ CHR 0x22 # r" and ?b = "concat (map escapeChar t) @ CHR 0x22 # r'"
    have "escapeChar c @ ?a = escapeChar c' @ ?b" using Cons.prems Cons by simp
    then have "Some (c, ?a) = Some (c', ?b)" by (metis unescape_escapeChar)
    then show ?thesis using Cons.IH [of t] Cons by simp
  qed
qed

lemma quoteJson_free: "quoteJson s @ r = quoteJson s' @ r' \<Longrightarrow> s = s' \<and> r = r'"
  using escape_prefix_free [of s r s' r'] by (simp add: quoteJson_text)

text \<open>A list of strings, read up to its closing bracket.\<close>

lemma strings_text:
  "\<exists>t. intercalate '','' (map quoteJson (z # zs)) @ CHR '']'' # q = quoteJson z @ t
     \<and> (zs = [] \<and> t = CHR '']'' # q \<or> zs \<noteq> [] \<and> t = CHR '','' # intercalate '','' (map quoteJson zs) @ CHR '']'' # q)"
  by (cases zs) auto

lemma strings_free:
  "intercalate '','' (map quoteJson xs) @ CHR '']'' # r = intercalate '','' (map quoteJson ys) @ CHR '']'' # r' \<Longrightarrow> xs = ys \<and> r = r'"
proof (induction xs arbitrary: ys)
  case Nil
  show ?case
  proof (cases ys)
    case (Cons y ys')
    obtain t where "intercalate '','' (map quoteJson (y # ys')) @ CHR '']'' # r' = quoteJson y @ t" using strings_text by blast
    with Nil Cons have "CHR '']'' # r = quoteJson y @ t" by simp
    then show ?thesis by (simp add: quoteJson_text)
  qed (use Nil in simp)
next
  case (Cons x xs)
  obtain t where t: "intercalate '','' (map quoteJson (x # xs)) @ CHR '']'' # r = quoteJson x @ t"
    "xs = [] \<and> t = CHR '']'' # r \<or> xs \<noteq> [] \<and> t = CHR '','' # intercalate '','' (map quoteJson xs) @ CHR '']'' # r"
    using strings_text by blast
  show ?case
  proof (cases ys)
    case Nil
    then have "quoteJson x @ t = CHR '']'' # r'" using Cons.prems t(1) by simp
    then show ?thesis by (simp add: quoteJson_text)
  next
    case (Cons y ys')
    obtain t' where t': "intercalate '','' (map quoteJson (y # ys')) @ CHR '']'' # r' = quoteJson y @ t'"
      "ys' = [] \<and> t' = CHR '']'' # r' \<or> ys' \<noteq> [] \<and> t' = CHR '','' # intercalate '','' (map quoteJson ys') @ CHR '']'' # r'"
      using strings_text by blast
    have "quoteJson x @ t = quoteJson y @ t'" using Cons.prems t(1) t'(1) Cons by metis
    then have "x = y" "t = t'" using quoteJson_free by blast+
    then show ?thesis using t(2) t'(2) Cons.IH [of ys'] Cons by auto
  qed
qed

lemma keyText_text:
  "keyText p = CHR ''['' # quoteJson (kp_apiKeyId p) @ CHR '','' # quoteJson (kp_policy p) @ CHR '','' # quoteJson (kp_model p)
     @ CHR '','' # quoteJson (kp_system p) @ CHR '','' # CHR ''['' # intercalate '','' (map quoteJson (kp_human p))
     @ CHR '']'' # CHR '','' # CHR ''['' # intercalate '','' (map quoteJson (kp_toolResults p)) @ CHR '']'' # [CHR '']'']"
  by (simp add: keyText_def comp_def)

lemma segmentText_text:
  "segmentText m pol s = CHR ''['' # quoteJson m @ CHR '','' # quoteJson pol @ CHR '','' # quoteJson s @ [CHR '']'']"
  by (simp add: segmentText_def)

lemma keyText_inj:
  assumes e: "keyText p = keyText q"
  shows "p = q"
proof -
  obtain a b c d h t where p: "p = \<lparr>kp_apiKeyId = a, kp_policy = b, kp_model = c, kp_system = d, kp_human = h, kp_toolResults = t\<rparr>"
    by (cases p)
  obtain a' b' c' d' h' t' where q: "q = \<lparr>kp_apiKeyId = a', kp_policy = b', kp_model = c', kp_system = d', kp_human = h', kp_toolResults = t'\<rparr>"
    by (cases q)
  note e = e [unfolded keyText_text p q key_parts.simps list.inject simp_thms]
  note e1 = quoteJson_free [OF e]
  note e2 = quoteJson_free [OF e1 [THEN conjunct2, unfolded list.inject, THEN conjunct2]]
  note e3 = quoteJson_free [OF e2 [THEN conjunct2, unfolded list.inject, THEN conjunct2]]
  note e4 = quoteJson_free [OF e3 [THEN conjunct2, unfolded list.inject, THEN conjunct2]]
  note e5 = strings_free [OF e4 [THEN conjunct2, unfolded list.inject simp_thms]]
  note e6 = strings_free [OF e5 [THEN conjunct2, unfolded list.inject simp_thms]]
  show ?thesis using e1 e2 e3 e4 e5 e6 by (simp add: p q)
qed

lemma segmentText_inj:
  assumes "segmentText m pol s = segmentText m' pol' s'"
  shows "m = m' \<and> pol = pol' \<and> s = s'"
proof -
  note e = assms [unfolded segmentText_text list.inject simp_thms]
  note e1 = quoteJson_free [OF e]
  note e2 = quoteJson_free [OF e1 [THEN conjunct2, unfolded list.inject, THEN conjunct2]]
  note e3 = quoteJson_free [OF e2 [THEN conjunct2, unfolded list.inject, THEN conjunct2]]
  show ?thesis using e1 e2 e3 by blast
qed

text \<open>
  What is hashed says everything that was judged. No two requests whose key, policy,
  model, system text, messages or tool results differ, nor two splits of one text into
  messages, are hashed from the same text; nor two segments.
\<close>

theorem key_texts_injective:
  "(keyText p = keyText q \<longleftrightarrow> p = q)
    \<and> (segmentText m pol s = segmentText m' pol' s' \<longleftrightarrow> m = m' \<and> pol = pol' \<and> s = s')"
  using keyText_inj segmentText_inj by blast

end
