(* ===== verification/Guard_Judge.thy ===== *)
theory Guard_Judge
  imports Guard_Text Guard_Cache Dispatch_Run
begin

section \<open>Judging a request\<close>

text \<open>
  \<^verbatim>\<open>apps/gateway/src/guardrail/judge.ts\<close>. \<^verbatim>\<open>judge\<close> awaits once, while the classifier call runs,
  so it is two definitions: \<open>judgeBegin\<close> up to the call and \<open>judgeEnd\<close> from its result. Any
  number of requests may be between the two, in any order, over the one cache. What the
  call's dispatch did is a \<open>call_report\<close>; what \<^verbatim>\<open>callClassifier\<close> makes of it, and the row
  it writes, are \<open>classifierResult\<close> and \<open>classifierRow\<close>. \<open>screenFirst\<close> puts the check
  before the request's own dispatch.
\<close>

definition REFUSED_MESSAGE :: string where "REFUSED_MESSAGE = ''request refused by this API key's usage policy''"
definition UNAVAILABLE_MESSAGE :: string where "UNAVAILABLE_MESSAGE = ''usage policy check unavailable''"
definition UNCONFIGURED_MESSAGE :: string where "UNCONFIGURED_MESSAGE = ''usage policy check is not configured''"
definition CLASSIFIER_NOTE :: string where "CLASSIFIER_NOTE = ''guardrail:classifier''"

datatype guardrail_outcome = Allowed "string list" | Refused gateway_error "string list" | Hungup

definition refusal :: "error_code \<Rightarrow> string \<Rightarrow> gateway_error" where
  "refusal code message = GatewayError code message (no_opts\<lparr>geo_gatewayAuthored := Some True\<rparr>)"

fun thrownCode :: "thrown \<Rightarrow> error_code" where
  "thrownCode (ThrownGateway e) = ge_code e"
| "thrownCode e = INTERNAL"

subsection \<open>The classifier call\<close>

text \<open>
  \<open>cp_log\<close> is the log of the dispatch, \<open>None\<close> when it threw before returning one, and
  \<open>cp_thrown\<close> what was thrown, if anything was.
\<close>

record call_report =
  cp_clientAborted :: bool
  cp_timeoutFired :: bool
  cp_log :: "request_log option"
  cp_events :: "stream_event list"
  cp_thrown :: "thrown option"

datatype classifier_result = Verdict policy_verdict | Failed string "error_code option" | CallCancelled

definition timedOut :: "call_report \<Rightarrow> bool" where
  "timedOut r \<longleftrightarrow> \<not> cp_clientAborted r \<and> cp_timeoutFired r"

definition assignRow :: "nat \<Rightarrow> log_code \<Rightarrow> instant \<Rightarrow> instant \<Rightarrow> request_log \<Rightarrow> request_log" where
  "assignRow status code started now l = l\<lparr>rl_status := status, rl_errorCode := Some code, rl_durationMs := now - started\<rparr>"

definition classifierRow :: "string \<Rightarrow> instant \<Rightarrow> string \<Rightarrow> instant \<Rightarrow> call_report \<Rightarrow> request_log" where
  "classifierRow callId started model now r =
     (let l = nullish (cp_log r) (newCompletedRequestLog callId started model);
          l = l\<lparr>rl_degradations := noted (rl_degradations l) [CLASSIFIER_NOTE]\<rparr> in
      if cp_clientAborted r then (if rl_status l = 0 then assignRow 499 Interrupted started now l else l)
      else if timedOut r then
        (if rl_status l = 0 \<or> rl_errorCode l = Some Interrupted then assignRow 504 (Code TIMEOUT) started now l else l)
      else case cp_thrown r of
        Some e \<Rightarrow> if rl_status l = 0 then assignRow (HTTP_STATUS (thrownCode e)) (Code (thrownCode e)) started now l else l
      | None \<Rightarrow> l)"

fun failureOf :: "stream_event list \<Rightarrow> error_code option" where
  "failureOf [] = None"
| "failureOf (Err code message retryable # es) = Some code"
| "failureOf (e # es) = failureOf es"

definition classifierResult :: "(string \<Rightarrow> json option) \<Rightarrow> (error_code \<Rightarrow> string) \<Rightarrow> call_report \<Rightarrow> classifier_result" where
  "classifierResult parse codeName r =
     (if cp_clientAborted r then CallCancelled
      else if timedOut r then Failed ''classifier timed out'' None
      else case cp_thrown r of
        Some e \<Rightarrow> Failed ''classifier call failed'' (Some (thrownCode e))
      | None \<Rightarrow>
         (case failureOf (cp_events r) of
            Some code \<Rightarrow> Failed (''classifier '' @ codeName code) (Some code)
          | None \<Rightarrow>
             (case parseVerdict (collect parse (cp_events r)) of
                None \<Rightarrow> Failed ''classifier reply unreadable'' None
              | Some v \<Rightarrow> Verdict v)))"

subsection \<open>The check\<close>

text \<open>
  \<open>jn_model\<close> is \<^verbatim>\<open>input.model\<close>: \<open>None\<close> when it is not given, \<open>Some None\<close> for an override
  that is not configured.
\<close>

record judge_input =
  jn_apiKeyId :: string
  jn_policy :: string
  jn_request :: chat_request
  jn_model :: "string option option"
  jn_localOnly :: "bool option"

record classifier_call =
  kc_apiKeyId :: string
  kc_request :: chat_request
  kc_timeoutMs :: rat
  kc_localOnly :: bool

text \<open>What the closure of a waiting check holds.\<close>

record check =
  ck_parts :: key_parts
  ck_truncated :: bool
  ck_call :: classifier_call

definition noteOf :: "bool \<Rightarrow> string \<Rightarrow> string list" where
  "noteOf truncated what =
     (if truncated then [''guardrail:'' @ what, ''guardrail:truncated''] else [''guardrail:'' @ what])"

fun decided :: "bool \<Rightarrow> policy_verdict \<Rightarrow> guardrail_outcome" where
  "decided truncated Allow = Allowed (noteOf truncated ''allowed'')"
| "decided truncated Deny = Refused (refusal CONTENT_FILTER REFUSED_MESSAGE) (noteOf truncated ''denied'')"

definition unconfigured :: guardrail_outcome where
  "unconfigured = Refused (refusal INTERNAL UNCONFIGURED_MESSAGE) [''guardrail:unconfigured'']"

definition partsFor :: "judge_input \<Rightarrow> string \<Rightarrow> judged_text \<Rightarrow> key_parts" where
  "partsFor x model judged = \<lparr>kp_apiKeyId = jn_apiKeyId x, kp_policy = jn_policy x, kp_model = model,
     kp_system = jt_system judged, kp_human = jt_human judged, kp_toolResults = jt_toolResults judged\<rparr>"

datatype begun = Answered "key_parts option" guardrail_outcome | Waiting check

definition judgeBegin :: "(string \<Rightarrow> string) \<Rightarrow> string \<Rightarrow> guardrail_settings \<Rightarrow> judge_input \<Rightarrow> instant
    \<Rightarrow> policy_verdict verdict_cache \<Rightarrow> begun \<times> policy_verdict verdict_cache" where
  "judgeBegin sha instruction st x now c =
     (case nullish (jn_model x) (st_guardrailModel st) of
        None \<Rightarrow> (Answered None unconfigured, c)
      | Some model \<Rightarrow>
         (let judged = judgedText (jn_request x) (st_guardrailHistoryTurns st);
              parts = partsFor x model judged in
          case cache_get (verdictKey sha parts) now c of
            (Some v, c') \<Rightarrow> (Answered (Some parts) (decided (jt_truncated judged) v), c')
          | (None, c') \<Rightarrow>
              (Waiting \<lparr>ck_parts = parts, ck_truncated = jt_truncated judged,
                 ck_call = \<lparr>kc_apiKeyId = jn_apiKeyId x, kc_request = classifierRequest instruction model (jn_policy x) judged,
                   kc_timeoutMs = st_guardrailTimeoutMs st, kc_localOnly = (jn_localOnly x = Some True)\<rparr>\<rparr>, c')))"

definition judgeEnd :: "(string \<Rightarrow> string) \<Rightarrow> check \<Rightarrow> classifier_result \<Rightarrow> instant
    \<Rightarrow> policy_verdict verdict_cache \<Rightarrow> guardrail_outcome \<times> policy_verdict verdict_cache" where
  "judgeEnd sha k result now c =
     (case result of
        CallCancelled \<Rightarrow> (Hungup, c)
      | Failed reason code \<Rightarrow>
          (Refused (refusal UPSTREAM UNAVAILABLE_MESSAGE) (noteOf (ck_truncated k) ''unavailable''), c)
      | Verdict v \<Rightarrow> (decided (ck_truncated k) v, cache_set (verdictKey sha (ck_parts k)) v now c))"

subsection \<open>Many requests, one cache\<close>

text \<open>
  The checks of a process in the order they began; a check that is not waiting is \<open>None\<close>.
  \<open>judge_on\<close> is one turn of the event loop, and the notes are what happens in it: a
  classifier result heard for the parts judged, and the answer to a request.
\<close>

record judging =
  ju_cache :: "policy_verdict verdict_cache"
  ju_checks :: "check option list"

datatype judge_event = Begin guardrail_settings judge_input instant | Report nat call_report instant

datatype judge_note =
    Heard key_parts call_report instant
  | Replied "key_parts option" guardrail_outcome instant

definition newJudging :: judging where
  "newJudging = \<lparr>ju_cache = newVerdictCache None None, ju_checks = []\<rparr>"

fun judge_on :: "(string \<Rightarrow> string) \<Rightarrow> string \<Rightarrow> (string \<Rightarrow> json option) \<Rightarrow> (error_code \<Rightarrow> string)
    \<Rightarrow> judging \<Rightarrow> judge_event \<Rightarrow> judging \<times> judge_note list" where
  "judge_on sha instruction parse codeName s (Begin st x now) =
     (case judgeBegin sha instruction st x now (ju_cache s) of
        (Answered parts outcome, c) \<Rightarrow> (s\<lparr>ju_cache := c, ju_checks := ju_checks s @ [None]\<rparr>, [Replied parts outcome now])
      | (Waiting k, c) \<Rightarrow> (s\<lparr>ju_cache := c, ju_checks := ju_checks s @ [Some k]\<rparr>, []))"
| "judge_on sha instruction parse codeName s (Report i r now) =
     (case if i < length (ju_checks s) then ju_checks s ! i else None of
        None \<Rightarrow> (s, [])
      | Some k \<Rightarrow>
         (let result = classifierResult parse codeName r;
              (outcome, c) = judgeEnd sha k result now (ju_cache s) in
          (s\<lparr>ju_cache := c, ju_checks := (ju_checks s)[i := None]\<rparr>,
           [Heard (ck_parts k) r now, Replied (Some (ck_parts k)) outcome now])))"

definition judge_all :: "(string \<Rightarrow> string) \<Rightarrow> string \<Rightarrow> (string \<Rightarrow> json option) \<Rightarrow> (error_code \<Rightarrow> string)
    \<Rightarrow> judge_event list \<Rightarrow> judging \<times> judge_note list" where
  "judge_all sha instruction parse codeName es =
     foldl (\<lambda>(s, notes) e. case judge_on sha instruction parse codeName s e of (s', notes') \<Rightarrow> (s', notes @ notes'))
       (newJudging, []) es"

subsection \<open>It fails closed\<close>

text \<open>
  The specification: a report answers clearly when the call ran to its end and said a
  verdict, and what was last heard of some parts is the last clear answer about them.
\<close>

definition clearAnswer :: "(string \<Rightarrow> json option) \<Rightarrow> call_report \<Rightarrow> policy_verdict option" where
  "clearAnswer parse r =
     (if cp_clientAborted r \<or> cp_timeoutFired r \<or> cp_thrown r \<noteq> None \<or> (\<exists>e \<in> set (cp_events r). is_err e) then None
      else parseVerdict (collect parse (cp_events r)))"

fun hear :: "(string \<Rightarrow> json option) \<Rightarrow> key_parts \<Rightarrow> (policy_verdict \<times> instant) option \<Rightarrow> judge_note \<Rightarrow> (policy_verdict \<times> instant) option" where
  "hear parse p said (Heard q r t) = (if q = p then (case clearAnswer parse r of None \<Rightarrow> said | Some v \<Rightarrow> Some (v, t)) else said)"
| "hear parse p said (Replied q outcome t) = said"

definition lastHeard :: "(string \<Rightarrow> json option) \<Rightarrow> key_parts \<Rightarrow> judge_note list \<Rightarrow> (policy_verdict \<times> instant) option" where
  "lastHeard parse p notes = foldl (hear parse p) None notes"

fun partsOf :: "judge_note \<Rightarrow> key_parts set" where
  "partsOf (Heard p r t) = {p}"
| "partsOf (Replied p outcome t) = set_option p"

definition saidBy :: "guardrail_outcome \<Rightarrow> policy_verdict option" where
  "saidBy outcome = (case outcome of
     Allowed ns \<Rightarrow> Some Allow
   | Refused e ns \<Rightarrow> if ge_code e = CONTENT_FILTER then Some Deny else None
   | Hungup \<Rightarrow> None)"

definition backed :: "(string \<Rightarrow> json option) \<Rightarrow> judge_note list \<Rightarrow> nat \<Rightarrow> bool" where
  "backed parse notes i = (case notes ! i of
     Heard p r t \<Rightarrow> True
   | Replied p outcome now \<Rightarrow> (case saidBy outcome of
       None \<Rightarrow> True
     | Some v \<Rightarrow> (\<exists>q t. p = Some q \<and> lastHeard parse q (take i notes) = Some (v, t) \<and> now < t + VERDICT_TTL_MS)))"

definition supported :: "(string \<Rightarrow> string) \<Rightarrow> (string \<Rightarrow> json option) \<Rightarrow> key_parts set \<Rightarrow> judging \<Rightarrow> judge_note list \<Rightarrow> bool" where
  "supported sha parse P s notes \<longleftrightarrow>
     (\<exists>ops. remembers VERDICT_CACHE_MAX VERDICT_TTL_MS ops (ju_cache s)
       \<and> (\<forall>p \<in> P. lastSet (verdictKey sha p) ops = lastHeard parse p notes))"

lemma failureOf_None: "failureOf es = None \<longleftrightarrow> (\<forall>e \<in> set es. \<not> is_err e)"
  by (induction es rule: failureOf.induct) simp_all

lemma classifierResult_clear: "classifierResult parse codeName r = Verdict v \<longleftrightarrow> clearAnswer parse r = Some v"
  using failureOf_None [of "cp_events r"]
  by (cases "failureOf (cp_events r)") (auto simp: classifierResult_def clearAnswer_def timedOut_def split: option.splits)

lemma lastHeard_snoc: "lastHeard parse p (notes @ [n]) = hear parse p (lastHeard parse p notes) n"
  by (simp add: lastHeard_def)

lemma saidBy_decided: "saidBy (decided truncated v) = Some v"
  by (cases v) (simp_all add: saidBy_def refusal_def)

lemma verdictKey_inj:
  "inj_on sha (keyText ` P) \<Longrightarrow> p \<in> P \<Longrightarrow> q \<in> P \<Longrightarrow> verdictKey sha p = verdictKey sha q \<longleftrightarrow> p = q"
  by (auto simp: verdictKey_def inj_on_def dest: keyText_inj)

lemma backed_append: "i < length notes \<Longrightarrow> backed parse (notes @ later) i = backed parse notes i"
proof -
  assume i: "i < length notes"
  then have same: "take i (notes @ later) = take i notes" "(notes @ later) ! i = notes ! i" by (simp_all add: nth_append)
  show ?thesis by (simp only: backed_def same)
qed

lemma backed_snoc:
  "(\<forall>i < length (notes @ [n]). backed parse (notes @ [n]) i)
     \<longleftrightarrow> (\<forall>i < length notes. backed parse notes i) \<and> backed parse (notes @ [n]) (length notes)"
  by (auto simp: backed_append less_Suc_eq)

lemma cache_hit:
  assumes "remembers m ttl ops c" and "cache_get key now c = (hit, c')"
  shows "remembers m ttl (ops @ [Get key now]) c'"
    and "hit = Some v \<Longrightarrow> \<exists>t. lastSet key ops = Some (v, t) \<and> now < t + ttl"
proof -
  show "remembers m ttl (ops @ [Get key now]) c'"
    using remembers_step [OF assms(1), of "Get key now"] assms(2) by (simp add: cache_step_def)
  show "hit = Some v \<Longrightarrow> \<exists>t. lastSet key ops = Some (v, t) \<and> now < t + ttl"
    using assms by (fastforce simp: remembers_def cache_get_def dest: map_of_SomeD split: option.splits if_splits)
qed

lemma supported_begin:
  assumes sup: "supported sha parse P s notes" and ok: "\<forall>i < length notes. backed parse notes i"
    and on: "judge_on sha instruction parse codeName s (Begin st x now) = (s', new)"
    and P: "\<Union> (partsOf ` set new) \<subseteq> P"
  shows "supported sha parse P s' (notes @ new) \<and> (\<forall>i < length (notes @ new). backed parse (notes @ new) i)"
proof -
  obtain ops where ops: "remembers VERDICT_CACHE_MAX VERDICT_TTL_MS ops (ju_cache s)"
    "\<forall>p \<in> P. lastSet (verdictKey sha p) ops = lastHeard parse p notes" using sup by (auto simp: supported_def)
  show ?thesis
  proof (cases "nullish (jn_model x) (st_guardrailModel st)")
    case None
    then have new: "new = [Replied None unconfigured now]" "ju_cache s' = ju_cache s" using on by (auto simp: judgeBegin_def)
    have "backed parse (notes @ new) (length notes)" by (simp add: new backed_def unconfigured_def saidBy_def refusal_def)
    moreover have "supported sha parse P s' (notes @ new)" using sup by (simp add: supported_def new lastHeard_snoc)
    ultimately show ?thesis using ok backed_snoc new(1) by blast
  next
    case (Some model)
    let ?judged = "judgedText (jn_request x) (st_guardrailHistoryTurns st)"
    let ?p = "partsFor x model ?judged"
    obtain hit c where get: "cache_get (verdictKey sha ?p) now (ju_cache s) = (hit, c)" by fastforce
    note kept = cache_hit(1) [OF ops(1) get]
    have ops': "\<forall>p \<in> P. lastSet (verdictKey sha p) (ops @ [Get (verdictKey sha ?p) now]) = lastHeard parse p notes"
      using ops(2) by (simp add: lastSet_snoc)
    show ?thesis
    proof (cases hit)
      case None
      then have "new = []" "ju_cache s' = c" using on Some get by (auto simp: judgeBegin_def Let_def)
      then show ?thesis using kept ops' ok by (auto simp: supported_def)
    next
      case hit: (Some v)
      then have new: "new = [Replied (Some ?p) (decided (jt_truncated ?judged) v) now]" "ju_cache s' = c"
        using on Some get by (auto simp: judgeBegin_def Let_def)
      then have "?p \<in> P" using P by simp
      then obtain t where "lastHeard parse ?p notes = Some (v, t)" "now < t + VERDICT_TTL_MS"
        using cache_hit(2) [OF ops(1) get, of v] hit ops(2) by auto
      then have "backed parse (notes @ new) (length notes)" by (simp add: new backed_def saidBy_decided)
      moreover have "supported sha parse P s' (notes @ new)"
        using kept ops' by (auto simp: supported_def new lastHeard_snoc)
      ultimately show ?thesis using ok backed_snoc new(1) by blast
    qed
  qed
qed

lemma supported_report:
  assumes sup: "supported sha parse P s notes" and ok: "\<forall>i < length notes. backed parse notes i"
    and on: "judge_on sha instruction parse codeName s (Report j r now) = (s', new)"
    and P: "\<Union> (partsOf ` set new) \<subseteq> P" and inj: "inj_on sha (keyText ` P)"
  shows "supported sha parse P s' (notes @ new) \<and> (\<forall>i < length (notes @ new). backed parse (notes @ new) i)"
proof (cases "if j < length (ju_checks s) then ju_checks s ! j else None")
  case None
  then show ?thesis using on sup ok by simp
next
  case (Some k)
  let ?p = "ck_parts k" and ?r = "classifierResult parse codeName r"
  obtain outcome c where fin: "judgeEnd sha k ?r now (ju_cache s) = (outcome, c)" by fastforce
  have new: "new = [Heard ?p r now, Replied (Some ?p) outcome now]" "ju_cache s' = c"
    using on Some fin by (auto simp: Let_def)
  obtain ops where ops: "remembers VERDICT_CACHE_MAX VERDICT_TTL_MS ops (ju_cache s)"
    "\<forall>p \<in> P. lastSet (verdictKey sha p) ops = lastHeard parse p notes" using sup by (auto simp: supported_def)
  have parts: "?p \<in> P" using P new(1) by simp
  have split: "notes @ new = (notes @ [Heard ?p r now]) @ [Replied (Some ?p) outcome now]" using new(1) by simp
  have unheard: "lastHeard parse p (notes @ new) = lastHeard parse p (notes @ [Heard ?p r now])" for p
    unfolding split lastHeard_snoc by simp
  have first: "\<forall>i < length (notes @ [Heard ?p r now]). backed parse (notes @ [Heard ?p r now]) i"
    using ok unfolding backed_snoc by (simp add: backed_def)
  show ?thesis
  proof (cases "clearAnswer parse r")
    case None
    then have quiet: "saidBy outcome = None" "c = ju_cache s"
      using fin classifierResult_clear [of parse codeName r]
      by (auto simp: judgeEnd_def saidBy_def refusal_def split: classifier_result.splits)
    have "supported sha parse P s' (notes @ new)"
      using ops unfolding supported_def unheard by (auto simp: lastHeard_snoc None new(2) quiet(2))
    moreover have "backed parse (notes @ new) (length (notes @ [Heard ?p r now]))"
      by (simp add: new(1) backed_def nth_append quiet(1))
    ultimately show ?thesis using first unfolding split backed_snoc by simp
  next
    case clear: (Some v)
    then have said: "outcome = decided (ck_truncated k) v" "c = cache_set (verdictKey sha ?p) v now (ju_cache s)"
      using fin by (simp_all add: judgeEnd_def classifierResult_clear [of parse codeName, symmetric])
    have "remembers VERDICT_CACHE_MAX VERDICT_TTL_MS (ops @ [Set (verdictKey sha ?p) v now]) c"
      using remembers_step [OF ops(1), of "Set (verdictKey sha ?p) v now"] by (simp add: cache_step_def said)
    moreover have "lastSet (verdictKey sha p) (ops @ [Set (verdictKey sha ?p) v now]) = lastHeard parse p (notes @ new)" if "p \<in> P" for p
      using ops(2) that verdictKey_inj [OF inj parts that] unfolding unheard by (simp add: lastSet_snoc lastHeard_snoc clear)
    ultimately have "supported sha parse P s' (notes @ new)" unfolding supported_def new(2) by blast
    moreover have "backed parse (notes @ new) (length (notes @ [Heard ?p r now]))"
      unfolding split by (simp add: backed_def nth_append saidBy_decided said(1) lastHeard_snoc clear VERDICT_TTL_MS_def del: append_assoc)
    ultimately show ?thesis using first unfolding split backed_snoc by simp
  qed
qed

lemma supported_all:
  assumes "judge_all sha instruction parse codeName es = (s, said)"
    and "\<Union> (partsOf ` set said) \<subseteq> P" and inj: "inj_on sha (keyText ` P)"
  shows "supported sha parse P s said \<and> (\<forall>i < length said. backed parse said i)"
  using assms(1,2)
proof (induction es arbitrary: s said rule: rev_induct)
  case Nil
  have "remembers VERDICT_CACHE_MAX VERDICT_TTL_MS [] (newVerdictCache None None)"
    by (simp add: remembers_def newVerdictCache_def)
  then show ?case using Nil by (auto simp: judge_all_def supported_def newJudging_def lastHeard_def lastSet_def)
next
  case (snoc e es)
  obtain s0 pre where pre: "judge_all sha instruction parse codeName es = (s0, pre)" by fastforce
  obtain new where new: "judge_on sha instruction parse codeName s0 e = (s, new)" "said = pre @ new"
    using snoc.prems(1) pre by (auto simp: judge_all_def split: prod.splits)
  have IH: "supported sha parse P s0 pre" "\<forall>i < length pre. backed parse pre i"
    using snoc.IH [OF pre] snoc.prems(2) new(2) by auto
  have parts: "\<Union> (partsOf ` set new) \<subseteq> P" using snoc.prems(2) new(2) by auto
  show ?case
  proof (cases e)
    case (Begin st x now)
    then show ?thesis using supported_begin [OF IH new(1) [unfolded Begin] parts] new(2) by simp
  next
    case (Report j r now)
    then show ?thesis using supported_report [OF IH new(1) [unfolded Report] parts inj] new(2) by simp
  qed
qed

text \<open>
  C16: the usage policy fails closed. Whatever requests are judged at once, in whatever
  order their classifier calls end, and whether or not a remembered verdict answers: a
  request is allowed only if the last clear answer heard about exactly its key, policy,
  model and judged text was to allow, less than an hour before; and it is refused as
  contrary to the policy only if that answer was to deny. A call that was aborted, timed
  out, threw, streamed an error or said anything else is no clear answer. The digest
  must not collide on the texts that were judged.
\<close>

theorem judge_fails_closed:
  assumes "judge_all sha instruction parse codeName es = (s, notes)"
    and "inj_on sha (keyText ` \<Union> (partsOf ` set notes))"
    and "i < length notes" and "notes ! i = Replied p outcome now" and "saidBy outcome = Some v"
  shows "\<exists>q t. p = Some q \<and> lastHeard parse q (take i notes) = Some (v, t) \<and> now < t + VERDICT_TTL_MS"
  using supported_all [OF assms(1) order_refl assms(2)] assms(3-5) by (auto simp: backed_def)

definition sample_block :: "string \<Rightarrow> content_block" where
  "sample_block t = TextBlock \<lparr>tb_text = t, tb_cacheControl = None, tb_citations = None\<rparr>"

definition sample_asked :: judge_input where
  "sample_asked = \<lparr>jn_apiKeyId = ''k'', jn_policy = ''be kind'',
     jn_request = \<lparr>rq_model = ''m'', rq_system = None, rq_messages = [\<lparr>msg_role = User, msg_content = [sample_block ''hi'']\<rparr>],
       rq_tools = None, rq_toolChoice = None, rq_maxTokens = None, rq_temperature = None, rq_stopSequences = None,
       rq_stream = True, rq_reasoning = None, rq_vendor = None, rq_providerHeaders = None, rq_betas = None,
       rq_conversationId = None\<rparr>,
     jn_model = Some (Some ''c''), jn_localOnly = None\<rparr>"

definition sample_report :: call_report where
  "sample_report = \<lparr>cp_clientAborted = False, cp_timeoutFired = False, cp_log = None,
     cp_events = [Start ''i'' ''c'', BlockStart 0 StartText, BlockDelta 0 (DText ''allow.''), End EndTurn no_usage None],
     cp_thrown = None\<rparr>"

definition sample_parts :: key_parts where
  "sample_parts = \<lparr>kp_apiKeyId = ''k'', kp_policy = ''be kind'', kp_model = ''c'', kp_system = [], kp_human = [''hi''], kp_toolResults = []\<rparr>"

definition sample_events :: "judge_event list" where
  "sample_events = [Begin (st_guardrail DEFAULT_SETTINGS) sample_asked 1000, Report 0 sample_report 1500,
     Begin (st_guardrail DEFAULT_SETTINGS) sample_asked 2000]"

definition sample_run :: "judging \<times> judge_note list" where
  "sample_run = judge_all (\<lambda>t. t) [] (\<lambda>_. None) (\<lambda>_. []) sample_events"

lemma sample_judged: "judgedText (jn_request sample_asked) 3 = \<lparr>jt_system = [], jt_human = [''hi''], jt_toolResults = [], jt_truncated = False\<rparr>"
  by (simp add: judgedText_def sample_asked_def sample_block_def windowOf_def GUARDRAIL_HISTORY_TURNS_MAX_def numeral_3_eq_3
      humanWrote_def returned_def capNewestFirst_def capText_def textOf_def SYSTEM_CAP_def HUMAN_CAP_def TOOL_RESULTS_CAP_def)

lemma sample_clear: "clearAnswer (\<lambda>_. None) sample_report = Some Allow"
  by code_simp

lemma sample_verdict: "classifierResult (\<lambda>_. None) (\<lambda>_. []) sample_report = Verdict Allow"
  by (simp add: classifierResult_clear sample_clear)

lemma sample_notes: "snd sample_run = [Heard sample_parts sample_report 1500,
    Replied (Some sample_parts) (Allowed [''guardrail:allowed'']) 1500, Replied (Some sample_parts) (Allowed [''guardrail:allowed'']) 2000]"
proof -
  have parts: "partsFor sample_asked ''c'' \<lparr>jt_system = [], jt_human = [''hi''], jt_toolResults = [], jt_truncated = False\<rparr> = sample_parts"
    by (simp add: partsFor_def sample_asked_def sample_parts_def)
  have model: "nullish (jn_model sample_asked) x = Some ''c''" for x by (simp add: sample_asked_def)
  show ?thesis
    by (simp add: sample_run_def judge_all_def sample_events_def newJudging_def newVerdictCache_def judgeBegin_def
        model parts sample_judged Let_def cache_get_def default_settings judgeEnd_def sample_verdict cache_set_def noteOf_def
        VERDICT_CACHE_MAX_def VERDICT_TTL_MS_def)
qed

theorem judge_fails_closed_witness:
  "\<exists>q t. Some sample_parts = Some q \<and> lastHeard (\<lambda>_. None) q (take 2 (snd sample_run)) = Some (Allow, t)
     \<and> 2000 < t + VERDICT_TTL_MS"
proof (rule judge_fails_closed [where sha = "\<lambda>t. t" and es = sample_events])
  show "judge_all (\<lambda>t. t) [] (\<lambda>_. None) (\<lambda>_. []) sample_events = (fst sample_run, snd sample_run)"
    by (simp add: sample_run_def)
  show "inj_on (\<lambda>t. t) (keyText ` \<Union> (partsOf ` set (snd sample_run)))" by (simp add: inj_on_def)
  show "2 < length (snd sample_run)" by (simp add: sample_notes)
  show "snd sample_run ! 2 = Replied (Some sample_parts) (Allowed [''guardrail:allowed'']) 2000" by (simp add: sample_notes)
  show "saidBy (Allowed [''guardrail:allowed'']) = Some Allow" by (simp add: saidBy_def)
qed

subsection \<open>The row of the call\<close>

lemma noted_mem: "d \<in> set (noted ds [d])"
  by (simp add: noted_def)

lemma noted_kept: "set ds \<union> set entries \<subseteq> set (noted ds entries)"
  by (induction entries arbitrary: ds) (fastforce simp: noted_def)+

text \<open>
  The row a classifier call writes says how the call ended, and always that it was
  one. A client that hung up is 499 unless dispatch had filed an outcome; a deadline is
  this gateway's own 504, also where dispatch, which sees one composed signal, filed a
  client abort; and no row of a call that ended in either way, or threw, is left without
  a status.
\<close>

theorem classifier_row_says_why:
  "CLASSIFIER_NOTE \<in> set (rl_degradations (classifierRow i started model now r))
    \<and> (cp_clientAborted r \<or> cp_timeoutFired r \<or> cp_thrown r \<noteq> None \<longrightarrow> rl_status (classifierRow i started model now r) \<noteq> 0)
    \<and> (timedOut r \<and> (\<forall>l. cp_log r = Some l \<longrightarrow> rl_errorCode l = Some Interrupted \<or> rl_status l = 0)
        \<longrightarrow> rl_status (classifierRow i started model now r) = 504
          \<and> rl_errorCode (classifierRow i started model now r) = Some (Code TIMEOUT))
    \<and> (cp_clientAborted r \<and> (\<forall>l. cp_log r = Some l \<longrightarrow> rl_status l = 0)
        \<longrightarrow> rl_status (classifierRow i started model now r) = 499
          \<and> rl_errorCode (classifierRow i started model now r) = Some Interrupted)"
proof -
  have http: "0 < HTTP_STATUS c" for c using HTTP_STATUS_is_error [of c] by linarith
  obtain l where l: "l = nullish (cp_log r) (newCompletedRequestLog i started model)" by simp
  obtain l' where l': "l' = l\<lparr>rl_degradations := noted (rl_degradations l) [CLASSIFIER_NOTE]\<rparr>" by simp
  have row: "classifierRow i started model now r =
     (if cp_clientAborted r then (if rl_status l' = 0 then assignRow 499 Interrupted started now l' else l')
      else if timedOut r then
        (if rl_status l' = 0 \<or> rl_errorCode l' = Some Interrupted then assignRow 504 (Code TIMEOUT) started now l' else l')
      else case cp_thrown r of
        Some e \<Rightarrow> if rl_status l' = 0 then assignRow (HTTP_STATUS (thrownCode e)) (Code (thrownCode e)) started now l' else l'
      | None \<Rightarrow> l')"
    unfolding classifierRow_def l l' Let_def by (rule refl)
  have filed: "rl_status l' = rl_status l" "rl_errorCode l' = rl_errorCode l" "CLASSIFIER_NOTE \<in> set (rl_degradations l')"
    by (simp_all add: l' noted_mem)
  have fresh: "(\<forall>k. cp_log r = Some k \<longrightarrow> rl_errorCode k = Some Interrupted \<or> rl_status k = 0)
      \<Longrightarrow> rl_errorCode l = Some Interrupted \<or> rl_status l = 0"
    "(\<forall>k. cp_log r = Some k \<longrightarrow> rl_status k = 0) \<Longrightarrow> rl_status l = 0"
    by (cases "cp_log r"; simp add: l newCompletedRequestLog_def)+
  show ?thesis
    unfolding row using fresh by (auto simp: filed http assignRow_def timedOut_def split: option.splits)
qed

text \<open>A deadline that dispatch, seeing one signal, filed as the client's abort.\<close>

theorem classifier_row_says_why_witness:
  "rl_status (classifierRow ''i'' 0 ''m'' 9 (sample_report\<lparr>cp_timeoutFired := True, cp_log := Some (assignRow 499 Interrupted 0 9
      (newCompletedRequestLog ''i'' 0 ''m''))\<rparr>)) = 504"
  using classifier_row_says_why [of "''i''" 0 "''m''" 9 "sample_report\<lparr>cp_timeoutFired := True, cp_log := Some (assignRow 499 Interrupted 0 9
      (newCompletedRequestLog ''i'' 0 ''m''))\<rparr>"]
  by (simp add: timedOut_def sample_report_def assignRow_def)

subsection \<open>Screening first\<close>

datatype route = GoLocal | GoExternal

datatype screen_outcome =
    Proceed "string option" "route option" "string list"
  | ScreenRefused gateway_error "string list"
  | ScreenCancelled

fun guardrailScreen :: "guardrail_outcome \<Rightarrow> screen_outcome" where
  "guardrailScreen (Allowed notes) = Proceed None None notes"
| "guardrailScreen (Refused e notes) = ScreenRefused e notes"
| "guardrailScreen Hungup = ScreenCancelled"

record screen_threw =
  sw_error :: gateway_error
  sw_notes :: "string list"
  sw_warning :: string
  sw_reason :: string

definition guardrailThrew :: screen_threw where
  "guardrailThrew = \<lparr>sw_error = refusal UPSTREAM UNAVAILABLE_MESSAGE, sw_notes = [''guardrail:unavailable''],
     sw_warning = ''usage policy check failed'', sw_reason = ''usage policy check threw''\<rparr>"

text \<open>A screen that threw is \<open>None\<close>.\<close>

definition screenResult :: "screen_outcome option \<Rightarrow> bool \<Rightarrow> screen_threw \<Rightarrow> screen_outcome" where
  "screenResult screen aborted onThrow = (case screen of
     Some outcome \<Rightarrow> outcome
   | None \<Rightarrow> if aborted then ScreenCancelled else ScreenRefused (sw_error onThrow) (sw_notes onThrow))"

text \<open>
  What the sequence does: throw the signal's reason, yield one event and end, or hand over
  to the request's own dispatch. \<open>sc_own\<close> is the wrapper's own log, \<open>sc_notes\<close> what
  \<open>log()\<close> adds to whichever log it returns.
\<close>

datatype screened = Interrupts | Yields stream_event | HandsOver "string option" "route option"

record screening =
  sc_does :: screened
  sc_own :: request_log
  sc_notes :: "string list"

definition screenFirst :: "string \<Rightarrow> instant \<Rightarrow> string \<Rightarrow> screen_outcome option \<Rightarrow> bool \<Rightarrow> screen_threw \<Rightarrow> instant \<Rightarrow> screening" where
  "screenFirst i started requestedModel screen aborted onThrow now =
     (let own = newCompletedRequestLog i started requestedModel in
      case screenResult screen aborted onThrow of
        ScreenCancelled \<Rightarrow> \<lparr>sc_does = Interrupts, sc_own = own, sc_notes = []\<rparr>
      | ScreenRefused e notes \<Rightarrow>
          (let own = assignRow (HTTP_STATUS (ge_code e)) (Code (ge_code e)) started now own in
           \<lparr>sc_does = Yields (Err (ge_code e) (ge_message e) (RETRYABLE (ge_code e))),
            sc_own = own\<lparr>rl_degradations := noted (rl_degradations own) notes\<rparr>, sc_notes = notes\<rparr>)
      | Proceed reroute route notes \<Rightarrow> \<lparr>sc_does = HandsOver reroute route, sc_own = own, sc_notes = notes\<rparr>)"

definition screenLog :: "screening \<Rightarrow> request_log option \<Rightarrow> request_log" where
  "screenLog s inner = (let l = nullish inner (sc_own s) in l\<lparr>rl_degradations := noted (rl_degradations l) (sc_notes s)\<rparr>)"

text \<open>
  A request under a usage policy goes on to its own dispatch only when the check
  allowed it, and then as the client sent it. Otherwise, short of a client that hung up, the client gets
  one error event, and the request's row has that error's code and status and every note
  of the check; a check that could not be made refuses as one that failed.
\<close>

theorem screening_fails_closed:
  "(let s = screenFirst i started requestedModel (map_option guardrailScreen outcome) aborted guardrailThrew now in
    case sc_does s of
      HandsOver reroute target \<Rightarrow> \<exists>ns. outcome = Some (Allowed ns) \<and> reroute = None \<and> target = None
        \<and> (\<forall>inner. set ns \<subseteq> set (rl_degradations (screenLog s (Some inner))))
    | Yields event \<Rightarrow> \<exists>code message ns. event = Err code message (RETRYABLE code)
        \<and> (outcome = None \<and> code = UPSTREAM \<and> ns = [''guardrail:unavailable'']
            \<or> (\<exists>e. outcome = Some (Refused e ns) \<and> code = ge_code e \<and> message = ge_message e))
        \<and> rl_status (screenLog s None) = HTTP_STATUS code \<and> 400 \<le> HTTP_STATUS code
        \<and> rl_errorCode (screenLog s None) = Some (Code code) \<and> set ns \<subseteq> set (rl_degradations (screenLog s None))
    | Interrupts \<Rightarrow> outcome = Some Hungup \<or> outcome = None \<and> aborted)"
proof -
  have kept: "set ns \<subseteq> set (noted ds ns)" for ds ns using noted_kept by blast
  show ?thesis
  proof (cases outcome)
    case None
    then show ?thesis
      by (simp add: noted_mem screenFirst_def screenResult_def Let_def screenLog_def assignRow_def guardrailThrew_def refusal_def)
  next
    case (Some a)
    then show ?thesis using kept HTTP_STATUS_is_error
      by (cases a) (simp_all add: screenFirst_def screenResult_def Let_def screenLog_def assignRow_def)
  qed
qed

end
