(* ===== verification/Smart_Check.thy ===== *)
theory Smart_Check
  imports Smart_Segments Guard_Judge Router_Resolve Dispatch_Front
begin

section \<open>The confidentiality check\<close>

text \<open>
  \<^verbatim>\<open>apps/gateway/src/smartRouter/check.ts\<close> and \<^verbatim>\<open>classifier.ts\<close>. A check looks its segments
  up in the shared cache and classifies the others with up to four calls at a time. It is a
  \<open>pool\<close>: what its workers have taken, what runs, what was decided. A worker's loop runs
  from one call's end to its next call's beginning, so the steps of a check are its beginning,
  the end of a call, the client going away, and its conclusion once no call runs. Any number
  of checks take their steps over the one cache, in any order.
\<close>

datatype confidentiality = Public | Confidential

definition parseConfidentiality :: "collected_response \<Rightarrow> confidentiality option" where
  "parseConfidentiality response = (case readWord response of
     None \<Rightarrow> None
   | Some w \<Rightarrow> if w = ''PUBLIC'' then Some Public else if w = ''CONFIDENTIAL'' then Some Confidential else None)"

definition textFence :: "string \<Rightarrow> string" where
  "textFence t = fenceFor [''policy'', ''text''] t"

definition confidentialityRequest :: "string \<Rightarrow> string \<Rightarrow> string \<Rightarrow> string \<Rightarrow> chat_request" where
  "confidentialityRequest instruction model policy segment =
     (let body = ''<policy>'' @ [LF] @ textFence policy @ [LF] @ ''</policy>'' @ [LF, LF] @ ''<text>'' @ [LF] @ textFence segment @ [LF] @ ''</text>'';
          block = (\<lambda>t. TextBlock \<lparr>tb_text = t, tb_cacheControl = None, tb_citations = None\<rparr>)
      in \<lparr>rq_model = model, rq_system = Some [block instruction],
          rq_messages = [\<lparr>msg_role = User, msg_content = [block body]\<rparr>],
          rq_tools = None, rq_toolChoice = None, rq_maxTokens = Some CLASSIFIER_MAX_TOKENS, rq_temperature = None,
          rq_stopSequences = None, rq_stream = False, rq_reasoning = None, rq_vendor = None, rq_providerHeaders = None,
          rq_betas = None, rq_conversationId = None\<rparr>)"

definition SMART_UNAVAILABLE_MESSAGE :: string where "SMART_UNAVAILABLE_MESSAGE = ''confidentiality check unavailable''"
definition SMART_CLASSIFIER_NOTE :: string where "SMART_CLASSIFIER_NOTE = ''smart-router:classifier''"
definition SEGMENT_CONCURRENCY :: nat where "SEGMENT_CONCURRENCY = 4"
definition MAX_UNCACHED_SEGMENTS :: nat where "MAX_UNCACHED_SEGMENTS = 64"

subsection \<open>One call\<close>

record segment_report =
  sr_timeoutFired :: bool
  sr_log :: "request_log option"
  sr_events :: "stream_event list"
  sr_thrown :: "thrown option"

record call_failure =
  fl_reason :: string
  fl_code :: "error_code option"
  fl_status :: nat
  fl_errorCode :: "log_code option"

datatype call_result = Said confidentiality | CallFailed call_failure | CallAborted

definition wholeVerdict :: "(string \<Rightarrow> json option) \<Rightarrow> segment_report \<Rightarrow> confidentiality option" where
  "wholeVerdict parse r =
     (if sr_thrown r = None \<and> failureOf (sr_events r) = None then parseConfidentiality (collect parse (sr_events r)) else None)"

text \<open>\<open>ended\<close>: the client's signal or the check's own stop has fired.\<close>

definition callSegment :: "(string \<Rightarrow> json option) \<Rightarrow> (error_code \<Rightarrow> string) \<Rightarrow> bool \<Rightarrow> segment_report \<Rightarrow> call_result" where
  "callSegment parse codeName ended r =
     (case wholeVerdict parse r of
        Some v \<Rightarrow> Said v
      | None \<Rightarrow>
          if ended then CallAborted
          else
            let status = (case sr_log r of None \<Rightarrow> 0 | Some l \<Rightarrow> rl_status l);
                errorCode = (case sr_log r of None \<Rightarrow> None | Some l \<Rightarrow> rl_errorCode l) in
            if sr_timeoutFired r then
              let own = (status = 0 \<or> errorCode = Some Interrupted) in
              CallFailed \<lparr>fl_reason = ''classifier timed out'', fl_code = None,
                fl_status = (if own then 504 else status), fl_errorCode = (if own then Some (Code TIMEOUT) else errorCode)\<rparr>
            else case sr_thrown r of
              Some e \<Rightarrow>
                let code = thrownCode e in
                CallFailed \<lparr>fl_reason = ''classifier call failed'', fl_code = Some code,
                  fl_status = (if status = 0 then HTTP_STATUS code else status),
                  fl_errorCode = (if status = 0 then Some (Code code) else errorCode)\<rparr>
            | None \<Rightarrow>
                (case failureOf (sr_events r) of
                   Some code \<Rightarrow> CallFailed \<lparr>fl_reason = ''classifier '' @ codeName code, fl_code = Some code,
                     fl_status = status, fl_errorCode = errorCode\<rparr>
                 | None \<Rightarrow> CallFailed \<lparr>fl_reason = ''classifier reply unreadable'', fl_code = None,
                     fl_status = status, fl_errorCode = errorCode\<rparr>))"

subsection \<open>One check\<close>

datatype decision =
    External "string list"
  | GoesLocal string string "string list"
  | CheckRefused gateway_error "string list"
  | CheckCancelled

datatype verdict_so_far = FoundConfidential | FoundFailure call_failure

record pool =
  pl_classifier :: string
  pl_policy :: string
  pl_localModel :: string
  pl_uncached :: "(string \<times> string) list"
  pl_next :: nat
  pl_calls :: nat
  pl_running :: "(nat \<times> string \<times> string) list"
  pl_stopped :: bool
  pl_aborted :: bool
  pl_decided :: "verdict_so_far option"
  pl_startedAt :: instant
  pl_logs :: "nat \<rightharpoonup> request_log"

definition smartUnconfigured :: decision where
  "smartUnconfigured = CheckRefused (refusal INTERNAL LOCAL_ONLY_MESSAGE) [''smart-router:unconfigured'']"

text \<open>The look-up of the segments: \<open>None\<close> once a cached one is confidential, else those not cached.\<close>

fun lookUp :: "(string \<Rightarrow> string) \<Rightarrow> instant \<Rightarrow> string list \<Rightarrow> confidentiality verdict_cache
    \<Rightarrow> (string \<times> string) list option \<times> confidentiality verdict_cache" where
  "lookUp keyFor now [] c = (Some [], c)"
| "lookUp keyFor now (t # ts) c =
     (case cache_get (keyFor t) now c of
        (Some Confidential, c') \<Rightarrow> (None, c')
      | (Some Public, c') \<Rightarrow> lookUp keyFor now ts c'
      | (None, c') \<Rightarrow> (case lookUp keyFor now ts c' of
            (None, c'') \<Rightarrow> (None, c'')
          | (Some us, c'') \<Rightarrow> (Some ((keyFor t, t) # us), c'')))"

text \<open>A worker at the head of its loop: it takes the next segment, or ends.\<close>

definition takeNext :: "pool \<Rightarrow> pool" where
  "takeNext p =
     (if pl_next p < length (pl_uncached p) \<and> \<not> pl_stopped p \<and> \<not> pl_aborted p
      then p\<lparr>pl_next := pl_next p + 1, pl_calls := pl_calls p + 1,
             pl_running := pl_running p @ [(pl_calls p, pl_uncached p ! pl_next p)]\<rparr>
      else p)"

datatype check_begun = Concluded decision | Calling pool

definition beginCheck :: "(string \<Rightarrow> string) \<Rightarrow> descriptors \<Rightarrow> snapshot \<Rightarrow> chat_request \<Rightarrow> bool \<Rightarrow> instant
    \<Rightarrow> confidentiality verdict_cache \<Rightarrow> check_begun \<times> confidentiality verdict_cache" where
  "beginCheck sha providers snapshot r aborted now c =
     (let st = st_smartRouter (sn_settings snapshot) in
      case (st_smartRouterClassifierModel st, st_smartRouterLocalModel st) of
        (Some classifier, Some localModel) \<Rightarrow>
          if localOnlyModel classifier snapshot providers = None \<or> localOnlyModel localModel snapshot providers = None
          then (Concluded smartUnconfigured, c)
          else if localOnlyModel (rq_model r) snapshot providers \<noteq> None
          then (Concluded (GoesLocal (rq_model r) classifier [''smart-router:already-local'']), c)
          else
            (case lookUp (segmentKey sha classifier (st_smartRouterPolicy st)) now (segments r) c of
               (None, c') \<Rightarrow> (Concluded (GoesLocal localModel classifier [''smart-router:local'']), c')
             | (Some uncached, c') \<Rightarrow>
                 if length uncached > MAX_UNCACHED_SEGMENTS
                 then (Concluded (GoesLocal localModel classifier [''smart-router:local'', ''smart-router:oversize'']), c')
                 else if uncached = [] then (Concluded (External [''smart-router:public'']), c')
                 else
                   let p = \<lparr>pl_classifier = classifier, pl_policy = st_smartRouterPolicy st, pl_localModel = localModel,
                         pl_uncached = uncached, pl_next = 0, pl_calls = 0, pl_running = [], pl_stopped = False,
                         pl_aborted = aborted, pl_decided = None, pl_startedAt = now, pl_logs = Map.empty\<rparr>
                   in (Calling ((takeNext ^^ min SEGMENT_CONCURRENCY (length uncached)) p), c'))
      | _ \<Rightarrow> (Concluded smartUnconfigured, c))"

text \<open>A call ended: what its worker does with the result, up to its next call or its end.\<close>

definition settleCall :: "nat \<Rightarrow> (string \<times> string) \<Rightarrow> call_result \<Rightarrow> request_log option \<Rightarrow> instant
    \<Rightarrow> pool \<Rightarrow> confidentiality verdict_cache \<Rightarrow> pool \<times> confidentiality verdict_cache" where
  "settleCall index seg result l now p c =
     (let p = p\<lparr>pl_running := filter (\<lambda>(i, s). i \<noteq> index) (pl_running p),
            pl_logs := (case l of None \<Rightarrow> pl_logs p | Some row \<Rightarrow> (pl_logs p)(index \<mapsto> row))\<rparr> in
      case result of
        Said v \<Rightarrow>
          (takeNext (if v = Confidential \<and> pl_decided p = None then p\<lparr>pl_decided := Some FoundConfidential, pl_stopped := True\<rparr> else p),
           cache_set (fst seg) v now c)
      | CallFailed f \<Rightarrow>
          (takeNext (if pl_decided p = None then p\<lparr>pl_decided := Some (FoundFailure f), pl_stopped := True\<rparr> else p), c)
      | CallAborted \<Rightarrow> (takeNext p, c))"

definition checkRow :: "string \<Rightarrow> instant \<Rightarrow> instant \<Rightarrow> string \<Rightarrow> nat \<Rightarrow> request_log list \<Rightarrow> nat \<Rightarrow> log_code option \<Rightarrow> request_log" where
  "checkRow i started now classifier calls logs status errorCode =
     (let routed = find (\<lambda>l. rl_resolvedProvider l \<noteq> None) logs;
          total = (\<lambda>field. sum_list (map field logs)) in
      (newCompletedRequestLog i started classifier)\<lparr>
        rl_resolvedProvider := (case routed of None \<Rightarrow> None | Some l \<Rightarrow> rl_resolvedProvider l),
        rl_resolvedModel := (case routed of None \<Rightarrow> None | Some l \<Rightarrow> rl_resolvedModel l),
        rl_credentialId := (case routed of None \<Rightarrow> None | Some l \<Rightarrow> rl_credentialId l),
        rl_attempts := calls, rl_status := status, rl_errorCode := errorCode,
        rl_inputTokens := total rl_inputTokens, rl_outputTokens := total rl_outputTokens,
        rl_cacheReadTokens := total rl_cacheReadTokens, rl_cacheWriteTokens := total rl_cacheWriteTokens,
        rl_costUsd := sum_list (map rl_costUsd logs), rl_durationMs := now - started,
        rl_degradations := [SMART_CLASSIFIER_NOTE]\<rparr>)"

definition logsOf :: "pool \<Rightarrow> request_log list" where
  "logsOf p = List.map_filter (pl_logs p) [0..<pl_calls p]"

definition concludeCheck :: "string \<Rightarrow> instant \<Rightarrow> pool \<Rightarrow> decision \<times> request_log option" where
  "concludeCheck i now p =
     (if pl_calls p = 0 \<and> pl_aborted p then (CheckCancelled, None)
      else
        let (status, errorCode) =
              (if pl_aborted p then (499, Some Interrupted)
               else case pl_decided p of
                   Some (FoundFailure f) \<Rightarrow> (fl_status f, fl_errorCode f)
                 | _ \<Rightarrow> (200, None));
            row = checkRow i (pl_startedAt p) now (pl_classifier p) (pl_calls p) (logsOf p) status errorCode in
        (if pl_aborted p then CheckCancelled
         else case pl_decided p of
             Some (FoundFailure f) \<Rightarrow> CheckRefused (refusal UPSTREAM SMART_UNAVAILABLE_MESSAGE) [''smart-router:unavailable'']
           | Some FoundConfidential \<Rightarrow> GoesLocal (pl_localModel p) (pl_classifier p) [''smart-router:local'']
           | None \<Rightarrow> External [''smart-router:public''],
         Some row))"

subsection \<open>Many checks, one cache\<close>

record routing =
  rt_cache :: "confidentiality verdict_cache"
  rt_pools :: "pool option list"

datatype routing_event =
    CheckBegins snapshot chat_request bool instant
  | CallEnds nat nat segment_report instant
  | ClientLeaves nat
  | CheckEnds nat string instant

text \<open>
  What happens: a check of number \<open>c\<close> looked its segments up, heard about one of them, or
  came to its decision.
\<close>

datatype routing_note =
    LookedUp nat string string chat_request instant
  | HeardOf nat string string string segment_report instant
  | Decided nat decision

definition newRouting :: routing where
  "newRouting = \<lparr>rt_cache = newVerdictCache None None, rt_pools = []\<rparr>"

definition poolAt :: "routing \<Rightarrow> nat \<Rightarrow> pool option" where
  "poolAt s c = (if c < length (rt_pools s) then rt_pools s ! c else None)"

definition lookedUp :: "nat \<Rightarrow> snapshot \<Rightarrow> chat_request \<Rightarrow> instant \<Rightarrow> routing_note" where
  "lookedUp c snapshot r now =
     LookedUp c (nullish (st_smartRouterClassifierModel (st_smartRouter (sn_settings snapshot))) [])
       (st_smartRouterPolicy (st_smartRouter (sn_settings snapshot))) r now"

fun route_on :: "(string \<Rightarrow> string) \<Rightarrow> descriptors \<Rightarrow> (string \<Rightarrow> json option) \<Rightarrow> (error_code \<Rightarrow> string)
    \<Rightarrow> routing \<Rightarrow> routing_event \<Rightarrow> routing \<times> routing_note list" where
  "route_on sha providers parse codeName s (CheckBegins snapshot r aborted now) =
     (let n = length (rt_pools s) in
      case beginCheck sha providers snapshot r aborted now (rt_cache s) of
        (Concluded d, c) \<Rightarrow> (s\<lparr>rt_cache := c, rt_pools := rt_pools s @ [None]\<rparr>, [lookedUp n snapshot r now, Decided n d])
      | (Calling p, c) \<Rightarrow> (s\<lparr>rt_cache := c, rt_pools := rt_pools s @ [Some p]\<rparr>, [lookedUp n snapshot r now]))"
| "route_on sha providers parse codeName s (CallEnds n index r now) =
     (case poolAt s n of
        None \<Rightarrow> (s, [])
      | Some p \<Rightarrow>
          (case map_of (pl_running p) index of
             None \<Rightarrow> (s, [])
           | Some seg \<Rightarrow>
               (let (p', c) = settleCall index seg (callSegment parse codeName (pl_stopped p \<or> pl_aborted p) r) (sr_log r) now p (rt_cache s) in
                (s\<lparr>rt_cache := c, rt_pools := (rt_pools s)[n := Some p']\<rparr>,
                 [HeardOf n (pl_classifier p) (pl_policy p) (snd seg) r now]))))"
| "route_on sha providers parse codeName s (ClientLeaves n) =
     (case poolAt s n of
        None \<Rightarrow> (s, [])
      | Some p \<Rightarrow> (s\<lparr>rt_pools := (rt_pools s)[n := Some (p\<lparr>pl_aborted := True\<rparr>)]\<rparr>, []))"
| "route_on sha providers parse codeName s (CheckEnds n i now) =
     (case poolAt s n of
        None \<Rightarrow> (s, [])
      | Some p \<Rightarrow>
          if pl_running p \<noteq> [] then (s, [])
          else (s\<lparr>rt_pools := (rt_pools s)[n := None]\<rparr>, [Decided n (fst (concludeCheck i now p))]))"

definition route_all :: "(string \<Rightarrow> string) \<Rightarrow> descriptors \<Rightarrow> (string \<Rightarrow> json option) \<Rightarrow> (error_code \<Rightarrow> string)
    \<Rightarrow> routing_event list \<Rightarrow> routing \<times> routing_note list" where
  "route_all sha providers parse codeName es =
     foldl (\<lambda>(s, said) e. case route_on sha providers parse codeName s e of (s', new) \<Rightarrow> (s', said @ new)) (newRouting, []) es"

subsection \<open>The shared cache\<close>

type_synonym seg_key = "string \<times> string \<times> string"

definition clearlySaid :: "(string \<Rightarrow> json option) \<Rightarrow> segment_report \<Rightarrow> confidentiality option" where
  "clearlySaid parse r =
     (if sr_thrown r \<noteq> None \<or> (\<exists>e \<in> set (sr_events r). is_err e) then None
      else parseConfidentiality (collect parse (sr_events r)))"

fun hearOf :: "(string \<Rightarrow> json option) \<Rightarrow> seg_key \<Rightarrow> (confidentiality \<times> instant) option \<Rightarrow> routing_note \<Rightarrow> (confidentiality \<times> instant) option" where
  "hearOf parse key said (HeardOf n m pol t r now) =
     (if key = (m, pol, t) then (case clearlySaid parse r of None \<Rightarrow> said | Some v \<Rightarrow> Some (v, now)) else said)"
| "hearOf parse key said note = said"

definition lastOf :: "(string \<Rightarrow> json option) \<Rightarrow> seg_key \<Rightarrow> routing_note list \<Rightarrow> (confidentiality \<times> instant) option" where
  "lastOf parse key notes = foldl (hearOf parse key) None notes"

fun keysOf :: "routing_note \<Rightarrow> seg_key set" where
  "keysOf (LookedUp n m pol r now) = (\<lambda>t. (m, pol, t)) ` set (segments r)"
| "keysOf (HeardOf n m pol t r now) = {(m, pol, t)}"
| "keysOf (Decided n d) = {}"

definition hashed :: "seg_key \<Rightarrow> string" where
  "hashed key = (case key of (m, pol, t) \<Rightarrow> segmentText m pol t)"

definition keyOf :: "(string \<Rightarrow> string) \<Rightarrow> seg_key \<Rightarrow> string" where
  "keyOf sha key = sha (hashed key)"

lemma keyOf_segment: "keyOf sha (m, pol, t) = segmentKey sha m pol t"
  by (simp add: keyOf_def hashed_def segmentKey_def)

lemma hashed_inj: "hashed a = hashed b \<longleftrightarrow> a = b"
proof -
  obtain m pol t where a: "a = (m, pol, t)" by (cases a)
  obtain m' pol' t' where b: "b = (m', pol', t')" by (cases b)
  show ?thesis using segmentText_inj [of m pol t m' pol' t'] by (auto simp: a b hashed_def)
qed

lemma keyOf_inj: "inj_on sha (hashed ` K) \<Longrightarrow> a \<in> K \<Longrightarrow> b \<in> K \<Longrightarrow> keyOf sha a = keyOf sha b \<longleftrightarrow> a = b"
  unfolding keyOf_def by (metis hashed_inj imageI inj_onD)

definition cacheTrue :: "(string \<Rightarrow> string) \<Rightarrow> (string \<Rightarrow> json option) \<Rightarrow> seg_key set \<Rightarrow> confidentiality verdict_cache \<Rightarrow> routing_note list \<Rightarrow> bool" where
  "cacheTrue sha parse K c notes \<longleftrightarrow>
     (\<exists>ops. remembers VERDICT_CACHE_MAX VERDICT_TTL_MS ops c \<and> (\<forall>key \<in> K. lastSet (keyOf sha key) ops = lastOf parse key notes))"

lemma wholeVerdict_clear: "wholeVerdict parse r = clearlySaid parse r"
  using failureOf_None [of "sr_events r"] by (auto simp: wholeVerdict_def clearlySaid_def)

lemma lastOf_append: "lastOf parse key (notes @ new) = foldl (hearOf parse key) (lastOf parse key notes) new"
  by (simp add: lastOf_def)

lemma lookUp_cache:
  assumes "remembers m ttl ops c" and "lookUp keyFor now ts c = (res, c')"
  shows "\<exists>ops'. remembers m ttl ops' c' \<and> (\<forall>key. lastSet key ops' = lastSet key ops)
    \<and> (\<forall>us. res = Some us \<longrightarrow> (\<forall>x \<in> set us. fst x = keyFor (snd x) \<and> snd x \<in> set ts)
        \<and> (\<forall>t \<in> set ts. t \<in> snd ` set us \<or> (\<exists>w. lastSet (keyFor t) ops = Some (Public, w) \<and> now < w + ttl)))"
  using assms
proof (induction ts arbitrary: ops c res c')
  case Nil
  then show ?case by auto
next
  case (Cons t ts)
  obtain hit c1 where get: "cache_get (keyFor t) now c = (hit, c1)" by fastforce
  let ?ops = "ops @ [Get (keyFor t) now]"
  note kept = cache_hit(1) [OF Cons.prems(1) get]
  have same: "lastSet key ?ops = lastSet key ops" for key by (simp add: lastSet_snoc)
  show ?case
  proof (cases hit)
    case None
    obtain res1 c2 where rest: "lookUp keyFor now ts c1 = (res1, c2)" by fastforce
    show ?thesis
      using Cons.IH [OF kept rest] Cons.prems(2) get None rest
      by (cases res1) (auto simp: same intro: exI [of _ ?ops])
  next
    case (Some v)
    show ?thesis
    proof (cases v)
      case Confidential
      then show ?thesis using kept Cons.prems(2) get Some same by auto
    next
      case Public
      then have rest: "lookUp keyFor now ts c1 = (res, c')" using Cons.prems(2) get Some by simp
      obtain w where "lastSet (keyFor t) ops = Some (Public, w)" "now < w + ttl"
        using cache_hit(2) [OF Cons.prems(1) get, of Public] Some Public by blast
      then show ?thesis using Cons.IH [OF kept rest] by (auto simp: same)
    qed
  qed
qed

subsection \<open>The workers of one check\<close>

definition waiting :: "pool \<Rightarrow> (string \<times> string) set" where
  "waiting p = set (drop (pl_next p) (pl_uncached p)) \<union> snd ` set (pl_running p)"

definition busy :: "pool \<Rightarrow> bool" where
  "busy p \<longleftrightarrow> pl_running p \<noteq> [] \<or> pl_next p \<ge> length (pl_uncached p) \<or> pl_stopped p \<or> pl_aborted p"

definition segKeyed :: "(string \<Rightarrow> string) \<Rightarrow> string \<Rightarrow> string \<Rightarrow> (string \<times> string) \<Rightarrow> bool" where
  "segKeyed sha m pol x \<longleftrightarrow> fst x = segmentKey sha m pol (snd x)"

definition pool_inv :: "((string \<times> string) \<Rightarrow> bool) \<Rightarrow> pool \<Rightarrow> bool" where
  "pool_inv P p \<longleftrightarrow> (\<forall>x \<in> waiting p. P x)
     \<and> pl_calls p = pl_next p \<and> pl_next p \<le> length (pl_uncached p) \<and> length (pl_uncached p) \<le> MAX_UNCACHED_SEGMENTS
     \<and> distinct (map fst (pl_running p)) \<and> (\<forall>x \<in> set (pl_running p). fst x < pl_calls p)
     \<and> (pl_stopped p \<longleftrightarrow> pl_decided p \<noteq> None)"

lemma takeNext_frame [simp]:
  "pl_classifier (takeNext p) = pl_classifier p" "pl_policy (takeNext p) = pl_policy p" "pl_uncached (takeNext p) = pl_uncached p"
  "pl_stopped (takeNext p) = pl_stopped p" "pl_aborted (takeNext p) = pl_aborted p" "pl_decided (takeNext p) = pl_decided p"
  "pl_startedAt (takeNext p) = pl_startedAt p" "pl_localModel (takeNext p) = pl_localModel p"
  by (simp_all add: takeNext_def)

lemma takeNext_waiting [simp]: "waiting (takeNext p) = waiting p"
proof (cases "pl_next p < length (pl_uncached p)")
  case True
  then have "set (drop (pl_next p) (pl_uncached p)) = insert (pl_uncached p ! pl_next p) (set (drop (Suc (pl_next p)) (pl_uncached p)))"
    using Cons_nth_drop_Suc [of "pl_next p" "pl_uncached p"] by (metis list.simps(15))
  then show ?thesis by (auto simp: takeNext_def waiting_def)
qed (simp add: takeNext_def waiting_def)

lemma takeNext_inv:
  assumes "pool_inv P p"
  shows "pool_inv P (takeNext p)" "busy (takeNext p)" "length (pl_running (takeNext p)) \<le> Suc (length (pl_running p))"
proof -
  show "pool_inv P (takeNext p)"
    using assms takeNext_waiting [of p] unfolding pool_inv_def takeNext_frame
    by (auto simp: takeNext_def less_Suc_eq)
  show "busy (takeNext p)" "length (pl_running (takeNext p)) \<le> Suc (length (pl_running p))"
    by (auto simp: busy_def takeNext_def)
qed

lemma takeNext_many:
  assumes "pool_inv P p"
  shows "pool_inv P ((takeNext ^^ k) p) \<and> waiting ((takeNext ^^ k) p) = waiting p
    \<and> length (pl_running ((takeNext ^^ k) p)) \<le> length (pl_running p) + k
    \<and> pl_classifier ((takeNext ^^ k) p) = pl_classifier p \<and> pl_policy ((takeNext ^^ k) p) = pl_policy p
    \<and> (0 < k \<longrightarrow> busy ((takeNext ^^ k) p))"
proof (induction k)
  case (Suc k)
  then show ?case using takeNext_inv [of P "(takeNext ^^ k) p"] by simp
qed (use assms in simp)

text \<open>The pool as a call's end leaves it, before its worker goes on.\<close>

lemma settled_waiting:
  assumes "distinct (map fst (pl_running p))" and "map_of (pl_running p) index = Some seg"
  shows "waiting p = insert seg (waiting (p\<lparr>pl_running := filter (\<lambda>(i, s). i \<noteq> index) (pl_running p)\<rparr>))"
proof -
  have "set (pl_running p) = insert (index, seg) (set (filter (\<lambda>(i, s). i \<noteq> index) (pl_running p)))"
    using assms map_of_SomeD [OF assms(2)] by (auto dest: eq_key_imp_eq_value)
  then have "snd ` set (pl_running p) = insert seg (snd ` set (filter (\<lambda>(i, s). i \<noteq> index) (pl_running p)))"
    by (metis image_insert snd_conv)
  then show ?thesis by (simp add: waiting_def)
qed

lemma settleCall_facts:
  assumes inv: "pool_inv P p" and seg: "map_of (pl_running p) index = Some seg"
    and settle: "settleCall index seg result l now p c = (p', c')"
  shows "pool_inv P p'" "busy p'" "length (pl_running p') \<le> length (pl_running p)"
    and "pl_classifier p' = pl_classifier p" "pl_policy p' = pl_policy p" "pl_aborted p' = pl_aborted p"
    and "waiting p = insert seg (waiting p')"
    and "c' = (case result of Said v \<Rightarrow> cache_set (fst seg) v now c | _ \<Rightarrow> c)"
    and "pl_decided p' = None \<Longrightarrow> pl_decided p = None \<and> result \<in> {Said Public, CallAborted}"
proof -
  let ?run = "filter (\<lambda>(i, s). i \<noteq> index) (pl_running p)"
  let ?logs = "case l of None \<Rightarrow> pl_logs p | Some row \<Rightarrow> (pl_logs p)(index \<mapsto> row)"
  let ?q = "p\<lparr>pl_running := ?run, pl_logs := ?logs\<rparr>"
  let ?d = "case result of Said v \<Rightarrow> if v = Confidential \<and> pl_decided p = None then Some FoundConfidential else pl_decided p
      | CallFailed f \<Rightarrow> if pl_decided p = None then Some (FoundFailure f) else pl_decided p
      | CallAborted \<Rightarrow> pl_decided p"
  let ?r = "?q\<lparr>pl_decided := ?d, pl_stopped := (pl_stopped p \<or> ?d \<noteq> pl_decided p)\<rparr>"
  have after: "p' = takeNext ?r"
    using settle by (auto simp: settleCall_def Let_def split: call_result.splits if_splits)
  show cache: "c' = (case result of Said v \<Rightarrow> cache_set (fst seg) v now c | _ \<Rightarrow> c)"
    using settle by (auto simp: settleCall_def Let_def split: call_result.splits)
  have dist: "distinct (map fst (pl_running p))" using inv by (simp add: pool_inv_def)
  have len: "length ?run < length (pl_running p)"
    using length_filter_less [OF map_of_SomeD [OF seg], of "\<lambda>(i, s). i \<noteq> index"] by simp
  have same: "waiting ?r = waiting (p\<lparr>pl_running := ?run\<rparr>)" by (simp add: waiting_def)
  show wait: "waiting p = insert seg (waiting p')"
    unfolding after takeNext_waiting same by (rule settled_waiting [OF dist seg])
  have sub: "waiting ?r \<subseteq> waiting p" using wait by (auto simp: after)
  have keys: "\<forall>x \<in> waiting ?r. P x"
    using inv sub unfolding pool_inv_def by (meson subsetD)
  have "pool_inv P ?r"
    unfolding pool_inv_def
  proof (intro conjI, rule keys)
    show "pl_stopped ?r \<longleftrightarrow> pl_decided ?r \<noteq> None" using inv by (auto simp: pool_inv_def split: call_result.splits)
  qed (use inv in \<open>auto simp: pool_inv_def distinct_map_filter\<close>)
  from takeNext_inv [OF this] show "pool_inv P p'" "busy p'" "length (pl_running p') \<le> length (pl_running p)"
    using len by (auto simp: after)
  show "pl_classifier p' = pl_classifier p" "pl_policy p' = pl_policy p" "pl_aborted p' = pl_aborted p" by (simp_all add: after)
  show "pl_decided p' = None \<Longrightarrow> pl_decided p = None \<and> result \<in> {Said Public, CallAborted}"
  proof -
    have two: "v = Public \<longleftrightarrow> v \<noteq> Confidential" for v by (cases v) simp_all
    show "pl_decided p' = None \<Longrightarrow> pl_decided p = None \<and> result \<in> {Said Public, CallAborted}"
      unfolding after by (auto simp: two split: if_splits call_result.splits)
  qed
qed

subsection \<open>Only what is public leaves\<close>

text \<open>
  What shows a segment public to check \<open>n\<close>, which looked its segments up at \<open>now\<close> in place
  \<open>k\<close> of the trace: the last clear answer about it before was that it is, less than an hour
  ago, or the check heard a clear answer that it is itself.
\<close>

definition shownPublic :: "(string \<Rightarrow> json option) \<Rightarrow> routing_note list \<Rightarrow> nat \<Rightarrow> nat \<Rightarrow> string \<Rightarrow> string \<Rightarrow> instant \<Rightarrow> string \<Rightarrow> bool" where
  "shownPublic parse notes k n m pol now t \<longleftrightarrow>
     (\<exists>w. lastOf parse (m, pol, t) (take k notes) = Some (Public, w) \<and> now < w + VERDICT_TTL_MS)
     \<or> (\<exists>r w. HeardOf n m pol t r w \<in> set notes \<and> clearlySaid parse r = Some Public)"

definition accounted :: "(string \<Rightarrow> json option) \<Rightarrow> routing_note list \<Rightarrow> nat \<Rightarrow> pool \<Rightarrow> nat \<Rightarrow> chat_request \<Rightarrow> instant \<Rightarrow> bool" where
  "accounted parse notes n p k rq now \<longleftrightarrow> k < length notes \<and> notes ! k = LookedUp n (pl_classifier p) (pl_policy p) rq now
     \<and> (pl_decided p \<noteq> None \<or> pl_aborted p
        \<or> (\<forall>t \<in> set (segments rq). t \<in> snd ` waiting p \<or> shownPublic parse notes k n (pl_classifier p) (pl_policy p) now t))"

definition pooled :: "(string \<Rightarrow> string) \<Rightarrow> (string \<Rightarrow> json option) \<Rightarrow> routing_note list \<Rightarrow> nat \<Rightarrow> pool \<Rightarrow> bool" where
  "pooled sha parse notes n p \<longleftrightarrow> pool_inv (segKeyed sha (pl_classifier p) (pl_policy p)) p \<and> busy p \<and> length (pl_running p) \<le> SEGMENT_CONCURRENCY
     \<and> (\<exists>k rq now. accounted parse notes n p k rq now)"

definition publicRoute :: "(string \<Rightarrow> json option) \<Rightarrow> routing_note list \<Rightarrow> nat \<Rightarrow> bool" where
  "publicRoute parse notes i \<longleftrightarrow> (case notes ! i of
     Decided n (External ns) \<Rightarrow> \<exists>k < i. \<exists>m pol rq now. notes ! k = LookedUp n m pol rq now
       \<and> (\<forall>t \<in> set (segments rq). shownPublic parse (take i notes) k n m pol now t)
   | _ \<Rightarrow> True)"

definition routing_ok :: "(string \<Rightarrow> string) \<Rightarrow> (string \<Rightarrow> json option) \<Rightarrow> seg_key set \<Rightarrow> routing \<Rightarrow> routing_note list \<Rightarrow> bool" where
  "routing_ok sha parse K s notes \<longleftrightarrow> cacheTrue sha parse K (rt_cache s) notes
     \<and> (\<forall>n p. poolAt s n = Some p \<longrightarrow> pooled sha parse notes n p) \<and> (\<forall>i < length notes. publicRoute parse notes i)"

lemma shownPublic_append:
  "k \<le> length notes \<Longrightarrow> shownPublic parse notes k n m pol now t \<Longrightarrow> shownPublic parse (notes @ new) k n m pol now t"
  by (auto simp: shownPublic_def)

lemma accounted_append: "accounted parse notes n p k rq now \<Longrightarrow> accounted parse (notes @ new) n p k rq now"
  using shownPublic_append [of k "notes"] by (auto simp: accounted_def nth_append)

lemma pooled_append: "pooled sha parse notes n p \<Longrightarrow> pooled sha parse (notes @ new) n p"
  unfolding pooled_def using accounted_append by blast

lemma publicRoute_append: "i < length notes \<Longrightarrow> publicRoute parse notes i \<Longrightarrow> publicRoute parse (notes @ new) i"
proof -
  assume i: "i < length notes" "publicRoute parse notes i"
  then have same: "take i (notes @ new) = take i notes" "(notes @ new) ! i = notes ! i" by (simp_all add: nth_append)
  have before: "k < i \<Longrightarrow> (notes @ new) ! k = notes ! k" for k using i(1) by (simp add: nth_append)
  show ?thesis using i(2) before unfolding publicRoute_def same
    by (auto split: routing_note.splits decision.splits)
qed

lemma publicRoute_last: "publicRoute parse (notes @ [note]) (length notes) \<longleftrightarrow> (case note of
     Decided n (External ns) \<Rightarrow> \<exists>k < length notes. \<exists>m pol rq now. notes ! k = LookedUp n m pol rq now
       \<and> (\<forall>t \<in> set (segments rq). shownPublic parse notes k n m pol now t)
   | _ \<Rightarrow> True)"
  by (simp add: publicRoute_def nth_append cong: conj_cong split: routing_note.splits decision.splits)

lemma routing_snoc:
  "(\<forall>i < length (notes @ [note]). publicRoute parse (notes @ [note]) i)
  " if "\<forall>i < length notes. publicRoute parse notes i" "publicRoute parse (notes @ [note]) (length notes)"
  using that by (auto simp: less_Suc_eq publicRoute_append)

lemma routing_ok_intro:
  assumes ok: "routing_ok sha parse K s notes"
    and cache: "cacheTrue sha parse K (rt_cache s') (notes @ new)"
    and pools: "\<forall>n p. poolAt s' n = Some p \<longrightarrow> poolAt s n = Some p \<or> pooled sha parse (notes @ new) n p"
    and routes: "\<forall>i < length (notes @ new). publicRoute parse (notes @ new) i"
  shows "routing_ok sha parse K s' (notes @ new)"
  using assms pooled_append unfolding routing_ok_def by blast

lemma poolAt_add: "poolAt (s\<lparr>rt_cache := c, rt_pools := rt_pools s @ [x]\<rparr>) n = (if n = length (rt_pools s) then x else poolAt s n)"
  by (auto simp: poolAt_def nth_append)

lemma poolAt_put:
  "poolAt s n = Some p \<Longrightarrow> poolAt (s\<lparr>rt_cache := c, rt_pools := (rt_pools s)[n := x]\<rparr>) i = (if i = n then x else poolAt s i)"
  "poolAt s n = Some p \<Longrightarrow> poolAt (s\<lparr>rt_pools := (rt_pools s)[n := x]\<rparr>) i = (if i = n then x else poolAt s i)"
  by (auto simp: poolAt_def split: if_splits)

lemma cacheTrue_quiet:
  assumes "cacheTrue sha parse K c notes" and "\<forall>key \<in> K. \<forall>said. foldl (hearOf parse key) said new = said"
  shows "cacheTrue sha parse K c (notes @ new)"
  using assms unfolding cacheTrue_def lastOf_append by metis

definition cachedPublic :: "(string \<Rightarrow> string) \<Rightarrow> string \<Rightarrow> string \<Rightarrow> instant \<Rightarrow> confidentiality cache_op list \<Rightarrow> string \<Rightarrow> bool" where
  "cachedPublic sha m pol now ops t \<longleftrightarrow> (\<exists>w. lastSet (segmentKey sha m pol t) ops = Some (Public, w) \<and> now < w + VERDICT_TTL_MS)"

lemma lookUp_public:
  assumes "remembers m ttl ops c" and "lookUp (segmentKey sha model pol) now ts c = (Some us, c')" and "ttl = VERDICT_TTL_MS"
  shows "\<forall>x \<in> set us. fst x = segmentKey sha model pol (snd x)"
    and "\<forall>t \<in> set ts. t \<in> snd ` set us \<or> cachedPublic sha model pol now ops t"
  using lookUp_cache [OF assms(1,2)] assms(3) by (auto simp: cachedPublic_def)

lemma beginCheck_cache:
  assumes "remembers m ttl ops c" and "beginCheck sha providers snapshot r aborted now c = (how, c')"
  shows "\<exists>ops'. remembers m ttl ops' c' \<and> (\<forall>key. lastSet key ops' = lastSet key ops)"
proof -
  have "c' = c \<or> (\<exists>keyFor res. lookUp keyFor now (segments r) c = (res, c'))"
    using assms(2) by (auto simp: beginCheck_def Let_def split: option.splits prod.splits if_splits)
  then show ?thesis using lookUp_cache [OF assms(1)] assms(1) by blast
qed

lemma newPool:
  assumes keys: "\<forall>x \<in> set us. fst x = segmentKey sha model pol (snd x)" and us: "us \<noteq> []" "length us \<le> MAX_UNCACHED_SEGMENTS"
    and p: "p = (takeNext ^^ min SEGMENT_CONCURRENCY (length us)) \<lparr>pl_classifier = model, pl_policy = pol, pl_localModel = loc,
        pl_uncached = us, pl_next = 0, pl_calls = 0, pl_running = [], pl_stopped = False,
        pl_aborted = aborted, pl_decided = None, pl_startedAt = now, pl_logs = Map.empty\<rparr>"
  shows "pool_inv (segKeyed sha model pol) p \<and> busy p \<and> length (pl_running p) \<le> SEGMENT_CONCURRENCY \<and> waiting p = set us
    \<and> pl_classifier p = model \<and> pl_policy p = pol"
proof -
  let ?p = "\<lparr>pl_classifier = model, pl_policy = pol, pl_localModel = loc,
        pl_uncached = us, pl_next = 0, pl_calls = 0, pl_running = [], pl_stopped = False,
        pl_aborted = aborted, pl_decided = None, pl_startedAt = now, pl_logs = Map.empty\<rparr>"
  have w: "waiting ?p = set us" by (simp add: waiting_def)
  have "pool_inv (segKeyed sha model pol) ?p" using keys us w by (simp add: pool_inv_def segKeyed_def)
  moreover have "0 < min SEGMENT_CONCURRENCY (length us)" using us by (simp add: SEGMENT_CONCURRENCY_def)
  ultimately show ?thesis using takeNext_many [of "segKeyed sha model pol" ?p "min SEGMENT_CONCURRENCY (length us)"] w unfolding p by simp
qed

lemma beginCheck_external:
  assumes rem: "remembers VERDICT_CACHE_MAX VERDICT_TTL_MS ops c"
    and started: "beginCheck sha providers snapshot r aborted now c = (how, c')"
    and st: "st = st_smartRouter (sn_settings snapshot)" and m: "m = nullish (st_smartRouterClassifierModel st) []"
  shows "how = Concluded (External ns) \<Longrightarrow> \<forall>t \<in> set (segments r). cachedPublic sha m (st_smartRouterPolicy st) now ops t"
    and "how = Calling p \<Longrightarrow> pool_inv (segKeyed sha m (st_smartRouterPolicy st)) p \<and> busy p \<and> length (pl_running p) \<le> SEGMENT_CONCURRENCY
      \<and> pl_classifier p = m \<and> pl_policy p = st_smartRouterPolicy st
      \<and> (\<forall>t \<in> set (segments r). t \<in> snd ` waiting p \<or> cachedPublic sha m (st_smartRouterPolicy st) now ops t)"
proof -
  have conf: "\<exists>us c1. lookUp (segmentKey sha m (st_smartRouterPolicy st)) now (segments r) c = (Some us, c1) \<and> us = []"
    if "how = Concluded (External ns)"
    using started that unfolding st m
    by (auto simp: beginCheck_def Let_def smartUnconfigured_def split: option.splits prod.splits if_splits)
  show "how = Concluded (External ns) \<Longrightarrow> \<forall>t \<in> set (segments r). cachedPublic sha m (st_smartRouterPolicy st) now ops t"
    using conf lookUp_public(2) [OF rem _ refl] by fastforce
  assume call: "how = Calling p"
  obtain us c1 loc where us: "lookUp (segmentKey sha m (st_smartRouterPolicy st)) now (segments r) c = (Some us, c1)"
    "us \<noteq> []" "length us \<le> MAX_UNCACHED_SEGMENTS"
    "p = (takeNext ^^ min SEGMENT_CONCURRENCY (length us)) \<lparr>pl_classifier = m, pl_policy = st_smartRouterPolicy st, pl_localModel = loc,
        pl_uncached = us, pl_next = 0, pl_calls = 0, pl_running = [], pl_stopped = False,
        pl_aborted = aborted, pl_decided = None, pl_startedAt = now, pl_logs = Map.empty\<rparr>"
    using started call unfolding st m
    by (auto simp: beginCheck_def Let_def smartUnconfigured_def split: option.splits prod.splits if_splits)
  show "pool_inv (segKeyed sha m (st_smartRouterPolicy st)) p \<and> busy p \<and> length (pl_running p) \<le> SEGMENT_CONCURRENCY
      \<and> pl_classifier p = m \<and> pl_policy p = st_smartRouterPolicy st
      \<and> (\<forall>t \<in> set (segments r). t \<in> snd ` waiting p \<or> cachedPublic sha m (st_smartRouterPolicy st) now ops t)"
    using newPool [OF lookUp_public(1) [OF rem us(1) refl] us(2-4)] lookUp_public(2) [OF rem us(1) refl] by simp
qed

lemma begin_ok:
  assumes ok: "routing_ok sha parse K s notes"
    and on: "route_on sha providers parse codeName s (CheckBegins snapshot r aborted now) = (s', new)"
    and K: "\<Union> (keysOf ` set new) \<subseteq> K"
  shows "routing_ok sha parse K s' (notes @ new)"
proof -
  let ?n = "length (rt_pools s)"
  let ?look = "lookedUp ?n snapshot r now"
  let ?st = "st_smartRouter (sn_settings snapshot)"
  obtain how c where begins: "beginCheck sha providers snapshot r aborted now (rt_cache s) = (how, c)" by fastforce
  have quiet: "\<forall>key \<in> K. \<forall>said. foldl (hearOf parse key) said [?look] = said"
    "\<forall>key \<in> K. \<forall>said. foldl (hearOf parse key) said [?look, Decided ?n d] = said" for d
    by (simp_all add: lookedUp_def)
  have true: "cacheTrue sha parse K (rt_cache s) notes" and pools: "\<forall>n p. poolAt s n = Some p \<longrightarrow> pooled sha parse notes n p"
    and routes: "\<forall>i < length notes. publicRoute parse notes i" using ok by (auto simp: routing_ok_def)
  have look: "\<forall>i < length (notes @ [?look]). publicRoute parse (notes @ [?look]) i"
    using routes by (rule routing_snoc) (simp add: publicRoute_last lookedUp_def)
  obtain ops where ops: "remembers VERDICT_CACHE_MAX VERDICT_TTL_MS ops (rt_cache s)"
    "\<forall>key \<in> K. lastSet (keyOf sha key) ops = lastOf parse key notes" using true by (auto simp: cacheTrue_def)
  obtain ops' where "remembers VERDICT_CACHE_MAX VERDICT_TTL_MS ops' c" "\<forall>key. lastSet key ops' = lastSet key ops"
    using beginCheck_cache [OF ops(1) begins] by blast
  then have kept: "cacheTrue sha parse K c notes" using ops(2) by (auto simp: cacheTrue_def)
  obtain m where m_def: "m = nullish (st_smartRouterClassifierModel ?st) []" by simp
  have keys: "(\<lambda>t. (m, st_smartRouterPolicy ?st, t)) ` set (segments r) \<subseteq> K"
  proof -
    have "?look \<in> set new" using on begins by (cases how) (auto simp: Let_def)
    then have "keysOf ?look \<subseteq> K" using K by blast
    then show ?thesis by (simp add: lookedUp_def m_def)
  qed
  have shown: "shownPublic parse (notes @ tl') (length notes) ?n m (st_smartRouterPolicy ?st) now t"
    if "t \<in> set (segments r)" "cachedPublic sha m (st_smartRouterPolicy ?st) now ops t" for t tl'
    using that keys ops(2) by (auto simp: shownPublic_def cachedPublic_def keyOf_segment [symmetric])
  note facts = beginCheck_external [OF ops(1) begins refl m_def]
  have here: "?look = LookedUp ?n m (st_smartRouterPolicy ?st) r now" by (simp add: lookedUp_def m_def)
  show ?thesis
  proof (cases how)
    case (Concluded d)
    then have s': "s' = s\<lparr>rt_cache := c, rt_pools := rt_pools s @ [None]\<rparr>" "new = [?look, Decided ?n d]"
      using on begins by (simp_all add: Let_def)
    have last: "publicRoute parse ((notes @ [?look]) @ [Decided ?n d]) (length (notes @ [?look]))"
    proof (cases d)
      case (External ns)
      then have "\<forall>t \<in> set (segments r). shownPublic parse (notes @ [?look]) (length notes) ?n m (st_smartRouterPolicy ?st) now t"
        using facts(1) Concluded shown by blast
      then show ?thesis unfolding publicRoute_last External
        by (auto simp: here intro!: exI [of _ "length notes"])
    qed (simp_all only: publicRoute_last routing_note.case decision.case)
    show ?thesis
    proof (rule routing_ok_intro [OF ok])
      show "cacheTrue sha parse K (rt_cache s') (notes @ new)" using cacheTrue_quiet [OF kept quiet(2)] by (simp add: s')
      show "\<forall>n p. poolAt s' n = Some p \<longrightarrow> poolAt s n = Some p \<or> pooled sha parse (notes @ new) n p"
        by (simp add: s' poolAt_add)
      show "\<forall>i < length (notes @ new). publicRoute parse (notes @ new) i"
        using routing_snoc [OF look last] by (simp add: s')
    qed
  next
    case (Calling p)
    then have s': "s' = s\<lparr>rt_cache := c, rt_pools := rt_pools s @ [Some p]\<rparr>" "new = [?look]" using on begins by (simp_all add: Let_def)
    note pool = facts(2) [OF Calling]
    have "accounted parse (notes @ new) ?n p (length notes) r now"
      using pool shown by (auto simp: accounted_def s' here)
    then have "pooled sha parse (notes @ new) ?n p" using pool unfolding pooled_def by auto
    show ?thesis
    proof (rule routing_ok_intro [OF ok])
      show "cacheTrue sha parse K (rt_cache s') (notes @ new)" using cacheTrue_quiet [OF kept quiet(1)] by (simp add: s')
      show "\<forall>n q. poolAt s' n = Some q \<longrightarrow> poolAt s n = Some q \<or> pooled sha parse (notes @ new) n q"
        using \<open>pooled sha parse (notes @ new) ?n p\<close> by (auto simp: s' poolAt_add)
      show "\<forall>i < length (notes @ new). publicRoute parse (notes @ new) i" using look by (simp add: s')
    qed
  qed
qed

lemma callSegment_said: "callSegment parse codeName ended r = Said v \<longleftrightarrow> clearlySaid parse r = Some v"
  by (auto simp: callSegment_def wholeVerdict_clear Let_def split: option.splits)

lemma callSegment_aborted: "callSegment parse codeName ended r = CallAborted \<Longrightarrow> ended"
  by (auto simp: callSegment_def Let_def split: option.splits if_splits)

lemma settle_ok:
  assumes ok: "routing_ok sha parse K s notes" and inj: "inj_on sha (hashed ` K)"
    and on: "route_on sha providers parse codeName s (CallEnds n index r now) = (s', new)"
    and K: "\<Union> (keysOf ` set new) \<subseteq> K"
  shows "routing_ok sha parse K s' (notes @ new)"
proof (cases "\<exists>p seg. poolAt s n = Some p \<and> map_of (pl_running p) index = Some seg")
  case False
  then have "s' = s" "new = []" using on by (auto split: option.splits)
  then show ?thesis using ok by simp
next
  case True
  then obtain p seg where p: "poolAt s n = Some p" "map_of (pl_running p) index = Some seg" by blast
  let ?res = "callSegment parse codeName (pl_stopped p \<or> pl_aborted p) r"
  obtain p' c where settle: "settleCall index seg ?res (sr_log r) now p (rt_cache s) = (p', c)" by fastforce
  let ?heard = "HeardOf n (pl_classifier p) (pl_policy p) (snd seg) r now"
  have s': "s' = s\<lparr>rt_cache := c, rt_pools := (rt_pools s)[n := Some p']\<rparr>" "new = [?heard]"
    using on p settle by (auto simp: Let_def)
  have true: "cacheTrue sha parse K (rt_cache s) notes" and pl: "pooled sha parse notes n p"
    and routes: "\<forall>i < length notes. publicRoute parse notes i" using ok p(1) by (auto simp: routing_ok_def)
  then have inv: "pool_inv (segKeyed sha (pl_classifier p) (pl_policy p)) p" by (simp add: pooled_def)
  note f = settleCall_facts [OF inv p(2) settle]
  let ?key = "(pl_classifier p, pl_policy p, snd seg)"
  have key: "?key \<in> K" "fst seg = keyOf sha ?key"
    using K s'(2) inv f(7) by (auto simp: pool_inv_def segKeyed_def keyOf_segment)
  obtain ops where ops: "remembers VERDICT_CACHE_MAX VERDICT_TTL_MS ops (rt_cache s)"
    "\<forall>key \<in> K. lastSet (keyOf sha key) ops = lastOf parse key notes" using true by (auto simp: cacheTrue_def)
  have cache: "cacheTrue sha parse K c (notes @ new)"
  proof (cases "clearlySaid parse r")
    case None
    then have "?res \<noteq> Said v" for v by (simp add: callSegment_said)
    then have "c = rt_cache s" using f(8) by (cases ?res) auto
    moreover have "\<forall>key \<in> K. \<forall>said. foldl (hearOf parse key) said new = said" by (simp add: s'(2) None)
    ultimately show ?thesis using cacheTrue_quiet [OF true] by simp
  next
    case (Some v)
    then have "?res = Said v" by (simp add: callSegment_said)
    then have c: "c = cache_set (keyOf sha ?key) v now (rt_cache s)" using f(8) key(2) by simp
    have "remembers VERDICT_CACHE_MAX VERDICT_TTL_MS (ops @ [Set (keyOf sha ?key) v now]) c"
      using remembers_step [OF ops(1), of "Set (keyOf sha ?key) v now"] by (simp add: cache_step_def c)
    moreover have "lastSet (keyOf sha key) (ops @ [Set (keyOf sha ?key) v now]) = lastOf parse key (notes @ new)" if "key \<in> K" for key
      using ops(2) that keyOf_inj [OF inj key(1) that] by (auto simp: lastSet_snoc lastOf_append s'(2) Some)
    ultimately show ?thesis unfolding cacheTrue_def by blast
  qed
  obtain k rq since where k: "accounted parse notes n p k rq since" using pl by (auto simp: pooled_def)
  have acc: "accounted parse (notes @ new) n p' k rq since"
  proof -
    have base: "k < length (notes @ new)" "(notes @ new) ! k = LookedUp n (pl_classifier p') (pl_policy p') rq since"
      using k f(4,5) by (auto simp: accounted_def nth_append)
    have "t \<in> snd ` waiting p' \<or> shownPublic parse (notes @ new) k n (pl_classifier p') (pl_policy p') since t"
      if "pl_decided p' = None" "\<not> pl_aborted p'" "t \<in> set (segments rq)" for t
    proof -
      have d: "pl_decided p = None" "?res \<in> {Said Public, CallAborted}" using f(9) that(1) by auto
      have "\<not> pl_stopped p" "\<not> pl_aborted p" using d(1) inv that(2) f(6) by (simp_all add: pool_inv_def)
      then have "?res = Said Public" using d(2) callSegment_aborted [of parse codeName "pl_stopped p \<or> pl_aborted p" r] by auto
      then have "clearlySaid parse r = Some Public" by (simp add: callSegment_said)
      then have mine: "shownPublic parse (notes @ new) k n (pl_classifier p') (pl_policy p') since (snd seg)"
        unfolding shownPublic_def using f(4,5) by (auto simp: s'(2))
      have "t \<in> snd ` waiting p \<or> shownPublic parse notes k n (pl_classifier p) (pl_policy p) since t"
        using k d(1) that(2,3) f(6) by (auto simp: accounted_def)
      then show ?thesis
      proof
        assume "t \<in> snd ` waiting p"
        then have "t = snd seg \<or> t \<in> snd ` waiting p'" using f(7) by auto
        then show ?thesis using mine by blast
      next
        assume "shownPublic parse notes k n (pl_classifier p) (pl_policy p) since t"
        then show ?thesis using shownPublic_append k f(4,5) by (simp add: accounted_def)
      qed
    qed
    then show ?thesis using base unfolding accounted_def by blast
  qed
  have "pooled sha parse (notes @ new) n p'"
    using acc f(1-3) pl unfolding pooled_def f(4,5) by (meson le_trans)
  moreover have "\<forall>i < length (notes @ new). publicRoute parse (notes @ new) i"
    unfolding s'(2) by (rule routing_snoc [OF routes]) (simp only: publicRoute_last routing_note.case)
  ultimately show ?thesis
    using routing_ok_intro [OF ok, of s' new] cache p(1) by (auto simp: s'(1) poolAt_put)
qed

lemma leave_ok:
  assumes ok: "routing_ok sha parse K s notes"
    and on: "route_on sha providers parse codeName s (ClientLeaves n) = (s', new)"
  shows "routing_ok sha parse K s' (notes @ new)"
proof (cases "poolAt s n")
  case None
  then show ?thesis using ok on by simp
next
  case (Some p)
  let ?p = "p\<lparr>pl_aborted := True\<rparr>"
  have s': "s' = s\<lparr>rt_pools := (rt_pools s)[n := Some ?p]\<rparr>" "new = []" using on Some by simp_all
  have pl: "pooled sha parse notes n p" using ok Some by (simp add: routing_ok_def)
  then obtain k rq since where "accounted parse notes n p k rq since" by (auto simp: pooled_def)
  then have "accounted parse notes n ?p k rq since" by (simp add: accounted_def)
  moreover have "pool_inv (segKeyed sha (pl_classifier p) (pl_policy p)) ?p" using pl by (auto simp: pooled_def pool_inv_def waiting_def)
  ultimately have "pooled sha parse notes n ?p" using pl unfolding pooled_def by (auto simp: busy_def)
  then show ?thesis using ok Some unfolding routing_ok_def by (auto simp: s' poolAt_put)
qed

lemma conclude_external:
  assumes "fst (concludeCheck i now p) = External ns"
  shows "pl_decided p = None" "\<not> pl_aborted p"
  using assms by (auto simp: concludeCheck_def Let_def split: if_splits option.splits verdict_so_far.splits prod.splits)

lemma end_ok:
  assumes ok: "routing_ok sha parse K s notes"
    and on: "route_on sha providers parse codeName s (CheckEnds n i now) = (s', new)"
  shows "routing_ok sha parse K s' (notes @ new)"
proof (cases "\<exists>p. poolAt s n = Some p \<and> pl_running p = []")
  case False
  then have "s' = s" "new = []" using on by (auto split: option.splits if_splits)
  then show ?thesis using ok by simp
next
  case True
  then obtain p where p: "poolAt s n = Some p" "pl_running p = []" by blast
  let ?d = "fst (concludeCheck i now p)"
  have s': "s' = s\<lparr>rt_pools := (rt_pools s)[n := None]\<rparr>" "new = [Decided n ?d]" using on p by simp_all
  have true: "cacheTrue sha parse K (rt_cache s) notes" and pl: "pooled sha parse notes n p"
    and routes: "\<forall>i < length notes. publicRoute parse notes i" using ok p(1) by (auto simp: routing_ok_def)
  have "publicRoute parse (notes @ [Decided n ?d]) (length notes)"
  proof (cases ?d)
    case (External ns)
    note undecided = conclude_external [OF External]
    obtain k rq since where k: "accounted parse notes n p k rq since" using pl by (auto simp: pooled_def)
    have inv: "pool_inv (segKeyed sha (pl_classifier p) (pl_policy p)) p" "busy p" using pl by (simp_all add: pooled_def)
    have "waiting p = {}" using inv undecided p(2) by (auto simp: busy_def pool_inv_def waiting_def)
    then show ?thesis unfolding publicRoute_last External
      using k undecided by (auto simp: accounted_def)
  qed (simp_all only: publicRoute_last routing_note.case decision.case)
  then have "\<forall>j < length (notes @ new). publicRoute parse (notes @ new) j"
    unfolding s'(2) by (rule routing_snoc [OF routes])
  moreover have "cacheTrue sha parse K (rt_cache s') (notes @ new)"
    using cacheTrue_quiet [OF true, of new] by (simp add: s')
  moreover have "\<forall>m q. poolAt s' m = Some q \<longrightarrow> poolAt s m = Some q" by (simp add: s' poolAt_put [OF p(1)])
  ultimately show ?thesis using routing_ok_intro [OF ok] by blast
qed

lemma route_all_ok:
  assumes "route_all sha providers parse codeName es = (s, said)"
    and "\<Union> (keysOf ` set said) \<subseteq> K" and inj: "inj_on sha (hashed ` K)"
  shows "routing_ok sha parse K s said"
  using assms(1,2)
proof (induction es arbitrary: s said rule: rev_induct)
  case Nil
  have "remembers VERDICT_CACHE_MAX VERDICT_TTL_MS [] (newVerdictCache None None)"
    by (simp add: remembers_def newVerdictCache_def)
  then have "cacheTrue sha parse K (newVerdictCache None None) []"
    unfolding cacheTrue_def by (intro exI [of _ "[]"]) (simp add: lastOf_def lastSet_def)
  then show ?case using Nil by (auto simp: route_all_def routing_ok_def newRouting_def poolAt_def)
next
  case (snoc e es)
  obtain s0 pre where pre: "route_all sha providers parse codeName es = (s0, pre)" by fastforce
  obtain new where new: "route_on sha providers parse codeName s0 e = (s, new)" "said = pre @ new"
    using snoc.prems(1) pre by (auto simp: route_all_def split: prod.splits)
  have IH: "routing_ok sha parse K s0 pre" using snoc.IH [OF pre] snoc.prems(2) new(2) by auto
  have keys: "\<Union> (keysOf ` set new) \<subseteq> K" using snoc.prems(2) new(2) by auto
  show ?case unfolding new(2)
  proof (cases e)
    case (CheckBegins snapshot r aborted now)
    then show "routing_ok sha parse K s (pre @ new)" using begin_ok [OF IH _ keys] new(1) by blast
  next
    case (CallEnds n index r now)
    then show "routing_ok sha parse K s (pre @ new)" using settle_ok [OF IH inj _ keys] new(1) by blast
  next
    case (ClientLeaves n)
    then show "routing_ok sha parse K s (pre @ new)" using leave_ok [OF IH] new(1) by blast
  next
    case (CheckEnds n i now)
    then show "routing_ok sha parse K s (pre @ new)" using end_ok [OF IH] new(1) by blast
  qed
qed

text \<open>
  Only what was shown to be public leaves. However many checks run at once and however
  their calls end, time out, are stopped or are cut off by a client, a check decides that
  its request may go to an external provider only if every segment of the request was
  shown public by a clear answer: the last one about that segment under that classifier and policy,
  less than an hour before the check looked, or one the check heard itself. The digest
  must not collide on the segments looked at.
\<close>

theorem check_external_public:
  assumes "route_all sha providers parse codeName es = (s, said)"
    and "inj_on sha (hashed ` \<Union> (keysOf ` set said))"
    and "i < length said" and "said ! i = Decided n (External ns)"
  shows "\<exists>k < i. \<exists>m pol rq now. said ! k = LookedUp n m pol rq now
    \<and> (\<forall>t \<in> set (segments rq). shownPublic parse (take i said) k n m pol now t)"
  using route_all_ok [OF assms(1) order_refl assms(2)] assms(3,4)
  by (auto simp: routing_ok_def publicRoute_def)

subsection \<open>A check comes to an end\<close>

fun heardBy :: "nat \<Rightarrow> routing_note \<Rightarrow> bool" where
  "heardBy n (HeardOf m model pol t r now) = (m = n)"
| "heardBy n _ = False"

definition ends :: "nat \<Rightarrow> routing_note list \<Rightarrow> nat" where
  "ends n said = length (filter (heardBy n) said)"

definition sized :: "routing_note list \<Rightarrow> nat \<Rightarrow> pool \<Rightarrow> bool" where
  "sized said n p \<longleftrightarrow> pool_inv (\<lambda>x. True) p \<and> length (pl_running p) \<le> SEGMENT_CONCURRENCY
     \<and> ends n said + length (pl_running p) = pl_calls p"

definition paired :: "routing \<Rightarrow> routing_note list \<Rightarrow> bool" where
  "paired s said \<longleftrightarrow> (\<forall>n p. poolAt s n = Some p \<longrightarrow> sized said n p) \<and> (\<forall>n. n \<ge> length (rt_pools s) \<longrightarrow> ends n said = 0)"

lemma ends_simps [simp]: "ends n [] = 0" "ends n (a @ b) = ends n a + ends n b" "ends n (x # xs) = (if heardBy n x then Suc (ends n xs) else ends n xs)"
  by (simp_all add: ends_def)

lemma takeNext_pairs: "length (pl_running (takeNext p)) + pl_calls p = length (pl_running p) + pl_calls (takeNext p)"
  by (simp add: takeNext_def)

lemma takeNext_pairs_many: "length (pl_running ((takeNext ^^ k) p)) + pl_calls p = length (pl_running p) + pl_calls ((takeNext ^^ k) p)"
proof (induction k)
  case (Suc k)
  then show ?case using takeNext_pairs [of "(takeNext ^^ k) p"] by simp
qed simp

lemma begin_pool:
  assumes "beginCheck sha providers snapshot r aborted now c = (Calling p, c')"
  obtains k q where "p = (takeNext ^^ k) q" "pl_running q = []" "pl_calls q = 0" "pool_inv (\<lambda>x. True) q" "k \<le> SEGMENT_CONCURRENCY"
proof -
  obtain k model pol loc us where "p = (takeNext ^^ k) \<lparr>pl_classifier = model, pl_policy = pol, pl_localModel = loc,
        pl_uncached = us, pl_next = 0, pl_calls = 0, pl_running = [], pl_stopped = False,
        pl_aborted = aborted, pl_decided = None, pl_startedAt = now, pl_logs = Map.empty\<rparr>" "length us \<le> MAX_UNCACHED_SEGMENTS" "k \<le> SEGMENT_CONCURRENCY"
    using assms by (auto simp: beginCheck_def Let_def split: option.splits prod.splits if_splits)
  then show thesis using that by (simp add: pool_inv_def)
qed

lemma begin_pairs:
  "beginCheck sha providers snapshot r aborted now c = (Calling p, c') \<Longrightarrow> length (pl_running p) = pl_calls p"
proof (erule begin_pool)
  fix k q
  assume "p = (takeNext ^^ k) q" "pl_running q = []" "pl_calls q = 0"
  then show ?thesis using takeNext_pairs_many [of k q] by simp
qed

lemma filter_one:
  "distinct (map fst xs) \<Longrightarrow> map_of xs index = Some seg \<Longrightarrow> Suc (length (filter (\<lambda>(i, s). i \<noteq> index) xs)) = length xs"
proof (induction xs)
  case (Cons x xs)
  show ?case
  proof (cases "fst x = index")
    case True
    then have "\<forall>y \<in> set xs. fst y \<noteq> index" using Cons.prems(1) by (metis distinct.simps(2) imageI list.map(2) list.set_map)
    then have "filter (\<lambda>(i, s). i \<noteq> index) xs = xs" by (auto simp: filter_id_conv)
    then show ?thesis using True by (cases x) simp
  next
    case False
    then show ?thesis using Cons by (cases x) simp
  qed
qed simp

lemma settle_pairs:
  assumes inv: "pool_inv P p" and seg: "map_of (pl_running p) index = Some seg"
    and settle: "settleCall index seg result l now p c = (p', c')"
  shows "Suc (length (pl_running p') + pl_calls p) = length (pl_running p) + pl_calls p'"
proof -
  have one: "Suc (length (filter (\<lambda>(i, s). i \<noteq> index) (pl_running p))) = length (pl_running p)"
    using inv seg by (intro filter_one) (simp_all add: pool_inv_def)
  obtain q where "p' = takeNext q" "pl_running q = filter (\<lambda>(i, s). i \<noteq> index) (pl_running p)" "pl_calls q = pl_calls p"
    using settle by (auto simp: settleCall_def Let_def split: call_result.splits if_splits)
  then show ?thesis using takeNext_pairs [of q] one by simp
qed

lemma begin_sized:
  assumes "beginCheck sha providers snapshot r aborted now c = (Calling p, c')" and "ends n said = 0"
  shows "sized said n p"
  using assms(1)
proof (rule begin_pool)
  fix k q
  assume q: "p = (takeNext ^^ k) q" "pl_running q = []" "pl_calls q = 0" "pool_inv (\<lambda>x. True) q" "k \<le> SEGMENT_CONCURRENCY"
  then show ?thesis using takeNext_many [OF q(4), of k] takeNext_pairs_many [of k q] assms(2) by (simp add: sized_def)
qed

lemma sized_add: "sized said n p \<Longrightarrow> ends n new = 0 \<Longrightarrow> sized (said @ new) n p"
  by (simp add: sized_def)

lemma paired_step:
  assumes pair: "paired s said" and on: "route_on sha providers parse codeName s e = (s', new)"
  shows "paired s' (said @ new)"
proof (cases e)
  case (CheckBegins snapshot r aborted now)
  obtain how c where how: "beginCheck sha providers snapshot r aborted now (rt_cache s) = (how, c)" by fastforce
  have quiet: "ends n new = 0" for n using on how by (cases how) (auto simp: CheckBegins Let_def lookedUp_def)
  have "s' = s\<lparr>rt_cache := c, rt_pools := rt_pools s @ [case how of Concluded d \<Rightarrow> None | Calling p \<Rightarrow> Some p]\<rparr>"
    using on how by (cases how) (auto simp: CheckBegins Let_def)
  then show ?thesis
    using pair how begin_sized [of sha providers snapshot r aborted now "rt_cache s" _ c] sized_add [OF _ quiet]
    by (auto simp: paired_def poolAt_add quiet split: check_begun.splits if_splits)
next
  case (ClientLeaves n)
  show ?thesis
  proof (cases "poolAt s n")
    case (Some p)
    have "sized said n p" using pair Some by (simp add: paired_def)
    then have "sized said n (p\<lparr>pl_aborted := True\<rparr>)" by (auto simp: sized_def pool_inv_def)
    then show ?thesis using pair on Some by (auto simp: ClientLeaves paired_def poolAt_put split: if_splits)
  qed (use pair on in \<open>simp add: ClientLeaves\<close>)
next
  case (CheckEnds n i now)
  show ?thesis
  proof (cases "\<exists>p. poolAt s n = Some p \<and> pl_running p = []")
    case True
    then obtain p where p: "poolAt s n = Some p" "pl_running p = []" by blast
    then have s': "s' = s\<lparr>rt_pools := (rt_pools s)[n := None]\<rparr>" "ends m new = 0" for m using on by (auto simp: CheckEnds)
    then show ?thesis using pair sized_add [OF _ s'(2)] by (auto simp: paired_def poolAt_put [OF p(1)] split: if_splits)
  next
    case False
    then have "s' = s" "new = []" using on by (auto simp: CheckEnds split: option.splits if_splits)
    then show ?thesis using pair by simp
  qed
next
  case (CallEnds n index r now)
  show ?thesis
  proof (cases "\<exists>p seg. poolAt s n = Some p \<and> map_of (pl_running p) index = Some seg")
    case False
    then have "s' = s" "new = []" using on by (auto simp: CallEnds split: option.splits)
    then show ?thesis using pair by simp
  next
    case True
    then obtain p seg where p: "poolAt s n = Some p" "map_of (pl_running p) index = Some seg" by blast
    obtain p' c where settle: "settleCall index seg (callSegment parse codeName (pl_stopped p \<or> pl_aborted p) r) (sr_log r) now p (rt_cache s) = (p', c)"
      by fastforce
    have s': "s' = s\<lparr>rt_cache := c, rt_pools := (rt_pools s)[n := Some p']\<rparr>"
      "new = [HeardOf n (pl_classifier p) (pl_policy p) (snd seg) r now]" using on p settle by (auto simp: CallEnds Let_def)
    have sz: "sized said n p" using pair p(1) by (simp add: paired_def)
    then have inv: "pool_inv (\<lambda>x. True) p" by (simp add: sized_def)
    have "n < length (rt_pools s)" using p(1) by (auto simp: poolAt_def split: if_splits)
    moreover have "sized (said @ new) n p'"
      using sz settleCall_facts(1,3) [OF inv p(2) settle] settle_pairs [OF inv p(2) settle] by (simp add: sized_def s'(2))
    ultimately show ?thesis using pair sized_add [of said _ _ new]
      by (auto simp: paired_def s' poolAt_put [OF p(1)] split: if_splits)
  qed
qed

lemma paired_all: "route_all sha providers parse codeName es = (s, said) \<Longrightarrow> paired s said"
proof (induction es arbitrary: s said rule: rev_induct)
  case Nil
  then show ?case by (auto simp: route_all_def newRouting_def paired_def poolAt_def)
next
  case (snoc e es)
  obtain s0 pre where pre: "route_all sha providers parse codeName es = (s0, pre)" by fastforce
  then obtain new where "route_on sha providers parse codeName s0 e = (s, new)" "said = pre @ new"
    using snoc.prems by (auto simp: route_all_def split: prod.splits)
  then show ?case using paired_step snoc.IH [OF pre] by blast
qed

text \<open>
  C15: a check comes to an end. The calls of a check that have ended and those that still
  run are the calls it began, at most four at once and never more than its uncached
  segments, which are at most sixty-four; so after as many ends it has no call running,
  and then it decides.
\<close>

theorem check_ends:
  assumes "route_all sha providers parse codeName es = (s, said)" and "poolAt s n = Some p"
  shows "ends n said + length (pl_running p) = pl_calls p \<and> pl_calls p \<le> length (pl_uncached p)
    \<and> length (pl_uncached p) \<le> 64 \<and> length (pl_running p) \<le> 4
    \<and> (pl_running p \<noteq> [] \<or> (\<exists>d. route_on sha providers parse codeName s (CheckEnds n i now) = (s\<lparr>rt_pools := (rt_pools s)[n := None]\<rparr>, [Decided n d])))
    \<and> (ends n said < length (pl_uncached p) \<or> pl_running p = [])"
proof -
  have sz: "sized said n p" using paired_all [OF assms(1)] assms(2) by (simp add: paired_def)
  then have "ends n said + length (pl_running p) = pl_calls p" "pl_calls p \<le> length (pl_uncached p)"
    "length (pl_uncached p) \<le> 64" "length (pl_running p) \<le> 4"
    by (auto simp: sized_def pool_inv_def MAX_UNCACHED_SEGMENTS_def SEGMENT_CONCURRENCY_def)
  moreover from this have "ends n said < length (pl_uncached p) \<or> pl_running p = []" by (cases "pl_running p") simp_all
  ultimately show ?thesis using assms(2) by auto
qed

subsection \<open>A check that finds its request public\<close>

definition sample_snapshot :: snapshot where
  "sample_snapshot = (di_snapshot sample_dispatch)\<lparr>sn_settings := DEFAULT_SETTINGS\<lparr>st_smartRouter :=
     \<lparr>st_smartRouterEnabled = True, st_smartRouterClassifierModel = Some ''home'', st_smartRouterLocalModel = Some ''home'',
      st_smartRouterPolicy = ''names'', st_smartRouterTimeoutMs = 10000\<rparr>\<rparr>\<rparr>"

abbreviation sample_providers :: descriptors where "sample_providers \<equiv> di_providers sample_dispatch"

definition sample_public :: segment_report where
  "sample_public = \<lparr>sr_timeoutFired = False, sr_log = None,
     sr_events = [Start ''i'' ''c'', BlockStart 0 StartText, BlockDelta 0 (DText ''public''), End EndTurn no_usage None], sr_thrown = None\<rparr>"

abbreviation sample_asking :: chat_request where "sample_asking \<equiv> jn_request sample_asked"

definition sample_routing :: "routing_event list \<Rightarrow> routing \<times> routing_note list" where
  "sample_routing = route_all (\<lambda>t. t) sample_providers (\<lambda>_. None) (\<lambda>_. [])"

lemma sample_local:
  "localOnlyModel ''home'' sample_snapshot sample_providers \<noteq> None" "localOnlyModel ''m'' sample_snapshot sample_providers = None"
  by code_simp+

lemma sample_segments: "segments sample_asking = [''[user]'' @ [LF] @ ''hi'']"
proof -
  have "slices highUnit (''[user]'' @ [LF] @ ''hi'') = [''[user]'' @ [LF] @ ''hi'']"
    by (simp add: slices.simps sliceEnd_def SEGMENT_CHARS_def not_highUnit)
  then show ?thesis
    by (simp add: segments_def systemUnit_def toolsUnit_def messageUnits_def messageUnit_def pack_def packStep_def sample_asked_def
        sample_block_def joinNonEmpty_def citedText_def slices.simps)
qed

lemma sample_clearly: "clearlySaid (\<lambda>_. None) sample_public = Some Public"
  by code_simp

definition sample_start :: "routing_event list" where
  "sample_start = [CheckBegins sample_snapshot sample_asking False 1000]"

definition sample_whole :: "routing_event list" where
  "sample_whole = sample_start @ [CallEnds 0 0 sample_public 1500, CheckEnds 0 ''r'' 1600]"

lemmas sample_routing_simps = sample_routing_def sample_whole_def sample_start_def route_all_def newRouting_def
  newVerdictCache_def beginCheck_def sample_local sample_segments Let_def cache_get_def poolAt_def takeNext_def
  SEGMENT_CONCURRENCY_def MAX_UNCACHED_SEGMENTS_def lookedUp_def

lemma sample_settings:
  "st_smartRouter (sn_settings sample_snapshot) = \<lparr>st_smartRouterEnabled = True, st_smartRouterClassifierModel = Some ''home'',
     st_smartRouterLocalModel = Some ''home'', st_smartRouterPolicy = ''names'', st_smartRouterTimeoutMs = 10000\<rparr>"
  "rq_model sample_asking = ''m''"
  by (simp_all add: sample_snapshot_def sample_asked_def)

lemma sample_said: "callSegment (\<lambda>_. None) (\<lambda>_. []) ended sample_public = Said Public"
  by (simp add: callSegment_said sample_clearly)

lemma sample_whole_notes:
  "snd (sample_routing sample_whole) = [LookedUp 0 ''home'' ''names'' sample_asking 1000,
     HeardOf 0 ''home'' ''names'' (''[user]'' @ [LF] @ ''hi'') sample_public 1500, Decided 0 (External [''smart-router:public''])]"
  by (simp add: sample_routing_simps sample_settings sample_said settleCall_def concludeCheck_def sample_public_def [THEN arg_cong [of _ _ sr_log]])

theorem check_external_public_witness:
  "\<exists>k < 2. \<exists>m pol rq now. snd (sample_routing sample_whole) ! k = LookedUp 0 m pol rq now
    \<and> (\<forall>t \<in> set (segments rq). shownPublic (\<lambda>_. None) (take 2 (snd (sample_routing sample_whole))) k 0 m pol now t)"
proof (rule check_external_public [where sha = "\<lambda>t. t" and es = sample_whole and said = "snd (sample_routing sample_whole)"])
  show "route_all (\<lambda>t. t) sample_providers (\<lambda>_. None) (\<lambda>_. []) sample_whole = (fst (sample_routing sample_whole), snd (sample_routing sample_whole))"
    by (simp add: sample_routing_def)
  show "inj_on (\<lambda>t. t) (hashed ` \<Union> (keysOf ` set (snd (sample_routing sample_whole))))" by (simp add: inj_on_def)
  show "2 < length (snd (sample_routing sample_whole))" by (simp add: sample_whole_notes)
  show "snd (sample_routing sample_whole) ! 2 = Decided 0 (External [''smart-router:public''])" by (simp add: sample_whole_notes)
qed

theorem check_ends_witness:
  "\<exists>p. poolAt (fst (sample_routing sample_start)) 0 = Some p
    \<and> ends 0 (snd (sample_routing sample_start)) + length (pl_running p) = pl_calls p \<and> pl_calls p \<le> length (pl_uncached p)"
proof -
  obtain p where p: "poolAt (fst (sample_routing sample_start)) 0 = Some p"
    by (simp add: sample_routing_simps sample_settings)
  have run: "route_all (\<lambda>t. t) sample_providers (\<lambda>_. None) (\<lambda>_. []) sample_start = (fst (sample_routing sample_start), snd (sample_routing sample_start))"
    by (simp add: sample_routing_def)
  show ?thesis using check_ends [OF run p] p by blast
qed

end
