(* ===== verification/Proxy_Screen.thy ===== *)
theory Proxy_Screen
  imports Smart_Check
begin

section \<open>Screening in the proxy\<close>

text \<open>
  \<^verbatim>\<open>screen\<close> and the dispatch it hands over to, of \<^verbatim>\<open>apps/gateway/src/routes/proxy.ts\<close>, and
  \<^verbatim>\<open>smartRouter/relabel.ts\<close>: the confidentiality check first, then the usage policy, then
  the request as sent, or rerouted, or confined to local models.
\<close>

definition smartRouterThrew :: screen_threw where
  "smartRouterThrew = \<lparr>sw_error = refusal UPSTREAM SMART_UNAVAILABLE_MESSAGE, sw_notes = [''smart-router:unavailable''],
     sw_warning = ''confidentiality check failed'', sw_reason = ''confidentiality check threw''\<rparr>"

text \<open>
  \<open>Onward\<close>: where the request goes, the model the usage policy asks (\<open>None\<close> when nothing
  overrides the setting), whether that call is confined, and the notes so far.
\<close>

datatype screen_stage =
    Over screen_outcome
  | Onward "string option" "route option" "string option option" bool "string list"

text \<open>No decision is a key without smart routing; \<open>setting\<close> is the guardrail model of the settings the route read.\<close>

definition afterCheck :: "string option \<Rightarrow> chat_request \<Rightarrow> decision option \<Rightarrow> screen_stage" where
  "afterCheck setting r verdict = (case verdict of
     None \<Rightarrow> Onward None None None False []
   | Some (CheckRefused e ns) \<Rightarrow> Over (ScreenRefused e ns)
   | Some CheckCancelled \<Rightarrow> Over ScreenCancelled
   | Some (External ns) \<Rightarrow> Onward None (Some GoExternal) (Some setting) False ns
   | Some (GoesLocal model classifier ns) \<Rightarrow>
       Onward (if model = rq_model r then None else Some model) (Some GoLocal) (Some (Some classifier)) True ns)"

definition policyInput :: "string \<Rightarrow> string \<Rightarrow> chat_request \<Rightarrow> screen_stage \<Rightarrow> judge_input option" where
  "policyInput key policy r stage = (case stage of
     Over outcome \<Rightarrow> None
   | Onward reroute target model confined ns \<Rightarrow>
       Some \<lparr>jn_apiKeyId = key, jn_policy = policy, jn_request = r, jn_model = model, jn_localOnly = Some confined\<rparr>)"

text \<open>No outcome is a key without a policy.\<close>

definition afterJudge :: "screen_stage \<Rightarrow> guardrail_outcome option \<Rightarrow> screen_outcome" where
  "afterJudge stage judged = (case stage of
     Over outcome \<Rightarrow> outcome
   | Onward reroute target model confined ns \<Rightarrow>
       (case judged of
          None \<Rightarrow> Proceed reroute target ns
        | Some g \<Rightarrow>
            (case guardrailScreen g of
               ScreenCancelled \<Rightarrow> ScreenCancelled
             | ScreenRefused e later \<Rightarrow> ScreenRefused e (ns @ later)
             | Proceed a b later \<Rightarrow> Proceed reroute target (ns @ later))))"

definition proxyDispatch :: "dispatch_input \<Rightarrow> string option \<Rightarrow> route option \<Rightarrow> dispatch_input" where
  "proxyDispatch d reroute target =
     (if target \<noteq> Some GoLocal then d
      else case reroute of
          None \<Rightarrow> d\<lparr>di_localOnly := True\<rparr>
        | Some model \<Rightarrow> d\<lparr>di_localOnly := True, di_requestedModel := model, di_request := (di_request d)\<lparr>rq_model := model\<rparr>\<rparr>)"

fun relabelEvent :: "string \<Rightarrow> stream_event \<Rightarrow> stream_event" where
  "relabelEvent localModel (Start i model) = Start i localModel"
| "relabelEvent localModel e = e"

definition relabelLog :: "string \<Rightarrow> request_log \<Rightarrow> request_log" where
  "relabelLog clientModel l = l\<lparr>rl_requestedModel := clientModel\<rparr>"

subsection \<open>A request not shown public stays on local models\<close>

lemma hands_over:
  assumes "sc_does (screenFirst i started requested screen aborted onThrow now) = HandsOver reroute target"
  shows "\<exists>ns. screen = Some (Proceed reroute target ns)"
  using assms by (auto simp: screenFirst_def screenResult_def Let_def split: option.splits screen_outcome.splits if_splits)

lemma proceeds:
  assumes "afterJudge (afterCheck setting r (Some dec)) judged = Proceed reroute target ns"
  shows "(\<exists>ns. dec = External ns) \<or> target = Some GoLocal"
  using assms by (auto simp: afterJudge_def afterCheck_def split: decision.splits option.splits screen_outcome.splits)

lemma confined_routes:
  assumes "target = Some GoLocal" and "(p, m, a) \<in> set (routed (rn_trace (snd (dispatch (proxyDispatch d reroute target)))))"
  shows "p = ''custom''"
  using dispatch_routes_admitted [OF assms(2)] assms(1) by (auto simp: proxyDispatch_def split: option.splits)

text \<open>
  C9: for a key with smart routing, a request that goes on past screening, whatever the
  usage policy said, either was shown public, segment by segment, by clear answers of the
  classifier, or its dispatch begins attempts on custom endpoints alone; and the usage
  policy of a request that was not asks the classifier the check validated, confined to
  local models.
\<close>

theorem only_public_leaves:
  assumes "route_all sha providers parse codeName es = (s, said)"
    and "inj_on sha (hashed ` \<Union> (keysOf ` set said))"
    and "i < length said" and "said ! i = Decided n dec"
    and "sc_does (screenFirst j started requested (Some (afterJudge (afterCheck setting r (Some dec)) judged)) aborted onThrow now)
      = HandsOver reroute target"
  shows "(\<exists>k < i. \<exists>m pol rq w. said ! k = LookedUp n m pol rq w
        \<and> (\<forall>t \<in> set (segments rq). shownPublic parse (take i said) k n m pol w t))
    \<or> (\<forall>(p, m, a) \<in> set (routed (rn_trace (snd (dispatch (proxyDispatch d reroute target))))). p = ''custom'')
      \<and> (\<exists>model classifier ns. dec = GoesLocal model classifier ns
          \<and> map_option (\<lambda>x. (jn_model x, jn_localOnly x)) (policyInput key policy r (afterCheck setting r (Some dec)))
            = Some (Some (Some classifier), Some True))"
proof -
  obtain ns where go: "afterJudge (afterCheck setting r (Some dec)) judged = Proceed reroute target ns"
    using hands_over [OF assms(5)] by blast
  show ?thesis
  proof (cases "\<exists>ns. dec = External ns")
    case True
    then have "\<exists>k < i. \<exists>m pol rq w. said ! k = LookedUp n m pol rq w
        \<and> (\<forall>t \<in> set (segments rq). shownPublic parse (take i said) k n m pol w t)"
      using route_all_ok [OF assms(1) order_refl assms(2)] assms(3,4) by (auto simp: routing_ok_def publicRoute_def)
    then show ?thesis by blast
  next
    case False
    then have "target = Some GoLocal" using proceeds [OF go] by blast
    then have "\<forall>(p, m, a) \<in> set (routed (rn_trace (snd (dispatch (proxyDispatch d reroute target))))). p = ''custom''"
      using confined_routes by blast
    moreover have "\<exists>model classifier ns. dec = GoesLocal model classifier ns
          \<and> map_option (\<lambda>x. (jn_model x, jn_localOnly x)) (policyInput key policy r (afterCheck setting r (Some dec)))
            = Some (Some (Some classifier), Some True)"
      using go False by (cases dec) (auto simp: afterCheck_def afterJudge_def policyInput_def)
    ultimately show ?thesis by blast
  qed
qed

text \<open>A public request under a key without a usage policy.\<close>

theorem only_public_leaves_witness:
  "(\<exists>k < 2. \<exists>m pol rq w. snd (sample_routing sample_whole) ! k = LookedUp 0 m pol rq w
        \<and> (\<forall>t \<in> set (segments rq). shownPublic (\<lambda>_. None) (take 2 (snd (sample_routing sample_whole))) k 0 m pol w t))
    \<or> (\<forall>(p, m, a) \<in> set (routed (rn_trace (snd (dispatch (proxyDispatch sample_dispatch None (Some GoExternal)))))). p = ''custom'')
      \<and> (\<exists>model classifier ns. External [''smart-router:public''] = GoesLocal model classifier ns
          \<and> map_option (\<lambda>x. (jn_model x, jn_localOnly x)) (policyInput ''k'' ''p'' sample_asking (afterCheck None sample_asking (Some (External [''smart-router:public'']))))
            = Some (Some (Some classifier), Some True))"
proof (rule only_public_leaves [where sha = "\<lambda>t. t" and es = sample_whole and said = "snd (sample_routing sample_whole)"
      and judged = None and j = "''i''" and started = 0 and requested = "''m''" and aborted = False and onThrow = smartRouterThrew and now = 0])
  show "route_all (\<lambda>t. t) sample_providers (\<lambda>_. None) (\<lambda>_. []) sample_whole = (fst (sample_routing sample_whole), snd (sample_routing sample_whole))"
    by (simp add: sample_routing_def)
  show "inj_on (\<lambda>t. t) (hashed ` \<Union> (keysOf ` set (snd (sample_routing sample_whole))))" by (simp add: inj_on_def)
  show "2 < length (snd (sample_routing sample_whole))" by (simp add: sample_whole_notes)
  show "snd (sample_routing sample_whole) ! 2 = Decided 0 (External [''smart-router:public''])" by (simp add: sample_whole_notes)
  show "sc_does (screenFirst ''i'' 0 ''m'' (Some (afterJudge (afterCheck None sample_asking (Some (External [''smart-router:public'']))) None)) False smartRouterThrew 0)
      = HandsOver None (Some GoExternal)"
    by (simp add: screenFirst_def screenResult_def afterJudge_def afterCheck_def Let_def)
qed

end
