(* ===== verification/Oauth_Refresh.thy ===== *)
theory Oauth_Refresh
  imports Store_Types Ir_Stream
begin

section \<open>Refreshing OAuth credentials\<close>

text \<open>
  The refresher of \<^verbatim>\<open>packages/control/src/oauth/refresh.ts\<close>, the credential operations of
  \<^verbatim>\<open>packages/store/src/sqlite/credentials.ts\<close> it rests on, and the reconnect half of
  \<^verbatim>\<open>complete\<close> of \<^verbatim>\<open>packages/control/src/connect.ts\<close>. Every process of a fleet runs its own
  refresher over one store, one lock service and one provider per account, so the model is
  a step function on that whole: a job is one call of \<^verbatim>\<open>serialised\<close>, its phase is the place
  between two \<^verbatim>\<open>await\<close>s where it stands, and a run is any sequence of job steps and of
  events of the outside. A view returned by \<^verbatim>\<open>get\<close> holds the secrets of its row, one
  returned by \<^verbatim>\<open>listRouting\<close> loads the secrets stored when it is opened. What the store keeps
  is modelled in the clear: encryption at rest is not part of the protocol. The account's
  side is what OAuth documents for refresh tokens: it honours one token, and an exchange of it
  may replace it. What reaches the refresher of that is the network's choice: the new
  token, any error (\<^verbatim>\<open>tokenErrorCode\<close> makes AUTH of every 4xx but 429), or an error in place of
  an exchange that took place. Any operation of the store may throw.
\<close>

subsection \<open>The credential store\<close>

record cred_secrets =
  cs_accessToken :: "string option"
  cs_refreshToken :: "string option"
  cs_apiKey :: "string option"
  cs_idToken :: "string option"

record secrets_patch =
  sp_accessToken :: "string option option"
  sp_refreshToken :: "string option option"
  sp_apiKey :: "string option option"
  sp_idToken :: "string option option"

definition wholeSecrets :: "cred_secrets \<Rightarrow> secrets_patch" where
  "wholeSecrets s = \<lparr>sp_accessToken = Some (cs_accessToken s), sp_refreshToken = Some (cs_refreshToken s),
     sp_apiKey = Some (cs_apiKey s), sp_idToken = Some (cs_idToken s)\<rparr>"

record cred_row =
  cw_cred :: credential_view
  cw_secrets :: cred_secrets

record cred_store =
  st_rows :: "string \<rightharpoonup> cred_row"
  st_changes :: nat

text \<open>A view and what it holds: the secrets of the row it was made from, or \<open>None\<close> when it
  loads the stored ones each time it is opened.\<close>

record opened_view =
  ov_cred :: credential_view
  ov_held :: "cred_secrets option"

definition viewCredential :: "cred_row \<Rightarrow> credential_view" where
  "viewCredential r = (cw_cred r)\<lparr>cr_hasRefreshToken := cs_refreshToken (cw_secrets r) \<noteq> None\<rparr>"

definition getCredential :: "cred_store \<Rightarrow> string \<Rightarrow> opened_view option" where
  "getCredential S cid = map_option (\<lambda>r. \<lparr>ov_cred = viewCredential r, ov_held = Some (cw_secrets r)\<rparr>) (st_rows S cid)"

definition routingView :: "cred_store \<Rightarrow> string \<Rightarrow> opened_view option" where
  "routingView S cid = map_option (\<lambda>r. \<lparr>ov_cred = viewCredential r, ov_held = None\<rparr>) (st_rows S cid)"

definition noLongerExists :: "string \<Rightarrow> thrown" where
  "noLongerExists cid = ThrownError ''Error'' (''credential '' @ cid @ '' no longer exists'')"

definition openSecrets :: "cred_store \<Rightarrow> opened_view \<Rightarrow> thrown + cred_secrets" where
  "openSecrets S v =
     (case ov_held v of
        Some s \<Rightarrow> Inr s
      | None \<Rightarrow> (case st_rows S (cr_id (ov_cred v)) of
          None \<Rightarrow> Inl (noLongerExists (cr_id (ov_cred v)))
        | Some r \<Rightarrow> Inr (cw_secrets r)))"

definition openForRefresh :: "cred_store \<Rightarrow> opened_view \<Rightarrow> thrown + string option" where
  "openForRefresh S v = map_sum id cs_refreshToken (openSecrets S v)"

definition sealInto :: "secrets_patch \<Rightarrow> cred_secrets \<Rightarrow> cred_secrets" where
  "sealInto p s = \<lparr>cs_accessToken = nullish (sp_accessToken p) (cs_accessToken s),
     cs_refreshToken = nullish (sp_refreshToken p) (cs_refreshToken s),
     cs_apiKey = nullish (sp_apiKey p) (cs_apiKey s),
     cs_idToken = nullish (sp_idToken p) (cs_idToken s)\<rparr>"

definition updateSecrets ::
  "string \<Rightarrow> secrets_patch \<Rightarrow> instant option \<Rightarrow> nat option \<Rightarrow> instant \<Rightarrow> cred_store \<Rightarrow> cred_store \<times> bool" where
  "updateSecrets cid p expiresAt expected now S =
     (case st_rows S cid of
        None \<Rightarrow> (S, False)
      | Some r \<Rightarrow>
          if expected = None \<or> expected = Some (cr_tokenVersion (cw_cred r)) then
            (S\<lparr>st_rows := (st_rows S)(cid \<mapsto> r\<lparr>
                 cw_cred := (cw_cred r)\<lparr>cr_expiresAt := expiresAt, cr_updatedAt := now,
                   cr_tokenVersion := cr_tokenVersion (cw_cred r) + 1\<rparr>,
                 cw_secrets := sealInto p (cw_secrets r)\<rparr>),
               st_changes := st_changes S + 1\<rparr>, True)
          else (S, False))"

record cred_patch =
  cp_label :: "string option"
  cp_enabled :: "bool option"
  cp_tier :: "int option"
  cp_weight :: "rat option"
  cp_expiresAt :: "instant option option"
  cp_accountEmail :: "string option option"
  cp_providerData :: "(string \<times> json) list option"
  cp_disabledReason :: "disabled_reason option option"
  cp_disabledAt :: "instant option option"

definition emptyPatch :: cred_patch where
  "emptyPatch = \<lparr>cp_label = None, cp_enabled = None, cp_tier = None, cp_weight = None, cp_expiresAt = None,
     cp_accountEmail = None, cp_providerData = None, cp_disabledReason = None, cp_disabledAt = None\<rparr>"

definition putInto :: "cred_patch \<Rightarrow> credential_view \<Rightarrow> credential_view" where
  "putInto p c = c\<lparr>cr_label := nullish (cp_label p) (cr_label c),
     cr_enabled := nullish (cp_enabled p) (cr_enabled c),
     cr_tier := nullish (cp_tier p) (cr_tier c),
     cr_weight := nullish (cp_weight p) (cr_weight c),
     cr_expiresAt := nullish (cp_expiresAt p) (cr_expiresAt c),
     cr_accountEmail := nullish (cp_accountEmail p) (cr_accountEmail c),
     cr_providerData := nullish (cp_providerData p) (cr_providerData c),
     cr_disabledReason := nullish (cp_disabledReason p) (cr_disabledReason c),
     cr_disabledAt := nullish (cp_disabledAt p) (cr_disabledAt c)\<rparr>"

definition updateCredential :: "string \<Rightarrow> cred_patch \<Rightarrow> instant \<Rightarrow> cred_store \<Rightarrow> cred_store" where
  "updateCredential cid p now S =
     (if p = emptyPatch then S
      else S\<lparr>st_rows := (case st_rows S cid of
               None \<Rightarrow> st_rows S
             | Some r \<Rightarrow> (st_rows S)(cid \<mapsto> r\<lparr>cw_cred := (putInto p (cw_cred r))\<lparr>cr_updatedAt := now\<rparr>\<rparr>)),
             st_changes := st_changes S + 1\<rparr>)"

definition removeCredential :: "string \<Rightarrow> cred_store \<Rightarrow> cred_store" where
  "removeCredential cid S = S\<lparr>st_rows := (st_rows S)(cid := None), st_changes := st_changes S + 1\<rparr>"

subsection \<open>One refresh and the fleet it runs in\<close>

record flow_result =
  fr_secrets :: cred_secrets
  fr_expiresAt :: "instant option"
  fr_accountEmail :: "string option"
  fr_providerData :: "(string \<times> json) list"

datatype answer = Issued flow_result | Refused thrown | Lost flow_result thrown

text \<open>\<^verbatim>\<open>tokenErrorCode\<close> of \<^verbatim>\<open>packages/providers/src/oauthFlow.ts\<close>.\<close>

definition tokenErrorCode :: "nat \<Rightarrow> error_code" where
  "tokenErrorCode status =
     (if status = 429 then RATE_LIMIT
      else if status \<ge> 400 \<and> status < 500 then AUTH
      else UPSTREAM)"

datatype phase =
    Locking opened_view
  | Holding opened_view
  | Opening opened_view
  | Asking opened_view string
  | Disabling opened_view thrown
  | Writing opened_view flow_result
  | Rereading opened_view
  | Noting opened_view flow_result
  | Releasing "thrown + cred_secrets"
  | Clearing "thrown + cred_secrets"
  | Settled "thrown + cred_secrets"

record job =
  jb_process :: nat
  jb_id :: string
  jb_phase :: phase

record fleet =
  fl_store :: cred_store
  fl_locks :: "string \<rightharpoonup> nat"
  fl_jobs :: "nat \<rightharpoonup> job"
  fl_inFlight :: "nat \<times> string \<rightharpoonup> nat"
  fl_honoured :: "string \<Rightarrow> string option"

text \<open>\<open>refreshCall\<close> is the function \<^verbatim>\<open>createRefresher\<close> returns, on process \<open>p\<close>: it answers with
  the job whose promise the caller shares, a new one only when none is in flight.\<close>

definition refreshCall :: "nat \<Rightarrow> opened_view \<Rightarrow> nat \<Rightarrow> fleet \<Rightarrow> fleet \<times> nat" where
  "refreshCall p v fresh F =
     (case fl_inFlight F (p, cr_id (ov_cred v)) of
        Some existing \<Rightarrow> (F, existing)
      | None \<Rightarrow> (F\<lparr>fl_jobs := (fl_jobs F)(fresh \<mapsto> \<lparr>jb_process = p, jb_id = cr_id (ov_cred v), jb_phase = Locking v\<rparr>),
          fl_inFlight := (fl_inFlight F)((p, cr_id (ov_cred v)) \<mapsto> fresh)\<rparr>, fresh))"

definition setPhase :: "nat \<Rightarrow> phase \<Rightarrow> fleet \<Rightarrow> fleet" where
  "setPhase j ph F = F\<lparr>fl_jobs := (fl_jobs F)(j := map_option (\<lambda>b. b\<lparr>jb_phase := ph\<rparr>) (fl_jobs F j))\<rparr>"

definition rereadPhase :: "cred_store \<Rightarrow> opened_view \<Rightarrow> phase" where
  "rereadPhase S v =
     (case getCredential S (cr_id (ov_cred v)) of
        Some fresh \<Rightarrow>
          if cr_tokenVersion (ov_cred fresh) > cr_tokenVersion (ov_cred v)
          then Releasing (openSecrets S fresh) else Opening fresh
      | None \<Rightarrow> Opening v)"

definition openPhase :: "(provider_id \<Rightarrow> bool) \<Rightarrow> cred_store \<Rightarrow> opened_view \<Rightarrow> phase" where
  "openPhase supported S v =
     (case openForRefresh S v of
        Inl e \<Rightarrow> Releasing (Inl e)
      | Inr None \<Rightarrow> Releasing (Inl (ThrownGateway (GatewayError AUTH
          (''credential '' @ cr_id (ov_cred v) @ '' has no refresh token'') no_opts)))
      | Inr (Some tok) \<Rightarrow>
          if supported (cr_provider (ov_cred v)) then Asking v tok
          else Releasing (Inl (ThrownGateway (GatewayError BAD_REQUEST ''provider does not support OAuth refresh'' no_opts))))"

fun isAuthError :: "thrown \<Rightarrow> bool" where
  "isAuthError (ThrownGateway e) \<longleftrightarrow> ge_code e = AUTH"
| "isAuthError _ \<longleftrightarrow> False"

fun answerPhase :: "opened_view \<Rightarrow> answer \<Rightarrow> phase" where
  "answerPhase v (Issued r) = Writing v r"
| "answerPhase v (Refused e) = (if isAuthError e then Disabling v e else Releasing (Inl e))"
| "answerPhase v (Lost r e) = (if isAuthError e then Disabling v e else Releasing (Inl e))"

definition rejectedPatch :: "instant \<Rightarrow> cred_patch" where
  "rejectedPatch now = emptyPatch\<lparr>cp_enabled := Some False, cp_disabledReason := Some (Some TokenRejected),
     cp_disabledAt := Some (Some now)\<rparr>"

definition lostRacePhase :: "cred_store \<Rightarrow> opened_view \<Rightarrow> phase" where
  "lostRacePhase S v =
     (case getCredential S (cr_id (ov_cred v)) of
        None \<Rightarrow> Releasing (Inl (ThrownGateway (GatewayError AUTH (''credential '' @ cr_id (ov_cred v) @ '' is gone'') no_opts)))
      | Some stored \<Rightarrow> Releasing (openSecrets S stored))"

definition notedPatch :: "opened_view \<Rightarrow> flow_result \<Rightarrow> cred_patch" where
  "notedPatch v r = emptyPatch\<lparr>
     cp_accountEmail := Some (case fr_accountEmail r of Some e \<Rightarrow> Some e | None \<Rightarrow> cr_accountEmail (ov_cred v)),
     cp_providerData := Some (spread (cr_providerData (ov_cred v)) (fr_providerData r))\<rparr>"

definition reconnectPatch :: "flow_result \<Rightarrow> cred_patch" where
  "reconnectPatch r = emptyPatch\<lparr>cp_enabled := Some True, cp_disabledReason := Some None, cp_disabledAt := Some None,
     cp_accountEmail := Some (fr_accountEmail r), cp_providerData := Some (fr_providerData r)\<rparr>"

subsection \<open>Steps\<close>

text \<open>The steps of a job, then what happens around it: a lock outliving its time to live, a
  reconnect of the account (the exchange with the provider, the write of the tokens, the
  write that enables the row again), a removal.\<close>

datatype event =
    Call nat opened_view nat
  | Take nat
  | Unlocked nat
  | Reread nat
  | OpenToken nat
  | Answer nat answer
  | DisableRow nat instant
  | Write nat instant
  | ReadStored nat
  | Note nat instant
  | Release nat
  | Clear nat
  | StoreFails nat thrown
  | Lapse string
  | Exchange string flow_result
  | ReconnectWrite string flow_result instant
  | ReconnectEnable string flow_result instant
  | RemoveRow string

text \<open>What can come back for a token: an exchange only of the token the provider honours, whether
  its answer arrives or not; an error at any time.\<close>

fun answers :: "string option \<Rightarrow> string \<Rightarrow> answer \<Rightarrow> bool" where
  "answers honoured tok (Issued r) \<longleftrightarrow> honoured = Some tok \<and> cs_refreshToken (fr_secrets r) \<noteq> None"
| "answers honoured tok (Refused e) \<longleftrightarrow> True"
| "answers honoured tok (Lost r e) \<longleftrightarrow> honoured = Some tok \<and> cs_refreshToken (fr_secrets r) \<noteq> None"

fun honouredAfter :: "string option \<Rightarrow> answer \<Rightarrow> string option" where
  "honouredAfter honoured (Issued r) = cs_refreshToken (fr_secrets r)"
| "honouredAfter honoured (Refused e) = honoured"
| "honouredAfter honoured (Lost r e) = cs_refreshToken (fr_secrets r)"

text \<open>One step of job \<open>j\<close> in its phase, the rest of a call up to its next \<^verbatim>\<open>await\<close>. A step its
  phase does not allow is \<open>None\<close>.\<close>

definition takeLock :: "nat \<Rightarrow> job \<Rightarrow> fleet \<Rightarrow> fleet option" where
  "takeLock j b F =
     (case jb_phase b of
        Locking v \<Rightarrow> if fl_locks F (jb_id b) = None
          then Some (setPhase j (Holding v) (F\<lparr>fl_locks := (fl_locks F)(jb_id b \<mapsto> j)\<rparr>)) else None
      | _ \<Rightarrow> None)"

definition refreshUnserialised :: "nat \<Rightarrow> job \<Rightarrow> fleet \<Rightarrow> fleet option" where
  "refreshUnserialised j b F = (case jb_phase b of Locking v \<Rightarrow> Some (setPhase j (Opening v) F) | _ \<Rightarrow> None)"

definition rereadRow :: "nat \<Rightarrow> job \<Rightarrow> fleet \<Rightarrow> fleet option" where
  "rereadRow j b F =
     (case jb_phase b of Holding v \<Rightarrow> Some (setPhase j (rereadPhase (fl_store F) v) F) | _ \<Rightarrow> None)"

definition openToken :: "(provider_id \<Rightarrow> bool) \<Rightarrow> nat \<Rightarrow> job \<Rightarrow> fleet \<Rightarrow> fleet option" where
  "openToken supported j b F =
     (case jb_phase b of Opening v \<Rightarrow> Some (setPhase j (openPhase supported (fl_store F) v) F) | _ \<Rightarrow> None)"

definition takeAnswer :: "answer \<Rightarrow> nat \<Rightarrow> job \<Rightarrow> fleet \<Rightarrow> fleet option" where
  "takeAnswer a j b F =
     (case jb_phase b of
        Asking v tok \<Rightarrow> if answers (fl_honoured F (jb_id b)) tok a
          then Some (setPhase j (answerPhase v a)
            (F\<lparr>fl_honoured := (fl_honoured F)(jb_id b := honouredAfter (fl_honoured F (jb_id b)) a)\<rparr>))
          else None
      | _ \<Rightarrow> None)"

definition disableRow :: "instant \<Rightarrow> nat \<Rightarrow> job \<Rightarrow> fleet \<Rightarrow> fleet option" where
  "disableRow now j b F =
     (case jb_phase b of
        Disabling v x \<Rightarrow> Some (setPhase j (Releasing (Inl x))
          (F\<lparr>fl_store := updateCredential (cr_id (ov_cred v)) (rejectedPatch now) now (fl_store F)\<rparr>))
      | _ \<Rightarrow> None)"

definition writeSecrets :: "instant \<Rightarrow> nat \<Rightarrow> job \<Rightarrow> fleet \<Rightarrow> fleet option" where
  "writeSecrets now j b F =
     (case jb_phase b of
        Writing v r \<Rightarrow>
          let (S, written) = updateSecrets (cr_id (ov_cred v)) (wholeSecrets (fr_secrets r)) (fr_expiresAt r)
              (Some (cr_tokenVersion (ov_cred v))) now (fl_store F)
          in Some (setPhase j (if written then Noting v r else Rereading v) (F\<lparr>fl_store := S\<rparr>))
      | _ \<Rightarrow> None)"

definition readStored :: "nat \<Rightarrow> job \<Rightarrow> fleet \<Rightarrow> fleet option" where
  "readStored j b F =
     (case jb_phase b of Rereading v \<Rightarrow> Some (setPhase j (lostRacePhase (fl_store F) v) F) | _ \<Rightarrow> None)"

definition noteRow :: "instant \<Rightarrow> nat \<Rightarrow> job \<Rightarrow> fleet \<Rightarrow> fleet option" where
  "noteRow now j b F =
     (case jb_phase b of
        Noting v r \<Rightarrow> Some (setPhase j (Releasing (Inr (fr_secrets r)))
          (F\<lparr>fl_store := updateCredential (cr_id (ov_cred v)) (notedPatch v r) now (fl_store F)\<rparr>))
      | _ \<Rightarrow> None)"

definition releaseLock :: "nat \<Rightarrow> job \<Rightarrow> fleet \<Rightarrow> fleet option" where
  "releaseLock j b F =
     (case jb_phase b of
        Releasing x \<Rightarrow> Some (setPhase j (Clearing x)
          (if fl_locks F (jb_id b) = Some j then F\<lparr>fl_locks := (fl_locks F)(jb_id b := None)\<rparr> else F))
      | _ \<Rightarrow> None)"

definition clearInFlight :: "nat \<Rightarrow> job \<Rightarrow> fleet \<Rightarrow> fleet option" where
  "clearInFlight j b F =
     (case jb_phase b of
        Clearing x \<Rightarrow> Some (setPhase j (Settled x)
          (F\<lparr>fl_inFlight := (fl_inFlight F)((jb_process b, jb_id b) := None)\<rparr>))
      | _ \<Rightarrow> None)"

text \<open>An operation of the store throws: the call ends there, the lock is released.\<close>

definition storeFails :: "thrown \<Rightarrow> nat \<Rightarrow> job \<Rightarrow> fleet \<Rightarrow> fleet option" where
  "storeFails x j b F =
     (let failed = Some (setPhase j (Releasing (Inl x)) F) in
      case jb_phase b of
        Holding _ \<Rightarrow> failed | Opening _ \<Rightarrow> failed | Disabling _ _ \<Rightarrow> failed
      | Writing _ _ \<Rightarrow> failed | Rereading _ \<Rightarrow> failed | Noting _ _ \<Rightarrow> failed
      | _ \<Rightarrow> None)"

definition ofJob :: "(nat \<Rightarrow> job \<Rightarrow> fleet \<Rightarrow> fleet option) \<Rightarrow> nat \<Rightarrow> fleet \<Rightarrow> fleet option" where
  "ofJob f j F = (case fl_jobs F j of Some b \<Rightarrow> f j b F | None \<Rightarrow> None)"

primrec refreshStep :: "(provider_id \<Rightarrow> bool) \<Rightarrow> event \<Rightarrow> fleet \<Rightarrow> fleet option" where
  "refreshStep supported (Call p v j) F = (if fl_jobs F j = None then Some (fst (refreshCall p v j F)) else None)"
| "refreshStep supported (Take j) F = ofJob takeLock j F"
| "refreshStep supported (Unlocked j) F = ofJob refreshUnserialised j F"
| "refreshStep supported (Reread j) F = ofJob rereadRow j F"
| "refreshStep supported (OpenToken j) F = ofJob (openToken supported) j F"
| "refreshStep supported (Answer j a) F = ofJob (takeAnswer a) j F"
| "refreshStep supported (DisableRow j now) F = ofJob (disableRow now) j F"
| "refreshStep supported (Write j now) F = ofJob (writeSecrets now) j F"
| "refreshStep supported (ReadStored j) F = ofJob readStored j F"
| "refreshStep supported (Note j now) F = ofJob (noteRow now) j F"
| "refreshStep supported (Release j) F = ofJob releaseLock j F"
| "refreshStep supported (Clear j) F = ofJob clearInFlight j F"
| "refreshStep supported (StoreFails j x) F = ofJob (storeFails x) j F"
| "refreshStep supported (Lapse cid) F = Some (F\<lparr>fl_locks := (fl_locks F)(cid := None)\<rparr>)"
| "refreshStep supported (Exchange cid r) F =
     Some (F\<lparr>fl_honoured := (fl_honoured F)(cid := cs_refreshToken (fr_secrets r))\<rparr>)"
| "refreshStep supported (ReconnectWrite cid r now) F =
     Some (F\<lparr>fl_store := fst (updateSecrets cid (wholeSecrets (fr_secrets r)) (fr_expiresAt r) None now (fl_store F))\<rparr>)"
| "refreshStep supported (ReconnectEnable cid r now) F =
     Some (F\<lparr>fl_store := updateCredential cid (reconnectPatch r) now (fl_store F)\<rparr>)"
| "refreshStep supported (RemoveRow cid) F = Some (F\<lparr>fl_store := removeCredential cid (fl_store F)\<rparr>)"

primrec refreshRun :: "(provider_id \<Rightarrow> bool) \<Rightarrow> event list \<Rightarrow> fleet \<Rightarrow> fleet option" where
  "refreshRun supported [] F = Some F"
| "refreshRun supported (e # es) F =
     (case refreshStep supported e F of Some F' \<Rightarrow> refreshRun supported es F' | None \<Rightarrow> None)"

subsection \<open>Serialised refreshes\<close>

abbreviation rowOf :: "fleet \<Rightarrow> string \<Rightarrow> cred_row option" where
  "rowOf F \<equiv> st_rows (fl_store F)"

abbreviation storedToken :: "cred_row \<Rightarrow> string option" where
  "storedToken r \<equiv> cs_refreshToken (cw_secrets r)"

abbreviation viewId :: "opened_view \<Rightarrow> string" where
  "viewId v \<equiv> cr_id (ov_cred v)"

definition upToDate :: "opened_view \<Rightarrow> cred_row \<Rightarrow> bool" where
  "upToDate v r \<longleftrightarrow> cr_tokenVersion (ov_cred v) = cr_tokenVersion (cw_cred r)"

text \<open>A job between its taking of the lock and its release of it.\<close>

definition inside :: "job \<Rightarrow> bool" where
  "inside b \<longleftrightarrow> (case jb_phase b of Locking _ \<Rightarrow> False | Clearing _ \<Rightarrow> False | Settled _ \<Rightarrow> False | _ \<Rightarrow> True)"

definition aboutToWrite :: "job \<Rightarrow> bool" where
  "aboutToWrite b \<longleftrightarrow> (case jb_phase b of Writing _ _ \<Rightarrow> True | _ \<Rightarrow> False)"

text \<open>The lock does its work in a run without a lock that could not be taken, a lock lost to
  its time to live and a reconnect.\<close>

definition lockWorks :: "event \<Rightarrow> bool" where
  "lockWorks e \<longleftrightarrow>
     (case e of Unlocked _ \<Rightarrow> False | Lapse _ \<Rightarrow> False | Exchange _ _ \<Rightarrow> False
      | ReconnectWrite _ _ _ \<Rightarrow> False | ReconnectEnable _ _ _ \<Rightarrow> False | _ \<Rightarrow> True)"

text \<open>
  The answers are faithful when a refusal with AUTH means the token is dead and no exchange's
  answer is lost, and an orderly run is one in which the lock does its work, the answers are
  faithful and no write of a rotation throws. Any other failure may happen in it.
\<close>

fun faithful :: "string option \<Rightarrow> string \<Rightarrow> answer \<Rightarrow> bool" where
  "faithful honoured tok (Issued r) \<longleftrightarrow> True"
| "faithful honoured tok (Refused e) \<longleftrightarrow> \<not> isAuthError e \<or> honoured \<noteq> Some tok"
| "faithful honoured tok (Lost r e) \<longleftrightarrow> False"

definition keepsRotation :: "event \<Rightarrow> fleet \<Rightarrow> bool" where
  "keepsRotation e F \<longleftrightarrow>
     (case e of
        Answer j a \<Rightarrow> \<forall>b v tok. fl_jobs F j = Some b \<longrightarrow> jb_phase b = Asking v tok \<longrightarrow> faithful (fl_honoured F (jb_id b)) tok a
      | StoreFails j x \<Rightarrow> \<forall>b. fl_jobs F j = Some b \<longrightarrow> \<not> aboutToWrite b
      | _ \<Rightarrow> True)"

primrec orderly :: "(provider_id \<Rightarrow> bool) \<Rightarrow> event list \<Rightarrow> fleet \<Rightarrow> bool" where
  "orderly supported [] F \<longleftrightarrow> True"
| "orderly supported (e # es) F \<longleftrightarrow> lockWorks e \<and> keepsRotation e F
     \<and> (case refreshStep supported e F of Some F' \<Rightarrow> orderly supported es F' | None \<Rightarrow> True)"

text \<open>What is true of a job whose row is still there: it works on the stored version, what it
  presented is the stored token, and what it writes is what the provider honours.\<close>

definition phaseSound :: "cred_row option \<Rightarrow> string option \<Rightarrow> string \<Rightarrow> phase \<Rightarrow> bool" where
  "phaseSound row honoured cid ph \<longleftrightarrow>
     (case ph of
        Locking v \<Rightarrow> viewId v = cid
      | Holding v \<Rightarrow> viewId v = cid
      | Opening v \<Rightarrow> viewId v = cid \<and> (case row of None \<Rightarrow> True | Some r \<Rightarrow> upToDate v r \<and> ov_held v = Some (cw_secrets r))
      | Asking v tok \<Rightarrow> viewId v = cid \<and> (case row of None \<Rightarrow> True | Some r \<Rightarrow> upToDate v r \<and> storedToken r = Some tok)
      | Disabling v _ \<Rightarrow> viewId v = cid \<and> row = None
      | Writing v res \<Rightarrow> viewId v = cid \<and> cs_refreshToken (fr_secrets res) = honoured
          \<and> (case row of None \<Rightarrow> True | Some r \<Rightarrow> upToDate v r)
      | Rereading v \<Rightarrow> viewId v = cid \<and> row = None
      | Noting v _ \<Rightarrow> viewId v = cid
      | _ \<Rightarrow> True)"

definition beingWritten :: "fleet \<Rightarrow> string \<Rightarrow> bool" where
  "beingWritten F cid \<longleftrightarrow>
     (case fl_locks F cid of
        None \<Rightarrow> False
      | Some j \<Rightarrow> (case fl_jobs F j of None \<Rightarrow> False | Some b \<Rightarrow> jb_id b = cid \<and> aboutToWrite b))"

definition fleetSound :: "fleet \<Rightarrow> bool" where
  "fleetSound F \<longleftrightarrow>
     (\<forall>j b. fl_jobs F j = Some b \<longrightarrow>
        phaseSound (rowOf F (jb_id b)) (fl_honoured F (jb_id b)) (jb_id b) (jb_phase b)
        \<and> (inside b \<longrightarrow> fl_locks F (jb_id b) = Some j))
     \<and> (\<forall>cid r. rowOf F cid = Some r \<longrightarrow> cr_id (cw_cred r) = cid
        \<and> (beingWritten F cid \<or> storedToken r = fl_honoured F cid))"

lemma fleetSoundD:
  assumes "fleetSound F"
  shows "fl_jobs F j = Some b \<Longrightarrow>
      phaseSound (rowOf F (jb_id b)) (fl_honoured F (jb_id b)) (jb_id b) (jb_phase b)"
    and "fl_jobs F j = Some b \<Longrightarrow> inside b \<Longrightarrow> fl_locks F (jb_id b) = Some j"
    and "rowOf F cid = Some r \<Longrightarrow> beingWritten F cid \<or> storedToken r = fl_honoured F cid"
    and "rowOf F cid = Some r \<Longrightarrow> cr_id (cw_cred r) = cid"
  using assms unfolding fleetSound_def by blast+

lemma phaseSound_outside:
  "\<not> inside b \<Longrightarrow> phaseSound row hon cid (jb_phase b) \<Longrightarrow> phaseSound row' hon' cid (jb_phase b)"
  by (auto simp: inside_def phaseSound_def split: phase.splits)

lemma setPhase_simps [simp]:
  "fl_store (setPhase j ph F) = fl_store F"
  "fl_locks (setPhase j ph F) = fl_locks F"
  "fl_honoured (setPhase j ph F) = fl_honoured F"
  "fl_inFlight (setPhase j ph F) = fl_inFlight F"
  "fl_jobs F j = Some b \<Longrightarrow> fl_jobs (setPhase j ph F) = (fl_jobs F)(j \<mapsto> b\<lparr>jb_phase := ph\<rparr>)"
  by (simp_all add: setPhase_def)

text \<open>One job moves, and only what belongs to its credential with it, while no other job of
  that credential is inside.\<close>

lemma sound_move:
  assumes sound: "fleetSound F" and b: "fl_jobs F j = Some b"
    and jobs: "fl_jobs F' = (fl_jobs F)(j \<mapsto> b\<lparr>jb_phase := ph\<rparr>)"
    and rows: "\<And>c. c \<noteq> jb_id b \<Longrightarrow> rowOf F' c = rowOf F c"
    and hon: "\<And>c. c \<noteq> jb_id b \<Longrightarrow> fl_honoured F' c = fl_honoured F c"
    and locks: "\<And>c. c \<noteq> jb_id b \<Longrightarrow> fl_locks F' c = fl_locks F c"
    and free: "fl_locks F (jb_id b) = Some j \<or> fl_locks F (jb_id b) = None"
    and ph: "phaseSound (rowOf F' (jb_id b)) (fl_honoured F' (jb_id b)) (jb_id b) ph"
    and keep: "inside (b\<lparr>jb_phase := ph\<rparr>) \<Longrightarrow> fl_locks F' (jb_id b) = Some j"
    and row: "\<And>r. rowOf F' (jb_id b) = Some r \<Longrightarrow> cr_id (cw_cred r) = jb_id b
      \<and> (beingWritten F' (jb_id b) \<or> storedToken r = fl_honoured F' (jb_id b))"
  shows "fleetSound F'"
proof -
  note D = fleetSoundD [OF sound]
  have out: "\<not> inside b'" if "fl_jobs F j' = Some b'" "j' \<noteq> j" "jb_id b' = jb_id b" for j' b'
    using D(2) [OF that(1)] that free by auto
  have written: "beingWritten F' c = beingWritten F c" if "c \<noteq> jb_id b" for c
    using that locks [OF that] b jobs by (auto simp: beingWritten_def split: option.splits)
  have one: "phaseSound (rowOf F' (jb_id b')) (fl_honoured F' (jb_id b')) (jb_id b') (jb_phase b')
      \<and> (inside b' \<longrightarrow> fl_locks F' (jb_id b') = Some j')" if job: "fl_jobs F' j' = Some b'" for j' b'
  proof (cases "j' = j")
    case True
    then have "b' = b\<lparr>jb_phase := ph\<rparr>" using job jobs by simp
    then show ?thesis using ph keep True by simp
  next
    case False
    then have old: "fl_jobs F j' = Some b'" using job jobs by simp
    show ?thesis
    proof (cases "jb_id b' = jb_id b")
      case True
      then show ?thesis using out [OF old False] phaseSound_outside D(1) [OF old] by blast
    next
      case other: False
      then show ?thesis using D(1,2) [OF old] rows hon locks by simp
    qed
  qed
  moreover have "cr_id (cw_cred r) = c \<and> (beingWritten F' c \<or> storedToken r = fl_honoured F' c)"
    if "rowOf F' c = Some r" for c r
    using that row rows hon written D(3,4) by (cases "c = jb_id b") auto
  ultimately show ?thesis unfolding fleetSound_def by blast
qed

lemma updateCredential_row:
  "st_rows (updateCredential cid p now S) c =
     (if c = cid \<and> p \<noteq> emptyPatch
      then map_option (\<lambda>r. r\<lparr>cw_cred := (putInto p (cw_cred r))\<lparr>cr_updatedAt := now\<rparr>\<rparr>) (st_rows S c) else st_rows S c)"
  by (auto simp: updateCredential_def split: option.splits)

lemma updateSecrets_row:
  "st_rows (fst (updateSecrets cid p ex expected now S)) c =
     (if c = cid \<and> snd (updateSecrets cid p ex expected now S)
      then map_option (\<lambda>r. r\<lparr>cw_cred := (cw_cred r)\<lparr>cr_expiresAt := ex, cr_updatedAt := now,
             cr_tokenVersion := cr_tokenVersion (cw_cred r) + 1\<rparr>,
           cw_secrets := sealInto p (cw_secrets r)\<rparr>) (st_rows S c) else st_rows S c)"
  by (auto simp: updateSecrets_def split: option.splits)

lemma updateSecrets_written:
  "snd (updateSecrets cid p ex expected now S) \<longleftrightarrow>
     (case st_rows S cid of None \<Rightarrow> False
      | Some r \<Rightarrow> expected = None \<or> expected = Some (cr_tokenVersion (cw_cred r)))"
  by (auto simp: updateSecrets_def split: option.splits)

lemma sealInto_whole [simp]: "sealInto (wholeSecrets s) s' = s"
  by (simp add: sealInto_def wholeSecrets_def)

lemma upToDate_view [simp]: "upToDate \<lparr>ov_cred = viewCredential r, ov_held = h\<rparr> r"
  by (simp add: upToDate_def viewCredential_def)

lemmas phase_defs = phaseSound_def inside_def aboutToWrite_def

lemma sound_call:
  assumes sound: "fleetSound F" and new: "fl_jobs F j = None"
  shows "fleetSound (fst (refreshCall p v j F))"
proof (cases "fl_inFlight F (p, cr_id (ov_cred v))")
  case (Some existing)
  then show ?thesis using sound by (simp add: refreshCall_def)
next
  case None
  note D = fleetSoundD [OF sound]
  let ?F = "fst (refreshCall p v j F)"
  have F': "fl_jobs ?F = (fl_jobs F)(j \<mapsto> \<lparr>jb_process = p, jb_id = viewId v, jb_phase = Locking v\<rparr>)"
    "fl_store ?F = fl_store F" "fl_locks ?F = fl_locks F" "fl_honoured ?F = fl_honoured F"
    using None by (simp_all add: refreshCall_def)
  have "beingWritten ?F c = beingWritten F c" for c
    using new F' by (auto simp: beingWritten_def phase_defs split: option.splits)
  then show ?thesis using D F' unfolding fleetSound_def by (auto simp: phase_defs)
qed

lemma sound_remove:
  assumes sound: "fleetSound F"
  shows "fleetSound (F\<lparr>fl_store := removeCredential cid (fl_store F)\<rparr>)"
proof -
  note D = fleetSoundD [OF sound]
  have gone: "phaseSound None hon c ph" if "phaseSound row hon c ph" for row hon c ph
    using that by (auto simp: phaseSound_def split: phase.splits option.splits)
  have "beingWritten (F\<lparr>fl_store := S\<rparr>) c = beingWritten F c" for S c
    by (simp add: beingWritten_def cong: option.case_cong)
  moreover have "phaseSound None (fl_honoured F (jb_id b)) (jb_id b) (jb_phase b)" if "fl_jobs F j = Some b" for j b
    using gone D(1) [OF that] by blast
  ultimately show ?thesis using D unfolding fleetSound_def by (auto simp: removeCredential_def)
qed

text \<open>A step of a job that leaves the store, the lock and the provider as they are.\<close>

lemma sound_phase:
  assumes sound: "fleetSound F" and b: "fl_jobs F j = Some b"
    and held: "inside b" and still: "inside (b\<lparr>jb_phase := ph\<rparr>)"
    and same: "\<not> aboutToWrite b"
    and ph: "phaseSound (rowOf F (jb_id b)) (fl_honoured F (jb_id b)) (jb_id b) ph"
  shows "fleetSound (setPhase j ph F)"
proof (rule sound_move [OF sound b])
  note D = fleetSoundD [OF sound]
  have lock: "fl_locks F (jb_id b) = Some j" using D(2) [OF b held] .
  then show "fl_locks F (jb_id b) = Some j \<or> fl_locks F (jb_id b) = None"
    "fl_locks (setPhase j ph F) (jb_id b) = Some j" by simp_all
  fix r assume r: "rowOf (setPhase j ph F) (jb_id b) = Some r"
  have "\<not> beingWritten F (jb_id b)" using lock b same by (simp add: beingWritten_def)
  then show "cr_id (cw_cred r) = jb_id b
      \<and> (beingWritten (setPhase j ph F) (jb_id b) \<or> storedToken r = fl_honoured (setPhase j ph F) (jb_id b))"
    using D(3,4) [of "jb_id b" r] r by simp
qed (use b ph in simp_all)

lemma sound_take:
  assumes sound: "fleetSound F" and b: "fl_jobs F j = Some b" and "takeLock j b F = Some F'"
  shows "fleetSound F'"
proof -
  note D = fleetSoundD [OF sound]
  obtain v where v: "jb_phase b = Locking v" and free: "fl_locks F (jb_id b) = None"
    and F': "F' = setPhase j (Holding v) (F\<lparr>fl_locks := (fl_locks F)(jb_id b \<mapsto> j)\<rparr>)"
    using assms(3) by (auto simp: takeLock_def split: phase.splits if_splits)
  have "\<not> beingWritten F (jb_id b)" using free by (simp add: beingWritten_def)
  then show ?thesis
    using D(1) [OF b] D(3,4) [of "jb_id b"] v free
    by (intro sound_move [OF sound b, where ph = "Holding v"]) (auto simp: F' b phaseSound_def)
qed

lemma sound_reread:
  assumes sound: "fleetSound F" and b: "fl_jobs F j = Some b" and "rereadRow j b F = Some F'"
  shows "fleetSound F'"
proof -
  note D = fleetSoundD [OF sound]
  obtain v where v: "jb_phase b = Holding v" and F': "F' = setPhase j (rereadPhase (fl_store F) v) F"
    using assms(3) by (auto simp: rereadRow_def split: phase.splits)
  have "viewId v = jb_id b" using D(1) [OF b] v by (simp add: phaseSound_def)
  then show ?thesis unfolding F' using D(4) [of "jb_id b"]
    by (intro sound_phase [OF sound b])
      (auto simp: v phase_defs rereadPhase_def getCredential_def viewCredential_def upToDate_def split: option.splits)
qed

lemma sound_open:
  assumes sound: "fleetSound F" and b: "fl_jobs F j = Some b" and "openToken supported j b F = Some F'"
  shows "fleetSound F'"
proof -
  note D = fleetSoundD [OF sound]
  obtain v where v: "jb_phase b = Opening v" and F': "F' = setPhase j (openPhase supported (fl_store F) v) F"
    using assms(3) by (auto simp: openToken_def split: phase.splits)
  have "viewId v = jb_id b" "\<And>r. rowOf F (jb_id b) = Some r \<Longrightarrow> upToDate v r \<and> ov_held v = Some (cw_secrets r)"
    using D(1) [OF b] v by (auto simp: phaseSound_def)
  then show ?thesis unfolding F'
    by (intro sound_phase [OF sound b])
      (auto simp: v phase_defs openPhase_def openForRefresh_def openSecrets_def split: option.splits sum.splits)
qed

lemma sound_answer:
  assumes sound: "fleetSound F" and b: "fl_jobs F j = Some b" and "takeAnswer a j b F = Some F'"
    and keeps: "keepsRotation (Answer j a) F"
  shows "fleetSound F'"
proof -
  note D = fleetSoundD [OF sound]
  obtain v tok where v: "jb_phase b = Asking v tok" and a: "answers (fl_honoured F (jb_id b)) tok a"
    and F': "F' = setPhase j (answerPhase v a)
      (F\<lparr>fl_honoured := (fl_honoured F)(jb_id b := honouredAfter (fl_honoured F (jb_id b)) a)\<rparr>)"
    using assms(3) by (auto simp: takeAnswer_def split: phase.splits if_splits)
  have f: "faithful (fl_honoured F (jb_id b)) tok a" using keeps b v by (auto simp: keepsRotation_def)
  have lock: "fl_locks F (jb_id b) = Some j" using D(2) [OF b] v by (simp add: inside_def)
  have asked: "viewId v = jb_id b" "\<And>r. rowOf F (jb_id b) = Some r \<Longrightarrow> upToDate v r \<and> storedToken r = Some tok"
    using D(1) [OF b] v by (auto simp: phaseSound_def)
  have idle: "\<not> beingWritten F (jb_id b)" using lock b v by (simp add: beingWritten_def aboutToWrite_def)
  have honoured: "fl_honoured F (jb_id b) = Some tok" if "rowOf F (jb_id b) = Some r" for r
    using D(3) [OF that] idle asked(2) [OF that] by simp
  show ?thesis
  proof (cases a)
    case (Issued res)
    then show ?thesis using asked lock D(4) a
      by (intro sound_move [OF sound b, where ph = "answerPhase v a"])
        (auto simp: F' b phaseSound_def beingWritten_def aboutToWrite_def split: option.splits)
  next
    case (Refused x)
    have "rowOf F (jb_id b) = None" if "isAuthError x"
      using f honoured that by (cases "rowOf F (jb_id b)") (auto simp: Refused)
    then show ?thesis using asked lock D(4) idle D(3) [of "jb_id b"] Refused
      by (intro sound_move [OF sound b, where ph = "answerPhase v a"]) (auto simp: F' b phaseSound_def)
  qed (use f in simp)
qed

lemma sound_fails:
  assumes sound: "fleetSound F" and b: "fl_jobs F j = Some b" and "storeFails x j b F = Some F'" and "\<not> aboutToWrite b"
  shows "fleetSound F'"
proof -
  have F': "F' = setPhase j (Releasing (Inl x)) F" and held: "inside b"
    using assms(3) by (auto simp: storeFails_def inside_def Let_def split: phase.splits)
  show ?thesis unfolding F'
    by (rule sound_phase [OF sound b held _ assms(4)]) (simp_all add: phase_defs)
qed

lemma sound_disable:
  assumes sound: "fleetSound F" and b: "fl_jobs F j = Some b" and "disableRow now j b F = Some F'"
  shows "fleetSound F'"
proof -
  note D = fleetSoundD [OF sound]
  obtain v x where v: "jb_phase b = Disabling v x" and F': "F' = setPhase j (Releasing (Inl x))
      (F\<lparr>fl_store := updateCredential (viewId v) (rejectedPatch now) now (fl_store F)\<rparr>)"
    using assms(3) by (auto simp: disableRow_def split: phase.splits)
  have "viewId v = jb_id b" "rowOf F (jb_id b) = None" using D(1) [OF b] v by (auto simp: phaseSound_def)
  then show ?thesis using D(2) [OF b] v
    by (intro sound_move [OF sound b, where ph = "Releasing (Inl x)"])
      (auto simp: F' b phase_defs updateCredential_row split: if_splits)
qed

lemma sound_write:
  assumes sound: "fleetSound F" and b: "fl_jobs F j = Some b" and "writeSecrets now j b F = Some F'"
  shows "fleetSound F'"
proof -
  note D = fleetSoundD [OF sound]
  obtain v r where v: "jb_phase b = Writing v r" using assms(3) by (auto simp: writeSecrets_def split: phase.splits)
  let ?u = "updateSecrets (viewId v) (wholeSecrets (fr_secrets r)) (fr_expiresAt r)
      (Some (cr_tokenVersion (ov_cred v))) now (fl_store F)"
  let ?ph = "if snd ?u then Noting v r else Rereading v"
  have F': "F' = setPhase j ?ph (F\<lparr>fl_store := fst ?u\<rparr>)"
    using assms(3) v by (auto simp: writeSecrets_def split_beta)
  have it: "viewId v = jb_id b" "cs_refreshToken (fr_secrets r) = fl_honoured F (jb_id b)"
    "\<And>row. rowOf F (jb_id b) = Some row \<Longrightarrow> upToDate v row"
    using D(1) [OF b] v by (auto simp: phaseSound_def)
  have wrote: "snd ?u \<longleftrightarrow> rowOf F (jb_id b) \<noteq> None"
    using it(1,3) by (auto simp: updateSecrets_written upToDate_def split: option.splits)
  have row: "cr_id (cw_cred q) = jb_id b \<and> storedToken q = fl_honoured F (jb_id b)"
    if q: "st_rows (fst ?u) (jb_id b) = Some q" for q
    using q it(1,2) wrote D(4) [of "jb_id b"] by (auto simp: updateSecrets_row split: if_splits)
  show ?thesis
  proof (rule sound_move [OF sound b, where ph = ?ph])
    show "rowOf F' c = rowOf F c" if "c \<noteq> jb_id b" for c using that it(1) by (simp add: F' updateSecrets_row)
    show "phaseSound (rowOf F' (jb_id b)) (fl_honoured F' (jb_id b)) (jb_id b) ?ph"
      using it(1) wrote by (auto simp: F' phaseSound_def updateSecrets_row)
    show "fl_locks F (jb_id b) = Some j \<or> fl_locks F (jb_id b) = None"
      using D(2) [OF b] v by (simp add: inside_def)
    show "fl_locks F' (jb_id b) = Some j" using D(2) [OF b] v by (simp add: F' inside_def)
  qed (use row b in \<open>simp_all add: F'\<close>)
qed

lemma sound_stored:
  assumes sound: "fleetSound F" and b: "fl_jobs F j = Some b" and "readStored j b F = Some F'"
  shows "fleetSound F'"
proof -
  obtain v where v: "jb_phase b = Rereading v" and F': "F' = setPhase j (lostRacePhase (fl_store F) v) F"
    using assms(3) by (auto simp: readStored_def split: phase.splits)
  show ?thesis unfolding F'
    by (intro sound_phase [OF sound b]) (auto simp: v phase_defs lostRacePhase_def split: option.splits)
qed

lemma sound_note:
  assumes sound: "fleetSound F" and b: "fl_jobs F j = Some b" and "noteRow now j b F = Some F'"
  shows "fleetSound F'"
proof -
  note D = fleetSoundD [OF sound]
  obtain v r where v: "jb_phase b = Noting v r" and F': "F' = setPhase j (Releasing (Inr (fr_secrets r)))
      (F\<lparr>fl_store := updateCredential (viewId v) (notedPatch v r) now (fl_store F)\<rparr>)"
    using assms(3) by (auto simp: noteRow_def split: phase.splits)
  have it: "viewId v = jb_id b" using D(1) [OF b] v by (simp add: phaseSound_def)
  have lock: "fl_locks F (jb_id b) = Some j" using D(2) [OF b] v by (simp add: inside_def)
  have "\<not> beingWritten F (jb_id b)" using lock b v by (simp add: beingWritten_def aboutToWrite_def)
  then have row: "cr_id (cw_cred q) = jb_id b \<and> storedToken q = fl_honoured F (jb_id b)"
    if q: "rowOf F' (jb_id b) = Some q" for q
    using q it D(3,4) [of "jb_id b"] by (auto simp: F' updateCredential_row putInto_def split: if_splits)
  show ?thesis
  proof (rule sound_move [OF sound b, where ph = "Releasing (Inr (fr_secrets r))"])
    show "rowOf F' c = rowOf F c" if "c \<noteq> jb_id b" for c using that it by (simp add: F' updateCredential_row)
    show "cr_id (cw_cred q) = jb_id b \<and> (beingWritten F' (jb_id b) \<or> storedToken q = fl_honoured F' (jb_id b))"
      if "rowOf F' (jb_id b) = Some q" for q using row [OF that] by (simp add: F')
  qed (use lock b in \<open>simp_all add: F' phaseSound_def\<close>)
qed

lemma sound_release:
  assumes sound: "fleetSound F" and b: "fl_jobs F j = Some b" and "releaseLock j b F = Some F'"
  shows "fleetSound F'"
proof -
  note D = fleetSoundD [OF sound]
  obtain x where x: "jb_phase b = Releasing x" using assms(3) by (auto simp: releaseLock_def split: phase.splits)
  have lock: "fl_locks F (jb_id b) = Some j" using D(2) [OF b] x by (simp add: inside_def)
  then have F': "F' = setPhase j (Clearing x) (F\<lparr>fl_locks := (fl_locks F)(jb_id b := None)\<rparr>)"
    using assms(3) x by (simp add: releaseLock_def)
  have "\<not> beingWritten F (jb_id b)" using lock b x by (simp add: beingWritten_def aboutToWrite_def)
  then show ?thesis using lock D(3,4) [of "jb_id b"]
    by (intro sound_move [OF sound b, where ph = "Clearing x"]) (auto simp: F' b phase_defs)
qed

lemma sound_clear:
  assumes sound: "fleetSound F" and b: "fl_jobs F j = Some b" and "clearInFlight j b F = Some F'"
  shows "fleetSound F'"
proof -
  note D = fleetSoundD [OF sound]
  obtain x where x: "jb_phase b = Clearing x" and F': "F' = setPhase j (Settled x)
      (F\<lparr>fl_inFlight := (fl_inFlight F)((jb_process b, jb_id b) := None)\<rparr>)"
    using assms(3) by (auto simp: clearInFlight_def split: phase.splits)
  have "beingWritten F' c = beingWritten F c" for c
    using b x by (auto simp: F' beingWritten_def aboutToWrite_def split: option.splits)
  then show ?thesis using D b x unfolding fleetSound_def by (auto simp: F' phase_defs)
qed

lemmas sound_job = sound_take sound_reread sound_open sound_disable sound_write sound_stored
  sound_note sound_release sound_clear

lemma sound_step:
  assumes "fleetSound F" and "lockWorks e" and "keepsRotation e F" and "refreshStep supported e F = Some F'"
  shows "fleetSound F'"
proof (cases "(\<exists>j a. e = Answer j a) \<or> (\<exists>j x. e = StoreFails j x)")
  case True
  then show ?thesis
  proof (elim disjE exE)
    fix j a assume e: "e = Answer j a"
    with assms(4) obtain b where "fl_jobs F j = Some b" "takeAnswer a j b F = Some F'"
      by (auto simp: ofJob_def split: option.splits)
    then show ?thesis using sound_answer assms(1,3) e by blast
  next
    fix j x assume e: "e = StoreFails j x"
    with assms(3,4) obtain b where "fl_jobs F j = Some b" "storeFails x j b F = Some F'" "\<not> aboutToWrite b"
      by (auto simp: ofJob_def keepsRotation_def split: option.splits)
    then show ?thesis using sound_fails assms(1) by blast
  qed
next
  case False
  with assms(1,2,4) sound_call [of F] sound_remove [of F] show ?thesis
    by (cases e) (auto simp: lockWorks_def ofJob_def split: option.splits if_splits intro: sound_job)
qed

text \<open>The part of a row the console shows as the account's standing.\<close>

definition standing :: "cred_row \<Rightarrow> bool \<times> disabled_reason option \<times> instant option" where
  "standing r = (cr_enabled (cw_cred r), cr_disabledReason (cw_cred r), cr_disabledAt (cw_cred r))"

definition standingKept :: "fleet \<Rightarrow> fleet \<Rightarrow> bool" where
  "standingKept F F' \<longleftrightarrow> (\<forall>cid r'. rowOf F' cid = Some r' \<longrightarrow> (\<exists>r. rowOf F cid = Some r \<and> standing r' = standing r))"

lemma standingKept_refl: "rowOf F' = rowOf F \<Longrightarrow> standingKept F F'"
  by (simp add: standingKept_def)

lemma standingKept_trans: "standingKept F F' \<Longrightarrow> standingKept F' F'' \<Longrightarrow> standingKept F F''"
  unfolding standingKept_def by metis

lemma standing_step:
  assumes sound: "fleetSound F" and e: "lockWorks e" and step: "refreshStep supported e F = Some F'"
  shows "standingKept F F'"
proof (cases "\<exists>j now. e = DisableRow j now")
  case True
  then obtain j now b where b: "fl_jobs F j = Some b" "disableRow now j b F = Some F'"
    using step by (auto simp: ofJob_def split: option.splits)
  then obtain v x where v: "jb_phase b = Disabling v x" and F': "F' = setPhase j (Releasing (Inl x))
      (F\<lparr>fl_store := updateCredential (viewId v) (rejectedPatch now) now (fl_store F)\<rparr>)"
    by (auto simp: disableRow_def split: phase.splits)
  have "viewId v = jb_id b" "rowOf F (jb_id b) = None"
    using fleetSoundD(1) [OF sound b(1)] v by (auto simp: phaseSound_def)
  then show ?thesis by (auto simp: standingKept_def F' updateCredential_row split: if_splits)
next
  case False
  then show ?thesis using e step
    by (cases e)
      (auto simp: lockWorks_def ofJob_def refreshCall_def takeLock_def rereadRow_def openToken_def takeAnswer_def
        writeSecrets_def readStored_def noteRow_def releaseLock_def clearInFlight_def storeFails_def Let_def standingKept_def
        removeCredential_def split_beta updateSecrets_row updateCredential_row notedPatch_def emptyPatch_def
        putInto_def standing_def split: option.splits phase.splits if_splits)
qed

lemma sound_run:
  "fleetSound F \<Longrightarrow> orderly supported es F \<Longrightarrow> refreshRun supported es F = Some F' \<Longrightarrow>
    fleetSound F' \<and> standingKept F F'"
proof (induction es arbitrary: F)
  case Nil
  then show ?case by (simp add: standingKept_refl)
next
  case (Cons e es)
  then obtain F1 where F1: "refreshStep supported e F = Some F1" "refreshRun supported es F1 = Some F'"
    by (auto split: option.splits)
  then show ?case
    using Cons.IH [of F1] Cons.prems sound_step [of F e supported F1] standing_step [of F e supported F1]
      standingKept_trans by auto
qed

text \<open>Where a run starts: rows under their own identifiers whose refresh tokens the provider
  honours, and no call yet.\<close>

definition freshFleet :: "cred_store \<Rightarrow> (string \<Rightarrow> string option) \<Rightarrow> fleet" where
  "freshFleet S honoured = \<lparr>fl_store = S, fl_locks = Map.empty, fl_jobs = Map.empty,
     fl_inFlight = Map.empty, fl_honoured = honoured\<rparr>"

definition wellStored :: "cred_store \<Rightarrow> (string \<Rightarrow> string option) \<Rightarrow> bool" where
  "wellStored S honoured \<longleftrightarrow>
     (\<forall>cid r. st_rows S cid = Some r \<longrightarrow> cr_id (cw_cred r) = cid \<and> storedToken r = honoured cid)"

lemma wellStored_sound: "wellStored S honoured \<Longrightarrow> fleetSound (freshFleet S honoured)"
  by (simp add: wellStored_def freshFleet_def fleetSound_def)

text \<open>
  C10: in an orderly run refreshing never costs an account. While every lock is taken and none
  lapses, no reconnect intervenes, AUTH comes back for dead tokens alone, no exchange's
  answer is lost and no write of a rotation throws, then however the calls of any number of
  processes interleave, with any views, and whatever other failures the provider and the
  store answer: no row is ever disabled, at most one job of a credential is talking to its
  provider or writing, and the stored refresh token is the one the provider honours except
  between the provider's answer and the write of it. What the excluded failures do is
  proved below.
\<close>

theorem locked_refresh_keeps_account:
  assumes "wellStored S honoured" and "orderly supported es (freshFleet S honoured)"
    and "refreshRun supported es (freshFleet S honoured) = Some F"
  shows "(\<forall>cid r. rowOf F cid = Some r \<longrightarrow>
            (\<exists>r0. st_rows S cid = Some r0 \<and> standing r = standing r0)
            \<and> (storedToken r = fl_honoured F cid \<or> beingWritten F cid))
    \<and> (\<forall>j j' b b'. fl_jobs F j = Some b \<and> fl_jobs F j' = Some b' \<and> inside b \<and> inside b' \<and> jb_id b = jb_id b'
         \<longrightarrow> j = j')"
proof -
  have run: "fleetSound F" "standingKept (freshFleet S honoured) F"
    using sound_run [OF wellStored_sound] assms by blast+
  note D = fleetSoundD [OF run(1)]
  have "j = j'" if "fl_jobs F j = Some b" "fl_jobs F j' = Some b'" "inside b" "inside b'" "jb_id b = jb_id b'"
    for j j' b b' using D(2) [OF that(1,3)] D(2) [OF that(2,4)] that(5) by simp
  then show ?thesis using run(2) D(3) by (fastforce simp: standingKept_def freshFleet_def)
qed

subsection \<open>When the lock does not do its work\<close>

definition rejected :: thrown where
  "rejected = ThrownGateway (GatewayError AUTH ''invalid_grant'' no_opts)"

lemma rejected_auth [simp]: "isAuthError rejected"
  by (simp add: rejected_def)

lemmas step_defs = ofJob_def refreshCall_def takeLock_def refreshUnserialised_def rereadRow_def openToken_def
  takeAnswer_def disableRow_def writeSecrets_def readStored_def noteRow_def releaseLock_def clearInFlight_def
  storeFails_def Let_def setPhase_def rereadPhase_def openPhase_def openForRefresh_def openSecrets_def getCredential_def
  lostRacePhase_def viewCredential_def

lemma rejectedPatch_row:
  "st_rows S cid = Some r \<Longrightarrow> \<exists>r'. st_rows (updateCredential cid (rejectedPatch now) now S) cid = Some r'
     \<and> cw_secrets r' = cw_secrets r \<and> standing r' = (False, Some TokenRejected, Some now)"
  by (simp add: updateCredential_row rejectedPatch_def emptyPatch_def putInto_def standing_def)

text \<open>One call on its own, with a view of the routing snapshot older than the row.\<close>

definition staleCall :: "opened_view \<Rightarrow> flow_result \<Rightarrow> instant \<Rightarrow> event list" where
  "staleCall v res now = [Call 0 v 0, Unlocked 0, OpenToken 0, Answer 0 (Issued res), Write 0 now, ReadStored 0,
     Release 0, Clear 0]"

text \<open>The next call, with the lock and whatever view.\<close>

definition nextCall :: "opened_view \<Rightarrow> instant \<Rightarrow> event list" where
  "nextCall v now = [Call 0 v 1, Take 1, Reread 1, OpenToken 1, Answer 1 (Refused rejected), DisableRow 1 now]"

lemma refreshRun_append:
  "refreshRun supported (es @ es') F =
     (case refreshRun supported es F of Some F' \<Rightarrow> refreshRun supported es' F' | None \<Rightarrow> None)"
  by (induction es arbitrary: F) (auto split: option.splits)

lemma stale_call_run:
  assumes "wellStored S honoured" and "st_rows S cid = Some r" and "storedToken r = Some tok"
    and "ov_held v = None" and "viewId v = cid" and "cr_tokenVersion (ov_cred v) \<noteq> cr_tokenVersion (cw_cred r)"
    and "supported (cr_provider (ov_cred v))" and "cs_refreshToken (fr_secrets res) = Some tok'"
  shows "refreshRun supported (staleCall v res now) (freshFleet S honoured) =
    Some \<lparr>fl_store = S, fl_locks = Map.empty,
       fl_jobs = [0 \<mapsto> \<lparr>jb_process = 0, jb_id = cid, jb_phase = Settled (Inr (cw_secrets r))\<rparr>],
       fl_inFlight = Map.empty, fl_honoured = honoured(cid := Some tok')\<rparr>"
proof -
  have "honoured cid = Some tok" using assms(1-3) by (auto simp: wellStored_def)
  then show ?thesis using assms
    by (auto simp: staleCall_def freshFleet_def step_defs updateSecrets_def)
qed

text \<open>
  C11: without the lock, the version compared at the write is the view's, which is not the
  version of the token that was presented when the view loads it from the store. So a call
  made with a routing view older than the row rotates the token, has its write refused and
  throws the new token away, although no other call runs: the stored token is one the
  provider no longer honours, and the next call, serialised and up to date, disables the
  account.
\<close>

theorem stale_view_loses_account:
  assumes "wellStored S honoured" and "st_rows S cid = Some r" and "storedToken r = Some tok"
    and "ov_held v = None" and "viewId v = cid" and "cr_tokenVersion (ov_cred v) < cr_tokenVersion (cw_cred r)"
    and "supported (cr_provider (ov_cred v))" and "cs_refreshToken (fr_secrets res) = Some tok'" and "tok' \<noteq> tok"
    and "routingView S cid = Some v'" and "supported (cr_provider (ov_cred v'))"
  shows "\<exists>F F' r'. refreshRun supported (staleCall v res now) (freshFleet S honoured) = Some F
    \<and> rowOf F cid = Some r \<and> fl_honoured F cid = Some tok' \<and> fl_jobs F 0 = Some \<lparr>jb_process = 0, jb_id = cid,
        jb_phase = Settled (Inr (cw_secrets r))\<rparr>
    \<and> refreshRun supported (nextCall v' now) F = Some F' \<and> rowOf F' cid = Some r'
    \<and> standing r' = (False, Some TokenRejected, Some now)"
proof -
  let ?F = "\<lparr>fl_store = S, fl_locks = Map.empty,
       fl_jobs = [0 \<mapsto> \<lparr>jb_process = 0, jb_id = cid, jb_phase = Settled (Inr (cw_secrets r))\<rparr>],
       fl_inFlight = Map.empty, fl_honoured = honoured(cid := Some tok')\<rparr>"
  have v': "v' = \<lparr>ov_cred = viewCredential r, ov_held = None\<rparr>" using assms(2,10) by (simp add: routingView_def)
  have cid: "cr_id (cw_cred r) = cid" using assms(1,2) by (simp add: wellStored_def)
  have first: "refreshRun supported (staleCall v res now) (freshFleet S honoured) = Some ?F"
    by (rule stale_call_run [where tok = tok]) (use assms(1-8) in simp_all)
  obtain r' where r': "st_rows (updateCredential cid (rejectedPatch now) now S) cid = Some r'"
    "standing r' = (False, Some TokenRejected, Some now)" using rejectedPatch_row [OF assms(2)] by blast
  have "\<exists>F'. refreshRun supported (nextCall v' now) ?F = Some F'
      \<and> fl_store F' = updateCredential cid (rejectedPatch now) now S"
    using assms(2,3,9,11) cid by (simp add: nextCall_def step_defs v')
  then show ?thesis using first r' assms(2) by force
qed

text \<open>Two calls on two processes, both without the lock, reading the token before either
  exchange is answered.\<close>

definition racingCalls :: "opened_view \<Rightarrow> flow_result \<Rightarrow> instant \<Rightarrow> event list" where
  "racingCalls v res now = [Call 0 v 0, Call 1 v 1, Unlocked 0, Unlocked 1, OpenToken 0, OpenToken 1,
     Answer 0 (Issued res), Write 0 now, Note 0 now, Release 0, Clear 0,
     Answer 1 (Refused rejected), DisableRow 1 now, Release 1, Clear 1]"

text \<open>
  C12: the compare-and-swap does not stand in for the lock either. Of two processes that
  refresh one up-to-date credential at once without it, the loser is refused by the provider
  and disables the row without looking whether the token it presented is still the stored
  one: the account is switched off while the store holds the very token the provider honours.
\<close>

theorem race_disables_live_account:
  assumes "wellStored S honoured" and "st_rows S cid = Some r" and "storedToken r = Some tok"
    and "routingView S cid = Some v" and "supported (cr_provider (ov_cred v))"
    and "cs_refreshToken (fr_secrets res) = Some tok'" and "tok' \<noteq> tok"
  shows "\<exists>F r'. refreshRun supported (racingCalls v res now) (freshFleet S honoured) = Some F
    \<and> rowOf F cid = Some r' \<and> storedToken r' = fl_honoured F cid \<and> fl_honoured F cid = Some tok'
    \<and> standing r' = (False, Some TokenRejected, Some now)"
proof -
  have v: "v = \<lparr>ov_cred = viewCredential r, ov_held = None\<rparr>" using assms(2,4) by (simp add: routingView_def)
  have cid: "cr_id (cw_cred r) = cid" "honoured cid = Some tok" using assms(1-3) by (auto simp: wellStored_def)
  show ?thesis using assms(2,3,5-7) cid
    by (simp add: racingCalls_def freshFleet_def step_defs v updateSecrets_def updateCredential_def
        notedPatch_def rejectedPatch_def emptyPatch_def putInto_def standing_def)
qed

subsection \<open>When an answer or a write is not what it should be\<close>

definition tokenError :: "nat \<Rightarrow> string \<Rightarrow> thrown" where
  "tokenError status message = ThrownGateway (GatewayError (tokenErrorCode status) message no_opts)"

text \<open>A serialised call up to the answer, and one whose answer says AUTH.\<close>

definition askingCall :: "nat \<Rightarrow> opened_view \<Rightarrow> event list" where
  "askingCall j v = [Call 0 v j, Take j, Reread j, OpenToken j]"

text \<open>
  C13: the hypothesis on AUTH is needed. The comment at \<^verbatim>\<open>tokenErrorCode\<close> says only a repudiation
  should be AUTH, but every status from 400 to 499 other than 429 is, a request timeout or a
  forbidding proxy in front of the provider included: one such answer, under the lock and
  with no other call about, switches off an account whose stored token the provider honours.
\<close>

theorem refusal_disables_live_account:
  assumes "wellStored S honoured" and "st_rows S cid = Some r" and "storedToken r = Some tok"
    and "routingView S cid = Some v" and "supported (cr_provider (ov_cred v))"
    and "400 \<le> status" and "status < 500" and "status \<noteq> 429"
  shows "\<exists>F r'. refreshRun supported (askingCall 0 v @ [Answer 0 (Refused (tokenError status m)), DisableRow 0 now])
      (freshFleet S honoured) = Some F
    \<and> rowOf F cid = Some r' \<and> storedToken r' = Some tok \<and> fl_honoured F cid = Some tok
    \<and> standing r' = (False, Some TokenRejected, Some now)"
proof -
  have v: "v = \<lparr>ov_cred = viewCredential r, ov_held = None\<rparr>" using assms(2,4) by (simp add: routingView_def)
  have cid: "cr_id (cw_cred r) = cid" "honoured cid = Some tok" using assms(1-3) by (auto simp: wellStored_def)
  have auth: "isAuthError (tokenError status m)" using assms(6-8) by (simp add: tokenError_def tokenErrorCode_def)
  show ?thesis using assms(2,3,5) cid auth
    by (simp add: askingCall_def freshFleet_def step_defs v updateCredential_def rejectedPatch_def emptyPatch_def
        putInto_def standing_def)
qed

text \<open>
  The other two are needed too. When the answer to an exchange is lost, or the write of the
  rotation throws, the stored token is one the provider no longer honours, and the next call,
  serialised and up to date as well, disables the account.
\<close>

theorem lost_rotation_disables_account:
  assumes "wellStored S honoured" and "st_rows S cid = Some r" and "storedToken r = Some tok"
    and "routingView S cid = Some v" and "supported (cr_provider (ov_cred v))"
    and "cs_refreshToken (fr_secrets res) = Some tok'" and "tok' \<noteq> tok" and "\<not> isAuthError x"
    and "loss = [Answer 0 (Lost res x)] \<or> loss = [Answer 0 (Issued res), StoreFails 0 x]"
  shows "\<exists>F F' r'. refreshRun supported (askingCall 0 v @ loss @ [Release 0, Clear 0]) (freshFleet S honoured) = Some F
    \<and> rowOf F cid = Some r \<and> fl_honoured F cid = Some tok'
    \<and> orderly supported (nextCall v now) F \<and> refreshRun supported (nextCall v now) F = Some F'
    \<and> rowOf F' cid = Some r' \<and> storedToken r' = Some tok \<and> standing r' = (False, Some TokenRejected, Some now)"
proof -
  let ?F = "\<lparr>fl_store = S, fl_locks = Map.empty,
       fl_jobs = [0 \<mapsto> \<lparr>jb_process = 0, jb_id = cid, jb_phase = Settled (Inl x)\<rparr>],
       fl_inFlight = Map.empty, fl_honoured = honoured(cid := Some tok')\<rparr>"
  have v: "v = \<lparr>ov_cred = viewCredential r, ov_held = None\<rparr>" using assms(2,4) by (simp add: routingView_def)
  have cid: "cr_id (cw_cred r) = cid" "honoured cid = Some tok" using assms(1-3) by (auto simp: wellStored_def)
  have lost: "refreshRun supported (askingCall 0 v @ loss @ [Release 0, Clear 0]) (freshFleet S honoured) = Some ?F"
    using assms(9)
  proof
    assume "loss = [Answer 0 (Lost res x)]"
    then show ?thesis using assms(2,3,5,6,8) cid
      by (simp add: askingCall_def freshFleet_def step_defs v)
  next
    assume "loss = [Answer 0 (Issued res), StoreFails 0 x]"
    then show ?thesis using assms(2,3,5,6,8) cid
      by (simp add: askingCall_def freshFleet_def step_defs v)
  qed
  obtain r' where r': "st_rows (updateCredential cid (rejectedPatch now) now S) cid = Some r'"
    "cw_secrets r' = cw_secrets r" "standing r' = (False, Some TokenRejected, Some now)" using rejectedPatch_row [OF assms(2)] by blast
  have "\<exists>F'. refreshRun supported (nextCall v now) ?F = Some F' \<and> orderly supported (nextCall v now) ?F
      \<and> fl_store F' = updateCredential cid (rejectedPatch now) now S"
    using assms(2,3,5,7) cid by (simp add: nextCall_def step_defs v lockWorks_def keepsRotation_def)
  then show ?thesis using lost r' assms(2,3) by force
qed

subsection \<open>A concrete account\<close>

definition sampleRow :: cred_row where
  "sampleRow = \<lparr>cw_cred = \<lparr>cr_id = ''c1'', cr_provider = ''codex'', cr_label = ''work'', cr_authType = OAuth,
       cr_enabled = True, cr_tier = 1, cr_weight = 1, cr_expiresAt = Some 1000, cr_accountEmail = None,
       cr_providerData = [], cr_disabledReason = None, cr_disabledAt = None, cr_hasRefreshToken = True,
       cr_tokenVersion = 1, cr_createdAt = 0, cr_updatedAt = 0\<rparr>,
     cw_secrets = \<lparr>cs_accessToken = Some ''a1'', cs_refreshToken = Some ''r1'', cs_apiKey = None, cs_idToken = None\<rparr>\<rparr>"

definition sampleStore :: cred_store where
  "sampleStore = \<lparr>st_rows = [''c1'' \<mapsto> sampleRow], st_changes = 0\<rparr>"

definition sampleHonoured :: "string \<Rightarrow> string option" where
  "sampleHonoured cid = (if cid = ''c1'' then Some ''r1'' else None)"

definition sampleView :: opened_view where
  "sampleView = \<lparr>ov_cred = cw_cred sampleRow, ov_held = None\<rparr>"

definition sampleResult :: flow_result where
  "sampleResult = \<lparr>fr_secrets = \<lparr>cs_accessToken = Some ''a2'', cs_refreshToken = Some ''r2'', cs_apiKey = None,
       cs_idToken = None\<rparr>, fr_expiresAt = Some 2000, fr_accountEmail = None, fr_providerData = []\<rparr>"

definition sampleRun :: "event list" where
  "sampleRun = [Call 0 sampleView 0, Call 1 sampleView 1, Take 0, Reread 0, OpenToken 0, Answer 0 (Issued sampleResult),
     Write 0 500, Note 0 500, Release 0, Take 1, Reread 1]"

lemmas sample_defs = sampleRow_def sampleStore_def sampleHonoured_def sampleView_def sampleResult_def sampleRun_def

lemma sample_stored: "wellStored sampleStore sampleHonoured"
  by (simp add: wellStored_def sample_defs)

lemma sample_run_exists: "\<exists>F. refreshRun (\<lambda>p. True) sampleRun (freshFleet sampleStore sampleHonoured) = Some F"
  by (simp add: sample_defs freshFleet_def step_defs updateSecrets_def)

theorem locked_refresh_keeps_account_witness:
  "\<exists>F. refreshRun (\<lambda>p. True) sampleRun (freshFleet sampleStore sampleHonoured) = Some F
    \<and> (\<forall>cid r. rowOf F cid = Some r \<longrightarrow> (\<exists>r0. st_rows sampleStore cid = Some r0 \<and> standing r = standing r0))"
proof -
  obtain F where F: "refreshRun (\<lambda>p. True) sampleRun (freshFleet sampleStore sampleHonoured) = Some F"
    using sample_run_exists by blast
  have "orderly (\<lambda>p. True) sampleRun (freshFleet sampleStore sampleHonoured)"
    by (simp add: sample_defs freshFleet_def step_defs updateSecrets_def lockWorks_def keepsRotation_def)
  then show ?thesis using locked_refresh_keeps_account [OF sample_stored _ F] F by blast
qed

definition staleView :: opened_view where
  "staleView = \<lparr>ov_cred = (cw_cred sampleRow)\<lparr>cr_tokenVersion := 0\<rparr>, ov_held = None\<rparr>"

theorem stale_view_loses_account_witness:
  "\<exists>F F' r'. refreshRun (\<lambda>p. True) (staleCall staleView sampleResult 500) (freshFleet sampleStore sampleHonoured) = Some F
    \<and> refreshRun (\<lambda>p. True) (nextCall sampleView 500) F = Some F' \<and> rowOf F' ''c1'' = Some r'
    \<and> standing r' = (False, Some TokenRejected, Some 500)"
proof -
  have "st_rows sampleStore ''c1'' = Some sampleRow" "storedToken sampleRow = Some ''r1''"
    "ov_held staleView = None" "viewId staleView = ''c1''"
    "cr_tokenVersion (ov_cred staleView) < cr_tokenVersion (cw_cred sampleRow)"
    "cs_refreshToken (fr_secrets sampleResult) = Some ''r2''" "routingView sampleStore ''c1'' = Some sampleView"
    by (simp_all add: sample_defs staleView_def routingView_def viewCredential_def)
  then show ?thesis
    using stale_view_loses_account [OF sample_stored, of "''c1''" sampleRow "''r1''" staleView "\<lambda>p. True" sampleResult "''r2''" sampleView 500]
    by auto
qed

theorem race_disables_live_account_witness:
  "\<exists>F r'. refreshRun (\<lambda>p. True) (racingCalls sampleView sampleResult 500) (freshFleet sampleStore sampleHonoured) = Some F
    \<and> rowOf F ''c1'' = Some r' \<and> storedToken r' = fl_honoured F ''c1''
    \<and> standing r' = (False, Some TokenRejected, Some 500)"
proof -
  have "st_rows sampleStore ''c1'' = Some sampleRow" "storedToken sampleRow = Some ''r1''"
    "cs_refreshToken (fr_secrets sampleResult) = Some ''r2''" "routingView sampleStore ''c1'' = Some sampleView"
    by (simp_all add: sample_defs routingView_def viewCredential_def)
  then show ?thesis
    using race_disables_live_account [OF sample_stored, of "''c1''" sampleRow "''r1''" sampleView "\<lambda>p. True" sampleResult "''r2''" 500]
    by auto
qed

theorem refusal_disables_live_account_witness:
  "\<exists>F r'. refreshRun (\<lambda>p. True) (askingCall 0 sampleView @ [Answer 0 (Refused (tokenError 408 ''http_408'')), DisableRow 0 500])
      (freshFleet sampleStore sampleHonoured) = Some F
    \<and> rowOf F ''c1'' = Some r' \<and> storedToken r' = fl_honoured F ''c1''
    \<and> standing r' = (False, Some TokenRejected, Some 500)"
proof -
  have "st_rows sampleStore ''c1'' = Some sampleRow" "storedToken sampleRow = Some ''r1''" "routingView sampleStore ''c1'' = Some sampleView"
    by (simp_all add: sample_defs routingView_def viewCredential_def)
  then show ?thesis
    using refusal_disables_live_account [OF sample_stored, of "''c1''" sampleRow "''r1''" sampleView "\<lambda>p. True" 408 "''http_408''" 500]
    by auto
qed

theorem lost_rotation_disables_account_witness:
  "\<exists>F F' r'. refreshRun (\<lambda>p. True) (askingCall 0 sampleView @ [Answer 0 (Issued sampleResult), StoreFails 0 ThrownOther] @ [Release 0, Clear 0])
      (freshFleet sampleStore sampleHonoured) = Some F
    \<and> refreshRun (\<lambda>p. True) (nextCall sampleView 500) F = Some F' \<and> rowOf F' ''c1'' = Some r'
    \<and> standing r' = (False, Some TokenRejected, Some 500)"
proof -
  have "st_rows sampleStore ''c1'' = Some sampleRow" "storedToken sampleRow = Some ''r1''"
    "cs_refreshToken (fr_secrets sampleResult) = Some ''r2''" "routingView sampleStore ''c1'' = Some sampleView"
    by (simp_all add: sample_defs routingView_def viewCredential_def)
  then show ?thesis
    using lost_rotation_disables_account [OF sample_stored, of "''c1''" sampleRow "''r1''" sampleView "\<lambda>p. True" sampleResult "''r2''" ThrownOther
        "[Answer 0 (Issued sampleResult), StoreFails 0 ThrownOther]" 500]
    by auto
qed

end
