(* ===== verification/Oauth_Sweep.thy ===== *)
theory Oauth_Sweep
  imports Oauth_Refresh Dispatch_Run
begin

section \<open>The refresh sweep\<close>

text \<open>
  The background loop of \<^verbatim>\<open>apps/gateway/src/oauth/scheduler.ts\<close> with the leads of
  \<^verbatim>\<open>packages/control/src/oauth/lead.ts\<close> and the lease of \<^verbatim>\<open>apps/gateway/src/lease.ts\<close>. A
  sweep runs over the credentials it listed, one after another; the refresher is a parameter
  that answers and leaves a store, and the clock is read once for the list and again, by
  count, at every later \<^verbatim>\<open>now()\<close>.
\<close>

definition SCHEDULER_REFRESH_LEAD_MS :: int where "SCHEDULER_REFRESH_LEAD_MS = 300000"
definition REFRESH_SWEEP_INTERVAL_MS :: int where "REFRESH_SWEEP_INTERVAL_MS = 60000"

definition isDue :: "instant \<Rightarrow> credential_view \<Rightarrow> bool" where
  "isDue now c \<longleftrightarrow> cr_enabled c \<and> cr_authType c = OAuth
     \<and> (case cr_expiresAt c of None \<Rightarrow> False | Some e \<Rightarrow> e - SCHEDULER_REFRESH_LEAD_MS \<le> now)"

definition due :: "opened_view list \<Rightarrow> instant \<Rightarrow> opened_view list" where
  "due credentials now = filter (\<lambda>v. isDue now (ov_cred v)) credentials"

record sweep_state =
  sw_store :: cred_store
  sw_reads :: nat
  sw_refreshed :: nat
  sw_touched :: nat

type_synonym refresher = "opened_view \<Rightarrow> cred_store \<Rightarrow> (thrown + cred_secrets) \<times> cred_store"

definition expiredPatch :: "instant \<Rightarrow> cred_patch" where
  "expiredPatch now = emptyPatch\<lparr>cp_enabled := Some False, cp_disabledReason := Some (Some ExpiredNoRefresh),
     cp_disabledAt := Some (Some now)\<rparr>"

definition sweepUnrefreshable :: "(nat \<Rightarrow> instant) \<Rightarrow> opened_view \<Rightarrow> sweep_state \<Rightarrow> sweep_state" where
  "sweepUnrefreshable readings v s =
     (if credentialExpired (ov_cred v) (readings (sw_reads s)) then
        let now = readings (sw_reads s + 1) in
        s\<lparr>sw_store := updateCredential (cr_id (ov_cred v)) (expiredPatch now) now (sw_store s),
          sw_reads := sw_reads s + 2, sw_touched := sw_touched s + 1\<rparr>
      else s\<lparr>sw_reads := sw_reads s + 1\<rparr>)"

definition sweepRefresh :: "refresher \<Rightarrow> opened_view \<Rightarrow> sweep_state \<Rightarrow> sweep_state" where
  "sweepRefresh refresh v s =
     (case refresh v (sw_store s) of
        (Inr _, S) \<Rightarrow> s\<lparr>sw_store := S, sw_refreshed := sw_refreshed s + 1, sw_touched := sw_touched s + 1\<rparr>
      | (Inl e, S) \<Rightarrow> s\<lparr>sw_store := S, sw_touched := sw_touched s + (if isAuthError e then 1 else 0)\<rparr>)"

definition sweepOne :: "(nat \<Rightarrow> instant) \<Rightarrow> refresher \<Rightarrow> opened_view \<Rightarrow> sweep_state \<Rightarrow> sweep_state" where
  "sweepOne readings refresh v s =
     (if \<not> cr_hasRefreshToken (ov_cred v) then sweepUnrefreshable readings v s else sweepRefresh refresh v s)"

text \<open>The number of credentials refreshed, and whether the console is told to fetch again.\<close>

definition sweep :: "(nat \<Rightarrow> instant) \<Rightarrow> refresher \<Rightarrow> opened_view list \<Rightarrow> cred_store \<Rightarrow> (nat \<times> bool) \<times> cred_store" where
  "sweep readings refresh credentials S =
     (let s = fold (sweepOne readings refresh) (due credentials (readings 0))
        \<lparr>sw_store = S, sw_reads = 1, sw_refreshed = 0, sw_touched = 0\<rparr>
      in ((sw_refreshed s, sw_touched s > 0), sw_store s))"

subsection \<open>The timer and the lease\<close>

text \<open>\<open>lease\<close> is what \<^verbatim>\<open>lease.acquire\<close> answered, or \<open>None\<close> where a process has no lease to ask.\<close>

definition underLease :: "bool option \<Rightarrow> ('s \<Rightarrow> 's) \<Rightarrow> 's \<Rightarrow> bool \<times> 's" where
  "underLease lease fn s = (if lease = Some False then (False, s) else (True, fn s))"

datatype scheduler_event = Tick | LeaseAnswer bool | SweepEnds

record scheduler =
  sd_running :: bool
  sd_asking :: nat
  sd_sweeping :: nat

text \<open>A tick while one is running does nothing. Otherwise \<^verbatim>\<open>running\<close> is set before the lease is
  asked for, and cleared when what the tick started settles: with the sweep, or with the
  refusal of the lease.\<close>

fun schedulerStep :: "scheduler_event \<Rightarrow> scheduler \<Rightarrow> scheduler" where
  "schedulerStep Tick d = (if sd_running d then d else d\<lparr>sd_running := True, sd_asking := sd_asking d + 1\<rparr>)"
| "schedulerStep (LeaseAnswer held) d =
     (if sd_asking d = 0 then d
      else if fst (underLease (Some held) id ()) then d\<lparr>sd_asking := sd_asking d - 1, sd_sweeping := sd_sweeping d + 1\<rparr>
      else d\<lparr>sd_asking := sd_asking d - 1, sd_running := False\<rparr>)"
| "schedulerStep SweepEnds d =
     (if sd_sweeping d = 0 then d else d\<lparr>sd_sweeping := sd_sweeping d - 1, sd_running := False\<rparr>)"

lemma scheduler_one_sweep:
  assumes "sd_asking d + sd_sweeping d = (if sd_running d then 1 else 0)"
  shows "sd_asking (schedulerStep e d) + sd_sweeping (schedulerStep e d) = (if sd_running (schedulerStep e d) then 1 else 0)"
  using assms by (cases e) (auto simp: underLease_def split: if_splits)

subsection \<open>What a sweep changes\<close>

text \<open>What the sweep relies on: a refresh that fails without a repudiation leaves the rows alone.\<close>

definition quietRefresher :: "refresher \<Rightarrow> bool" where
  "quietRefresher refresh \<longleftrightarrow> (\<forall>v S e S'. refresh v S = (Inl e, S') \<and> \<not> isAuthError e \<longrightarrow> S' = S)"

lemma sweepOne_touched:
  assumes quiet: "quietRefresher refresh"
  shows "sw_touched s \<le> sw_touched (sweepOne readings refresh v s)"
    and "sw_touched (sweepOne readings refresh v s) = sw_touched s \<Longrightarrow>
      sw_store (sweepOne readings refresh v s) = sw_store s \<and> sw_refreshed (sweepOne readings refresh v s) = sw_refreshed s"
  using quiet unfolding quietRefresher_def
  by (auto simp: sweepOne_def sweepUnrefreshable_def sweepRefresh_def Let_def split: prod.splits sum.splits if_splits)

lemma sweep_fold_touched:
  assumes quiet: "quietRefresher refresh"
  shows "sw_touched s \<le> sw_touched (fold (sweepOne readings refresh) vs s)
    \<and> (sw_touched (fold (sweepOne readings refresh) vs s) = sw_touched s \<longrightarrow>
       sw_store (fold (sweepOne readings refresh) vs s) = sw_store s
       \<and> sw_refreshed (fold (sweepOne readings refresh) vs s) = sw_refreshed s)"
proof (induction vs arbitrary: s)
  case Nil
  then show ?case by simp
next
  case (Cons v vs)
  let ?s = "sweepOne readings refresh v s"
  note one = sweepOne_touched [OF quiet, where readings = readings and v = v and s = s]
  have "sw_touched ?s = sw_touched s" if "sw_touched (fold (sweepOne readings refresh) vs ?s) = sw_touched s"
    using that one(1) Cons.IH [of ?s] by simp
  then show ?case using one Cons.IH [of ?s] by auto
qed

text \<open>
  The console is told of every sweep that moved something. When the sweep does not send
  the invalidation, it refreshed nothing and left the store as it found it; all that is
  asked of the refresher is that a failure which is not a repudiation leaves the row alone.
\<close>

theorem untold_sweep_moved_nothing:
  assumes "quietRefresher refresh"
    and "sweep readings refresh credentials S = ((refreshed, False), S')"
  shows "refreshed = 0 \<and> S' = S"
proof -
  let ?s = "\<lparr>sw_store = S, sw_reads = 1, sw_refreshed = 0, sw_touched = 0\<rparr>"
  show ?thesis
    using assms(2) sweep_fold_touched [OF assms(1), of ?s readings "due credentials (readings 0)"]
    by (auto simp: sweep_def Let_def)
qed

text \<open>
  A token is refreshed before a request would have to wait for it. Whatever the instants
  of the sweeps, as long as each comes at most three intervals after the one before, an
  enabled OAuth credential with an expiry that an attempt would not yet refresh at the first
  of them is due at a sweep while an attempt would still not refresh it.
\<close>

theorem sweep_comes_before_attempts:
  fixes t :: "nat \<Rightarrow> instant"
  assumes "cr_enabled c" and "cr_authType c = OAuth" and "cr_expiresAt c = Some e" and "\<not> isStale c (t 0)"
    and "\<And>k. t k < t (Suc k) \<and> t (Suc k) \<le> t k + 3 * REFRESH_SWEEP_INTERVAL_MS"
  shows "\<exists>k. isDue (t k) c \<and> \<not> isStale c (t k)"
proof -
  let ?late = "\<lambda>k. e - SCHEDULER_REFRESH_LEAD_MS \<le> t k"
  have stale: "isStale c now \<longleftrightarrow> e - DISPATCH_REFRESH_LEAD_MS \<le> now" for now
    using assms(2,3) by (simp add: isStale_def)
  have grows: "t 0 + int k \<le> t k" for k
  proof (induction k)
    case (Suc k)
    then show ?case using assms(5) [of k] by simp
  qed simp
  have "?late (nat (e - SCHEDULER_REFRESH_LEAD_MS - t 0))"
    using grows [of "nat (e - SCHEDULER_REFRESH_LEAD_MS - t 0)"] grows [of 0] by (simp split: if_splits)
  then obtain k where k: "?late k" and least: "\<And>j. j < k \<Longrightarrow> \<not> ?late j"
    using exists_least_iff [of ?late] by blast
  have "\<not> isStale c (t k)"
  proof (cases k)
    case 0
    then show ?thesis using assms(4) by simp
  next
    case (Suc j)
    then have "t j < e - SCHEDULER_REFRESH_LEAD_MS" using least [of j] by simp
    then show ?thesis using assms(5) [of j] Suc
      by (simp add: stale REFRESH_SWEEP_INTERVAL_MS_def SCHEDULER_REFRESH_LEAD_MS_def DISPATCH_REFRESH_LEAD_MS_def)
  qed
  then show ?thesis using k assms(1-3) by (auto simp: isDue_def)
qed

theorem sweep_comes_before_attempts_witness:
  "\<exists>k. isDue (60000 * int k) ((cw_cred sampleRow)\<lparr>cr_expiresAt := Some 1000000\<rparr>)
    \<and> \<not> isStale ((cw_cred sampleRow)\<lparr>cr_expiresAt := Some 1000000\<rparr>) (60000 * int k)"
  using sweep_comes_before_attempts
    [of "(cw_cred sampleRow)\<lparr>cr_expiresAt := Some 1000000\<rparr>" 1000000 "\<lambda>k. 60000 * int k"]
  by (simp add: sampleRow_def isStale_def DISPATCH_REFRESH_LEAD_MS_def REFRESH_SWEEP_INTERVAL_MS_def)

definition offlineRefresh :: refresher where
  "offlineRefresh v S = (Inl (ThrownError ''Error'' ''timeout''), S)"

theorem untold_sweep_moved_nothing_witness:
  "sweep (\<lambda>n. 900) offlineRefresh [sampleView] sampleStore = ((0, False), sampleStore)"
proof -
  have told: "\<not> snd (fst (sweep (\<lambda>n. 900) offlineRefresh [sampleView] sampleStore))"
    by (simp add: sweep_def due_def isDue_def SCHEDULER_REFRESH_LEAD_MS_def sampleView_def sampleRow_def
        sweepOne_def sweepRefresh_def offlineRefresh_def)
  then obtain n S' where run: "sweep (\<lambda>n. 900) offlineRefresh [sampleView] sampleStore = ((n, False), S')"
    by (cases "sweep (\<lambda>n. 900) offlineRefresh [sampleView] sampleStore") auto
  then have "n = 0 \<and> S' = sampleStore"
    by (rule untold_sweep_moved_nothing [rotated]) (simp add: quietRefresher_def offlineRefresh_def)
  then show ?thesis using run by simp
qed

end
