(* ===== verification/Stream_Registry.thy ===== *)
theory Stream_Registry
  imports Gateway_Prelude "HOL-Library.Sublist"
begin

section \<open>The registry of live connections\<close>

text \<open>
  \<^verbatim>\<open>apps/gateway/src/stream/registry.ts\<close>: the sockets of one process, the topics each holds, a
  bounded queue per socket, the heartbeat and the rechecking of sessions. Every method runs
  without interruption, so a method is a step; a session check is an answer that comes back
  later. The socket answers for itself: \<open>world\<close> says, at each turn of the flush loop, how much
  it is holding and what became of the frame handed to it. What the registry does to the
  outside is the list \<open>rg_out\<close>. An identifier names one connection only, as the route mints
  them. The serialisation of a frame is the caller's, \<open>None\<close> where it throws.
\<close>

datatype sent = Taken | NotTaken | Threw

record turn =
  tn_buffered :: nat
  tn_send :: sent

type_synonym world = "string \<Rightarrow> nat \<Rightarrow> turn"

record connection =
  cn_topics :: "string list"
  cn_queue :: "string list"
  cn_lastPongAt :: instant
  cn_checking :: bool
  cn_checkingSince :: instant
  cn_generation :: nat

datatype effect =
    Sent string string
  | Closed string nat string
  | Detached string "string list"
  | Pinged string
  | Overflowed nat

record registry =
  rg_ids :: "string list"
  rg_conn :: "string \<rightharpoonup> connection"
  rg_index :: "string \<rightharpoonup> string list"
  rg_dropped :: nat
  rg_unreported :: nat
  rg_live :: bool
  rg_armed :: bool
  rg_checks :: "(string \<times> nat) list"
  rg_out :: "effect list"

record registry_config =
  rc_capacity :: nat
  rc_pongDeadlineMs :: int
  rc_checkStaleMs :: int

definition DEFAULT_QUEUE_CAPACITY :: nat where "DEFAULT_QUEUE_CAPACITY = 1000"
definition MAX_TOPICS_PER_CONNECTION :: nat where "MAX_TOPICS_PER_CONNECTION = 256"
definition HIGH_WATER_BYTES :: nat where "HIGH_WATER_BYTES = 512 * 1024"
definition PONG_DEADLINE_MS :: int where "PONG_DEADLINE_MS = 60000"
definition CHECK_STALE_MS :: int where "CHECK_STALE_MS = 60000"
definition CLOSE_UNAUTHENTICATED :: nat where "CLOSE_UNAUTHENTICATED = 4401"

definition createSocketRegistry :: registry where
  "createSocketRegistry = \<lparr>rg_ids = [], rg_conn = Map.empty, rg_index = Map.empty, rg_dropped = 0,
     rg_unreported = 0, rg_live = True, rg_armed = True, rg_checks = [], rg_out = []\<rparr>"

definition tell :: "effect list \<Rightarrow> registry \<Rightarrow> registry" where
  "tell es R = R\<lparr>rg_out := rg_out R @ es\<rparr>"

definition setConn :: "string \<Rightarrow> connection \<Rightarrow> registry \<Rightarrow> registry" where
  "setConn cid c R = R\<lparr>rg_conn := (rg_conn R)(cid \<mapsto> c)\<rparr>"

subsection \<open>Delivery\<close>

text \<open>The frames the socket took, in order, and the queue that is left.\<close>

fun flush :: "(nat \<Rightarrow> turn) \<Rightarrow> nat \<Rightarrow> string list \<Rightarrow> string list \<times> string list" where
  "flush w k [] = ([], [])"
| "flush w k (frame # queue) =
     (if tn_buffered (w k) \<ge> HIGH_WATER_BYTES then ([], frame # queue)
      else (case tn_send (w k) of
          Threw \<Rightarrow> ([], frame # queue)
        | NotTaken \<Rightarrow> ([], frame # queue)
        | Taken \<Rightarrow> (let (out, rest) = flush w (k + 1) queue in (frame # out, rest))))"

definition flushConn :: "world \<Rightarrow> string \<Rightarrow> registry \<Rightarrow> registry" where
  "flushConn w cid R =
     (case rg_conn R cid of
        None \<Rightarrow> R
      | Some c \<Rightarrow>
          let (out, rest) = flush (w cid) 0 (cn_queue c)
          in tell (map (Sent cid) out) (setConn cid (c\<lparr>cn_queue := rest\<rparr>) R))"

definition deliver :: "nat \<Rightarrow> world \<Rightarrow> string \<Rightarrow> string \<Rightarrow> registry \<Rightarrow> registry" where
  "deliver capacity w frame cid R =
     (case rg_conn R cid of
        None \<Rightarrow> R
      | Some c \<Rightarrow>
          let full = length (cn_queue c) \<ge> capacity;
              kept = (if full then tl (cn_queue c) else cn_queue c);
              lost = (if full then 1 else 0)
          in flushConn w cid (setConn cid (c\<lparr>cn_queue := kept @ [frame]\<rparr>)
               (R\<lparr>rg_dropped := rg_dropped R + lost, rg_unreported := rg_unreported R + lost\<rparr>)))"

definition publish :: "nat \<Rightarrow> world \<Rightarrow> string \<Rightarrow> string option \<Rightarrow> registry \<Rightarrow> registry" where
  "publish capacity w topic payload R =
     (case rg_index R topic of
        None \<Rightarrow> R
      | Some subscribers \<Rightarrow> (case payload of
          None \<Rightarrow> R
        | Some p \<Rightarrow> fold (deliver capacity w p) subscribers R))"

definition sendTo :: "nat \<Rightarrow> world \<Rightarrow> string \<Rightarrow> string option \<Rightarrow> registry \<Rightarrow> registry" where
  "sendTo capacity w cid payload R =
     (case payload of None \<Rightarrow> R | Some p \<Rightarrow> deliver capacity w p cid R)"

definition drain :: "world \<Rightarrow> string \<Rightarrow> registry \<Rightarrow> registry" where
  "drain w cid R = flushConn w cid R"

subsection \<open>Topics\<close>

definition unhook :: "string \<Rightarrow> string \<Rightarrow> (string \<rightharpoonup> string list) \<Rightarrow> (string \<rightharpoonup> string list)" where
  "unhook cid topic idx =
     (case idx topic of
        None \<Rightarrow> idx
      | Some subscribers \<Rightarrow>
          let rest = filter (\<lambda>s. s \<noteq> cid) subscribers
          in idx(topic := (if rest = [] then None else Some rest)))"

definition subscribe :: "string \<Rightarrow> string \<Rightarrow> registry \<Rightarrow> registry \<times> bool" where
  "subscribe cid topic R =
     (case rg_conn R cid of
        None \<Rightarrow> (R, False)
      | Some c \<Rightarrow>
          if length (cn_topics c) \<ge> MAX_TOPICS_PER_CONNECTION \<and> topic \<notin> set (cn_topics c) then (R, False)
          else (let subscribers = nullish (rg_index R topic) [] in
            (setConn cid (c\<lparr>cn_topics := (if topic \<in> set (cn_topics c) then cn_topics c else cn_topics c @ [topic])\<rparr>)
              (R\<lparr>rg_index := (rg_index R)(topic \<mapsto>
                 (if cid \<in> set subscribers then subscribers else subscribers @ [cid]))\<rparr>), True)))"

definition unsubscribe :: "string \<Rightarrow> string \<Rightarrow> registry \<Rightarrow> registry" where
  "unsubscribe cid topic R =
     (case rg_conn R cid of
        None \<Rightarrow> R
      | Some c \<Rightarrow> setConn cid (c\<lparr>cn_topics := filter (\<lambda>t. t \<noteq> topic) (cn_topics c)\<rparr>)
          (R\<lparr>rg_index := unhook cid topic (rg_index R)\<rparr>))"

definition topics :: "string \<Rightarrow> registry \<Rightarrow> string list" where
  "topics cid R = (case rg_conn R cid of None \<Rightarrow> [] | Some c \<Rightarrow> cn_topics c)"

definition holds :: "string \<Rightarrow> string \<Rightarrow> registry \<Rightarrow> bool" where
  "holds cid topic R \<longleftrightarrow> topic \<in> set (topics cid R)"

subsection \<open>Connections\<close>

definition addConn :: "string \<Rightarrow> instant \<Rightarrow> registry \<Rightarrow> registry" where
  "addConn cid now R =
     (if \<not> rg_live R then tell [Closed cid 1001 ''shutting down''] R
      else (setConn cid \<lparr>cn_topics = [], cn_queue = [], cn_lastPongAt = now, cn_checking = False,
          cn_checkingSince = 0, cn_generation = 0\<rparr> R)
        \<lparr>rg_ids := (if cid \<in> set (rg_ids R) then rg_ids R else rg_ids R @ [cid])\<rparr>)"

definition detach :: "string \<Rightarrow> registry \<Rightarrow> registry" where
  "detach cid R = R\<lparr>rg_index := fold (unhook cid) (topics cid R) (rg_index R),
     rg_conn := (rg_conn R)(cid := None), rg_ids := filter (\<lambda>i. i \<noteq> cid) (rg_ids R)\<rparr>"

definition removeConn :: "string \<Rightarrow> registry \<Rightarrow> registry" where
  "removeConn cid R = (if rg_conn R cid = None then R else detach cid R)"

definition closeOne :: "nat \<Rightarrow> string \<Rightarrow> string \<Rightarrow> registry \<Rightarrow> registry" where
  "closeOne code reason cid R = tell [Closed cid code reason] (detach cid (tell [Detached cid (topics cid R)] R))"

definition closeAll :: "nat \<Rightarrow> string \<Rightarrow> registry \<Rightarrow> registry" where
  "closeAll code reason R = (fold (closeOne code reason) (rg_ids R) R)\<lparr>rg_index := Map.empty\<rparr>"

definition pong :: "string \<Rightarrow> instant \<Rightarrow> registry \<Rightarrow> registry" where
  "pong cid now R = (case rg_conn R cid of None \<Rightarrow> R | Some c \<Rightarrow> setConn cid (c\<lparr>cn_lastPongAt := now\<rparr>) R)"

subsection \<open>The heartbeat\<close>

text \<open>A check that has been running for \<open>checkStaleMs\<close> is given up on, which its generation
  records, and asked again; a younger one is left alone.\<close>

definition startCheck :: "registry_config \<Rightarrow> instant \<Rightarrow> string \<Rightarrow> connection \<Rightarrow> registry \<Rightarrow> registry" where
  "startCheck g now cid c R =
     (if cn_checking c \<and> now - cn_checkingSince c < rc_checkStaleMs g then R
      else let c' = c\<lparr>cn_generation := cn_generation c + (if cn_checking c then 1 else 0),
                 cn_checking := True, cn_checkingSince := now\<rparr>
        in (setConn cid c' R)\<lparr>rg_checks := rg_checks R @ [(cid, cn_generation c')]\<rparr>)"

definition tickOne :: "registry_config \<Rightarrow> (string \<Rightarrow> bool) \<Rightarrow> instant \<Rightarrow> string \<Rightarrow> registry \<Rightarrow> registry" where
  "tickOne g pingThrows now cid R =
     (case rg_conn R cid of
        None \<Rightarrow> R
      | Some c \<Rightarrow>
          if now - cn_lastPongAt c > rc_pongDeadlineMs g then closeOne 1001 ''pong deadline'' cid R
          else if pingThrows cid then closeOne 1001 ''ping failed'' cid R
          else startCheck g now cid c (tell [Pinged cid] R))"

definition tick :: "registry_config \<Rightarrow> (string \<Rightarrow> bool) \<Rightarrow> instant \<Rightarrow> registry \<Rightarrow> registry" where
  "tick g pingThrows now R =
     (if \<not> rg_live R then R\<lparr>rg_armed := False\<rparr>
      else let R1 = fold (tickOne g pingThrows now) (rg_ids R) R
        in (if rg_unreported R1 > 0 then tell [Overflowed (rg_unreported R1)] R1 else R1)
          \<lparr>rg_unreported := 0, rg_armed := True\<rparr>)"

datatype check_answer = Valid | Invalid | Failed

definition settleCheck :: "string \<Rightarrow> nat \<Rightarrow> check_answer \<Rightarrow> registry \<Rightarrow> registry" where
  "settleCheck cid generation a R =
     (case rg_conn R cid of
        None \<Rightarrow> R
      | Some c \<Rightarrow>
          if cn_generation c \<noteq> generation then R
          else let R' = setConn cid (c\<lparr>cn_checking := False\<rparr>) R
            in if a = Invalid then closeOne CLOSE_UNAUTHENTICATED ''session expired'' cid R' else R')"

definition stopRegistry :: "registry \<Rightarrow> registry" where
  "stopRegistry R = R\<lparr>rg_live := False, rg_armed := False\<rparr>"

subsection \<open>Runs\<close>

datatype call =
    Add string instant
  | Remove string
  | Subscribe string string
  | Unsubscribe string string
  | Pong string instant
  | Drain world string
  | Publish world string "string option"
  | SendTo world string "string option"
  | CloseAll nat string
  | Tick "string \<Rightarrow> bool" instant
  | Settle string nat check_answer
  | Stop

text \<open>An identifier is added once, a tick comes when it is armed, and a check settles once.\<close>

fun allowed :: "call \<Rightarrow> registry \<Rightarrow> bool" where
  "allowed (Add cid now) R \<longleftrightarrow> rg_conn R cid = None \<and> cid \<notin> fst ` set (rg_checks R)"
| "allowed (Tick p now) R \<longleftrightarrow> rg_armed R"
| "allowed (Settle cid n a) R \<longleftrightarrow> (cid, n) \<in> set (rg_checks R)"
| "allowed c R \<longleftrightarrow> True"

primrec registryStep :: "registry_config \<Rightarrow> call \<Rightarrow> registry \<Rightarrow> registry" where
  "registryStep g (Add cid now) R = addConn cid now R"
| "registryStep g (Remove cid) R = removeConn cid R"
| "registryStep g (Subscribe cid topic) R = fst (subscribe cid topic R)"
| "registryStep g (Unsubscribe cid topic) R = unsubscribe cid topic R"
| "registryStep g (Pong cid now) R = pong cid now R"
| "registryStep g (Drain w cid) R = drain w cid R"
| "registryStep g (Publish w topic payload) R = publish (rc_capacity g) w topic payload R"
| "registryStep g (SendTo w cid payload) R = sendTo (rc_capacity g) w cid payload R"
| "registryStep g (CloseAll code reason) R = closeAll code reason R"
| "registryStep g (Tick p now) R = tick g p now R"
| "registryStep g (Settle cid n a) R = settleCheck cid n a (R\<lparr>rg_checks := remove1 (cid, n) (rg_checks R)\<rparr>)"
| "registryStep g Stop R = stopRegistry R"

inductive registry_runs :: "registry_config \<Rightarrow> call list \<Rightarrow> registry \<Rightarrow> bool" for g where
  start: "registry_runs g [] createSocketRegistry"
| step: "registry_runs g cs R \<Longrightarrow> allowed c R \<Longrightarrow> registry_runs g (cs @ [c]) (registryStep g c R)"

subsection \<open>The index\<close>

definition subscribersOf :: "string \<Rightarrow> registry \<Rightarrow> string list" where
  "subscribersOf topic R = nullish (rg_index R topic) []"

definition connOk :: "nat \<Rightarrow> connection \<Rightarrow> bool" where
  "connOk capacity c \<longleftrightarrow> distinct (cn_topics c) \<and> length (cn_topics c) \<le> MAX_TOPICS_PER_CONNECTION
     \<and> length (cn_queue c) \<le> capacity"

definition indexInv :: "nat \<Rightarrow> registry \<Rightarrow> bool" where
  "indexInv capacity R \<longleftrightarrow>
     distinct (rg_ids R) \<and> set (rg_ids R) = dom (rg_conn R)
     \<and> (\<forall>cid c. rg_conn R cid = Some c \<longrightarrow> connOk capacity c)
     \<and> (\<forall>topic. rg_index R topic \<noteq> Some [] \<and> distinct (subscribersOf topic R))
     \<and> (\<forall>topic cid. cid \<in> set (subscribersOf topic R) \<longleftrightarrow> holds cid topic R)"

lemma indexInvD:
  assumes "indexInv capacity R"
  shows "distinct (rg_ids R)" and "set (rg_ids R) = dom (rg_conn R)"
    and "rg_conn R cid = Some c \<Longrightarrow> connOk capacity c"
    and "rg_index R topic \<noteq> Some []" and "distinct (subscribersOf topic R)"
    and "cid \<in> set (subscribersOf topic R) \<longleftrightarrow> holds cid topic R"
  using assms unfolding indexInv_def by blast+

lemma index_cong:
  assumes "rg_ids R' = rg_ids R" and "rg_conn R' = rg_conn R" and "rg_index R' = rg_index R"
  shows "indexInv capacity R' \<longleftrightarrow> indexInv capacity R"
  using assms by (simp add: indexInv_def subscribersOf_def holds_def topics_def)

lemma tell_simps [simp]:
  "rg_ids (tell es R) = rg_ids R" "rg_conn (tell es R) = rg_conn R" "rg_index (tell es R) = rg_index R"
  "rg_checks (tell es R) = rg_checks R" "rg_dropped (tell es R) = rg_dropped R"
  "rg_unreported (tell es R) = rg_unreported R" "rg_live (tell es R) = rg_live R"
  "rg_armed (tell es R) = rg_armed R" "rg_out (tell es R) = rg_out R @ es" "topics cid (tell es R) = topics cid R"
  by (simp_all add: tell_def topics_def)

lemma setConn_simps [simp]:
  "rg_ids (setConn cid c R) = rg_ids R" "rg_conn (setConn cid c R) = (rg_conn R)(cid \<mapsto> c)"
  "rg_index (setConn cid c R) = rg_index R" "rg_checks (setConn cid c R) = rg_checks R"
  "rg_dropped (setConn cid c R) = rg_dropped R" "rg_out (setConn cid c R) = rg_out R"
  "rg_unreported (setConn cid c R) = rg_unreported R" "rg_live (setConn cid c R) = rg_live R"
  "rg_armed (setConn cid c R) = rg_armed R"
  by (simp_all add: setConn_def)

lemma index_fields [simp]:
  "indexInv capacity (R\<lparr>rg_armed := b\<rparr>) = indexInv capacity R"
  "indexInv capacity (R\<lparr>rg_live := b\<rparr>) = indexInv capacity R"
  "indexInv capacity (R\<lparr>rg_unreported := n\<rparr>) = indexInv capacity R"
  "indexInv capacity (R\<lparr>rg_dropped := n\<rparr>) = indexInv capacity R"
  "indexInv capacity (R\<lparr>rg_checks := cs\<rparr>) = indexInv capacity R"
  by (rule index_cong; simp)+

lemma index_tell [simp]: "indexInv capacity (tell es R) = indexInv capacity R"
  by (rule index_cong) simp_all

lemma index_setConn:
  assumes inv: "indexInv capacity R" and c: "rg_conn R cid = Some c"
    and same: "cn_topics c' = cn_topics c" and short: "length (cn_queue c') \<le> capacity"
  shows "indexInv capacity (setConn cid c' R)"
proof -
  note D = indexInvD [OF inv]
  have "topics i (setConn cid c' R) = topics i R" for i using c same by (simp add: topics_def)
  moreover have "connOk capacity c'" using D(3) [OF c] same short by (simp add: connOk_def)
  ultimately show ?thesis using D c unfolding indexInv_def subscribersOf_def holds_def by (auto simp: dom_def)
qed

lemma flush_split:
  "flush w k queue = (out, rest) \<Longrightarrow> queue = out @ rest"
  by (induction w k queue arbitrary: out rest rule: flush.induct) (auto split: if_splits sent.splits prod.splits)

lemma index_flushConn:
  assumes inv: "indexInv capacity R"
  shows "indexInv capacity (flushConn w cid R)"
proof (cases "rg_conn R cid")
  case None
  then show ?thesis using inv by (simp add: flushConn_def)
next
  case (Some c)
  obtain out rest where f: "flush (w cid) 0 (cn_queue c) = (out, rest)" by fastforce
  have "length (cn_queue c) \<le> capacity" using indexInvD(3) [OF inv Some] by (simp add: connOk_def)
  then have "indexInv capacity (setConn cid (c\<lparr>cn_queue := rest\<rparr>) R)"
    using flush_split [OF f] by (intro index_setConn [OF inv Some]) simp_all
  then show ?thesis using Some f by (simp add: flushConn_def)
qed

lemma index_deliver:
  assumes inv: "indexInv capacity R" and cap: "0 < capacity"
  shows "indexInv capacity (deliver capacity w frame cid R)"
proof (cases "rg_conn R cid")
  case None
  then show ?thesis using inv by (simp add: deliver_def)
next
  case (Some c)
  let ?kept = "if length (cn_queue c) \<ge> capacity then tl (cn_queue c) else cn_queue c"
  have "length (cn_queue c) \<le> capacity" using indexInvD(3) [OF inv Some] by (simp add: connOk_def)
  then have short: "length (?kept @ [frame]) \<le> capacity" using cap by auto
  let ?lost = "if length (cn_queue c) \<ge> capacity then 1 else 0"
  let ?R = "R\<lparr>rg_dropped := rg_dropped R + ?lost, rg_unreported := rg_unreported R + ?lost\<rparr>"
  have "indexInv capacity ?R" using inv by simp
  then have "indexInv capacity (setConn cid (c\<lparr>cn_queue := ?kept @ [frame]\<rparr>) ?R)"
    using Some short by (intro index_setConn [where c = c]) simp_all
  then show ?thesis using Some by (simp add: deliver_def Let_def index_flushConn)
qed

lemma index_fold:
  assumes "\<And>x R. indexInv capacity R \<Longrightarrow> indexInv capacity (f x R)"
  shows "indexInv capacity R \<Longrightarrow> indexInv capacity (fold f xs R)"
  using assms by (induction xs arbitrary: R) simp_all

lemma unhook_other: "t \<noteq> x \<Longrightarrow> unhook cid x idx t = idx t"
  by (simp add: unhook_def Let_def split: option.split)

lemma unhook_same: "idx t = idx' t \<Longrightarrow> unhook cid t idx t = unhook cid t idx' t"
  by (cases "idx' t") (simp_all add: unhook_def Let_def)

lemma fold_unhook:
  "distinct ts \<Longrightarrow> fold (unhook cid) ts idx t =
     (if t \<in> set ts then unhook cid t idx t else idx t)"
proof (induction ts arbitrary: idx)
  case (Cons x ts)
  have "unhook cid t (unhook cid x idx) t = unhook cid t idx t" if "t \<noteq> x"
    using unhook_other [OF that] by (rule unhook_same)
  then show ?case using Cons unhook_other [of t x cid idx] by auto
qed simp

lemma unhook_at:
  "nullish (unhook cid t idx t) [] = filter (\<lambda>s. s \<noteq> cid) (nullish (idx t) [])"
  "unhook cid t idx t = Some [] \<Longrightarrow> False"
  by (auto simp: unhook_def Let_def split: option.splits if_splits)

lemma index_detach:
  assumes inv: "indexInv capacity R"
  shows "indexInv capacity (detach cid R)"
proof -
  note D = indexInvD [OF inv]
  let ?R = "detach cid R"
  have distinct: "distinct (topics cid R)" using D(3) by (simp add: topics_def connOk_def split: option.split)
  have at: "rg_index ?R t = (if t \<in> set (topics cid R) then unhook cid t (rg_index R) t else rg_index R t)" for t
    using fold_unhook [OF distinct] by (simp add: detach_def)
  have subs: "subscribersOf t ?R = filter (\<lambda>s. s \<noteq> cid) (subscribersOf t R)" for t
  proof (cases "t \<in> set (topics cid R)")
    case True
    then show ?thesis using at [of t] by (simp add: subscribersOf_def unhook_at)
  next
    case False
    then have "cid \<notin> set (subscribersOf t R)" using D(6) [of cid t] by (simp add: holds_def)
    then have "filter (\<lambda>s. s \<noteq> cid) (subscribersOf t R) = subscribersOf t R" by (intro filter_True) auto
    then show ?thesis using at [of t] False by (simp add: subscribersOf_def)
  qed
  have topics: "topics i ?R = (if i = cid then [] else topics i R)" for i by (simp add: topics_def detach_def)
  show ?thesis
    unfolding indexInv_def
  proof (intro conjI allI impI)
    show "distinct (rg_ids ?R)" "set (rg_ids ?R) = dom (rg_conn ?R)" using D(1,2) by (auto simp: detach_def)
    show "connOk capacity c" if "rg_conn ?R i = Some c" for i c
      using that D(3) by (auto simp: detach_def split: if_splits)
    show "rg_index ?R t \<noteq> Some []" for t using at [of t] D(4) [of t] unhook_at(2) by auto
    show "distinct (subscribersOf t ?R)" for t using D(5) by (simp add: subs)
    show "i \<in> set (subscribersOf t ?R) \<longleftrightarrow> holds i t ?R" for i t
      using D(6) by (auto simp: subs holds_def topics)
  qed
qed

lemma index_subscribe:
  assumes inv: "indexInv capacity R"
  shows "indexInv capacity (fst (subscribe cid topic R))"
proof (cases "\<exists>c. rg_conn R cid = Some c
    \<and> \<not> (length (cn_topics c) \<ge> MAX_TOPICS_PER_CONNECTION \<and> topic \<notin> set (cn_topics c))")
  case False
  then show ?thesis using inv by (auto simp: subscribe_def split: option.split)
next
  case True
  note D = indexInvD [OF inv]
  obtain c where c: "rg_conn R cid = Some c"
    and room: "\<not> (length (cn_topics c) \<ge> MAX_TOPICS_PER_CONNECTION \<and> topic \<notin> set (cn_topics c))" using True by blast
  let ?ts = "if topic \<in> set (cn_topics c) then cn_topics c else cn_topics c @ [topic]"
  let ?old = "subscribersOf topic R"
  let ?new = "if cid \<in> set ?old then ?old else ?old @ [cid]"
  let ?R = "fst (subscribe cid topic R)"
  have R: "?R = setConn cid (c\<lparr>cn_topics := ?ts\<rparr>) (R\<lparr>rg_index := (rg_index R)(topic \<mapsto> ?new)\<rparr>)"
    unfolding subscribe_def subscribersOf_def Let_def by (simp only: c option.case room if_False fst_conv)
  have topics: "topics i ?R = (if i = cid then ?ts else topics i R)" for i by (simp add: R topics_def)
  have mine: "topics cid R = cn_topics c" using c by (simp add: topics_def)
  have idx: "rg_index ?R = (rg_index R)(topic \<mapsto> ?new)" unfolding R by simp
  have subs: "subscribersOf t ?R = (if t = topic then ?new else subscribersOf t R)" for t
    unfolding subscribersOf_def [of t ?R] idx subscribersOf_def [of t R] by (simp only: fun_upd_apply option.case if_split) simp
  show ?thesis
    unfolding indexInv_def
  proof (intro conjI allI impI)
    show "distinct (rg_ids ?R)" using D(1) by (simp add: R)
    show "set (rg_ids ?R) = dom (rg_conn ?R)" using D(2) c by (auto simp: R)
    show "connOk capacity c'" if "rg_conn ?R i = Some c'" for i c'
      using that D(3) [of i c'] D(3) [OF c] room by (auto simp: R connOk_def split: if_splits)
    show "rg_index ?R t \<noteq> Some []" for t using D(4) [of t] by (auto simp: R)
    show "distinct (subscribersOf t ?R)" for t using D(5) by (auto simp: subs)
    show "i \<in> set (subscribersOf t ?R) \<longleftrightarrow> holds i t ?R" for i t
      using D(6) [of i t] mine by (auto simp: subs holds_def topics)
  qed
qed

lemma index_unsubscribe:
  assumes inv: "indexInv capacity R"
  shows "indexInv capacity (unsubscribe cid topic R)"
proof (cases "rg_conn R cid")
  case None
  then show ?thesis using inv by (simp add: unsubscribe_def)
next
  case (Some c)
  note D = indexInvD [OF inv]
  let ?R = "unsubscribe cid topic R"
  have R: "?R = setConn cid (c\<lparr>cn_topics := filter (\<lambda>t. t \<noteq> topic) (cn_topics c)\<rparr>)
      (R\<lparr>rg_index := unhook cid topic (rg_index R)\<rparr>)" using Some by (simp add: unsubscribe_def)
  have topics: "topics i ?R = (if i = cid then filter (\<lambda>t. t \<noteq> topic) (topics i R) else topics i R)" for i
    using Some by (simp add: R topics_def)
  have subs: "subscribersOf t ?R = (if t = topic then filter (\<lambda>s. s \<noteq> cid) (subscribersOf t R) else subscribersOf t R)" for t
    using unhook_at(1) [of cid topic "rg_index R"] unhook_other [of t topic cid "rg_index R"]
    by (auto simp: R subscribersOf_def)
  show ?thesis
    unfolding indexInv_def
  proof (intro conjI allI impI)
    show "distinct (rg_ids ?R)" using D(1) by (simp add: R)
    show "set (rg_ids ?R) = dom (rg_conn ?R)" using D(2) Some by (auto simp: R)
    show "connOk capacity c'" if "rg_conn ?R i = Some c'" for i c'
      using that D(3) [of i c'] D(3) [OF Some]
      by (auto simp: R connOk_def split: if_splits intro: le_trans [OF length_filter_le])
    show "rg_index ?R t \<noteq> Some []" for t
      using D(4) [of t] unhook_at(2) [of cid topic "rg_index R"] unhook_other [of t topic cid "rg_index R"]
      by (cases "t = topic") (auto simp: R)
    show "distinct (subscribersOf t ?R)" for t using D(5) by (auto simp: subs)
    show "i \<in> set (subscribersOf t ?R) \<longleftrightarrow> holds i t ?R" for i t
      using D(6) [of i t] by (auto simp: subs holds_def topics)
  qed
qed

lemma index_add:
  assumes inv: "indexInv capacity R" and new: "rg_conn R cid = None"
  shows "indexInv capacity (addConn cid now R)"
proof (cases "rg_live R")
  case False
  then show ?thesis using inv by (simp add: addConn_def)
next
  case True
  note D = indexInvD [OF inv]
  let ?R = "addConn cid now R"
  have fresh: "cid \<notin> set (rg_ids R)" using D(2) new by (auto simp: dom_def)
  have topics: "topics i ?R = topics i R" for i using new True by (simp add: topics_def addConn_def)
  have subs: "subscribersOf t ?R = subscribersOf t R" for t using True by (simp add: subscribersOf_def addConn_def)
  show ?thesis
    unfolding indexInv_def
  proof (intro conjI allI impI)
    show "distinct (rg_ids ?R)" using D(1) fresh True by (simp add: addConn_def)
    show "set (rg_ids ?R) = dom (rg_conn ?R)" using D(2) fresh True by (auto simp: addConn_def)
    show "connOk capacity c'" if "rg_conn ?R i = Some c'" for i c'
      using that D(3) [of i c'] True by (auto simp: addConn_def connOk_def split: if_splits)
    show "rg_index ?R t \<noteq> Some []" for t using D(4) [of t] True by (simp add: addConn_def)
    show "distinct (subscribersOf t ?R)" for t using D(5) by (simp add: subs)
    show "i \<in> set (subscribersOf t ?R) \<longleftrightarrow> holds i t ?R" for i t
      using D(6) [of i t] by (simp add: subs holds_def topics)
  qed
qed

lemma index_closeOne: "indexInv capacity R \<Longrightarrow> indexInv capacity (closeOne code reason cid R)"
  by (simp add: closeOne_def index_detach)

lemma rg_conn_closeOne [simp]: "rg_conn (closeOne code reason cid R) = (rg_conn R)(cid := None)"
  by (simp add: closeOne_def detach_def)

lemma conn_closeAll: "rg_conn (fold (closeOne code reason) ids R) cid = (if cid \<in> set ids then None else rg_conn R cid)"
  by (induction ids arbitrary: R) auto

lemma index_closeAll:
  assumes inv: "indexInv capacity R"
  shows "indexInv capacity (closeAll code reason R)"
proof -
  let ?R = "fold (closeOne code reason) (rg_ids R) R"
  have inv': "indexInv capacity ?R" using inv by (rule index_fold [rotated]) (rule index_closeOne)
  have "rg_conn ?R cid = None" for cid using indexInvD(2) [OF inv] by (auto simp: conn_closeAll)
  then have "rg_conn ?R = Map.empty" by blast
  then show ?thesis using inv' by (auto simp: indexInv_def closeAll_def subscribersOf_def holds_def topics_def)
qed

lemma index_startCheck:
  "indexInv capacity R \<Longrightarrow> rg_conn R cid = Some c \<Longrightarrow> indexInv capacity (startCheck g now cid c R)"
proof -
  assume inv: "indexInv capacity R" and c: "rg_conn R cid = Some c"
  let ?c = "c\<lparr>cn_generation := cn_generation c + (if cn_checking c then 1 else 0), cn_checking := True, cn_checkingSince := now\<rparr>"
  have "indexInv capacity (setConn cid ?c R)"
    using indexInvD(3) [OF inv c] by (intro index_setConn [OF inv c]) (simp_all add: connOk_def)
  moreover have "startCheck g now cid c R = R
      \<or> startCheck g now cid c R = (setConn cid ?c R)\<lparr>rg_checks := rg_checks R @ [(cid, cn_generation ?c)]\<rparr>"
    by (simp add: startCheck_def Let_def)
  ultimately show ?thesis using inv by auto
qed

lemma index_tickOne: "indexInv capacity R \<Longrightarrow> indexInv capacity (tickOne g p now cid R)"
  by (simp add: tickOne_def index_closeOne index_startCheck split: option.split)

lemma index_step:
  assumes inv: "indexInv (rc_capacity g) R" and cap: "0 < rc_capacity g" and ok: "allowed c R"
  shows "indexInv (rc_capacity g) (registryStep g c R)"
proof (cases c)
  case (Pong cid now)
  show ?thesis
  proof (cases "rg_conn R cid")
    case (Some x)
    then show ?thesis using Pong index_setConn [OF inv Some, of "x\<lparr>cn_lastPongAt := now\<rparr>"] indexInvD(3) [OF inv Some]
      by (simp add: pong_def connOk_def)
  qed (use inv Pong in \<open>simp add: pong_def\<close>)
next
  case (Tick p now)
  let ?R = "fold (tickOne g p now) (rg_ids R) R"
  have "indexInv (rc_capacity g) ?R" using inv by (rule index_fold [rotated]) (rule index_tickOne)
  then show ?thesis using Tick inv by (simp add: tick_def Let_def)
next
  case (Settle cid n a)
  let ?R = "R\<lparr>rg_checks := remove1 (cid, n) (rg_checks R)\<rparr>"
  have inv': "indexInv (rc_capacity g) ?R" using inv by simp
  show ?thesis
  proof (cases "rg_conn R cid")
    case (Some x)
    have "indexInv (rc_capacity g) (setConn cid (x\<lparr>cn_checking := False\<rparr>) ?R)"
      using Some indexInvD(3) [OF inv Some] by (intro index_setConn [OF inv']) (simp_all add: connOk_def)
    then show ?thesis using Settle Some inv' by (simp add: settleCheck_def Let_def index_closeOne)
  qed (use inv' Settle in \<open>simp add: settleCheck_def\<close>)
next
  case Stop
  then show ?thesis using inv by (simp add: stopRegistry_def)
next
  case (Publish w topic payload)
  then show ?thesis using inv cap index_fold [of "rc_capacity g" "deliver (rc_capacity g) w p" for p]
    by (auto simp: publish_def index_deliver split: option.split)
qed (use inv cap ok in \<open>simp_all add: index_add removeConn_def index_detach index_subscribe index_unsubscribe
    drain_def index_flushConn sendTo_def index_deliver index_closeAll split: option.split\<close>)

lemma index_runs: "registry_runs g cs R \<Longrightarrow> 0 < rc_capacity g \<Longrightarrow> indexInv (rc_capacity g) R"
proof (induction rule: registry_runs.induct)
  case start
  show ?case by (simp add: indexInv_def createSocketRegistry_def subscribersOf_def holds_def topics_def)
qed (rule index_step)

text \<open>
  The index and the connections agree. Whatever was called in whatever order, a publish
  reaches exactly the connections that hold the topic, each once; no topic without a
  subscriber stays in the index; and no connection holds more topics or queues more frames
  than its caps.
\<close>

theorem registry_index_agrees:
  assumes "registry_runs g cs R" and "0 < rc_capacity g"
  shows "distinct (subscribersOf topic R) \<and> (\<forall>cid. cid \<in> set (subscribersOf topic R) \<longleftrightarrow> holds cid topic R)
    \<and> rg_index R topic \<noteq> Some []
    \<and> (\<forall>cid c. rg_conn R cid = Some c \<longrightarrow>
         length (cn_topics c) \<le> MAX_TOPICS_PER_CONNECTION \<and> length (cn_queue c) \<le> rc_capacity g)"
  using indexInvD [OF index_runs [OF assms]] by (auto simp: connOk_def)

subsection \<open>What a slow connection loses\<close>

fun framesOf :: "string \<Rightarrow> effect list \<Rightarrow> string list" where
  "framesOf cid [] = []"
| "framesOf cid (Sent i frame # es) = (if i = cid then frame # framesOf cid es else framesOf cid es)"
| "framesOf cid (_ # es) = framesOf cid es"

definition sentTo :: "string \<Rightarrow> registry \<Rightarrow> string list" where
  "sentTo cid R = framesOf cid (rg_out R)"

lemma framesOf_append [simp]: "framesOf cid (es @ es') = framesOf cid es @ framesOf cid es'"
  by (induction cid es rule: framesOf.induct) simp_all

lemma framesOf_map [simp]: "framesOf cid (map (Sent i) fs) = (if i = cid then fs else [])"
  by (cases "i = cid"; induction fs) simp_all

lemma sentTo_setConn [simp]: "sentTo cid (setConn i c R) = sentTo cid R"
  by (simp add: sentTo_def)

text \<open>The frames a call offers to a connection.\<close>

fun offers :: "string \<Rightarrow> call \<Rightarrow> registry \<Rightarrow> string list" where
  "offers cid (Publish w topic (Some p)) R = (if holds cid topic R then [p] else [])"
| "offers cid (SendTo w i (Some p)) R = (if i = cid then [p] else [])"
| "offers cid c R = []"

primrec offered :: "registry_config \<Rightarrow> string \<Rightarrow> call list \<Rightarrow> registry \<Rightarrow> string list" where
  "offered g cid [] R = []"
| "offered g cid (c # cs) R = offers cid c R @ offered g cid cs (registryStep g c R)"

primrec staysConnected :: "registry_config \<Rightarrow> string \<Rightarrow> call list \<Rightarrow> registry \<Rightarrow> bool" where
  "staysConnected g cid [] R \<longleftrightarrow> rg_conn R cid \<noteq> None"
| "staysConnected g cid (c # cs) R \<longleftrightarrow> rg_conn R cid \<noteq> None \<and> allowed c R \<and> staysConnected g cid cs (registryStep g c R)"

text \<open>What a connection was given in front of its queue is behind it: the queue is the newest
  part, and what the socket took is, in order, some of the rest.\<close>

definition passes :: "string \<Rightarrow> string list \<Rightarrow> registry \<Rightarrow> registry \<Rightarrow> bool" where
  "passes cid frames R R' \<longleftrightarrow>
     (\<forall>c c'. rg_conn R cid = Some c \<longrightarrow> rg_conn R' cid = Some c' \<longrightarrow>
        (\<exists>behind taken. cn_queue c @ frames = behind @ cn_queue c'
           \<and> sentTo cid R' = sentTo cid R @ taken \<and> subseq taken behind))"

lemma passes_same:
  "map_option cn_queue (rg_conn R' cid) = map_option cn_queue (rg_conn R cid) \<Longrightarrow> sentTo cid R' = sentTo cid R \<Longrightarrow>
    passes cid [] R R'"
  by (auto simp: passes_def)

lemma passes_trans:
  assumes "passes cid fs R R1" and "rg_conn R1 cid \<noteq> None" and "passes cid gs R1 R2"
  shows "passes cid (fs @ gs) R R2"
  unfolding passes_def
proof (intro allI impI)
  fix c c2 assume c: "rg_conn R cid = Some c" and c2: "rg_conn R2 cid = Some c2"
  obtain c1 where c1: "rg_conn R1 cid = Some c1" using assms(2) by blast
  obtain b1 t1 where 1: "cn_queue c @ fs = b1 @ cn_queue c1" "sentTo cid R1 = sentTo cid R @ t1" "subseq t1 b1"
    using assms(1) c c1 unfolding passes_def by blast
  obtain b2 t2 where 2: "cn_queue c1 @ gs = b2 @ cn_queue c2" "sentTo cid R2 = sentTo cid R1 @ t2" "subseq t2 b2"
    using assms(3) c1 c2 unfolding passes_def by blast
  have "cn_queue c @ (fs @ gs) = (b1 @ b2) @ cn_queue c2" using 1(1) 2(1) by (metis append_assoc)
  moreover have "sentTo cid R2 = sentTo cid R @ (t1 @ t2)" using 1(2) 2(2) by simp
  moreover have "subseq (t1 @ t2) (b1 @ b2)" using 1(3) 2(3) by (rule list_emb_append_mono)
  ultimately show "\<exists>behind taken. cn_queue c @ fs @ gs = behind @ cn_queue c2
      \<and> sentTo cid R2 = sentTo cid R @ taken \<and> subseq taken behind" by blast
qed

lemma flushConn_other:
  "i \<noteq> cid \<Longrightarrow> rg_conn (flushConn w i R) cid = rg_conn R cid \<and> sentTo cid (flushConn w i R) = sentTo cid R"
  by (auto simp: flushConn_def sentTo_def split: option.split prod.split)

lemma passes_flushConn: "passes cid [] R (flushConn w cid R)"
proof (cases "rg_conn R cid")
  case (Some c)
  obtain out rest where f: "flush (w cid) 0 (cn_queue c) = (out, rest)" by fastforce
  have "sentTo cid (flushConn w cid R) = sentTo cid R @ out"
    using Some f by (simp add: flushConn_def sentTo_def)
  then show ?thesis using Some f flush_split [OF f] by (auto simp: passes_def flushConn_def)
qed (simp add: passes_def)

lemma flushConn_keeps: "rg_conn (flushConn w i R) cid = None \<longleftrightarrow> rg_conn R cid = None"
  by (auto simp: flushConn_def split: option.split prod.split)

lemma deliver_other:
  "i \<noteq> cid \<Longrightarrow> rg_conn (deliver n w f i R) cid = rg_conn R cid \<and> sentTo cid (deliver n w f i R) = sentTo cid R"
  by (auto simp: deliver_def Let_def flushConn_other sentTo_def [of cid "R\<lparr>rg_dropped := a, rg_unreported := b\<rparr>" for a b]
      sentTo_def [of cid R] split: option.split)

lemma deliver_keeps: "rg_conn (deliver n w f i R) cid = None \<longleftrightarrow> rg_conn R cid = None"
  by (auto simp: deliver_def Let_def flushConn_keeps split: option.split)

lemma passes_deliver: "passes cid [f] R (deliver n w f cid R)"
proof (cases "rg_conn R cid")
  case (Some c)
  let ?full = "length (cn_queue c) \<ge> n"
  let ?lost = "if ?full then 1 else 0"
  let ?kept = "if ?full then tl (cn_queue c) else cn_queue c"
  let ?R = "setConn cid (c\<lparr>cn_queue := ?kept @ [f]\<rparr>)
      (R\<lparr>rg_dropped := rg_dropped R + ?lost, rg_unreported := rg_unreported R + ?lost\<rparr>)"
  have D: "deliver n w f cid R = flushConn w cid ?R" using Some by (simp add: deliver_def Let_def)
  have same: "sentTo cid ?R = sentTo cid R" by (simp add: sentTo_def)
  have "\<exists>behind. cn_queue c @ [f] = behind @ (?kept @ [f])" by (cases "cn_queue c") auto
  then have first: "passes cid [f] R ?R" using Some same unfolding passes_def by (auto intro: exI [of _ "[]"])
  show ?thesis unfolding D using passes_trans [OF first _ passes_flushConn] by simp
qed (simp add: passes_def)

lemma passes_publish:
  assumes "distinct subs"
  shows "passes cid (if cid \<in> set subs then [f] else []) R (fold (deliver n w f) subs R)"
  using assms
proof (induction subs arbitrary: R)
  case Nil
  then show ?case by (simp add: passes_same)
next
  case (Cons i subs)
  let ?R = "deliver n w f i R"
  have rest: "passes cid (if cid \<in> set subs then [f] else []) ?R (fold (deliver n w f) subs ?R)" using Cons by simp
  show ?case
  proof (cases "rg_conn R cid = None")
    case True
    then show ?thesis by (simp add: passes_def)
  next
    case False
    then have there: "rg_conn ?R cid \<noteq> None" by (simp add: deliver_keeps)
    have first: "passes cid (if i = cid then [f] else []) R ?R"
      using passes_deliver [of cid f R n w] deliver_other [of i cid n w f R] by (auto intro: passes_same)
    show ?thesis using passes_trans [OF first there rest] Cons.prems by (auto split: if_splits)
  qed
qed

lemma rg_out_closeOne: "sentTo cid (closeOne code reason i R) = sentTo cid R"
  by (simp add: closeOne_def sentTo_def detach_def)

lemma tickOne_passes:
  "rg_conn (tickOne g p now i R) cid = rg_conn R cid \<or> i = cid"
  "map_option cn_queue (rg_conn (tickOne g p now i R) cid) \<in> {map_option cn_queue (rg_conn R cid), None}"
  "sentTo cid (tickOne g p now i R) = sentTo cid R"
  by (auto simp: tickOne_def startCheck_def Let_def rg_out_closeOne split: option.split)
    (simp_all add: sentTo_def)

lemma tick_fold_queue:
  "map_option cn_queue (rg_conn (fold (tickOne g p now) ids R) cid) \<in> {map_option cn_queue (rg_conn R cid), None}
    \<and> sentTo cid (fold (tickOne g p now) ids R) = sentTo cid R"
proof (induction ids arbitrary: R)
  case (Cons i ids)
  show ?case using Cons [of "tickOne g p now i R"] tickOne_passes(2,3) [where g = g and p = p and now = now and i = i and R = R and cid = cid] by auto
qed simp

lemma passes_step:
  assumes inv: "indexInv (rc_capacity g) R" and ok: "allowed c R" and there: "rg_conn R cid \<noteq> None"
  shows "passes cid (offers cid c R) R (registryStep g c R)"
proof (cases c)
  case (Publish w topic payload)
  show ?thesis
  proof (cases "rg_index R topic = None \<or> payload = None")
    case True
    then have "cid \<notin> set (subscribersOf topic R) \<or> payload = None" by (auto simp: subscribersOf_def)
    then show ?thesis using True Publish indexInvD(6) [OF inv, of cid topic]
      by (cases payload) (auto simp: publish_def passes_same split: option.split)
  next
    case False
    then obtain subs f where "rg_index R topic = Some subs" "payload = Some f" by auto
    then show ?thesis
      using Publish indexInvD(5) [OF inv, of topic] indexInvD(6) [OF inv, of cid topic] passes_publish [of subs cid f R "rc_capacity g" w]
      by (simp add: publish_def subscribersOf_def)
  qed
next
  case (SendTo w i payload)
  show ?thesis
  proof (cases payload)
    case (Some f)
    have "passes cid [] R (deliver (rc_capacity g) w f i R)" if "i \<noteq> cid"
      using deliver_other [OF that] by (simp add: passes_same)
    then show ?thesis using SendTo Some passes_deliver by (auto simp: sendTo_def)
  qed (simp add: SendTo sendTo_def passes_same)
next
  case (Drain w i)
  have "passes cid [] R (flushConn w i R)"
    using flushConn_other [of i cid w R] passes_flushConn by (cases "i = cid") (auto simp: passes_same)
  then show ?thesis using Drain by (simp add: drain_def)
next
  case (Tick p now)
  have "passes cid [] R (fold (tickOne g p now) (rg_ids R) R)"
    using tick_fold_queue [of g p now "rg_ids R" R cid] by (auto simp: passes_def)
  then show ?thesis using Tick by (auto simp: tick_def Let_def passes_def sentTo_def)
next
  case (Add i now)
  then have "i \<noteq> cid" using ok there by auto
  then have "passes cid [] R (addConn i now R)" by (intro passes_same) (auto simp: addConn_def sentTo_def)
  then show ?thesis using Add by simp
next
  case (CloseAll code reason)
  have "sentTo cid (fold (closeOne code reason) ids R) = sentTo cid R" for ids R
    by (induction ids arbitrary: R) (simp_all add: rg_out_closeOne)
  then show ?thesis using CloseAll by (auto simp: passes_def closeAll_def sentTo_def conn_closeAll)
next
  case (Settle i n a)
  have "passes cid [] R (settleCheck i n a (R\<lparr>rg_checks := cs\<rparr>))" for cs
  proof (cases "rg_conn R i")
    case (Some x)
    have "sentTo cid (settleCheck i n a (R\<lparr>rg_checks := cs\<rparr>)) = sentTo cid R"
      using Some by (simp add: settleCheck_def Let_def rg_out_closeOne) (simp add: sentTo_def)
    then show ?thesis using Some by (auto simp: passes_def settleCheck_def Let_def split: if_splits)
  qed (simp add: settleCheck_def passes_def sentTo_def)
  then show ?thesis using Settle by simp
qed (auto simp: passes_def removeConn_def detach_def subscribe_def unsubscribe_def pong_def stopRegistry_def Let_def
    sentTo_def split: option.splits if_splits)

text \<open>
  C23: a connection that cannot keep up loses its oldest frames and nothing else. Of the frames
  a connection was offered while it stayed, in the order of the calls, the newest are its
  queue, at most its capacity, and what its socket took is a subsequence of those before:
  no frame is sent twice, out of order, or after a newer one was given up on.
\<close>

theorem slow_consumer_loses_oldest:
  assumes "registry_runs g cs R" and "0 < rc_capacity g" and "rg_conn R cid = Some c"
    and "staysConnected g cid ds R" and "rg_conn (fold (registryStep g) ds R) cid = Some c'"
  shows "\<exists>behind taken. cn_queue c @ offered g cid ds R = behind @ cn_queue c'
    \<and> length (cn_queue c') \<le> rc_capacity g
    \<and> sentTo cid (fold (registryStep g) ds R) = sentTo cid R @ taken \<and> subseq taken behind"
proof -
  have "passes cid (offered g cid ds R) R (fold (registryStep g) ds R)
      \<and> indexInv (rc_capacity g) (fold (registryStep g) ds R)"
    using index_runs [OF assms(1,2)] assms(4)
  proof (induction ds arbitrary: R)
    case Nil
    then show ?case by (simp add: passes_same)
  next
    case (Cons d ds)
    let ?R = "registryStep g d R"
    have ok: "rg_conn R cid \<noteq> None" "allowed d R" "staysConnected g cid ds ?R" using Cons.prems by auto
    have inv: "indexInv (rc_capacity g) ?R" using index_step [OF Cons.prems(1) assms(2) ok(2)] .
    have "rg_conn ?R cid \<noteq> None" using ok(3) by (cases ds) auto
    then show ?case
      using Cons.IH [OF inv ok(3)] passes_trans [OF passes_step [OF Cons.prems(1) ok(2,1)]] by simp
  qed
  then show ?thesis using assms(3,5) indexInvD(3) unfolding passes_def connOk_def by blast
qed

subsection \<open>Sessions are asked after\<close>

definition checksInv :: "registry \<Rightarrow> bool" where
  "checksInv R \<longleftrightarrow> distinct (rg_checks R)
     \<and> (\<forall>cid c. rg_conn R cid = Some c \<longrightarrow>
          (\<forall>n. (cid, n) \<in> set (rg_checks R) \<longrightarrow> n \<le> cn_generation c)
          \<and> ((cid, cn_generation c) \<in> set (rg_checks R) \<longleftrightarrow> cn_checking c))"

definition checkState :: "connection \<Rightarrow> nat \<times> bool" where
  "checkState c = (cn_generation c, cn_checking c)"

lemma checks_cong:
  assumes "checksInv R" and "rg_checks R' = rg_checks R"
    and "\<And>cid c'. rg_conn R' cid = Some c' \<Longrightarrow> \<exists>c. rg_conn R cid = Some c \<and> checkState c' = checkState c"
  shows "checksInv R'"
  using assms unfolding checksInv_def checkState_def by (metis Pair_inject)

lemma checks_fold:
  assumes "\<And>x R. checksInv R \<Longrightarrow> checksInv (f x R)"
  shows "checksInv R \<Longrightarrow> checksInv (fold f xs R)"
  using assms by (induction xs arbitrary: R) simp_all

lemma checks_closeOne: "checksInv R \<Longrightarrow> checksInv (closeOne code reason cid R)"
  by (erule checks_cong) (auto simp: closeOne_def detach_def split: if_splits)

lemma checks_flushConn: "checksInv R \<Longrightarrow> checksInv (flushConn w cid R)"
  by (erule checks_cong) (auto simp: flushConn_def checkState_def split: option.splits prod.splits if_splits)

lemma checks_deliver:
  assumes "checksInv R"
  shows "checksInv (deliver n w f cid R)"
proof (cases "rg_conn R cid")
  case None
  then show ?thesis using assms by (simp add: deliver_def)
next
  case (Some c)
  have "checksInv (setConn cid (c\<lparr>cn_queue := q\<rparr>) (R\<lparr>rg_dropped := a, rg_unreported := b\<rparr>))" for q a b
    using assms by (rule checks_cong) (use Some in \<open>auto simp: checkState_def split: if_splits\<close>)
  then show ?thesis using Some by (simp add: deliver_def Let_def checks_flushConn)
qed

lemma checks_startCheck:
  assumes inv: "checksInv R" and c: "rg_conn R cid = Some c"
  shows "checksInv (startCheck g now cid c R)"
proof (cases "cn_checking c \<and> now - cn_checkingSince c < rc_checkStaleMs g")
  case True
  then show ?thesis using inv by (simp add: startCheck_def)
next
  case False
  let ?n = "cn_generation c + (if cn_checking c then 1 else 0)"
  have old: "\<And>n. (cid, n) \<in> set (rg_checks R) \<Longrightarrow> n \<le> cn_generation c"
    "(cid, cn_generation c) \<in> set (rg_checks R) \<longleftrightarrow> cn_checking c" using inv c unfolding checksInv_def by blast+
  have new: "(cid, ?n) \<notin> set (rg_checks R)"
  proof (cases "cn_checking c")
    case True
    then show ?thesis using old(1) [of "cn_generation c + 1"] by auto
  qed (use old(2) in simp)
  have R': "startCheck g now cid c R = (setConn cid (c\<lparr>cn_generation := ?n, cn_checking := True, cn_checkingSince := now\<rparr>) R)
      \<lparr>rg_checks := rg_checks R @ [(cid, ?n)]\<rparr>" unfolding startCheck_def if_not_P [OF False] Let_def by simp
  have "n \<le> ?n" if "(cid, n) \<in> set (rg_checks R)" for n using old(1) [OF that] by simp
  then show ?thesis using inv new unfolding R' checksInv_def by (auto simp del: if_split)
qed

lemma checks_tickOne: "checksInv R \<Longrightarrow> checksInv (tickOne g p now cid R)"
proof -
  assume inv: "checksInv R"
  have "checksInv (tell es R)" for es using inv by (rule checks_cong) auto
  then show ?thesis using inv
    by (auto simp: tickOne_def checks_closeOne intro: checks_startCheck split: option.split)
qed

lemma checks_step:
  assumes inv: "checksInv R" and ok: "allowed c R"
  shows "checksInv (registryStep g c R)"
proof (cases c)
  case (Tick p now)
  have "checksInv (fold (tickOne g p now) (rg_ids R) R)" using inv by (rule checks_fold [rotated]) (rule checks_tickOne)
  then show ?thesis using Tick inv by (auto simp: tick_def Let_def checksInv_def)
next
  case (Add cid now)
  then show ?thesis using inv ok unfolding checksInv_def by (force simp: addConn_def)
next
  case (Publish w topic payload)
  have "checksInv (fold (deliver n w f) subs R)" for n f subs
    using inv by (rule checks_fold [rotated]) (rule checks_deliver)
  then show ?thesis using Publish inv by (auto simp: publish_def split: option.split)
next
  case (CloseAll code reason)
  have "checksInv (fold (closeOne code reason) (rg_ids R) R)"
    using inv by (rule checks_fold [rotated]) (rule checks_closeOne)
  then show ?thesis using CloseAll by (auto simp: closeAll_def checksInv_def)
next
  case (Settle cid n a)
  let ?R = "R\<lparr>rg_checks := remove1 (cid, n) (rg_checks R)\<rparr>"
  have dist: "distinct (rg_checks R)" using inv by (simp add: checksInv_def)
  have own: "checksInv ?R" if "\<And>c. rg_conn R cid = Some c \<Longrightarrow> cn_generation c \<noteq> n"
    using inv dist that unfolding checksInv_def by (auto simp: set_remove1_eq)
  show ?thesis
  proof (cases "rg_conn R cid")
    case None
    then show ?thesis using Settle own by (simp add: settleCheck_def)
  next
    case (Some x)
    show ?thesis
    proof (cases "cn_generation x = n")
      case False
      then show ?thesis using Settle Some own by (simp add: settleCheck_def)
    next
      case True
      have "checksInv (setConn cid (x\<lparr>cn_checking := False\<rparr>) ?R)"
        using inv dist Some True unfolding checksInv_def by (auto simp: set_remove1_eq)
      then show ?thesis using Settle Some True by (simp add: settleCheck_def Let_def checks_closeOne)
    qed
  qed
next
  case (SendTo w cid payload)
  then show ?thesis using inv by (auto simp: sendTo_def checks_deliver split: option.split)
next
  case (Drain w cid)
  then show ?thesis using inv by (simp add: drain_def checks_flushConn)
next
  case (Remove cid)
  have "checksInv (detach cid R)" using inv by (rule checks_cong) (auto simp: detach_def split: if_splits)
  then show ?thesis using Remove inv by (simp add: removeConn_def)
next
  case (Subscribe cid topic)
  have "checksInv (fst (subscribe cid topic R))"
    using inv by (rule checks_cong) (auto simp: subscribe_def Let_def checkState_def split: option.splits if_splits)
  then show ?thesis using Subscribe by simp
next
  case (Unsubscribe cid topic)
  have "checksInv (unsubscribe cid topic R)"
    using inv by (rule checks_cong) (auto simp: unsubscribe_def checkState_def split: option.splits if_splits)
  then show ?thesis using Unsubscribe by simp
next
  case (Pong cid now)
  have "checksInv (pong cid now R)"
    using inv by (rule checks_cong) (auto simp: pong_def checkState_def split: option.splits if_splits)
  then show ?thesis using Pong by simp
next
  case Stop
  then show ?thesis using inv by (simp add: stopRegistry_def checksInv_def)
qed

lemma checks_runs: "registry_runs g cs R \<Longrightarrow> checksInv R"
proof (induction rule: registry_runs.induct)
  case start
  show ?case by (simp add: checksInv_def createSocketRegistry_def)
qed (rule checks_step)

lemma tick_fold_checked:
  assumes "0 < rc_checkStaleMs g"
  shows "rg_conn (fold (tickOne g p now) ids R) cid = Some c \<Longrightarrow>
    cid \<in> set ids \<or> (cn_checking c \<and> now - cn_checkingSince c < rc_checkStaleMs g \<and> now - cn_lastPongAt c \<le> rc_pongDeadlineMs g
        \<and> rg_conn R cid = Some c) \<Longrightarrow>
    cn_checking c \<and> now - cn_checkingSince c < rc_checkStaleMs g \<and> now - cn_lastPongAt c \<le> rc_pongDeadlineMs g"
proof (induction ids arbitrary: R)
  case (Cons i ids)
  let ?R = "tickOne g p now i R"
  let ?good = "\<lambda>c. cn_checking c \<and> now - cn_checkingSince c < rc_checkStaleMs g \<and> now - cn_lastPongAt c \<le> rc_pongDeadlineMs g"
  have good: "?good x" if "rg_conn ?R i = Some x" for x
    using that assms by (auto simp: tickOne_def startCheck_def Let_def split: option.splits if_splits)
  have rest: "rg_conn (fold (tickOne g p now) ids ?R) cid = Some c" using Cons.prems(1) by simp
  have same: "rg_conn (fold (tickOne g p now) js R') cid = rg_conn R' cid" if "cid \<notin> set js" for js R'
    using that
  proof (induction js arbitrary: R')
    case (Cons x xs)
    then show ?case using tickOne_passes(1) [of g p now x R' cid] by auto
  qed simp
  show ?case
  proof (cases "cid \<in> set ids")
    case True
    then show ?thesis using Cons.IH [OF rest] by blast
  next
    case False
    then have at: "rg_conn ?R cid = Some c" using rest same by metis
    show ?thesis
    proof (cases "i = cid")
      case True
      then show ?thesis using good at by blast
    next
      case other: False
      then show ?thesis using at tickOne_passes(1) [of g p now i R cid] Cons.prems(2) False by auto
    qed
  qed
qed simp

text \<open>
  C24: a connection does not outlive its session unasked. After every heartbeat each connection
  still held has ponged within the deadline and has a check of its session running that is
  younger than the limit; a negative answer to that check closes it with the code for
  "authenticate again", and an answer to a check that was given up on changes nothing.
\<close>

theorem session_rechecked:
  assumes "registry_runs g cs R" and "0 < rc_capacity g" and "0 < rc_checkStaleMs g"
    and "allowed (Tick p now) R" and "rg_live R" and "rg_conn (registryStep g (Tick p now) R) cid = Some c"
  shows "cn_checking c \<and> now - cn_checkingSince c < rc_checkStaleMs g \<and> now - cn_lastPongAt c \<le> rc_pongDeadlineMs g
    \<and> allowed (Settle cid (cn_generation c) Invalid) (registryStep g (Tick p now) R)
    \<and> rg_conn (registryStep g (Settle cid (cn_generation c) Invalid) (registryStep g (Tick p now) R)) cid = None
    \<and> last (rg_out (registryStep g (Settle cid (cn_generation c) Invalid) (registryStep g (Tick p now) R)))
        = Closed cid CLOSE_UNAUTHENTICATED ''session expired''
    \<and> (\<forall>n a. n \<noteq> cn_generation c \<longrightarrow>
         rg_conn (registryStep g (Settle cid n a) (registryStep g (Tick p now) R)) cid = Some c)"
proof -
  let ?R = "registryStep g (Tick p now) R"
  have inv: "checksInv ?R" using checks_step [OF checks_runs [OF assms(1)] assms(4)] .
  have fold: "rg_conn ?R = rg_conn (fold (tickOne g p now) (rg_ids R) R)" using assms(5) by (simp add: tick_def Let_def)
  have "cid \<in> set (rg_ids R)"
  proof (rule ccontr)
    assume "cid \<notin> set (rg_ids R)"
    then have "rg_conn R cid = None" using indexInvD(2) [OF index_runs [OF assms(1,2)]] by auto
    then show False using assms(6) tick_fold_queue [of g p now "rg_ids R" R cid] by (simp add: fold del: registryStep.simps)
  qed
  then have good: "cn_checking c \<and> now - cn_checkingSince c < rc_checkStaleMs g \<and> now - cn_lastPongAt c \<le> rc_pongDeadlineMs g"
    using tick_fold_checked [OF assms(3)] assms(6) unfolding fold by blast
  then have pending: "(cid, cn_generation c) \<in> set (rg_checks ?R)" using inv assms(6) unfolding checksInv_def by blast
  have settle: "registryStep g (Settle cid n a) ?R
      = settleCheck cid n a (?R\<lparr>rg_checks := remove1 (cid, n) (rg_checks ?R)\<rparr>)" for n a by (simp only: registryStep.simps)
  show ?thesis
    unfolding settle using good pending assms(6)
    by (simp add: settleCheck_def Let_def closeOne_def detach_def del: registryStep.simps)
qed

subsection \<open>A concrete run\<close>

definition sampleConfig :: registry_config where
  "sampleConfig = \<lparr>rc_capacity = 2, rc_pongDeadlineMs = PONG_DEADLINE_MS, rc_checkStaleMs = CHECK_STALE_MS\<rparr>"

definition stuck :: world where
  "stuck cid k = \<lparr>tn_buffered = 0, tn_send = NotTaken\<rparr>"

definition sampleCalls :: "call list" where
  "sampleCalls = [Add ''a'' 0, Subscribe ''a'' ''res:logs'']"

lemma sample_registry: "registry_runs sampleConfig sampleCalls (fold (registryStep sampleConfig) sampleCalls createSocketRegistry)"
proof -
  have "registry_runs sampleConfig ([] @ [Add ''a'' 0]) (registryStep sampleConfig (Add ''a'' 0) createSocketRegistry)"
    by (intro registry_runs.intros) (simp add: createSocketRegistry_def)
  then have "registry_runs sampleConfig (([] @ [Add ''a'' 0]) @ [Subscribe ''a'' ''res:logs''])
      (registryStep sampleConfig (Subscribe ''a'' ''res:logs'') (registryStep sampleConfig (Add ''a'' 0) createSocketRegistry))"
    by (rule registry_runs.step) simp
  then show ?thesis by (simp add: sampleCalls_def)
qed

lemmas sample_registry_defs = sampleCalls_def sampleConfig_def createSocketRegistry_def addConn_def subscribe_def
  setConn_def subscribersOf_def MAX_TOPICS_PER_CONNECTION_def

theorem registry_index_agrees_witness:
  "subscribersOf ''res:logs'' (fold (registryStep sampleConfig) sampleCalls createSocketRegistry) = [''a'']
    \<and> (\<forall>cid. cid \<in> set (subscribersOf ''res:logs'' (fold (registryStep sampleConfig) sampleCalls createSocketRegistry))
         \<longleftrightarrow> holds cid ''res:logs'' (fold (registryStep sampleConfig) sampleCalls createSocketRegistry))"
proof -
  have "0 < rc_capacity sampleConfig" by (simp add: sampleConfig_def)
  note agrees = registry_index_agrees [OF sample_registry this, of "''res:logs''"]
  have "subscribersOf ''res:logs'' (fold (registryStep sampleConfig) sampleCalls createSocketRegistry) = [''a'']"
    by (simp add: sample_registry_defs)
  then show ?thesis using agrees by blast
qed

abbreviation sampleRegistry :: registry where
  "sampleRegistry \<equiv> fold (registryStep sampleConfig) sampleCalls createSocketRegistry"

definition sampleBurst :: "call list" where
  "sampleBurst = [Publish stuck ''res:logs'' (Some ''f1''), Publish stuck ''res:logs'' (Some ''f2''),
     Publish stuck ''res:logs'' (Some ''f3'')]"

lemmas sample_burst_defs = sampleBurst_def stuck_def publish_def deliver_def flushConn_def tell_def HIGH_WATER_BYTES_def
  holds_def topics_def

theorem slow_consumer_loses_oldest_witness:
  "\<exists>c c' behind. rg_conn sampleRegistry ''a'' = Some c
    \<and> rg_conn (fold (registryStep sampleConfig) sampleBurst sampleRegistry) ''a'' = Some c'
    \<and> cn_queue c @ [''f1'', ''f2'', ''f3''] = behind @ cn_queue c' \<and> length (cn_queue c') \<le> 2"
proof -
  have cap: "0 < rc_capacity sampleConfig" "rc_capacity sampleConfig = 2" by (simp_all add: sampleConfig_def)
  obtain c where c: "rg_conn sampleRegistry ''a'' = Some c" by (simp add: sample_registry_defs)
  have stays: "staysConnected sampleConfig ''a'' sampleBurst sampleRegistry"
    by (simp add: sample_registry_defs sample_burst_defs)
  have given: "offered sampleConfig ''a'' sampleBurst sampleRegistry = [''f1'', ''f2'', ''f3'']"
    by (simp add: sample_registry_defs sample_burst_defs)
  obtain c' where c': "rg_conn (fold (registryStep sampleConfig) sampleBurst sampleRegistry) ''a'' = Some c'"
    by (simp add: sample_registry_defs sample_burst_defs)
  show ?thesis using slow_consumer_loses_oldest [OF sample_registry cap(1) c stays c'] c c' unfolding given cap(2) by blast
qed

theorem session_rechecked_witness:
  "\<exists>c. rg_conn (registryStep sampleConfig (Tick (\<lambda>i. False) 20000) sampleRegistry) ''a'' = Some c \<and> cn_checking c
    \<and> allowed (Settle ''a'' (cn_generation c) Invalid) (registryStep sampleConfig (Tick (\<lambda>i. False) 20000) sampleRegistry)"
proof -
  have pos: "0 < rc_capacity sampleConfig" "0 < rc_checkStaleMs sampleConfig"
    by (simp_all add: sampleConfig_def CHECK_STALE_MS_def)
  have live: "allowed (Tick (\<lambda>i. False) 20000) sampleRegistry" "rg_live sampleRegistry"
    by (simp_all add: sample_registry_defs)
  obtain c where c: "rg_conn (registryStep sampleConfig (Tick (\<lambda>i. False) 20000) sampleRegistry) ''a'' = Some c"
    by (simp add: sample_registry_defs tick_def tickOne_def startCheck_def tell_def PONG_DEADLINE_MS_def CHECK_STALE_MS_def)
  show ?thesis using session_rechecked [OF sample_registry pos live c] c by blast
qed

end
