(* ===== verification/Wire_Openai.thy ===== *)
theory Wire_Openai
  imports Wire_Anthropic Limit_Evaluate
begin

section \<open>Chat Completions\<close>

text \<open>
  \<^verbatim>\<open>apps/gateway/src/egress/openai.ts\<close>: the chunks streamed to an OpenAI-shaped client, the
  body sent to one that did not ask for a stream, the error body and the rate-limit headers.
  A chunk is its JSON value, which \<open>openaiStream\<close> prints into a frame.

  \<open>hear\<close> is a client of the documented format: it appends \<^verbatim>\<open>content\<close> and
  \<^verbatim>\<open>reasoning_content\<close>, keeps tool calls by their index and appends their argument fragments.
  The theorem below is that what it puts together from the stream is the body the gateway
  would have sent whole.
\<close>

subsection \<open>What both forms share\<close>

definition usageBody :: "usage \<Rightarrow> json" where
  "usageBody u = JObj [(''prompt_tokens'', jint (promptTokens u)), (''completion_tokens'', jint (us_outputTokens u)),
     (''total_tokens'', jint (promptTokens u + us_outputTokens u)),
     (''prompt_tokens_details'', JObj [(''cached_tokens'', jint (us_cacheReadTokens u))])]"

fun FINISH :: "stop_reason \<Rightarrow> string" where
  "FINISH EndTurn = ''stop''"
| "FINISH MaxTokens = ''length''"
| "FINISH StopSequence = ''stop''"
| "FINISH ToolUse = ''tool_calls''"
| "FINISH ContentFilter = ''content_filter''"
| "FINISH PauseTurn = ''stop''"

fun OPENAI_ERROR_TYPE :: "error_code \<Rightarrow> string \<times> string" where
  "OPENAI_ERROR_TYPE AUTH = (''invalid_request_error'', ''invalid_api_key'')"
| "OPENAI_ERROR_TYPE RATE_LIMIT = (''rate_limit_error'', ''rate_limit_exceeded'')"
| "OPENAI_ERROR_TYPE QUOTA_EXHAUSTED = (''insufficient_quota'', ''insufficient_quota'')"
| "OPENAI_ERROR_TYPE OVERLOADED = (''server_error'', ''server_error'')"
| "OPENAI_ERROR_TYPE BAD_REQUEST = (''invalid_request_error'', ''invalid_request'')"
| "OPENAI_ERROR_TYPE CONFLICT = (''invalid_request_error'', ''conflict'')"
| "OPENAI_ERROR_TYPE CONTENT_FILTER = (''invalid_request_error'', ''content_policy_violation'')"
| "OPENAI_ERROR_TYPE CAPABILITY_MISMATCH = (''invalid_request_error'', ''invalid_request'')"
| "OPENAI_ERROR_TYPE FINGERPRINT_REFUSED = (''invalid_request_error'', ''invalid_request'')"
| "OPENAI_ERROR_TYPE MODEL_UNAVAILABLE = (''invalid_request_error'', ''model_not_found'')"
| "OPENAI_ERROR_TYPE UPSTREAM = (''server_error'', ''server_error'')"
| "OPENAI_ERROR_TYPE TIMEOUT = (''server_error'', ''timeout'')"
| "OPENAI_ERROR_TYPE NETWORK = (''server_error'', ''server_error'')"
| "OPENAI_ERROR_TYPE NO_CANDIDATES = (''server_error'', ''service_unavailable'')"
| "OPENAI_ERROR_TYPE ALL_CANDIDATES_FAILED = (''server_error'', ''server_error'')"
| "OPENAI_ERROR_TYPE INTERNAL = (''server_error'', ''server_error'')"

definition openaiErrorBody :: "error_code \<Rightarrow> string \<Rightarrow> json" where
  "openaiErrorBody code message = JObj [(''error'', JObj [(''message'', JStr message),
     (''type'', JStr (fst (OPENAI_ERROR_TYPE code))), (''code'', JStr (snd (OPENAI_ERROR_TYPE code)))])]"

subsection \<open>The stream\<close>

definition chunk :: "string \<Rightarrow> int \<Rightarrow> string \<Rightarrow> json \<Rightarrow> json option \<Rightarrow> json" where
  "chunk rid created model choice usage = JObj ([(''id'', JStr rid), (''object'', JStr ''chat.completion.chunk''),
     (''created'', jint created), (''model'', JStr model), (''choices'', JArr [choice])]
     @ (case usage of None \<Rightarrow> [] | Some u \<Rightarrow> [(''usage'', u)]))"

definition choiceOf :: "members \<Rightarrow> json \<Rightarrow> json" where
  "choiceOf delta finish = JObj [(''index'', jint 0), (''delta'', JObj delta), (''finish_reason'', finish)]"

record openai_state =
  oa_model :: string
  oa_roleSent :: bool
  oa_completed :: bool
  oa_toolIndex :: "(int \<times> int) list"

definition openaiStart :: openai_state where
  "openaiStart = \<lparr>oa_model = [], oa_roleSent = False, oa_completed = False, oa_toolIndex = []\<rparr>"

definition toolCallStart :: "int \<Rightarrow> string \<Rightarrow> string \<Rightarrow> json" where
  "toolCallStart index i name = JArr [JObj [(''index'', jint index), (''id'', JStr i), (''type'', JStr ''function''),
     (''function'', JObj [(''name'', JStr name), (''arguments'', JStr [])])]]"

definition toolCallArguments :: "int \<Rightarrow> string \<Rightarrow> json" where
  "toolCallArguments index s = JArr [JObj [(''index'', jint index), (''function'', JObj [(''arguments'', JStr s)])]]"

fun openaiBlockStart :: "int \<Rightarrow> content_block_start \<Rightarrow> openai_state \<Rightarrow> members option \<times> openai_state" where
  "openaiBlockStart index StartText g =
     (if oa_roleSent g then (None, g)
      else (Some [(''role'', JStr ''assistant''), (''content'', JStr [])], g\<lparr>oa_roleSent := True\<rparr>))"
| "openaiBlockStart index (StartThinking signed) g =
     (if oa_roleSent g then (None, g) else (Some [(''role'', JStr ''assistant'')], g\<lparr>oa_roleSent := True\<rparr>))"
| "openaiBlockStart index (StartToolUse i name) g =
     (let n = int (length (oa_toolIndex g)) in
      (Some ((if oa_roleSent g then [] else [(''role'', JStr ''assistant'')]) @ [(''tool_calls'', toolCallStart n i name)]),
       g\<lparr>oa_toolIndex := AList.update index n (oa_toolIndex g), oa_roleSent := True\<rparr>))"
| "openaiBlockStart index (StartNative p t data) g = (None, g)"

fun openaiDelta :: "int \<Rightarrow> delta \<Rightarrow> openai_state \<Rightarrow> members option" where
  "openaiDelta index (DText t) g = Some [(''content'', JStr t)]"
| "openaiDelta index (DThinking t) g = Some [(''reasoning_content'', JStr t)]"
| "openaiDelta index (DToolJson s) g =
     Some [(''tool_calls'', toolCallArguments (nullish (map_of (oa_toolIndex g) index) 0) s)]"
| "openaiDelta index d g = None"

definition deltaChunk :: "string \<Rightarrow> int \<Rightarrow> openai_state \<Rightarrow> members option \<Rightarrow> json list" where
  "deltaChunk rid created g delta =
     (case delta of None \<Rightarrow> [] | Some d \<Rightarrow> [chunk rid created (oa_model g) (choiceOf d JNull) None])"

fun openaiEvent :: "string \<Rightarrow> int \<Rightarrow> openai_state \<Rightarrow> stream_event \<Rightarrow> json list \<times> openai_state" where
  "openaiEvent rid created g (Start i model) = ([], g\<lparr>oa_model := model\<rparr>)"
| "openaiEvent rid created g (BlockStart index b) =
     (let (delta, g') = openaiBlockStart index b g in (deltaChunk rid created g delta, g'))"
| "openaiEvent rid created g (BlockDelta index d) = (deltaChunk rid created g (openaiDelta index d g), g)"
| "openaiEvent rid created g (BlockEnd index) = ([], g)"
| "openaiEvent rid created g (End reason u vendor) =
     ([chunk rid created (oa_model g) (choiceOf [] (JStr (FINISH reason))) (Some (usageBody u))], g\<lparr>oa_completed := True\<rparr>)"
| "openaiEvent rid created g (Err code message retryable) = ([openaiErrorBody code message], g)"

fun openaiAll :: "string \<Rightarrow> int \<Rightarrow> openai_state \<Rightarrow> stream_event list \<Rightarrow> json list \<times> openai_state" where
  "openaiAll rid created g [] = ([], g)"
| "openaiAll rid created g (e # es) =
     (let (chunks, g) = openaiEvent rid created g e; (rest, g) = openaiAll rid created g es in (chunks @ rest, g))"

definition openaiStream :: "stream_event list \<Rightarrow> string \<Rightarrow> int \<Rightarrow> sse_message list" where
  "openaiStream events requestId created =
     (let (chunks, g) = openaiAll requestId created openaiStart events
      in map (frame ''message'') chunks @ (if oa_completed g then [\<lparr>sm_event = ''message'', sm_data = ''[DONE]''\<rparr>] else []))"

subsection \<open>The whole body\<close>

fun textOf :: "content_block \<Rightarrow> string" where
  "textOf (TextBlock b) = tb_text b"
| "textOf _ = []"

fun reasoningOf :: "content_block \<Rightarrow> string" where
  "reasoningOf (ThinkingBlock b) = th_text b"
| "reasoningOf _ = []"

definition toolCallBody :: "string \<Rightarrow> string \<Rightarrow> string \<Rightarrow> json" where
  "toolCallBody i name arguments = JObj [(''id'', JStr i), (''type'', JStr ''function''),
     (''function'', JObj [(''name'', JStr name), (''arguments'', JStr arguments)])]"

fun toolCallOf :: "content_block \<Rightarrow> json list" where
  "toolCallOf (ToolUseBlock b) = [toolCallBody (tu_id b) (tu_name b) (stringify (tu_input b))]"
| "toolCallOf _ = []"

definition completionBody :: "string \<Rightarrow> int \<Rightarrow> string \<Rightarrow> string \<Rightarrow> string \<Rightarrow> json list \<Rightarrow> json \<Rightarrow> json \<Rightarrow> json" where
  "completionBody rid created model text reasoning toolCalls finish usage =
     JObj [(''id'', JStr rid), (''object'', JStr ''chat.completion''), (''created'', jint created), (''model'', JStr model),
       (''choices'', JArr [JObj [(''index'', jint 0),
          (''message'', JObj ([(''role'', JStr ''assistant''),
             (''content'', if toolCalls \<noteq> [] \<and> text = [] then JNull else JStr text)]
             @ (if reasoning = [] then [] else [(''reasoning_content'', JStr reasoning)])
             @ (if toolCalls = [] then [] else [(''tool_calls'', JArr toolCalls)]))),
          (''finish_reason'', finish)]]),
       (''usage'', usage)]"

definition openaiResponse :: "collected_response \<Rightarrow> string \<Rightarrow> int \<Rightarrow> json" where
  "openaiResponse c requestId created = completionBody requestId created (cr_model c)
     (concat (map textOf (cr_content c))) (concat (map reasoningOf (cr_content c)))
     (concat (map toolCallOf (cr_content c))) (JStr (FINISH (cr_stopReason c))) (usageBody (cr_usage c))"

subsection \<open>Rate-limit headers\<close>

definition REPORTED_LIMIT_DIMENSIONS :: "(string \<times> dimension) list" where
  "REPORTED_LIMIT_DIMENSIONS = [(''requests'', Requests), (''tokens'', Tokens)]"

definition duration :: "int \<Rightarrow> string" where
  "duration ms =
     (let total = nat (max 0 \<lceil>of_int ms / (1000 :: rat)\<rceil>);
          hours = total div 3600; minutes = (total mod 3600) div 60; seconds = total mod 60
      in if hours > 0 then digitsOf hours @ ''h'' @ digitsOf minutes @ ''m'' @ digitsOf seconds @ ''s''
         else if minutes > 0 then digitsOf minutes @ ''m'' @ digitsOf seconds @ ''s''
         else digitsOf seconds @ ''s'')"

text \<open>\<open>printNumber\<close> is \<^verbatim>\<open>String\<close> of a number.\<close>

definition openaiRateLimitHeaders :: "(rat \<Rightarrow> string) \<Rightarrow> headroom_by_dimension \<Rightarrow> instant \<Rightarrow> (string \<times> string) list" where
  "openaiRateLimitHeaders printNumber room now = concat (map (\<lambda>(name, dimension).
     case room dimension of
       None \<Rightarrow> []
     | Some entry \<Rightarrow> [(''x-ratelimit-limit-'' @ name, printNumber (hr_limit entry)),
         (''x-ratelimit-remaining-'' @ name, printNumber (hr_remaining entry)),
         (''x-ratelimit-reset-'' @ name, duration (hr_resetAt entry - now))]) REPORTED_LIMIT_DIMENSIONS)"

subsection \<open>A streaming client\<close>

record heard =
  hd_model :: string
  hd_text :: string
  hd_reasoning :: string
  hd_tools :: "(json \<times> string \<times> string \<times> string) list"
  hd_finish :: json
  hd_usage :: json

definition nothingHeard :: heard where
  "nothingHeard = \<lparr>hd_model = [], hd_text = [], hd_reasoning = [], hd_tools = [], hd_finish = JNull, hd_usage = JNull\<rparr>"

fun stringIn :: "json option \<Rightarrow> string" where
  "stringIn (Some (JStr s)) = s"
| "stringIn _ = []"

fun membersIn :: "json option \<Rightarrow> members" where
  "membersIn (Some (JObj ms)) = ms"
| "membersIn _ = []"

fun firstIn :: "json option \<Rightarrow> json option" where
  "firstIn (Some (JArr (x # xs))) = Some x"
| "firstIn _ = None"

definition hearTool :: "members \<Rightarrow> (json \<times> string \<times> string \<times> string) list \<Rightarrow> (json \<times> string \<times> string \<times> string) list" where
  "hearTool t tools =
     (let key = nullish (map_of t ''index'') JNull;
          f = membersIn (map_of t ''function'');
          arguments = stringIn (map_of f ''arguments'')
      in case map_of t ''id'' of
           Some (JStr i) \<Rightarrow> AList.update key (i, stringIn (map_of f ''name''), arguments) tools
         | _ \<Rightarrow> (case map_of tools key of
             None \<Rightarrow> tools
           | Some (i, name, before) \<Rightarrow> AList.update key (i, name, before @ arguments) tools))"

definition hear :: "heard \<Rightarrow> json \<Rightarrow> heard" where
  "hear h j =
     (let ms = membersIn (Some j);
          choice = membersIn (firstIn (map_of ms ''choices''));
          d = membersIn (map_of choice ''delta'')
      in h\<lparr>hd_model := stringIn (map_of ms ''model''),
           hd_text := hd_text h @ stringIn (map_of d ''content''),
           hd_reasoning := hd_reasoning h @ stringIn (map_of d ''reasoning_content''),
           hd_tools := (case firstIn (map_of d ''tool_calls'') of
              Some (JObj t) \<Rightarrow> hearTool t (hd_tools h) | _ \<Rightarrow> hd_tools h),
           hd_finish := (case map_of choice ''finish_reason'' of Some (JStr s) \<Rightarrow> JStr s | _ \<Rightarrow> hd_finish h),
           hd_usage := nullish (map_of ms ''usage'') (hd_usage h)\<rparr>)"

text \<open>The body a client would write down from what it heard, the arguments of its tool calls as
  they came; and the same with every tool call's arguments parsed as the gateway does and printed
  again.\<close>

definition heardBody :: "string \<Rightarrow> int \<Rightarrow> heard \<Rightarrow> json" where
  "heardBody rid created h = completionBody rid created (hd_model h) (hd_text h) (hd_reasoning h)
     (map (\<lambda>(key, i, name, arguments). toolCallBody i name arguments) (hd_tools h)) (hd_finish h) (hd_usage h)"

definition reprinted :: "(string \<Rightarrow> json option) \<Rightarrow> heard \<Rightarrow> heard" where
  "reprinted parse h = h\<lparr>hd_tools := map (\<lambda>(key, i, name, arguments). (key, i, name, stringify (parseJson parse arguments))) (hd_tools h)\<rparr>"

subsection \<open>Streams in block order\<close>

text \<open>What the decoders produce: blocks opened under rising indices, deltas of the kind of
  their block, and text and reasoning only on the newest block of their kind.\<close>

fun isTextStart :: "content_block_start \<Rightarrow> bool" where
  "isTextStart StartText = True"
| "isTextStart _ = False"

fun isThinkingStart :: "content_block_start \<Rightarrow> bool" where
  "isThinkingStart (StartThinking s) = True"
| "isThinkingStart _ = False"

fun isToolStart :: "content_block_start \<Rightarrow> bool" where
  "isToolStart (StartToolUse i n) = True"
| "isToolStart _ = False"

fun fitting :: "delta \<Rightarrow> content_block_start \<Rightarrow> content_block_start list \<Rightarrow> bool" where
  "fitting (DText t) b later \<longleftrightarrow> isTextStart b \<and> \<not> list_ex isTextStart later"
| "fitting (DThinking t) b later \<longleftrightarrow> isThinkingStart b \<and> \<not> list_ex isThinkingStart later"
| "fitting (DToolJson s) b later \<longleftrightarrow> isToolStart b"
| "fitting d b later \<longleftrightarrow> True"

fun laterThan :: "int \<Rightarrow> (int \<times> content_block_start) list \<Rightarrow> (content_block_start \<times> content_block_start list) option" where
  "laterThan index [] = None"
| "laterThan index ((i, b) # bs) = (if i = index then Some (b, map snd bs) else laterThan index bs)"

fun inOrder :: "(int \<times> content_block_start) list \<Rightarrow> stream_event list \<Rightarrow> bool" where
  "inOrder bs [] \<longleftrightarrow> True"
| "inOrder bs (BlockStart i b # es) \<longleftrightarrow> list_all (\<lambda>x. fst x < i) bs \<and> inOrder (bs @ [(i, b)]) es"
| "inOrder bs (BlockDelta i d # es) \<longleftrightarrow>
     (case laterThan i bs of None \<Rightarrow> False | Some (b, later) \<Rightarrow> fitting d b later) \<and> inOrder bs es"
| "inOrder bs (BlockEnd i # es) \<longleftrightarrow> inOrder bs es"
| "inOrder bs (e # es) \<longleftrightarrow> False"

lemma laterThan_nth:
  "laterThan i bs = Some (b, later) \<Longrightarrow> \<exists>p < length bs. bs ! p = (i, b) \<and> later = map snd (drop (Suc p) bs)"
proof (induction bs)
  case (Cons x bs)
  show ?case
  proof (cases "fst x = i")
    case True
    then show ?thesis using Cons.prems by (cases x) (auto intro!: exI [of _ 0])
  next
    case False
    then obtain p where "p < length bs" "bs ! p = (i, b)" "later = map snd (drop (Suc p) bs)"
      using Cons by (cases x) auto
    then show ?thesis by (intro exI [of _ "Suc p"]) simp
  qed
qed simp

subsection \<open>Blocks and what was heard of them\<close>

fun accText :: "accum \<Rightarrow> string" where
  "accText (AText t cs) = t"
| "accText _ = []"

fun accReasoning :: "accum \<Rightarrow> string" where
  "accReasoning (AThinking t s) = t"
| "accReasoning _ = []"

fun accTool :: "accum \<Rightarrow> (string \<times> string \<times> string) list" where
  "accTool (AToolUse i n j) = [(i, n, j)]"
| "accTool _ = []"

definition toolsIn :: "accum list \<Rightarrow> (string \<times> string \<times> string) list" where
  "toolsIn accs = concat (map accTool accs)"

fun kindOf :: "accum \<Rightarrow> content_block_start \<Rightarrow> bool" where
  "kindOf (AText t cs) b \<longleftrightarrow> isTextStart b"
| "kindOf (AThinking t s) b \<longleftrightarrow> isThinkingStart b"
| "kindOf (AToolUse i n j) b \<longleftrightarrow> isToolStart b"
| "kindOf (ANative p t d j ds) b \<longleftrightarrow> \<not> isTextStart b \<and> \<not> isThinkingStart b \<and> \<not> isToolStart b"

lemma kindOf_open: "kindOf (openBlock b) b" by (cases b) simp_all

lemma kindOf_delta: "kindOf acc b \<Longrightarrow> kindOf (applyDelta d acc) b"
  by (cases d; cases acc) simp_all

lemma zip_update:
  "distinct ks \<Longrightarrow> length ks = length vs \<Longrightarrow> p < length ks \<Longrightarrow>
    AList.update (ks ! p) v (zip ks vs) = zip ks (vs[p := v])"
proof (induction ks arbitrary: vs p)
  case (Cons k ks)
  then obtain w ws where vs: "vs = w # ws" by (cases vs) auto
  show ?case
  proof (cases p)
    case (Suc q)
    then have "ks ! q \<noteq> k" using Cons.prems by auto
    then show ?thesis using Suc Cons.prems Cons.IH [of ws q] by (simp add: vs)
  qed (simp add: vs)
qed simp

lemma concat_update:
  assumes "p < length xs" and "f x = f (xs ! p) @ t" and "\<And>y. y \<in> set (drop (Suc p) xs) \<Longrightarrow> f y = []"
  shows "concat (map f (xs[p := x])) = concat (map f xs) @ t"
proof -
  have none: "concat (map f (drop (Suc p) xs)) = []" using assms(3) by simp
  have split: "concat (map f (as @ b # bs)) = concat (map f as) @ f b @ concat (map f bs)" for as b bs by simp
  have "concat (map f xs) = concat (map f (take p xs)) @ f (xs ! p)"
    using split [of "take p xs" "xs ! p" "drop (Suc p) xs"] unfolding none id_take_nth_drop [OF assms(1), symmetric] by simp
  then show ?thesis unfolding upd_conv_take_nth_drop [OF assms(1)] split none assms(2) by simp
qed

lemma map_update_same: "p < length xs \<Longrightarrow> f x = f (xs ! p) \<Longrightarrow> map f (xs[p := x]) = map f xs"
  by (metis list_update_id map_update nth_map)

lemma concat_update_same:
  assumes "p < length xs" and "f x = f (xs ! p)"
  shows "concat (map f (xs[p := x])) = concat (map f xs)"
  by (simp add: map_update_same [OF assms])

lemma length_accTool: "length (accTool a) \<le> 1" by (cases a) simp_all

lemma toolsIn_update:
  assumes "p < length accs" and "accs ! p = AToolUse i n j"
  shows "length (toolsIn (take p accs)) < length (toolsIn accs)"
    and "toolsIn accs ! length (toolsIn (take p accs)) = (i, n, j)"
    and "toolsIn (accs[p := AToolUse i n j']) = (toolsIn accs)[length (toolsIn (take p accs)) := (i, n, j')]"
proof -
  have split: "toolsIn (as @ AToolUse i n k # bs) = toolsIn as @ (i, n, k) # toolsIn bs" for as bs k by (simp add: toolsIn_def)
  have whole: "toolsIn accs = toolsIn (take p accs) @ (i, n, j) # toolsIn (drop (Suc p) accs)"
    using split [of "take p accs" j "drop (Suc p) accs"] unfolding assms(2) [symmetric] id_take_nth_drop [OF assms(1), symmetric] .
  then show "length (toolsIn (take p accs)) < length (toolsIn accs)"
    "toolsIn accs ! length (toolsIn (take p accs)) = (i, n, j)" by simp_all
  show "toolsIn (accs[p := AToolUse i n j']) = (toolsIn accs)[length (toolsIn (take p accs)) := (i, n, j')]"
    unfolding upd_conv_take_nth_drop [OF assms(1)] split whole by simp
qed

lemma toolsIn_other:
  assumes "p < length accs" and "accTool a = accTool (accs ! p)"
  shows "toolsIn (accs[p := a]) = toolsIn accs" and "toolsIn (take q (accs[p := a])) = toolsIn (take q accs)"
proof -
  show "toolsIn (accs[p := a]) = toolsIn accs" unfolding toolsIn_def by (rule concat_update_same [OF assms])
  have "map accTool (accs[p := a]) = map accTool accs" by (rule map_update_same [OF assms])
  then have "map accTool (take q (accs[p := a])) = map accTool (take q accs)" by (simp only: take_map [symmetric])
  then show "toolsIn (take q (accs[p := a])) = toolsIn (take q accs)" by (simp only: toolsIn_def)
qed

lemma toolsIn_take_length:
  assumes "p < length accs" and "length (accTool a) = length (accTool (accs ! p))"
  shows "length (toolsIn (take q (accs[p := a]))) = length (toolsIn (take q accs))"
proof -
  have "map (length \<circ> accTool) (accs[p := a]) = map (length \<circ> accTool) accs"
    by (rule map_update_same [OF assms(1)]) (simp add: assms(2))
  then have "map (length \<circ> accTool) (take q (accs[p := a])) = map (length \<circ> accTool) (take q accs)"
    by (simp only: take_map [symmetric])
  then show ?thesis by (simp only: toolsIn_def length_concat map_map)
qed

text \<open>The state of \<open>collect\<close>, of the egress and of the client after the same events: the blocks
  of the one, in order, hold what the other has heard.\<close>

definition keysUpTo :: "nat \<Rightarrow> json list" where
  "keysUpTo n = map (jint \<circ> int) [0..<n]"

definition agree :: "(int \<times> content_block_start) list \<Rightarrow> accum list \<Rightarrow> collecting \<Rightarrow> openai_state \<Rightarrow> heard \<Rightarrow> bool" where
  "agree bs accs c g h \<longleftrightarrow>
     cg_blocks c = zip (map fst bs) accs \<and> length accs = length bs \<and> sorted_wrt (<) (map fst bs)
     \<and> list_all2 kindOf accs (map snd bs)
     \<and> hd_text h = concat (map accText accs) \<and> hd_reasoning h = concat (map accReasoning accs)
     \<and> hd_tools h = zip (keysUpTo (length (toolsIn accs))) (toolsIn accs)
     \<and> length (oa_toolIndex g) = length (toolsIn accs) \<and> fst ` set (oa_toolIndex g) \<subseteq> set (map fst bs)
     \<and> (\<forall>p < length accs. accTool (accs ! p) \<noteq> [] \<longrightarrow>
          map_of (oa_toolIndex g) (fst (bs ! p)) = Some (int (length (toolsIn (take p accs)))))"

lemma jint_inj: "jint (int a) = jint (int b) \<longleftrightarrow> a = b"
  by (auto simp: jint_def)

lemma keysUpTo_props: "length (keysUpTo n) = n" "distinct (keysUpTo n)" "k < n \<Longrightarrow> keysUpTo n ! k = jint (int k)"
  "keysUpTo (Suc n) = keysUpTo n @ [jint (int n)]" "jint (int n) \<notin> set (keysUpTo n)"
  by (auto simp: keysUpTo_def distinct_map inj_on_def jint_inj)

lemma hear_chunk:
  "hear h (chunk rid created model (choiceOf d finish) usage) =
     h\<lparr>hd_model := model,
       hd_text := hd_text h @ stringIn (map_of d ''content''),
       hd_reasoning := hd_reasoning h @ stringIn (map_of d ''reasoning_content''),
       hd_tools := (case firstIn (map_of d ''tool_calls'') of
          Some (JObj t) \<Rightarrow> hearTool t (hd_tools h) | _ \<Rightarrow> hd_tools h),
       hd_finish := (case finish of JStr s \<Rightarrow> JStr s | _ \<Rightarrow> hd_finish h),
       hd_usage := nullish usage (hd_usage h)\<rparr>"
  by (auto simp: hear_def chunk_def choiceOf_def Let_def split: option.split json.split)

lemma hear_toolStart:
  "firstIn (Some (toolCallStart n i name)) = Some (JObj [(''index'', jint n), (''id'', JStr i), (''type'', JStr ''function''),
     (''function'', JObj [(''name'', JStr name), (''arguments'', JStr [])])])"
  "hearTool [(''index'', jint n), (''id'', JStr i), (''type'', JStr ''function''),
     (''function'', JObj [(''name'', JStr name), (''arguments'', JStr [])])] tools
   = AList.update (jint n) (i, name, []) tools"
  by (simp_all add: toolCallStart_def hearTool_def Let_def)

lemma hear_toolArguments:
  "firstIn (Some (toolCallArguments n s)) = Some (JObj [(''index'', jint n), (''function'', JObj [(''arguments'', JStr s)])])"
  "map_of tools (jint n) = Some (i, name, before) \<Longrightarrow>
    hearTool [(''index'', jint n), (''function'', JObj [(''arguments'', JStr s)])] tools
    = AList.update (jint n) (i, name, before @ s) tools"
  by (simp_all add: toolCallArguments_def hearTool_def Let_def)

lemma agreeD:
  assumes "agree bs accs c g h"
  shows "cg_blocks c = zip (map fst bs) accs" and "length accs = length bs" and "sorted_wrt (<) (map fst bs)"
    and "list_all2 kindOf accs (map snd bs)" and "hd_text h = concat (map accText accs)"
    and "hd_reasoning h = concat (map accReasoning accs)"
    and "hd_tools h = zip (keysUpTo (length (toolsIn accs))) (toolsIn accs)"
    and "length (oa_toolIndex g) = length (toolsIn accs)" and "fst ` set (oa_toolIndex g) \<subseteq> set (map fst bs)"
    and "p < length accs \<Longrightarrow> accTool (accs ! p) \<noteq> [] \<Longrightarrow>
          map_of (oa_toolIndex g) (fst (bs ! p)) = Some (int (length (toolsIn (take p accs))))"
  using assms unfolding agree_def by blast+

lemma toolsIn_snoc: "toolsIn (accs @ [a]) = toolsIn accs @ accTool a"
  by (simp add: toolsIn_def)

lemma agree_start:
  assumes a: "agree bs accs c g h" and new: "list_all (\<lambda>x. fst x < i) bs"
    and e: "openaiBlockStart i b g = (delta, g')"
  shows "agree (bs @ [(i, b)]) (accs @ [openBlock b]) (collectStep c (BlockStart i b)) g'
    (foldl hear h (deltaChunk rid created g delta))"
proof -
  note D = agreeD [OF a]
  let ?h = "foldl hear h (deltaChunk rid created g delta)"
  let ?n = "length (toolsIn accs)"
  have fresh: "i \<notin> set (map fst bs)" using new by (auto simp: list_all_iff)
  then have absent: "map_of (zip (map fst bs) accs) i = None" using D(2) by (simp add: map_of_zip_is_None)
  have fresh': "map_of (oa_toolIndex g) i = None" using fresh D(9) by (auto simp: map_of_eq_None_iff)
  have heard: "hd_text ?h = hd_text h" "hd_reasoning ?h = hd_reasoning h"
    "hd_tools ?h = hd_tools h @ (case openBlock b of AToolUse k n j \<Rightarrow> [(jint (int ?n), k, n, j)] | _ \<Rightarrow> [])"
  proof -
    have "map_of (hd_tools h) (jint (int ?n)) = None"
      using keysUpTo_props(5) [of ?n] D(7) by (simp add: map_of_zip_is_None keysUpTo_props(1))
    then show "hd_text ?h = hd_text h" "hd_reasoning ?h = hd_reasoning h"
      "hd_tools ?h = hd_tools h @ (case openBlock b of AToolUse k n j \<Rightarrow> [(jint (int ?n), k, n, j)] | _ \<Rightarrow> [])"
      using e D(8) by (cases b; auto simp: deltaChunk_def hear_chunk hear_toolStart Let_def update_absent split: if_splits)+
  qed
  have index: "oa_toolIndex g' = oa_toolIndex g @ (case openBlock b of AToolUse k n j \<Rightarrow> [(i, int ?n)] | _ \<Rightarrow> [])"
    using e fresh' D(8) by (cases b) (auto simp: Let_def update_absent split: if_splits)
  have at: "map_of (oa_toolIndex g') (fst ((bs @ [(i, b)]) ! p)) = Some (int (length (toolsIn (take p (accs @ [openBlock b])))))"
    if "p < length (accs @ [openBlock b])" "accTool ((accs @ [openBlock b]) ! p) \<noteq> []" for p
  proof (cases "p < length accs")
    case True
    then have "map_of (oa_toolIndex g) (fst (bs ! p)) = Some (int (length (toolsIn (take p accs))))"
      using D(10) [of p] that by (simp add: nth_append)
    then show ?thesis using True D(2) by (simp add: index nth_append map_add_Some_iff)
  next
    case False
    then have "p = length accs" using that by simp
    then show ?thesis using that D(2) fresh' by (cases b) (simp_all add: index nth_append map_add_def)
  qed
  show ?thesis
    unfolding agree_def
  proof (intro conjI allI impI)
    show "cg_blocks (collectStep c (BlockStart i b)) = zip (map fst (bs @ [(i, b)])) (accs @ [openBlock b])"
      using D(1,2) absent by (simp add: update_absent)
    show "sorted_wrt (<) (map fst (bs @ [(i, b)]))" using D(3) new by (simp add: sorted_wrt_append list_all_iff)
    show "list_all2 kindOf (accs @ [openBlock b]) (map snd (bs @ [(i, b)]))"
      using D(4) kindOf_open by (simp add: list_all2_appendI)
    show "hd_tools ?h = zip (keysUpTo (length (toolsIn (accs @ [openBlock b])))) (toolsIn (accs @ [openBlock b]))"
      using heard(3) D(7) by (cases b) (simp_all add: toolsIn_snoc keysUpTo_props)
    show "length (oa_toolIndex g') = length (toolsIn (accs @ [openBlock b]))"
      using D(8) by (cases b) (simp_all add: index toolsIn_snoc)
    show "fst ` set (oa_toolIndex g') \<subseteq> set (map fst (bs @ [(i, b)]))" using D(9) by (cases b) (auto simp: index)
  qed (use heard D(2,5,6) at in \<open>(cases b; simp)+\<close>)
qed

lemma toolIndexed:
  assumes a: "agree bs accs c g h" and p: "p < length bs" and acc: "accs ! p = AToolUse i n j"
  shows "map_of (oa_toolIndex g) (fst (bs ! p)) = Some (int (length (toolsIn (take p accs))))"
    and "map_of (hd_tools h) (jint (int (length (toolsIn (take p accs))))) = Some (i, n, j)"
proof -
  note D = agreeD [OF a]
  have p': "p < length accs" using p D(2) by simp
  show "map_of (oa_toolIndex g) (fst (bs ! p)) = Some (int (length (toolsIn (take p accs))))"
    using D(10) [OF p'] acc by simp
  let ?k = "length (toolsIn (take p accs))"
  have k: "?k < length (toolsIn accs)" "toolsIn accs ! ?k = (i, n, j)" using toolsIn_update(1,2) [OF p' acc] .
  have "map_of (zip (keysUpTo (length (toolsIn accs))) (toolsIn accs)) (keysUpTo (length (toolsIn accs)) ! ?k)
      = Some (toolsIn accs ! ?k)"
    by (rule map_of_zip_nth) (use k(1) in \<open>simp_all add: keysUpTo_props\<close>)
  then show "map_of (hd_tools h) (jint (int ?k)) = Some (i, n, j)" using D(7) k by (simp add: keysUpTo_props)
qed

lemma agree_delta:
  assumes a: "agree bs accs c g h" and later: "laterThan i bs = Some (b, later)" and fit: "fitting d b later"
  shows "\<exists>accs'. agree bs accs' (collectStep c (BlockDelta i d)) g
    (foldl hear h (deltaChunk rid created g (openaiDelta i d g)))"
proof -
  note D = agreeD [OF a]
  obtain p where p: "p < length bs" "bs ! p = (i, b)" "later = map snd (drop (Suc p) bs)"
    using laterThan_nth [OF later] by blast
  have p': "p < length accs" using p(1) D(2) by simp
  let ?acc = "applyDelta d (accs ! p)"
  let ?accs = "accs[p := ?acc]"
  let ?h = "foldl hear h (deltaChunk rid created g (openaiDelta i d g))"
  have distinct: "distinct (map fst bs)" using D(3) by (simp add: strict_sorted_iff)
  have kinds: "kindOf (accs ! q) (snd (bs ! q))" if "q < length bs" for q
    using list_all2_nthD2 [OF D(4), of q] that by simp
  have kind: "kindOf (accs ! p) b" using kinds [OF p(1)] p(2) by simp
  have key: "map fst bs ! p = i" using p(1,2) by simp
  have blocks: "cg_blocks (collectStep c (BlockDelta i d)) = zip (map fst bs) ?accs"
    using D(1,2) distinct p(1) p' key zip_update [of "map fst bs" accs p ?acc]
      map_of_zip_nth [of "map fst bs" accs p] by simp
  have laterKinds: "\<exists>b'. b' \<in> set later \<and> kindOf y b'" if y: "y \<in> set (drop (Suc p) accs)" for y
  proof -
    obtain q where q: "q < length accs - Suc p" "y = accs ! (Suc p + q)" using y by (auto simp: in_set_conv_nth)
    then have "snd (bs ! (Suc p + q)) \<in> set later"
      using D(2) p(3) by (auto simp: in_set_conv_nth intro!: exI [of _ q])
    then show ?thesis using kinds [of "Suc p + q"] q D(2) by auto
  qed
  have laterOk: "list_all2 kindOf ?accs (map snd bs)"
    using D(4) kindOf_delta [OF kind] p by (auto simp: list_all2_conv_all_nth nth_list_update)
  have lengths: "length (toolsIn ?accs) = length (toolsIn accs)"
    "\<And>q. length (toolsIn (take q ?accs)) = length (toolsIn (take q accs))"
  proof -
    have "length (accTool ?acc) = length (accTool (accs ! p))" by (cases d; cases "accs ! p") simp_all
    then show "\<And>q. length (toolsIn (take q ?accs)) = length (toolsIn (take q accs))"
      by (rule toolsIn_take_length [OF p'])
    from this [of "length accs"] show "length (toolsIn ?accs) = length (toolsIn accs)" by simp
  qed
  have told: "hd_text ?h = concat (map accText ?accs) \<and> hd_reasoning ?h = concat (map accReasoning ?accs)
      \<and> hd_tools ?h = zip (keysUpTo (length (toolsIn ?accs))) (toolsIn ?accs)"
  proof -
    have same: "concat (map accText ?accs) = concat (map accText accs)" if "accText ?acc = accText (accs ! p)"
      using concat_update_same [OF p' that] .
    have sameR: "concat (map accReasoning ?accs) = concat (map accReasoning accs)" if "accReasoning ?acc = accReasoning (accs ! p)"
      using concat_update_same [OF p' that] .
    have sameT: "toolsIn ?accs = toolsIn accs" if "accTool ?acc = accTool (accs ! p)" using toolsIn_other(1) [OF p' that] .
    show ?thesis
    proof (cases d)
      case (DText t)
      then obtain u cs where u: "accs ! p = AText u cs" using fit kind by (cases "accs ! p"; cases b) auto
      have "accText y = []" if "y \<in> set (drop (Suc p) accs)" for y
        using laterKinds [OF that] fit DText by (cases y) (auto simp: list_ex_iff)
      then have "concat (map accText ?accs) = concat (map accText accs) @ t"
        using concat_update [OF p', of accText ?acc t] u DText by simp
      then show ?thesis using D(5-7) DText u sameR sameT by (simp add: deltaChunk_def hear_chunk)
    next
      case (DThinking t)
      then obtain u sg where u: "accs ! p = AThinking u sg" using fit kind by (cases "accs ! p"; cases b) auto
      have "accReasoning y = []" if "y \<in> set (drop (Suc p) accs)" for y
        using laterKinds [OF that] fit DThinking by (cases y) (auto simp: list_ex_iff)
      then have "concat (map accReasoning ?accs) = concat (map accReasoning accs) @ t"
        using concat_update [OF p', of accReasoning ?acc t] u DThinking by simp
      then show ?thesis using D(5-7) DThinking u same sameT by (simp add: deltaChunk_def hear_chunk)
    next
      case (DToolJson t)
      then obtain k n j where u: "accs ! p = AToolUse k n j" using fit kind by (cases "accs ! p"; cases b) auto
      let ?k = "length (toolsIn (take p accs))"
      have index: "map_of (oa_toolIndex g) i = Some (int ?k)" using toolIndexed(1) [OF a p(1) u] p(2) by simp
      have tool: "map_of (hd_tools h) (jint (int ?k)) = Some (k, n, j)" using toolIndexed(2) [OF a p(1) u] .
      have "?k < length (toolsIn accs)" using toolsIn_update(1) [OF p' u] .
      then have "AList.update (jint (int ?k)) (k, n, j @ t) (hd_tools h)
          = zip (keysUpTo (length (toolsIn accs))) ((toolsIn accs)[?k := (k, n, j @ t)])"
        using D(7) zip_update [of "keysUpTo (length (toolsIn accs))" "toolsIn accs" ?k "(k, n, j @ t)"]
        by (simp add: keysUpTo_props)
      then have "hd_tools ?h = zip (keysUpTo (length (toolsIn ?accs))) (toolsIn ?accs)"
        using DToolJson u toolsIn_update(3) [OF p' u, of "j @ t"] index tool
        by (simp add: deltaChunk_def hear_chunk hear_toolArguments)
      moreover have "hd_text ?h = hd_text h" "hd_reasoning ?h = hd_reasoning h"
        using DToolJson by (simp_all add: deltaChunk_def hear_chunk)
      ultimately show ?thesis using D(5,6) DToolJson u same sameR by simp
    next
      case (DSignature t)
      then show ?thesis using D(5-7) same sameR sameT by (cases "accs ! p") (simp_all add: deltaChunk_def)
    next
      case (DNativeJson q t)
      then show ?thesis using D(5-7) same sameR sameT by (cases "accs ! p") (simp_all add: deltaChunk_def)
    next
      case (DNative q dt fk x)
      then show ?thesis using D(5-7) same sameR sameT by (cases "accs ! p") (simp_all add: deltaChunk_def)
    qed
  qed
  have tooled: "accTool (accs ! q) \<noteq> []" if "q < length accs" "accTool (?accs ! q) \<noteq> []" for q
    using that by (cases "q = p"; cases d; cases "accs ! p") auto
  have "agree bs ?accs (collectStep c (BlockDelta i d)) g ?h"
    unfolding agree_def using blocks D(2,3,8,9) laterOk told lengths D(10) tooled by simp
  then show ?thesis by blast
qed

lemma openaiEvent_keeps: "inOrder bs (e # es) \<Longrightarrow> oa_model (snd (openaiEvent rid created g e)) = oa_model g
    \<and> oa_completed (snd (openaiEvent rid created g e)) = oa_completed g
    \<and> cg_model (collectStep c e) = cg_model c"
proof (cases e)
  case (BlockStart i b)
  then show ?thesis by (cases b) (auto simp: Let_def split: prod.split)
qed (auto split: option.split)

lemma openaiAll_Cons:
  "fst (openaiAll rid created g (e # es)) = fst (openaiEvent rid created g e) @ fst (openaiAll rid created (snd (openaiEvent rid created g e)) es)"
  "snd (openaiAll rid created g (e # es)) = snd (openaiAll rid created (snd (openaiEvent rid created g e)) es)"
  by (simp_all add: split_beta Let_def)

lemma openaiAll_snoc:
  "fst (openaiAll rid created g (es @ [e])) = fst (openaiAll rid created g es) @ fst (openaiEvent rid created (snd (openaiAll rid created g es)) e)"
  "snd (openaiAll rid created g (es @ [e])) = snd (openaiEvent rid created (snd (openaiAll rid created g es)) e)"
  by (induction es arbitrary: g) (simp_all add: split_beta Let_def)

lemma agree_body:
  assumes "agree bs accs c g h" and "inOrder bs es"
  shows "\<exists>bs' accs'. agree bs' accs' (foldl collectStep c es) (snd (openaiAll rid created g es))
      (foldl hear h (fst (openaiAll rid created g es)))
    \<and> oa_model (snd (openaiAll rid created g es)) = oa_model g \<and> cg_model (foldl collectStep c es) = cg_model c"
  using assms
proof (induction es arbitrary: bs accs c g h)
  case Nil
  then show ?case by auto
next
  case (Cons e es)
  let ?c = "collectStep c e" and ?g = "snd (openaiEvent rid created g e)"
  let ?h = "foldl hear h (fst (openaiEvent rid created g e))"
  have "\<exists>bs1 accs1. agree bs1 accs1 ?c ?g ?h \<and> inOrder bs1 es"
  proof (cases e)
    case (BlockStart i b)
    obtain delta g' where e': "openaiBlockStart i b g = (delta, g')" by fastforce
    show ?thesis using BlockStart Cons.prems e' agree_start [OF Cons.prems(1) _ e'] by (auto simp: Let_def)
  next
    case (BlockDelta i d)
    obtain b later where l: "laterThan i bs = Some (b, later)" "fitting d b later"
      using Cons.prems(2) BlockDelta by (auto split: option.splits)
    have "inOrder bs es" using Cons.prems(2) BlockDelta by simp
    moreover have "\<exists>accs1. agree bs accs1 ?c ?g ?h"
      unfolding BlockDelta openaiEvent.simps fst_conv snd_conv by (rule agree_delta [OF Cons.prems(1) l])
    ultimately show ?thesis by blast
  next
    case (BlockEnd i)
    then show ?thesis using Cons.prems by auto
  qed (use Cons.prems in simp_all)
  then obtain bs1 accs1 where "agree bs1 accs1 ?c ?g ?h" "inOrder bs1 es" by blast
  then show ?case
    using Cons.IH [of bs1 accs1 ?c ?g ?h] openaiEvent_keeps [OF Cons.prems(2), of rid created g c]
    by (simp only: openaiAll_Cons foldl_append foldl_Cons)
qed

lemma sort_key_sorted: "sorted_wrt (\<lambda>x y. fst x < (fst y :: int)) xs \<Longrightarrow> sort_key fst xs = xs"
proof (induction xs)
  case (Cons x xs)
  then have "sort_key fst xs = xs" and "\<forall>y \<in> set xs. fst x \<le> fst y" by auto
  then show ?case by (simp add: insort_is_Cons)
qed simp

lemma closed_blocks:
  "concat (map textOf (map (closeBlock parse) accs)) = concat (map accText accs)"
  "concat (map reasoningOf (map (closeBlock parse) accs)) = concat (map accReasoning accs)"
  "concat (map toolCallOf (map (closeBlock parse) accs))
    = map (\<lambda>(i, n, j). toolCallBody i n (stringify (parseJson parse j))) (toolsIn accs)"
proof -
  have "textOf (closeBlock parse a) = accText a" "reasoningOf (closeBlock parse a) = accReasoning a"
    "toolCallOf (closeBlock parse a) = map (\<lambda>(i, n, j). toolCallBody i n (stringify (parseJson parse j))) (accTool a)" for a
    by (cases a; simp add: Let_def)+
  then show "concat (map textOf (map (closeBlock parse) accs)) = concat (map accText accs)"
    "concat (map reasoningOf (map (closeBlock parse) accs)) = concat (map accReasoning accs)"
    "concat (map toolCallOf (map (closeBlock parse) accs))
      = map (\<lambda>(i, n, j). toolCallBody i n (stringify (parseJson parse j))) (toolsIn accs)"
    by (simp_all add: comp_def toolsIn_def map_concat)
qed

text \<open>
  C29: streamed or whole, a Chat Completions client gets the same answer. For a stream that
  ends and whose blocks are in order (\<open>inOrder\<close>: opened under rising indices, deltas of the
  kind of their block, text and reasoning on the newest block of their kind): what a client
  puts together from the chunks, text, reasoning, tool calls with their ids and names, finish
  reason and usage, is the body the gateway sends for the collected response of the same
  events but for the arguments of tool calls, which the whole body parses and prints again;
  where every call's streamed arguments are spelled as \<^verbatim>\<open>JSON.stringify\<close> spells them, the bodies
  are equal. The stream closes with its sentinel.
\<close>

theorem streamed_as_whole:
  assumes "inOrder [] body" and "events = Start i model # body @ [End reason u vendor]"
  shows "\<exists>chunks. openaiStream events rid created = map (frame ''message'') chunks @ [\<lparr>sm_event = ''message'', sm_data = ''[DONE]''\<rparr>]
    \<and> heardBody rid created (reprinted parse (foldl hear nothingHeard chunks)) = openaiResponse (collect parse events) rid created
    \<and> ((\<forall>(key, i, name, arguments) \<in> set (hd_tools (foldl hear nothingHeard chunks)). stringify (parseJson parse arguments) = arguments)
        \<longrightarrow> heardBody rid created (foldl hear nothingHeard chunks) = openaiResponse (collect parse events) rid created)"
proof -
  let ?gi = "openaiStart\<lparr>oa_model := model\<rparr>" and ?ci = "collectStep collect_init (Start i model)"
  let ?chunks = "fst (openaiAll rid created openaiStart events)" and ?g = "snd (openaiAll rid created openaiStart events)"
  have start: "agree [] [] ?ci ?gi nothingHeard"
    by (simp add: agree_def collect_init_def openaiStart_def nothingHeard_def toolsIn_def keysUpTo_def)
  let ?mid = "openaiAll rid created ?gi body"
  let ?h = "foldl hear nothingHeard (fst ?mid)" and ?c = "foldl collectStep ?ci body"
  obtain bs accs where A: "agree bs accs ?c (snd ?mid) ?h" and model: "oa_model (snd ?mid) = model" "cg_model ?c = model"
    using agree_body [OF start assms(1), of rid created] by (auto simp: openaiStart_def)
  note D = agreeD [OF A]
  let ?last = "chunk rid created model (choiceOf [] (JStr (FINISH reason))) (Some (usageBody u))"
  have chunks: "?chunks = fst ?mid @ [?last]" "oa_completed ?g"
    using model(1) by (simp_all only: assms(2) openaiAll_Cons openaiAll_snoc openaiEvent.simps fst_conv snd_conv append_Nil)
      simp_all
  have stream: "openaiStream events rid created = map (frame ''message'') ?chunks @ [\<lparr>sm_event = ''message'', sm_data = ''[DONE]''\<rparr>]"
    using chunks(2) by (simp add: openaiStream_def split_beta Let_def)
  have collected: "foldl collectStep collect_init events = ?c\<lparr>cg_stopReason := reason, cg_usage := u, cg_vendor := vendor\<rparr>"
    by (simp add: assms(2))
  have "sorted_wrt (\<lambda>x y. fst x < fst y) (zip (map fst bs) accs)"
    using D(2,3) by (simp add: sorted_wrt_map [symmetric] sorted_wrt_iff_nth_less)
  then have content: "cr_content (collect parse events) = map (closeBlock parse) accs"
    using D(1,2) by (simp add: collect_def closeAll_def collected sort_key_sorted map_map [symmetric] del: map_map)
  have final: "foldl hear nothingHeard ?chunks = ?h\<lparr>hd_model := model, hd_finish := JStr (FINISH reason), hd_usage := usageBody u\<rparr>"
    by (simp add: chunks(1) hear_chunk)
  have tools: "map (\<lambda>(key, i, name, arguments). toolCallBody i name (stringify (parseJson parse arguments))) (hd_tools ?h)
      = map (\<lambda>(i, n, j). toolCallBody i n (stringify (parseJson parse j))) (toolsIn accs)"
  proof -
    have "map (\<lambda>(key, i, name, arguments). toolCallBody i name (stringify (parseJson parse arguments))) (hd_tools ?h)
        = map (\<lambda>(i, n, j). toolCallBody i n (stringify (parseJson parse j))) (map snd (hd_tools ?h))"
      by (simp add: case_prod_beta comp_def)
    then show ?thesis by (simp add: D(7) keysUpTo_props)
  qed
  let ?all = "foldl hear nothingHeard ?chunks"
  have printed: "map (\<lambda>(key, i, name, arguments). toolCallBody i name arguments)
      (map (\<lambda>(key, i, name, arguments). (key, i, name, stringify (parseJson parse arguments))) ts)
    = map (\<lambda>(key, i, name, arguments). toolCallBody i name (stringify (parseJson parse arguments))) ts"
    for ts :: "(json \<times> string \<times> string \<times> string) list" by (simp add: comp_def case_prod_beta)
  have same: "heardBody rid created (reprinted parse ?all) = openaiResponse (collect parse events) rid created"
    unfolding final heardBody_def openaiResponse_def content closed_blocks reprinted_def
    using tools D(5,6) model(2) by (simp add: collect_def closeAll_def collected printed del: map_map)
  moreover have "reprinted parse ?all = ?all"
    if "\<forall>(key, i, name, arguments) \<in> set (hd_tools ?all). stringify (parseJson parse arguments) = arguments"
  proof -
    have "map (\<lambda>(key, i, name, arguments). (key, i, name, stringify (parseJson parse arguments))) (hd_tools ?all) = hd_tools ?all"
      using that by (intro map_idI) auto
    then show ?thesis by (simp add: reprinted_def)
  qed
  ultimately show ?thesis using stream by (intro exI [of _ ?chunks] conjI impI) simp_all
qed

definition sampleAnswer :: "stream_event list" where
  "sampleAnswer = [BlockStart 0 (StartThinking None), BlockDelta 0 (DThinking ''hm''), BlockStart 1 StartText,
     BlockStart 2 (StartToolUse ''t'' ''now''), BlockDelta 2 (DToolJson ''{}''), BlockDelta 1 (DText ''hi''), BlockEnd 1]"

theorem streamed_as_whole_witness:
  "\<exists>chunks. openaiStream (Start ''u'' ''m'' # sampleAnswer @ [End EndTurn no_usage None]) ''r'' 7
      = map (frame ''message'') chunks @ [\<lparr>sm_event = ''message'', sm_data = ''[DONE]''\<rparr>]
    \<and> heardBody ''r'' 7 (reprinted (\<lambda>s. Some (JObj [])) (foldl hear nothingHeard chunks))
      = openaiResponse (collect (\<lambda>s. Some (JObj [])) (Start ''u'' ''m'' # sampleAnswer @ [End EndTurn no_usage None])) ''r'' 7"
proof -
  have "inOrder [] sampleAnswer" by (simp add: sampleAnswer_def)
  from streamed_as_whole [OF this refl, of "''u''" "''m''" EndTurn no_usage None "''r''" 7 "\<lambda>s. Some (JObj [])"]
  show ?thesis by blast
qed

text \<open>
  A call without arguments differs. An upstream that opens a tool call and sends no
  argument JSON, as for a tool that takes none, is streamed on with the arguments left empty,
  which is not JSON, where the whole body says \<^verbatim>\<open>{}\<close>.
\<close>

definition callWithout :: "stream_event list" where
  "callWithout = [Start ''u'' ''m'', BlockStart 0 (StartToolUse ''t'' ''now''), BlockEnd 0, End ToolUse no_usage None]"

theorem streamed_call_without_arguments:
  "\<exists>chunks. openaiStream callWithout rid created = map (frame ''message'') chunks @ [\<lparr>sm_event = ''message'', sm_data = ''[DONE]''\<rparr>]
    \<and> hd_tools (foldl hear nothingHeard chunks) = [(jint 0, ''t'', ''now'', [])]
    \<and> concat (map toolCallOf (cr_content (collect parse callWithout))) = [toolCallBody ''t'' ''now'' ''{}'']"
proof -
  let ?chunks = "fst (openaiAll rid created openaiStart callWithout)"
  have "openaiStream callWithout rid created = map (frame ''message'') ?chunks @ [\<lparr>sm_event = ''message'', sm_data = ''[DONE]''\<rparr>]"
    by (simp add: openaiStream_def callWithout_def openaiStart_def Let_def deltaChunk_def)
  moreover have "hd_tools (foldl hear nothingHeard ?chunks) = [(jint 0, ''t'', ''now'', [])]"
    by (simp add: callWithout_def openaiStart_def deltaChunk_def chunk_def choiceOf_def toolCallStart_def hear_def hearTool_def
        nothingHeard_def)
  moreover have "concat (map toolCallOf (cr_content (collect parse callWithout))) = [toolCallBody ''t'' ''now'' ''{}'']"
    by (simp add: callWithout_def collect_def collect_init_def closeAll_def parseJson_def js_trim_def)
  ultimately show ?thesis by blast
qed

end
