(* ===== verification/Spec2Isabelle.thy ===== *)
theory Spec2Isabelle
  imports Router_Rank Router_Resolve Router_Breaker Coord_Buckets Coord_Mutex Limiter_Exact
    Dispatch_Front Dispatch_Load Dispatch_Cache Wire_Roundtrip Wire_Cloak Stream_Coalesce Gate_Swap
    Proxy_Screen Oauth_Sweep Stream_Registry Wire_Openai
begin

text \<open>
  OmniGateway is an LLM gateway. A client speaks one of three wire dialects to
  \<^verbatim>\<open>apps/gateway\<close>; the request becomes a canonical request (\<^verbatim>\<open>packages/ir\<close>), is admitted by
  the key's limits (\<^verbatim>\<open>apps/gateway/src/auth/rateLimit.ts\<close> over \<^verbatim>\<open>packages/ratelimit\<close> and
  \<^verbatim>\<open>packages/coord\<close>), is resolved and ranked to a list of account and target pairs
  (\<^verbatim>\<open>packages/router\<close>), is dispatched to them in turn (\<^verbatim>\<open>apps/gateway/src/dispatch\<close>), and the
  provider's stream (\<^verbatim>\<open>packages/providers\<close>) is returned in the client's dialect
  (\<^verbatim>\<open>apps/gateway/src/egress\<close>). This development models that path.

  \<^bold>\<open>Theories and what they model.\<close>

  \<^item> \<open>Gateway_Prelude\<close>: scalar types, JavaScript operators, shared lemmas and fact collections.
  \<^item> \<open>Ir_Request\<close>, \<open>Ir_Validate\<close>, \<open>Ir_Errors\<close>, \<open>Ir_Tokens\<close>, \<open>Ir_Stream\<close>: \<^verbatim>\<open>packages/ir/src\<close>. The
    request types, boundary validation, error codes, token estimates, and the stream events
    with \<^verbatim>\<open>collect\<close>.
  \<^item> \<open>Store_Types\<close>: the rows of \<^verbatim>\<open>packages/store/src/types.ts\<close> that the rest reads.
  \<^item> \<open>Router_Types\<close>, \<open>Router_Filters\<close>, \<open>Router_Score\<close>, \<open>Router_Rank\<close>, \<open>Router_Resolve\<close>,
    \<open>Router_Breaker\<close>: \<^verbatim>\<open>packages/router/src\<close>. Eligibility with its exclusion rows, the six-term
    score, the four strategies, name resolution and the circuit breaker.
  \<^item> \<open>Limit_Window\<close>, \<open>Limit_Evaluate\<close>: \<^verbatim>\<open>packages/ratelimit/src\<close>.
  \<^item> \<open>Coord_Memory\<close>, \<open>Coord_Gauge\<close>, \<open>Coord_Window\<close>, \<open>Coord_Buckets\<close>, \<open>Coord_Mutex\<close>: the in-process
    coordinator of \<^verbatim>\<open>packages/coord/src/index.ts\<close>. Its interfaces are locales (a gauge, a
    window), interpreted on the model; the mutex is a step relation over its awaits.
  \<^item> \<open>Limiter\<close>, \<open>Limiter_Burst\<close>, \<open>Limiter_Refusal\<close>, \<open>Limiter_Exact\<close>: \<^verbatim>\<open>auth/rateLimit.ts\<close>.
    Admission and consumption as whole operations, with any function of the coordinator and
    any clock in place of the rest of the process at each await; bursts of requests as
    interleavings of the same steps; what a refusal says, gives back and leaves.
  \<^item> \<open>Dispatch_Price\<close>, \<open>Dispatch_Load\<close>, \<open>Dispatch_Cache\<close>, \<open>Dispatch_Run\<close>, \<open>Dispatch_Outcome\<close>,
    \<open>Dispatch_Claims\<close>, \<open>Dispatch_Front\<close>: \<^verbatim>\<open>apps/gateway/src/dispatch\<close>. \<open>Dispatch_Run\<close> is the
    generator as a step monad over a run state: everything outside it (adapters, store, clock,
    cancellation) is a \<open>world\<close> that answers by position in time, and everything it does is an
    \<open>effect\<close> of a trace. The loops are total, so every theorem about a run speaks of a run that
    returns. The object that wraps the generator for its consumer is part of it.
    \<open>Dispatch_Cache\<close> runs the snapshot cache over the version counters of both store drivers,
    that of Postgres being behind what other processes committed.
  \<^item> \<open>Wire_Sse\<close>, \<open>Wire_Anthropic\<close>, \<open>Wire_Roundtrip\<close>: the event-stream parser
    \<^verbatim>\<open>packages/providers/src/sse.ts\<close>, the Anthropic egress \<^verbatim>\<open>egress/anthropic.ts\<close> and the
    Anthropic decoder \<^verbatim>\<open>anthropic/decode.ts\<close>. \<open>Wire_Cloak\<close>: the renaming of tool names on that
    wire, \<^verbatim>\<open>anthropic/cloak.ts\<close>. \<open>Wire_Openai\<close>: the Chat Completions egress
    \<^verbatim>\<open>egress/openai.ts\<close>, streamed and whole, with what a client puts together from each.
  \<^item> \<open>Guard_Text\<close>, \<open>Guard_Cache\<close>, \<open>Guard_Judge\<close>: the usage-policy check of
    \<^verbatim>\<open>apps/gateway/src/guardrail\<close>, from the text that is judged to the outcome, with any number
    of requests waiting for their classifier at once over one cache of verdicts.
  \<^item> \<open>Smart_Segments\<close>, \<open>Smart_Check\<close>, \<open>Proxy_Screen\<close>: the confidentiality check of
    \<^verbatim>\<open>apps/gateway/src/smartRouter\<close>, as pools of workers over one cache, and the screening of
    \<^verbatim>\<open>routes/proxy.ts\<close> that joins it with the usage policy and with dispatch. A check has at most
    sixty-four calls, which is the bound its termination rests on.
  \<^item> \<open>Oauth_Refresh\<close>, \<open>Oauth_Sweep\<close>: \<^verbatim>\<open>packages/control/src/oauth/refresh.ts\<close> and the sweep of
    \<^verbatim>\<open>apps/gateway/src/oauth/scheduler.ts\<close>. The refreshers of every process of a fleet as steps
    between their awaits over one store, one lock service and the standing of each account at
    its vendor: answers may be refused, lost or misreported, and store operations may throw.
  \<^item> \<open>Stream_Ring\<close>, \<open>Stream_Coalesce\<close>, \<open>Stream_Registry\<close>: the replay ring, the coalescer and
    the registry of connections of \<^verbatim>\<open>apps/gateway/src/stream\<close>. The ring against the full history
    of a topic, the coalescer as steps of calls and timers, the registry as events over its
    connections, with their queues, subscriptions, heartbeats and session checks.
  \<^item> \<open>Gate_Latch\<close>, \<open>Gate_Swap\<close>: the quiesce latch \<^verbatim>\<open>apps/gateway/src/quiesce.ts\<close> and the
    replacement of the database behind it (\<^verbatim>\<open>routes/database.ts\<close> and
    \<^verbatim>\<open>packages/control/src/database.ts\<close>), with overlapping calls. The stretch from closing the
    store to reopening it has no await in the source and is one step.

  \<^bold>\<open>Conventions.\<close> Instants are integers in milliseconds. Quantities the code divides or scales
  are exact rationals, except in the draw of the weighted lottery, where the rounding of doubles
  decides who is drawn and is a parameter (\<open>ri_round\<close>). Strings are lists of 8-bit characters.
  A synchronous call happens at one instant. An \<^verbatim>\<open>await\<close> is either a step of an interleaving
  or an answer of the world at that position. A thrown error is the left of a sum. What is not
  under \<^verbatim>\<open>src\<close>, or is only input and output, is a parameter: store reads, \<^verbatim>\<open>JSON.parse\<close>, hashes,
  provider adapters. \<^verbatim>\<open>Map\<close> iteration order is kept by association lists where the code iterates.

  \<^bold>\<open>What the lemmas show.\<close> Each component has its functional facts and invariants; the properties
  numbered C1 and on are the claims about the program, each stated before its theorem.

  \<^bold>\<open>Not modelled.\<close> Redis scripts and SQL drivers (their semantics are not in the repository),
  network exchanges with vendors, plugins, telemetry output, the dashboard, the command line,
  scripts and test support. Of the program's own logic: the Responses egress and the three
  ingress dialects (the latter are written in a schema library outside the repository), the
  six other provider codecs, the proxy's pull loop and keepalives, the console feeds and plugin
  channels of the live streams, quota polling, the tool-output filters, and the command handlers
  of administration.
\<close>

end
